(* ===== verification/Opcodes.thy ===== *)
theory Opcodes
  imports Main
begin

text \<open>
  The opcode table and the generator of the interpreter's switch.  The big switch of
  \<open>switch.c\<close> has its cases in the file \<open>DoCases\<close>, which the program
  \<open>switch/mkiswitch.c\<close> writes from \<open>etc/ip_spec.t\<close>.  The generator is modelled as a
  function from the lines of the table to a list of cases, the table is a constant.
\<close>

section \<open>The opcode tables\<close>

text \<open>The mnemonics and their argument kinds, from \<open>h/em_table\<close>: \<open>em_mnem\<close> and the
  parameter part of \<open>em_flag\<close>.\<close>

definition em_table :: "(string \<times> char) list" where
  "em_table = [
    (''aar'', CHR ''w''), (''adf'', CHR ''w''), (''adi'', CHR ''w''), (''adp'', CHR ''f''),
    (''ads'', CHR ''w''), (''adu'', CHR ''w''), (''and'', CHR ''w''), (''asp'', CHR ''f''),
    (''ass'', CHR ''w''), (''beq'', CHR ''b''), (''bge'', CHR ''b''), (''bgt'', CHR ''b''),
    (''ble'', CHR ''b''), (''blm'', CHR ''z''), (''bls'', CHR ''w''), (''blt'', CHR ''b''),
    (''bne'', CHR ''b''), (''bra'', CHR ''b''), (''cai'', CHR ''-''), (''cal'', CHR ''p''),
    (''cff'', CHR ''-''), (''cfi'', CHR ''-''), (''cfu'', CHR ''-''), (''cif'', CHR ''-''),
    (''cii'', CHR ''-''), (''ciu'', CHR ''-''), (''cmf'', CHR ''w''), (''cmi'', CHR ''w''),
    (''cmp'', CHR ''-''), (''cms'', CHR ''w''), (''cmu'', CHR ''w''), (''com'', CHR ''w''),
    (''csa'', CHR ''w''), (''csb'', CHR ''w''), (''cuf'', CHR ''-''), (''cui'', CHR ''-''),
    (''cuu'', CHR ''-''), (''dch'', CHR ''-''), (''dec'', CHR ''-''), (''dee'', CHR ''g''),
    (''del'', CHR ''l''), (''dup'', CHR ''s''), (''dus'', CHR ''w''), (''dvf'', CHR ''w''),
    (''dvi'', CHR ''w''), (''dvu'', CHR ''w''), (''exg'', CHR ''w''), (''fef'', CHR ''w''),
    (''fif'', CHR ''w''), (''fil'', CHR ''g''), (''gto'', CHR ''g''), (''inc'', CHR ''-''),
    (''ine'', CHR ''g''), (''inl'', CHR ''l''), (''inn'', CHR ''w''), (''ior'', CHR ''w''),
    (''lae'', CHR ''g''), (''lal'', CHR ''l''), (''lar'', CHR ''w''), (''ldc'', CHR ''d''),
    (''lde'', CHR ''g''), (''ldf'', CHR ''f''), (''ldl'', CHR ''l''), (''lfr'', CHR ''s''),
    (''lil'', CHR ''l''), (''lim'', CHR ''-''), (''lin'', CHR ''n''), (''lni'', CHR ''-''),
    (''loc'', CHR ''c''), (''loe'', CHR ''g''), (''lof'', CHR ''f''), (''loi'', CHR ''o''),
    (''lol'', CHR ''l''), (''lor'', CHR ''r''), (''los'', CHR ''w''), (''lpb'', CHR ''-''),
    (''lpi'', CHR ''p''), (''lxa'', CHR ''n''), (''lxl'', CHR ''n''), (''mlf'', CHR ''w''),
    (''mli'', CHR ''w''), (''mlu'', CHR ''w''), (''mon'', CHR ''-''), (''ngf'', CHR ''w''),
    (''ngi'', CHR ''w''), (''nop'', CHR ''-''), (''rck'', CHR ''w''), (''ret'', CHR ''z''),
    (''rmi'', CHR ''w''), (''rmu'', CHR ''w''), (''rol'', CHR ''w''), (''ror'', CHR ''w''),
    (''rtt'', CHR ''-''), (''sar'', CHR ''w''), (''sbf'', CHR ''w''), (''sbi'', CHR ''w''),
    (''sbs'', CHR ''w''), (''sbu'', CHR ''w''), (''sde'', CHR ''g''), (''sdf'', CHR ''f''),
    (''sdl'', CHR ''l''), (''set'', CHR ''w''), (''sig'', CHR ''-''), (''sil'', CHR ''l''),
    (''sim'', CHR ''-''), (''sli'', CHR ''w''), (''slu'', CHR ''w''), (''sri'', CHR ''w''),
    (''sru'', CHR ''w''), (''ste'', CHR ''g''), (''stf'', CHR ''f''), (''sti'', CHR ''o''),
    (''stl'', CHR ''l''), (''str'', CHR ''r''), (''sts'', CHR ''w''), (''teq'', CHR ''-''),
    (''tge'', CHR ''-''), (''tgt'', CHR ''-''), (''tle'', CHR ''-''), (''tlt'', CHR ''-''),
    (''tne'', CHR ''-''), (''trp'', CHR ''-''), (''xor'', CHR ''w''), (''zeq'', CHR ''b''),
    (''zer'', CHR ''w''), (''zge'', CHR ''b''), (''zgt'', CHR ''b''), (''zle'', CHR ''b''),
    (''zlt'', CHR ''b''), (''zne'', CHR ''b''), (''zre'', CHR ''g''), (''zrf'', CHR ''w''),
    (''zrl'', CHR ''l'')]"

text \<open>\<open>getmnem()\<close>: the search for a mnemonic in a table.\<close>

primrec getmnem :: "(string \<times> 'a) list \<Rightarrow> string \<Rightarrow> 'a option" where
  "getmnem [] mnem = None"
| "getmnem (p # ps) mnem = (if fst p = mnem then Some (snd p) else getmnem ps mnem)"

text \<open>A line of the table of the interpreter's opcodes: mnemonic, flags, and one or two numbers.\<close>

type_synonym spec_line = "string \<times> string \<times> int list"

text \<open>The table \<open>etc/ip_spec.t\<close>, in blocks of consecutive lines.\<close>

definition ip_spec_1 :: "spec_line list" where
  "ip_spec_1 = [
    (''aar'', ''mwPo'', [1, 34]), (''adf'', ''sP'', [1, 35]), (''adi'', ''mwPo'', [2, 36]),
    (''adp'', ''2'', [38]), (''adp'', ''mPo'', [2, 39]), (''adp'', ''sP'', [1, 41]),
    (''adp'', ''sN'', [1, 42]), (''ads'', ''mwPo'', [1, 43]), (''and'', ''mwPo'', [1, 44]),
    (''asp'', ''mwPo'', [5, 45]), (''asp'', ''swP'', [1, 50]), (''beq'', ''2'', [51]),
    (''beq'', ''sP'', [1, 52]), (''bge'', ''sP'', [1, 53]), (''bgt'', ''sP'', [1, 54]),
    (''ble'', ''sP'', [1, 55]), (''blm'', ''sP'', [1, 56]), (''blt'', ''sP'', [1, 57]),
    (''bne'', ''sP'', [1, 58]), (''bra'', ''2'', [59]), (''bra'', ''sN'', [2, 60]),
    (''bra'', ''sP'', [2, 62]), (''cal'', ''mPo'', [28, 64]), (''cal'', ''sP'', [1, 92])]"

definition ip_spec_2 :: "spec_line list" where
  "ip_spec_2 = [
    (''cff'', ''-'', [93]), (''cif'', ''-'', [94]), (''cii'', ''-'', [95]),
    (''cmf'', ''sP'', [1, 96]), (''cmi'', ''mwPo'', [2, 97]), (''cmp'', ''-'', [99]),
    (''cms'', ''sP'', [1, 100]), (''csa'', ''mwPo'', [1, 101]), (''csb'', ''mwPo'', [1, 102]),
    (''dec'', ''-'', [103]), (''dee'', ''sw'', [1, 104]), (''del'', ''swN'', [1, 105]),
    (''dup'', ''mwPo'', [1, 106]), (''dvf'', ''sP'', [1, 107]), (''dvi'', ''mwPo'', [1, 108]),
    (''fil'', ''u'', [109]), (''inc'', ''-'', [110]), (''ine'', ''w2'', [111]),
    (''ine'', ''sw'', [1, 112]), (''inl'', ''mwN'', [3, 113]), (''inl'', ''swN'', [1, 116]),
    (''inn'', ''sP'', [1, 117]), (''ior'', ''mwPo'', [1, 118]), (''ior'', ''sP'', [1, 119])]"

definition ip_spec_3 :: "spec_line list" where
  "ip_spec_3 = [
    (''lae'', ''u'', [120]), (''lae'', ''sw'', [7, 121]), (''lal'', ''P2'', [128]),
    (''lal'', ''N2'', [129]), (''lal'', ''mP'', [1, 130]), (''lal'', ''mN'', [1, 131]),
    (''lal'', ''swP'', [1, 132]), (''lal'', ''swN'', [2, 133]), (''lar'', ''mwPo'', [1, 135]),
    (''ldc'', ''mP'', [1, 136]), (''lde'', ''w2'', [137]), (''lde'', ''sw'', [1, 138]),
    (''ldl'', ''mP'', [1, 139]), (''ldl'', ''swN'', [1, 140]), (''lfr'', ''mwPo'', [2, 141]),
    (''lfr'', ''sP'', [1, 143]), (''lil'', ''swN'', [1, 144]), (''lil'', ''swP'', [1, 145]),
    (''lil'', ''mwP'', [2, 146]), (''lin'', ''2'', [148]), (''lin'', ''sP'', [1, 149]),
    (''lni'', ''-'', [150]), (''loc'', ''2'', [151])]"

definition ip_spec_4 :: "spec_line list" where
  "ip_spec_4 = [
    (''loc'', ''mP'', [34, 0])]"

definition ip_spec_5 :: "spec_line list" where
  "ip_spec_5 = [
    (''loc'', ''mN'', [1, 152]), (''loc'', ''sP'', [1, 153]), (''loc'', ''sN'', [1, 154]),
    (''loe'', ''w2'', [155]), (''loe'', ''sw'', [5, 156]), (''lof'', ''2'', [161]),
    (''lof'', ''mwPo'', [4, 162]), (''lof'', ''sP'', [1, 166]), (''loi'', ''2'', [167]),
    (''loi'', ''mPo'', [1, 168]), (''loi'', ''mwPo'', [4, 169]), (''loi'', ''sP'', [1, 173]),
    (''lol'', ''wP2'', [174]), (''lol'', ''wN2'', [175]), (''lol'', ''mwP'', [4, 176]),
    (''lol'', ''mwN'', [8, 180]), (''lol'', ''swP'', [1, 188]), (''lol'', ''swN'', [1, 189]),
    (''lxa'', ''mPo'', [1, 190]), (''lxl'', ''mPo'', [2, 191]), (''mlf'', ''sP'', [1, 193]),
    (''mli'', ''mwPo'', [2, 194])]"

definition ip_spec_6 :: "spec_line list" where
  "ip_spec_6 = [
    (''rck'', ''mwPo'', [1, 196]), (''ret'', ''mwP'', [2, 197]), (''ret'', ''sP'', [1, 199]),
    (''rmi'', ''mwPo'', [1, 200]), (''sar'', ''mwPo'', [1, 201]), (''sbf'', ''sP'', [1, 202]),
    (''sbi'', ''mwPo'', [2, 203]), (''sdl'', ''swN'', [1, 205]), (''set'', ''sP'', [1, 206]),
    (''sil'', ''swN'', [1, 207]), (''sil'', ''swP'', [1, 208]), (''sli'', ''mwPo'', [1, 209]),
    (''ste'', ''w2'', [210]), (''ste'', ''sw'', [3, 211]), (''stf'', ''2'', [214]),
    (''stf'', ''mwPo'', [2, 215]), (''stf'', ''sP'', [1, 217]), (''sti'', ''mPo'', [1, 218]),
    (''sti'', ''mwPo'', [4, 219]), (''sti'', ''sP'', [1, 223]), (''stl'', ''wP2'', [224]),
    (''stl'', ''wN2'', [225])]"

definition ip_spec_7 :: "spec_line list" where
  "ip_spec_7 = [
    (''stl'', ''mwP'', [2, 226]), (''stl'', ''mwN'', [5, 228]), (''stl'', ''swN'', [1, 233]),
    (''teq'', ''-'', [234]), (''tgt'', ''-'', [235]), (''tlt'', ''-'', [236]),
    (''tne'', ''-'', [237]), (''zeq'', ''2'', [238]), (''zeq'', ''sP'', [2, 239]),
    (''zer'', ''sP'', [1, 241]), (''zge'', ''sP'', [1, 242]), (''zgt'', ''sP'', [1, 243]),
    (''zle'', ''sP'', [1, 244]), (''zlt'', ''sP'', [1, 245]), (''zne'', ''sP'', [1, 246]),
    (''zne'', ''sN'', [1, 247]), (''zre'', ''w2'', [248]), (''zre'', ''sw'', [1, 249]),
    (''zrl'', ''mwN'', [2, 250]), (''zrl'', ''swN'', [1, 252]), (''zrl'', ''wN2'', [253])]"

definition ip_spec_8 :: "spec_line list" where
  "ip_spec_8 = [
    (''aar'', ''e2'', [0]), (''aar'', ''e-'', [1]), (''adf'', ''e2'', [2]),
    (''adf'', ''e-'', [3]), (''adi'', ''e2'', [4]), (''adi'', ''e-'', [5]),
    (''ads'', ''e2'', [6]), (''ads'', ''e-'', [7]), (''adu'', ''e2'', [8]),
    (''adu'', ''e-'', [9]), (''and'', ''e2'', [10]), (''and'', ''e-'', [11]),
    (''asp'', ''ew2'', [12]), (''ass'', ''e2'', [13]), (''ass'', ''e-'', [14]),
    (''bge'', ''e2'', [15]), (''bgt'', ''e2'', [16]), (''ble'', ''e2'', [17]),
    (''blm'', ''e2'', [18]), (''bls'', ''e2'', [19]), (''bls'', ''e-'', [20]),
    (''blt'', ''e2'', [21]), (''bne'', ''e2'', [22]), (''cai'', ''e-'', [23]),
    (''cal'', ''e2'', [24]), (''cfi'', ''e-'', [25]), (''cfu'', ''e-'', [26])]"

definition ip_spec_9 :: "spec_line list" where
  "ip_spec_9 = [
    (''ciu'', ''e-'', [27]), (''cmf'', ''e2'', [28]), (''cmf'', ''e-'', [29]),
    (''cmi'', ''e2'', [30]), (''cmi'', ''e-'', [31]), (''cms'', ''e2'', [32]),
    (''cms'', ''e-'', [33]), (''cmu'', ''e2'', [34]), (''cmu'', ''e-'', [35]),
    (''com'', ''e2'', [36]), (''com'', ''e-'', [37]), (''csa'', ''e2'', [38]),
    (''csa'', ''e-'', [39]), (''csb'', ''e2'', [40]), (''csb'', ''e-'', [41]),
    (''cuf'', ''e-'', [42]), (''cui'', ''e-'', [43]), (''cuu'', ''e-'', [44]),
    (''dee'', ''ew2'', [45]), (''del'', ''ewP2'', [46]), (''del'', ''ewN2'', [47]),
    (''dup'', ''e2'', [48]), (''dus'', ''e2'', [49]), (''dus'', ''e-'', [50]),
    (''dvf'', ''e2'', [51]), (''dvf'', ''e-'', [52]), (''dvi'', ''e2'', [53])]"

definition ip_spec_10 :: "spec_line list" where
  "ip_spec_10 = [
    (''dvi'', ''e-'', [54]), (''dvu'', ''e2'', [55]), (''dvu'', ''e-'', [56]),
    (''fef'', ''e2'', [57]), (''fef'', ''e-'', [58]), (''fif'', ''e2'', [59]),
    (''fif'', ''e-'', [60]), (''inl'', ''ewP2'', [61]), (''inl'', ''ewN2'', [62]),
    (''inn'', ''e2'', [63]), (''inn'', ''e-'', [64]), (''ior'', ''e2'', [65]),
    (''ior'', ''e-'', [66]), (''lar'', ''e2'', [67]), (''lar'', ''e-'', [68]),
    (''ldc'', ''e2'', [69]), (''ldf'', ''e2'', [70]), (''ldl'', ''ewP2'', [71]),
    (''ldl'', ''ewN2'', [72]), (''lfr'', ''e2'', [73]), (''lil'', ''ewP2'', [74]),
    (''lil'', ''ewN2'', [75]), (''lim'', ''e-'', [76]), (''los'', ''e2'', [77]),
    (''los'', ''e-'', [78]), (''lor'', ''esP'', [1, 79]), (''lpi'', ''e2'', [80])]"

definition ip_spec_11 :: "spec_line list" where
  "ip_spec_11 = [
    (''lxa'', ''e2'', [81]), (''lxl'', ''e2'', [82]), (''mlf'', ''e2'', [83]),
    (''mlf'', ''e-'', [84]), (''mli'', ''e2'', [85]), (''mli'', ''e-'', [86]),
    (''mlu'', ''e2'', [87]), (''mlu'', ''e-'', [88]), (''mon'', ''e-'', [89]),
    (''ngf'', ''e2'', [90]), (''ngf'', ''e-'', [91]), (''ngi'', ''e2'', [92]),
    (''ngi'', ''e-'', [93]), (''nop'', ''e-'', [94]), (''rck'', ''e2'', [95]),
    (''rck'', ''e-'', [96]), (''ret'', ''e2'', [97]), (''rmi'', ''e2'', [98]),
    (''rmi'', ''e-'', [99]), (''rmu'', ''e2'', [100]), (''rmu'', ''e-'', [101]),
    (''rol'', ''e2'', [102]), (''rol'', ''e-'', [103]), (''ror'', ''e2'', [104]),
    (''ror'', ''e-'', [105]), (''rtt'', ''e-'', [106]), (''sar'', ''e2'', [107])]"

definition ip_spec_12 :: "spec_line list" where
  "ip_spec_12 = [
    (''sar'', ''e-'', [108]), (''sbf'', ''e2'', [109]), (''sbf'', ''e-'', [110]),
    (''sbi'', ''e2'', [111]), (''sbi'', ''e-'', [112]), (''sbs'', ''e2'', [113]),
    (''sbs'', ''e-'', [114]), (''sbu'', ''e2'', [115]), (''sbu'', ''e-'', [116]),
    (''sde'', ''eu'', [117]), (''sdf'', ''e2'', [118]), (''sdl'', ''ewP2'', [119]),
    (''sdl'', ''ewN2'', [120]), (''set'', ''e2'', [121]), (''set'', ''e-'', [122]),
    (''sig'', ''e-'', [123]), (''sil'', ''ewP2'', [124]), (''sil'', ''ewN2'', [125]),
    (''sim'', ''e-'', [126]), (''sli'', ''e2'', [127]), (''sli'', ''e-'', [128]),
    (''slu'', ''e2'', [129]), (''slu'', ''e-'', [130]), (''sri'', ''e2'', [131]),
    (''sri'', ''e-'', [132]), (''sru'', ''e2'', [133]), (''sru'', ''e-'', [134])]"

definition ip_spec_13 :: "spec_line list" where
  "ip_spec_13 = [
    (''sti'', ''e2'', [135]), (''sts'', ''e2'', [136]), (''sts'', ''e-'', [137]),
    (''str'', ''esP'', [1, 138]), (''tge'', ''e-'', [139]), (''tle'', ''e-'', [140]),
    (''trp'', ''e-'', [141]), (''xor'', ''e2'', [142]), (''xor'', ''e-'', [143]),
    (''zer'', ''e2'', [144]), (''zer'', ''e-'', [145]), (''zge'', ''e2'', [146]),
    (''zgt'', ''e2'', [147]), (''zle'', ''e2'', [148]), (''zlt'', ''e2'', [149]),
    (''zne'', ''e2'', [150]), (''zrf'', ''e2'', [151]), (''zrf'', ''e-'', [152]),
    (''zrl'', ''ewP2'', [153]), (''dch'', ''e-'', [154]), (''exg'', ''esP'', [1, 155]),
    (''exg'', ''e2'', [156]), (''exg'', ''e-'', [157]), (''lpb'', ''e-'', [158]),
    (''gto'', ''eu'', [159])]"

definition ip_spec_14 :: "spec_line list" where
  "ip_spec_14 = [
    (''ldc'', ''4'', [0]), (''lae'', ''4'', [1]), (''lal'', ''P4'', [2]), (''lal'', ''N4'', [3]),
    (''lde'', ''w4'', [4]), (''ldf'', ''4'', [5]), (''ldl'', ''wP4'', [6]),
    (''ldl'', ''wN4'', [7]), (''lil'', ''wP4'', [8]), (''lil'', ''wN4'', [9]),
    (''loc'', ''4'', [10]), (''loe'', ''w4'', [11]), (''lof'', ''4'', [12]),
    (''lol'', ''wP4'', [13]), (''lol'', ''wN4'', [14]), (''lpi'', ''4'', [15]),
    (''adp'', ''4'', [16]), (''asp'', ''w4'', [17]), (''beq'', ''4'', [18]),
    (''bge'', ''4'', [19]), (''bgt'', ''4'', [20]), (''ble'', ''4'', [21]),
    (''blm'', ''4'', [22]), (''blt'', ''4'', [23]), (''bne'', ''4'', [24]),
    (''bra'', ''4'', [25]), (''cal'', ''4'', [26]), (''dee'', ''w4'', [27]),
    (''del'', ''wP4'', [28])]"

definition ip_spec_15 :: "spec_line list" where
  "ip_spec_15 = [
    (''del'', ''wN4'', [29]), (''fil'', ''4'', [30]), (''gto'', ''4'', [31]),
    (''ine'', ''w4'', [32]), (''inl'', ''wP4'', [33]), (''inl'', ''wN4'', [34]),
    (''lin'', ''4'', [35]), (''sde'', ''4'', [36]), (''sdf'', ''4'', [37]),
    (''sdl'', ''wP4'', [38]), (''sdl'', ''wN4'', [39]), (''sil'', ''wP4'', [40]),
    (''sil'', ''wN4'', [41]), (''ste'', ''w4'', [42]), (''stf'', ''4'', [43]),
    (''stl'', ''wP4'', [44]), (''stl'', ''wN4'', [45]), (''zeq'', ''4'', [46]),
    (''zge'', ''4'', [47]), (''zgt'', ''4'', [48]), (''zle'', ''4'', [49]),
    (''zlt'', ''4'', [50]), (''zne'', ''4'', [51]), (''zre'', ''w4'', [52]),
    (''zrl'', ''wP4'', [53]), (''zrl'', ''wN4'', [54]), (''loi'', ''4'', [55]),
    (''sti'', ''4'', [56])]"

lemmas ip_spec_defs = ip_spec_1_def ip_spec_2_def ip_spec_3_def ip_spec_4_def ip_spec_5_def ip_spec_6_def ip_spec_7_def ip_spec_8_def
  ip_spec_9_def ip_spec_10_def ip_spec_11_def ip_spec_12_def ip_spec_13_def ip_spec_14_def ip_spec_15_def

definition ip_spec :: "spec_line list" where
  "ip_spec = ip_spec_1 @ ip_spec_2 @ ip_spec_3 @ ip_spec_4 @ ip_spec_5 @ ip_spec_6 @ ip_spec_7 
     @ ip_spec_8 @ ip_spec_9 @ ip_spec_10 @ ip_spec_11 @ ip_spec_12 @ ip_spec_13 @ ip_spec_14 @ ip_spec_15"

section \<open>The generator\<close>

text \<open>The argument expressions the generator prints; the boolean says that the operand is
  multiplied by \<open>wsize\<close>.\<close>

datatype direction = Dir_P | Dir_N | Dir_L

datatype argstr =
    Arg_none
  | Arg_uwpop
  | Arg_const int bool
  | Arg_S int bool
  | Arg_two direction bool
  | Arg_uns bool
  | Arg_four direction bool

text \<open>A case of the switch: opcode with its base added, mnemonic, argument.  The generator
  prints the mnemonic in capitals behind the prefix \<open>Do\<close>; here it stays as in the table.\<close>

type_synonym switch_case = "int \<times> string \<times> argstr"

primrec in_flgs :: "string \<Rightarrow> char \<Rightarrow> bool" where
  "in_flgs [] c = False"
| "in_flgs (f # fs) c = (if c = f then True else in_flgs fs c)"

definition newi :: "int \<Rightarrow> string \<Rightarrow> int" where
  "newi i flgs = (if in_flgs flgs CHR ''N'' then - i - 1 else if in_flgs flgs CHR ''o'' then i + 1 else i)"

definition Mini :: "int \<Rightarrow> string \<Rightarrow> argstr" where
  "Mini i flgs = Arg_const (newi i flgs) (newi i flgs \<noteq> 0 \<and> in_flgs flgs CHR ''w'')"

definition Shortie :: "int \<Rightarrow> string \<Rightarrow> argstr" where
  "Shortie i flgs = Arg_S (newi i flgs) (in_flgs flgs CHR ''w'')"

definition direction_of :: "string \<Rightarrow> direction" where
  "direction_of flgs = (if in_flgs flgs CHR ''P'' then Dir_P
     else if in_flgs flgs CHR ''N'' then Dir_N else Dir_L)"

definition TwoSgn :: "string \<Rightarrow> argstr" where
  "TwoSgn flgs = Arg_two (direction_of flgs) (in_flgs flgs CHR ''w'')"

definition TwoUns :: "string \<Rightarrow> argstr" where
  "TwoUns flgs = Arg_uns (in_flgs flgs CHR ''w'')"

definition FourSgn :: "string \<Rightarrow> argstr" where
  "FourSgn flgs = Arg_four (direction_of flgs) (in_flgs flgs CHR ''w'')"

definition PRIM_BASE :: int where "PRIM_BASE = 0"
definition SEC_BASE :: int where "SEC_BASE = 256"
definition TERT_BASE :: int where "TERT_BASE = 512"
definition SECONDARY :: int where "SECONDARY = 254"
definition TERTIARY :: int where "TERTIARY = 255"

definition base_of :: "string \<Rightarrow> int" where
  "base_of flgs = (if in_flgs flgs CHR ''e'' then SEC_BASE
     else if in_flgs flgs CHR ''4'' then TERT_BASE else PRIM_BASE)"

definition one_of :: "string \<Rightarrow> string \<Rightarrow> nat" where
  "one_of cs flgs = length (filter (in_flgs flgs) cs)"

definition check_flags :: "string \<Rightarrow> bool" where
  "check_flags flgs \<longleftrightarrow> list_all (in_flgs ''-ms2u4eNPwo'') flgs
     \<and> one_of ''-ms2u4'' flgs = 1 \<and> one_of ''NP'' flgs \<le> 1"

text \<open>The cases of one line of the table.  \<open>None\<close> is the generator's fatal error on bad flags or
  an unknown mnemonic, or a line with the wrong number of numbers.\<close>

definition line_cases :: "spec_line \<Rightarrow> switch_case list option" where
  "line_cases = (\<lambda>(mnem, flgs, nums).
     if \<not> check_flags flgs then None else
     case getmnem em_table mnem of None \<Rightarrow> None | Some par \<Rightarrow>
     let out = (\<lambda>first i arg. (base_of flgs + first + i, mnem, arg)) in
     case nums of
       [first] \<Rightarrow>
         if in_flgs flgs CHR ''-'' then Some [out first 0 (if par = CHR ''w'' then Arg_uwpop else Arg_none)]
         else if in_flgs flgs CHR ''2'' then Some [out first 0 (TwoSgn flgs)]
         else if in_flgs flgs CHR ''u'' then Some [out first 0 (TwoUns flgs)]
         else if in_flgs flgs CHR ''4'' then Some [out first 0 (FourSgn flgs)]
         else None
     | [cnt, first] \<Rightarrow>
         if in_flgs flgs CHR ''m'' then Some (map (\<lambda>i. out first i (Mini i flgs)) [0..cnt - 1])
         else if in_flgs flgs CHR ''s'' then Some (map (\<lambda>i. out first i (Shortie i flgs)) [0..cnt - 1])
         else None
     | _ \<Rightarrow> None)"

fun mkiswitch :: "spec_line list \<Rightarrow> switch_case list option" where
  "mkiswitch [] = Some []"
| "mkiswitch (l # ls) = (case line_cases l of None \<Rightarrow> None | Some cs \<Rightarrow>
     (case mkiswitch ls of None \<Rightarrow> None | Some ds \<Rightarrow> Some (cs @ ds)))"

definition DoCases :: "switch_case list" where
  "DoCases = (case mkiswitch ip_spec of Some cs \<Rightarrow> cs | None \<Rightarrow> [])"

section \<open>The generated cases\<close>

text \<open>What a line of the table has to satisfy: known mnemonic, as many numbers as its flags ask
  for, an operand exactly when the instruction takes one, and opcodes inside their group.\<close>

definition count_of :: "spec_line \<Rightarrow> int" where
  "count_of = (\<lambda>(mnem, flgs, nums). case nums of [cnt, first] \<Rightarrow> cnt | _ \<Rightarrow> 1)"

definition first_of :: "spec_line \<Rightarrow> int" where
  "first_of = (\<lambda>(mnem, flgs, nums). base_of flgs +
     (case nums of [first] \<Rightarrow> first | [cnt, first] \<Rightarrow> first | _ \<Rightarrow> 0))"

definition line_ops :: "spec_line \<Rightarrow> int list" where
  "line_ops l = map (\<lambda>i. first_of l + i) [0..count_of l - 1]"

definition operand_ok :: "char \<Rightarrow> string \<Rightarrow> bool" where
  "operand_ok par flgs = (if in_flgs flgs CHR ''-'' then par = CHR ''-'' \<or> par = CHR ''w''
     else par \<noteq> CHR ''-'')"

definition spec_ok :: "spec_line \<Rightarrow> bool" where
  "spec_ok = (\<lambda>(mnem, flgs, nums). check_flags flgs \<and>
     (case getmnem em_table mnem of None \<Rightarrow> False | Some par \<Rightarrow> operand_ok par flgs) \<and>
     (case nums of [cnt, first] \<Rightarrow> in_flgs flgs CHR ''m'' \<or> in_flgs flgs CHR ''s''
      | [first] \<Rightarrow> \<not> (in_flgs flgs CHR ''m'' \<or> in_flgs flgs CHR ''s'') | _ \<Rightarrow> False))"

text \<open>The opcodes of the lines ascend, and lie between two bounds.\<close>

fun ops_in :: "int \<Rightarrow> int \<Rightarrow> spec_line list \<Rightarrow> bool" where
  "ops_in lo hi [] = (lo \<le> hi)"
| "ops_in lo hi (l # ls) = (lo \<le> first_of l \<and> 0 \<le> count_of l \<and> ops_in (first_of l + count_of l) hi ls)"

lemma one_of_counts: "(0 + Suc 0 = (1::nat)) = True" "(0 + Suc 0 \<le> (1::nat)) = True" "(0 \<le> (1::nat)) = True"
  by simp_all

lemmas flag_simps = char.inject list.inject list.distinct in_flgs.simps if_True if_False simp_thms

lemmas spec_ok_simps = list.pred_inject spec_ok_def case_prod_conv check_flags_def one_of_def
  operand_ok_def filter.simps list.size one_of_counts option.case list.case getmnem.simps
  em_table_def fst_conv snd_conv flag_simps

lemma spec_ok_blocks:
  "list_all spec_ok ip_spec_1"
  "list_all spec_ok ip_spec_2"
  "list_all spec_ok ip_spec_3"
  "list_all spec_ok ip_spec_4"
  "list_all spec_ok ip_spec_5"
  "list_all spec_ok ip_spec_6"
  "list_all spec_ok ip_spec_7"
  "list_all spec_ok ip_spec_8"
  "list_all spec_ok ip_spec_9"
  "list_all spec_ok ip_spec_10"
  "list_all spec_ok ip_spec_11"
  "list_all spec_ok ip_spec_12"
  "list_all spec_ok ip_spec_13"
  "list_all spec_ok ip_spec_14"
  "list_all spec_ok ip_spec_15"
  by (simp_all only: ip_spec_defs spec_ok_simps)

lemmas ops_in_simps = ops_in.simps first_of_def count_of_def base_of_def case_prod_conv list.case
  PRIM_BASE_def SEC_BASE_def TERT_BASE_def flag_simps arith_simps rel_simps one_add_one

lemma ops_in_blocks:
  "ops_in 34 93 ip_spec_1"
  "ops_in 93 120 ip_spec_2"
  "ops_in 120 152 ip_spec_3"
  "ops_in 0 34 ip_spec_4"
  "ops_in 152 196 ip_spec_5"
  "ops_in 196 226 ip_spec_6"
  "ops_in 226 254 ip_spec_7"
  "ops_in 256 283 ip_spec_8"
  "ops_in 283 310 ip_spec_9"
  "ops_in 310 337 ip_spec_10"
  "ops_in 337 364 ip_spec_11"
  "ops_in 364 391 ip_spec_12"
  "ops_in 391 416 ip_spec_13"
  "ops_in 512 541 ip_spec_14"
  "ops_in 541 569 ip_spec_15"
  by (simp_all only: ip_spec_defs ops_in_simps) simp_all

lemma spec_ok_all: "list_all spec_ok ip_spec"
  unfolding ip_spec_def list_all_append by (intro conjI spec_ok_blocks)

lemma line_ops_set: "set (line_ops l) = {first_of l..<first_of l + count_of l}"
  by (auto simp: line_ops_def image_iff intro: exI [of _ "_ - first_of l"])

lemma line_ops_distinct: "distinct (line_ops l)"
  unfolding line_ops_def by (rule distinct_map [THEN iffD2]) (auto intro: inj_onI)

lemma intervals_disjoint:
  fixes X Y :: "int set"
  assumes "X \<subseteq> {a..<b}" and "Y \<subseteq> {a'..<b'}" and "b \<le> a' \<or> b' \<le> a"
  shows "X \<inter> Y = {}"
proof -
  have "{a..<b} \<inter> {a'..<b'} = {}" using assms(3) by auto
  then show ?thesis using assms(1,2) by blast
qed

lemma ops_in_distinct:
  "ops_in lo hi ls \<Longrightarrow> distinct (concat (map line_ops ls))
     \<and> set (concat (map line_ops ls)) \<subseteq> {lo..<hi} \<and> lo \<le> hi"
proof (induction ls arbitrary: lo)
  case Nil
  then show ?case by simp
next
  case (Cons l ls)
  then have "ops_in (first_of l + count_of l) hi ls" and b: "lo \<le> first_of l" "0 \<le> count_of l"
    by simp_all
  from Cons.IH [OF this(1)] have
    IH: "distinct (concat (map line_ops ls))"
      "set (concat (map line_ops ls)) \<subseteq> {first_of l + count_of l..<hi}"
      "first_of l + count_of l \<le> hi"
    by simp_all
  have "set (line_ops l) \<inter> set (concat (map line_ops ls)) = {}"
    unfolding line_ops_set by (rule intervals_disjoint [OF order_refl IH(2)]) simp
  moreover have "set (line_ops l) \<subseteq> {lo..<hi}" unfolding line_ops_set using b IH(3) by auto
  moreover have "set (concat (map line_ops ls)) \<subseteq> {lo..<hi}" using IH(2) b by fastforce
  ultimately show ?case using IH(1,3) b line_ops_distinct [of l]
    unfolding list.map concat.simps distinct_append set_append by auto
qed

lemma ops_in_append: "ops_in lo mid xs \<Longrightarrow> ops_in mid hi ys \<Longrightarrow> ops_in lo hi (xs @ ys)"
proof (induction xs arbitrary: lo)
  case Nil
  then show ?case by (cases ys) simp_all
qed simp

text \<open>The opcodes of the three groups; the mini \<open>loc\<close> has the first 34.\<close>

lemma ops_in_groups:
  "ops_in 34 152 (ip_spec_1 @ ip_spec_2 @ ip_spec_3)"
  "ops_in 152 254 (ip_spec_5 @ ip_spec_6 @ ip_spec_7)"
  "ops_in 256 569 (ip_spec_8 @ ip_spec_9 @ ip_spec_10 @ ip_spec_11 @ ip_spec_12 @ ip_spec_13
     @ ip_spec_14 @ ip_spec_15)"
proof -
  have "ops_in 416 512 []" by simp
  then have "ops_in 391 512 ip_spec_13" using ops_in_append [OF ops_in_blocks(13)] by fastforce
  then show "ops_in 256 569 (ip_spec_8 @ ip_spec_9 @ ip_spec_10 @ ip_spec_11 @ ip_spec_12 @ ip_spec_13
     @ ip_spec_14 @ ip_spec_15)"
    by (intro ops_in_append [OF ops_in_blocks(8)] ops_in_append [OF ops_in_blocks(9)]
      ops_in_append [OF ops_in_blocks(10)] ops_in_append [OF ops_in_blocks(11)]
      ops_in_append [OF ops_in_blocks(12)] ops_in_append [of 391 512]
      ops_in_append [OF ops_in_blocks(14)] ops_in_blocks(15))
  show "ops_in 34 152 (ip_spec_1 @ ip_spec_2 @ ip_spec_3)"
    by (intro ops_in_append [OF ops_in_blocks(1)] ops_in_append [OF ops_in_blocks(2)] ops_in_blocks(3))
  show "ops_in 152 254 (ip_spec_5 @ ip_spec_6 @ ip_spec_7)"
    by (intro ops_in_append [OF ops_in_blocks(5)] ops_in_append [OF ops_in_blocks(6)] ops_in_blocks(7))
qed

lemma spec_ops:
  "distinct (concat (map line_ops ip_spec))"
  "set (concat (map line_ops ip_spec)) \<subseteq> {0..<254} \<union> {256..<569}"
proof -
  let ?O = "\<lambda>ls. concat (map line_ops ls)"
  let ?A = "ip_spec_1 @ ip_spec_2 @ ip_spec_3" and ?B = "ip_spec_5 @ ip_spec_6 @ ip_spec_7"
  let ?C = "ip_spec_8 @ ip_spec_9 @ ip_spec_10 @ ip_spec_11 @ ip_spec_12 @ ip_spec_13 @ ip_spec_14
    @ ip_spec_15"
  have e: "?O ip_spec = ?O ?A @ ?O ip_spec_4 @ ?O ?B @ ?O ?C"
    by (simp only: ip_spec_def map_append concat_append append_assoc)
  note d = ops_in_groups [THEN ops_in_distinct] ops_in_blocks(4) [THEN ops_in_distinct]
  have r: "set (?O ?A) \<subseteq> {34..<152}" "set (?O ip_spec_4) \<subseteq> {0..<34}" "set (?O ?B) \<subseteq> {152..<254}"
    "set (?O ?C) \<subseteq> {256..<569}"
    using d by blast+
  have "{34..<152} \<union> {0..<34} \<union> {152..<254} \<union> {256..<569} \<subseteq> {0..<254} \<union> {256..<569::int}" by auto
  then show "set (?O ip_spec) \<subseteq> {0..<254} \<union> {256..<569}"
    unfolding e set_append using r by blast
  have "distinct (?O ?A)" "distinct (?O ip_spec_4)" "distinct (?O ?B)" "distinct (?O ?C)"
    using d by blast+
  moreover have "set (?O ?A) \<inter> set (?O ip_spec_4) = {}" "set (?O ?A) \<inter> set (?O ?B) = {}"
    "set (?O ?A) \<inter> set (?O ?C) = {}" "set (?O ip_spec_4) \<inter> set (?O ?B) = {}"
    "set (?O ip_spec_4) \<inter> set (?O ?C) = {}" "set (?O ?B) \<inter> set (?O ?C) = {}"
    by (rule intervals_disjoint [OF r(1,2)] intervals_disjoint [OF r(1,3)]
      intervals_disjoint [OF r(1,4)] intervals_disjoint [OF r(2,3)] intervals_disjoint [OF r(2,4)]
      intervals_disjoint [OF r(3,4)], simp)+
  ultimately show "distinct (?O ip_spec)"
    unfolding e distinct_append set_append Int_Un_distrib by (simp only: simp_thms Un_empty)
qed

text \<open>A sound line has cases with its opcodes, and an argument exactly for instructions that take one.\<close>

definition arg_matches :: "switch_case \<Rightarrow> bool" where
  "arg_matches = (\<lambda>(opcode, mnem, a). \<exists>par. getmnem em_table mnem = Some par
     \<and> (a = Arg_none) = (par = CHR ''-''))"

lemma arg_forms [simp]: "Mini i flgs \<noteq> Arg_none" "Shortie i flgs \<noteq> Arg_none" "TwoSgn flgs \<noteq> Arg_none"
  "TwoUns flgs \<noteq> Arg_none" "FourSgn flgs \<noteq> Arg_none"
  by (simp_all add: Mini_def Shortie_def TwoSgn_def TwoUns_def FourSgn_def)

lemma one_of_form:
  assumes "one_of ''-ms2u4'' flgs = 1"
  shows "in_flgs flgs CHR ''-'' \<or> in_flgs flgs CHR ''m'' \<or> in_flgs flgs CHR ''s'' \<or> in_flgs flgs CHR ''2''
    \<or> in_flgs flgs CHR ''u'' \<or> in_flgs flgs CHR ''4''"
  using assms unfolding one_of_def by (auto split: if_splits)

lemma line_cases_ok:
  assumes "spec_ok l"
  shows "\<exists>cs. line_cases l = Some cs \<and> map fst cs = line_ops l \<and> list_all arg_matches cs"
proof -
  obtain mnem flgs nums where l: "l = (mnem, flgs, nums)" by (cases l)
  obtain par where cf: "check_flags flgs" and par: "getmnem em_table mnem = Some par"
    and op: "operand_ok par flgs"
    and nums: "case nums of [cnt, first] \<Rightarrow> in_flgs flgs CHR ''m'' \<or> in_flgs flgs CHR ''s''
      | [first] \<Rightarrow> \<not> (in_flgs flgs CHR ''m'' \<or> in_flgs flgs CHR ''s'') | _ \<Rightarrow> False"
    using assms unfolding spec_ok_def l by (auto split: option.splits)
  note form = one_of_form [of flgs]
  have one: "one_of ''-ms2u4'' flgs = 1" using cf by (simp add: check_flags_def)
  have ms: "in_flgs flgs CHR ''m'' \<or> in_flgs flgs CHR ''s'' \<Longrightarrow> \<not> in_flgs flgs CHR ''-''"
    using one unfolding one_of_def by (auto split: if_splits)
  consider (one) first where "nums = [first]" | (two) cnt first where "nums = [cnt, first]"
    using nums by (cases nums rule: remdups_adj.cases) (auto split: list.splits)
  then show ?thesis
  proof cases
    case one
    then show ?thesis
      using nums form [OF \<open>one_of ''-ms2u4'' flgs = 1\<close>] op
      by (auto simp: l line_cases_def cf par line_ops_def first_of_def count_of_def arg_matches_def
        operand_ok_def split: if_splits)
  next
    case two
    then show ?thesis
      using nums ms op
      by (auto simp: l line_cases_def cf par line_ops_def first_of_def count_of_def arg_matches_def
        operand_ok_def list_all_iff split: if_splits)
  qed
qed

lemma mkiswitch_ok:
  "list_all spec_ok ls \<Longrightarrow> \<exists>cs. mkiswitch ls = Some cs \<and> map fst cs = concat (map line_ops ls)
     \<and> list_all arg_matches cs"
proof (induction ls)
  case Nil
  then show ?case by simp
next
  case (Cons l ls)
  then obtain ds where "mkiswitch ls = Some ds" "map fst ds = concat (map line_ops ls)"
    "list_all arg_matches ds"
    by auto
  moreover obtain cs where "line_cases l = Some cs" "map fst cs = line_ops l" "list_all arg_matches cs"
    using line_cases_ok [of l] Cons.prems by auto
  ultimately show ?case by simp
qed

lemma DoCases_ok:
  "mkiswitch ip_spec = Some DoCases" "map fst DoCases = concat (map line_ops ip_spec)"
  "list_all arg_matches DoCases"
  using mkiswitch_ok [OF spec_ok_all] by (auto simp: DoCases_def)

end
