(* ===== verification/Prelude.thy ===== *)
theory Prelude
  imports Main "HOL-Library.Word" "HOL-Library.Signed_Division"
begin

text \<open>
  Shared vocabulary of the development: the C integer types of the interpreter as ranges of
  \<^typ>\<open>int\<close> with their conversions written out, the host's bytes as 8-bit words, and the
  little-endian view of a run of bytes that every load and store routine of the interpreter
  implements.  The host is an LP64 machine: \<open>char\<close> is a signed 8-bit type (the interpreter's
  READ_ME requires it), \<open>int\<close> has 32 bits, \<open>long\<close> and \<open>unsigned long\<close> have 64.
\<close>

unbundle bit_operations_syntax

named_theorems c_simps \<open>conversions between C integer types that change nothing in range\<close>
named_theorems keeps_rules \<open>invariant preservation of the operations of the machine\<close>

section \<open>C integer types\<close>

type_synonym byte = "8 word"
type_synonym ptr = int   \<comment> \<open>\<open>typedef unsigned long ptr\<close>, always reduced by \<open>ulong\<close>\<close>
type_synonym long = int  \<comment> \<open>C \<open>long\<close>\<close>
type_synonym size = int  \<comment> \<open>\<open>typedef long size\<close>\<close>

definition ulong :: "int \<Rightarrow> int" where
  "ulong x = take_bit 64 x"

definition slong :: "int \<Rightarrow> int" where
  "slong x = signed_take_bit 63 x"

definition c_int :: "int \<Rightarrow> int" where
  "c_int x = signed_take_bit 31 x"

definition c_uint :: "int \<Rightarrow> int" where
  "c_uint x = take_bit 32 x"

definition BIT :: "nat \<Rightarrow> long" where
  "BIT n = push_bit n 1"

definition to_char :: "long \<Rightarrow> byte" where
  "to_char l = word_of_int l"

definition btol :: "byte \<Rightarrow> long" where
  "btol c = uint c"

definition btos :: "byte \<Rightarrow> long" where
  "btos c = sint c"

section \<open>Runs of bytes\<close>

primrec le_bytes :: "nat \<Rightarrow> long \<Rightarrow> byte list" where
  "le_bytes 0 l = []"
| "le_bytes (Suc n) l = to_char l # le_bytes n (drop_bit 8 l)"

primrec uval :: "byte list \<Rightarrow> int" where
  "uval [] = 0"
| "uval (b # bs) = uint b + 256 * uval bs"

definition sval :: "byte list \<Rightarrow> int" where
  "sval bs = signed_take_bit (8 * length bs - 1) (uval bs)"

definition rd_bytes :: "(int \<Rightarrow> byte) \<Rightarrow> int \<Rightarrow> nat \<Rightarrow> byte list" where
  "rd_bytes f a n = map (\<lambda>i. f (a + int i)) [0..<n]"

definition upd_bytes :: "(int \<Rightarrow> byte) \<Rightarrow> int \<Rightarrow> byte list \<Rightarrow> int \<Rightarrow> byte" where
  "upd_bytes f a bs = (\<lambda>x. if a \<le> x \<and> x < a + int (length bs) then bs ! nat (x - a) else f x)"

section \<open>Conversion lemmas\<close>

lemma ulong_id [c_simps]: "0 \<le> x \<Longrightarrow> x < 2 ^ 64 \<Longrightarrow> ulong x = x"
  by (simp add: ulong_def take_bit_int_eq_self)

lemma ulong_small: "0 \<le> x \<Longrightarrow> x < 18446744073709551616 \<Longrightarrow> ulong x = x"
  by (rule ulong_id) simp_all

lemma ulong_nonneg [simp]: "0 \<le> ulong x"
  by (simp add: ulong_def)

lemma ulong_bound [simp]: "ulong x < 18446744073709551616"
  using take_bit_int_less_exp [of 64 x] by (simp add: ulong_def)

lemma ulong_neg: "- (2 ^ 64) \<le> x \<Longrightarrow> x < 0 \<Longrightarrow> ulong x = x + 2 ^ 64"
proof -
  assume a: "- (2 ^ 64) \<le> x" "x < 0"
  have "ulong x = (x + 2 ^ 64) mod 2 ^ 64" by (simp add: ulong_def take_bit_eq_mod)
  also have "\<dots> = x + 2 ^ 64" using a by (intro mod_pos_pos_trivial) simp_all
  finally show ?thesis .
qed

lemma slong_id [c_simps]: "- (2 ^ 63) \<le> x \<Longrightarrow> x < 2 ^ 63 \<Longrightarrow> slong x = x"
  by (simp add: slong_def signed_take_bit_int_eq_self)

lemma c_int_id [c_simps]: "- (2 ^ 31) \<le> x \<Longrightarrow> x < 2 ^ 31 \<Longrightarrow> c_int x = x"
  by (simp add: c_int_def signed_take_bit_int_eq_self)

lemma c_uint_id [c_simps]: "0 \<le> x \<Longrightarrow> x < 2 ^ 32 \<Longrightarrow> c_uint x = x"
  by (simp add: c_uint_def take_bit_int_eq_self)

lemma slong_range: "- (2 ^ 63) \<le> slong x" "slong x < 2 ^ 63"
  unfolding slong_def
  by (rule signed_take_bit_int_greater_eq_minus_exp signed_take_bit_int_less_exp)+

lemma BIT_eq: "BIT n = 2 ^ n"
  by (simp add: BIT_def push_bit_eq_mult)

lemma btol_range [simp]: "0 \<le> btol c" "btol c < 256"
  using uint_bounded [of c] by (simp_all add: btol_def)

lemma btos_range: "- 128 \<le> btos c" "btos c < 128"
  using sint_range_size [of c] by (simp_all add: btos_def word_size)

lemma btol_to_char [simp]: "btol (to_char l) = take_bit 8 l"
  by (simp add: btol_def to_char_def unsigned_of_int)

lemma btos_to_char [simp]: "btos (to_char l) = signed_take_bit 7 l"
  by (simp add: btos_def to_char_def signed_of_int)

text \<open>One step of every load loop: shift the accumulator and add the next byte.\<close>

lemma shift_or_byte: "push_bit 8 u OR btol c = 256 * u + btol c"
proof -
  have "push_bit 8 u AND btol c = 0"
  proof (rule bit_eqI)
    fix n
    have "take_bit 8 (btol c) = btol c"
      by (rule take_bit_int_eq_self) simp_all
    then have "bit (btol c) n \<Longrightarrow> n < 8"
      by (metis bit_take_bit_iff)
    then show "bit (push_bit 8 u AND btol c) n = bit 0 n"
      by (auto simp: bit_simps)
  qed
  then have "push_bit 8 u OR btol c = push_bit 8 u + btol c"
    by (simp add: disjunctive_add_eq_or)
  then show ?thesis by (simp add: push_bit_eq_mult)
qed

section \<open>Lemmas on runs of bytes\<close>

lemma length_le_bytes [simp]: "length (le_bytes n l) = n"
  by (induction n arbitrary: l) simp_all

lemma uval_range: "0 \<le> uval bs" "uval bs < 256 ^ length bs"
proof (induction bs)
  case (Cons b bs)
  { case 1 show ?case using Cons.IH(1) uint_nonnegative [of b] by simp
  next
    case 2
    have "uint b < 256" using uint_bounded [of b] by simp
    moreover have "uval bs + 1 \<le> 256 ^ length bs" using Cons.IH(2) by simp
    ultimately show ?case by simp }
qed simp_all

lemma uval_le_bytes: "uval (le_bytes n l) = take_bit (8 * n) l"
proof (induction n arbitrary: l)
  case (Suc n)
  have "take_bit (8 * Suc n) l = take_bit 8 l + 256 * take_bit (8 * n) (drop_bit 8 l)"
  proof -
    have "take_bit (8 + 8 * n) l = l mod (2 ^ 8 * 2 ^ (8 * n))"
      by (simp only: take_bit_eq_mod power_add)
    also have "\<dots> = 2 ^ 8 * (l div 2 ^ 8 mod 2 ^ (8 * n)) + l mod 2 ^ 8"
      by (rule zmod_zmult2_eq) simp
    finally show ?thesis by (simp add: take_bit_eq_mod drop_bit_eq_div)
  qed
  then show ?case using Suc.IH [of "drop_bit 8 l"]
    by (simp add: to_char_def unsigned_of_int)
qed simp

lemma sval_le_bytes: "0 < n \<Longrightarrow> sval (le_bytes n l) = signed_take_bit (8 * n - 1) l"
proof -
  assume "0 < n"
  then have "\<not> 8 * n \<le> 8 * n - 1" by simp
  then show ?thesis by (simp only: sval_def uval_le_bytes length_le_bytes signed_take_bit_take_bit if_False)
qed

lemma le_bytes_uval: "le_bytes (length bs) (uval bs) = bs"
proof (induction bs)
  case (Cons b bs)
  have b: "0 \<le> uint b" "uint b < 256" using uint_bounded [of b] by simp_all
  have "drop_bit 8 (uint b + 256 * uval bs) = uval bs"
    using b by (simp add: drop_bit_eq_div)
  moreover have "to_char (uint b + 256 * uval bs) = b"
  proof -
    have "to_char (uint b + 256 * uval bs) = to_char (uint b) + to_char (256 * uval bs)"
      by (simp add: to_char_def)
    also have "to_char (256 * uval bs) = 0"
      unfolding to_char_def by (rule word_of_int_eq_0_iff [THEN iffD2]) simp
    finally show ?thesis by (simp add: to_char_def)
  qed
  ultimately show ?case using Cons.IH by simp
qed simp

lemma le_bytes_take_bit: "le_bytes n (take_bit (8 * n) l) = le_bytes n l"
  using le_bytes_uval [of "le_bytes n l"] by (simp add: uval_le_bytes)

lemma le_bytes_cong: "take_bit (8 * n) a = take_bit (8 * n) b \<Longrightarrow> le_bytes n a = le_bytes n b"
  using le_bytes_take_bit [of n a] le_bytes_take_bit [of n b] by simp

text \<open>Storing at most seven bytes does not see the conversions to 64 bits.\<close>

lemma le_bytes_slong: "n \<le> 7 \<Longrightarrow> le_bytes n (slong l) = le_bytes n l"
  by (rule le_bytes_cong) (simp add: slong_def take_bit_signed_take_bit)

lemma le_bytes_ulong: "n \<le> 7 \<Longrightarrow> le_bytes n (ulong l) = le_bytes n l"
  by (rule le_bytes_cong) (simp add: ulong_def)

lemma length_rd_bytes [simp]: "length (rd_bytes f a n) = n"
  by (simp add: rd_bytes_def)

lemma nth_rd_bytes [simp]: "i < n \<Longrightarrow> rd_bytes f a n ! i = f (a + int i)"
  by (simp add: rd_bytes_def)

lemma rd_bytes_Suc: "rd_bytes f a (Suc n) = f a # rd_bytes f (a + 1) n"
  by (simp add: rd_bytes_def upt_conv_Cons map_Suc_upt [symmetric] add.assoc del: upt_Suc)

lemma rd_bytes_snoc: "rd_bytes f a (Suc n) = rd_bytes f a n @ [f (a + int n)]"
  by (simp add: rd_bytes_def)

lemma rd_bytes_add: "rd_bytes f a (m + k) = rd_bytes f a m @ rd_bytes f (a + int m) k"
proof (induction k)
  case (Suc k)
  then show ?case by (simp add: rd_bytes_snoc add.assoc)
qed (simp add: rd_bytes_def)

lemma rd_bytes_cong:
  "(\<And>i. i < n \<Longrightarrow> f (a + int i) = g (a + int i)) \<Longrightarrow> rd_bytes f a n = rd_bytes g a n"
  by (simp add: rd_bytes_def)

lemma rd_upd_same [simp]: "n = length bs \<Longrightarrow> rd_bytes (upd_bytes f a bs) a n = bs"
  by (rule nth_equalityI) (simp_all add: upd_bytes_def)

lemma rd_upd_disjoint:
  "b + int n \<le> a \<or> a + int (length bs) \<le> b \<Longrightarrow> rd_bytes (upd_bytes f a bs) b n = rd_bytes f b n"
  by (rule rd_bytes_cong) (auto simp: upd_bytes_def)

lemma upd_bytes_Nil [simp]: "upd_bytes f a [] = f"
  by (rule ext) (auto simp: upd_bytes_def)

lemma upd_bytes_Cons: "upd_bytes f a (b # bs) = upd_bytes (f(a := b)) (a + 1) bs"
proof (rule ext)
  fix x
  have "a < x \<Longrightarrow> nat (x - a) = Suc (nat (x - (a + 1)))" by simp
  then show "upd_bytes f a (b # bs) x = upd_bytes (f(a := b)) (a + 1) bs x"
    by (cases "x = a") (auto simp: upd_bytes_def)
qed

lemma uval_append: "uval (xs @ ys) = uval xs + 256 ^ length xs * uval ys"
  by (induction xs) (simp_all add: algebra_simps)

lemma sval_snoc: "sval (bs @ [b]) = sint b * 256 ^ length bs + uval bs"
proof -
  let ?k = "length bs" and ?r = "sint b * 256 ^ length bs + uval bs"
  have p: "(2::int) ^ (8 * ?k) = 256 ^ ?k" by (simp add: power_mult)
  have b: "- 128 \<le> sint b" "sint b \<le> 127" using btos_range [of b] by (simp_all add: btos_def)
  have u: "0 \<le> uval bs" "uval bs < 256 ^ ?k" by (rule uval_range)+
  have "sint b * 256 ^ ?k \<le> 127 * 256 ^ ?k" using b(2) by (intro mult_right_mono) simp_all
  then have hi: "?r < 128 * 256 ^ ?k" using u by linarith
  have "(- 128) * 256 ^ ?k \<le> sint b * 256 ^ ?k" using b(1) by (intro mult_right_mono) simp_all
  then have lo: "- (128 * 256 ^ ?k) \<le> ?r" using u by linarith
  have e: "signed_take_bit (8 * ?k + 7) ?r = ?r"
    using hi lo by (intro signed_take_bit_int_eq_self) (simp_all add: power_add p)
  have "\<exists>q. uint b = sint b + 256 * q"
  proof -
    have "take_bit 8 (sint b) = uint b" by (simp add: uint_sint)
    then have "uint b = sint b - 256 * (sint b div 256)"
      by (simp add: take_bit_eq_mod minus_mult_div_eq_mod [symmetric])
    then show ?thesis by (intro exI [of _ "- (sint b div 256)"]) simp
  qed
  then obtain q where q: "uint b = sint b + 256 * q" ..
  have "uval (bs @ [b]) = ?r + q * 2 ^ Suc (8 * ?k + 7)"
    by (simp add: uval_append q power_add p) (simp add: algebra_simps)
  then have "take_bit (Suc (8 * ?k + 7)) (uval (bs @ [b])) = take_bit (Suc (8 * ?k + 7)) ?r"
    by (simp only: take_bit_eq_mod mod_mult_self1)
  then have "signed_take_bit (8 * ?k + 7) (uval (bs @ [b])) = ?r"
    using e signed_take_bit_eq_iff_take_bit_eq by metis
  then show ?thesis by (simp add: sval_def add.commute)
qed

lemma sval_range:
  assumes "bs \<noteq> []"
  shows "- (2 ^ (8 * length bs - 1)) \<le> sval bs" "sval bs < 2 ^ (8 * length bs - 1)"
  unfolding sval_def
  by (rule signed_take_bit_int_greater_eq_minus_exp signed_take_bit_int_less_exp)+

text \<open>The unrolled loads of \<open>memdirect.h\<close>; the top byte may be signed.\<close>

lemma or_bytes2: "btol b0 OR push_bit 8 u = btol b0 + 256 * u"
  using shift_or_byte [of u b0] by (simp only: or.commute [of "btol b0"] add.commute)

lemma or_bytes4:
  "btol b0 OR push_bit 8 (btol b1) OR push_bit 16 (btol b2) OR push_bit 24 u
    = btol b0 + 256 * (btol b1 + 256 * (btol b2 + 256 * u))"
proof -
  have "btol b0 OR push_bit 8 (btol b1) OR push_bit 16 (btol b2) OR push_bit 24 u
      = btol b0 OR push_bit 8 (btol b1 OR push_bit 8 (btol b2 OR push_bit 8 u))"
    by (simp add: push_bit_or or.assoc)
  then show ?thesis by (simp only: or_bytes2)
qed

lemma uval_rd2: "uval (rd_bytes f a 2) = btol (f a) + 256 * btol (f (a + 1))"
  by (simp add: eval_nat_numeral rd_bytes_Suc rd_bytes_def btol_def)

lemma uval_rd4: "uval (rd_bytes f a 4)
    = btol (f a) + 256 * (btol (f (a + 1)) + 256 * (btol (f (a + 2)) + 256 * btol (f (a + 3))))"
  by (simp add: eval_nat_numeral rd_bytes_Suc rd_bytes_def btol_def add.assoc)

lemma sval_rd2: "sval (rd_bytes f a 2) = btol (f a) + 256 * btos (f (a + 1))"
proof -
  have "rd_bytes f a 2 = [f a] @ [f (a + 1)]" by (simp add: rd_bytes_def eval_nat_numeral)
  then show ?thesis by (simp only: sval_snoc) (simp add: btol_def btos_def)
qed

lemma sval_rd4: "sval (rd_bytes f a 4)
    = btol (f a) + 256 * (btol (f (a + 1)) + 256 * (btol (f (a + 2)) + 256 * btos (f (a + 3))))"
proof -
  have "rd_bytes f a 4 = [f a, f (a + 1), f (a + 2)] @ [f (a + 3)]"
    by (simp add: rd_bytes_def eval_nat_numeral)
  then show ?thesis by (simp only: sval_snoc) (simp add: btol_def btos_def)
qed

end
