(* ===== verification/Machine.thy ===== *)
theory Machine
  imports Prelude "HOL-Library.While_Combinator"
begin

text \<open>
  The EM machine of the interpreter (\<open>util/int/global.h\<close>, \<open>global.c\<close> and the file-scope
  variables of the other modules) as one record, and the shape of a computation on it.

  The record is built in three layers.  \<open>em_cap\<close> holds what is derived from the word and pointer
  size of the load file; \<open>em_prog\<close> adds what is fixed once the program is loaded (memory
  limit, heap base, text, procedure table, command line limits); \<open>mach\<close> adds the registers
  and the memory.  The separately allocated pieces of EM memory are functions from EM addresses to
  bytes together with the number of bytes the C array really has (\<open>data_len\<close>,
  \<open>stack_len\<close>, \<open>text_len\<close>), so that an access outside the array can be told from
  one inside it.

  A C routine is a function from the machine to an outcome.  \<open>Trap\<close> is a call of
  \<open>trap(nr)\<close>: \<open>do_trap()\<close> never returns to its caller, so raising it abandons the
  routine, and the handler (theory \<open>Traps\<close>) runs in the state in which it was raised.
  \<open>Fatal\<close> is a call of \<open>fatal()\<close>, which ends the process.  \<open>Undef\<close> is behaviour
  the C standard leaves undefined (an access outside an array, a division by zero, a shift by an
  illegal distance), and \<open>Diverge\<close> a loop that does not end.
\<close>

section \<open>The machine\<close>

record em_cap =
  wsize :: size
  dwsize :: size
  psize :: size
  i_minsw :: long
  i_maxsw :: long
  i_maxuw :: int
  min_off :: long
  max_off :: long
  max_addr :: ptr
  wsizem1 :: size
  rsb_rsbcode :: int
  rsb_PI :: int
  rsb_PC :: int
  rsb_LB :: int
  rsb_LIN :: int
  rsb_FIL :: int
  rsbsize :: int

record proc =
  pr_nloc :: size
  pr_ep :: ptr
  pr_ff :: ptr

text \<open>A request to the host's operating system, by name, with its integer and its string arguments,
  and the answer: the value of the call, \<open>errno\<close>, further numbers it yields and bytes it
  delivers.\<close>

datatype sysreq = Sys string "int list" "byte list list"

record sysres =
  sr_ret :: int
  sr_errno :: int
  sr_vals :: "int list"
  sr_data :: "byte list"

record em_prog = em_cap +
  MLim :: ptr  \<comment> \<open>the Memory Limit register of \<open>global.h\<close>\<close>
  HB :: ptr
  DB :: ptr
  NProc :: long
  PreIgnMask :: long
  FRALimit :: size
  maxstack :: size
  maxheap :: size
  NLINE :: long
  must_test :: bool
  text_seg :: "int \<Rightarrow> byte"
  text_len :: int
  proctab :: "proc list"
  mem_avail :: "int \<Rightarrow> bool"  \<comment> \<open>whether the host's allocator grants that many bytes\<close>
  host_os :: "(sysreq \<times> sysres) list \<Rightarrow> sysreq \<Rightarrow> sysres"
    \<comment> \<open>how the host's operating system answers a request, given all earlier ones\<close>

datatype on_trap = TR_ABORT | TR_HALT | TR_TRAP

record warn_entry =
  wc_fil :: ptr
  wc_lin :: long
  wc_cnt :: long

datatype message =
    Warning int long ptr long  \<comment> \<open>number, occurrence, file, line\<close>
  | Warning_cont int ptr long
  | Trap_occurred int ptr long
  | Message string ptr long

record warn_state =
  warn_cnt :: "int \<Rightarrow> warn_entry list"
  warnmask :: "int \<Rightarrow> bool"
  latest_warning_printed :: bool
  mess_fp :: "message list"

text \<open>What the interpreter knows of the host: \<open>errno\<close>, the requests made so far, the signal
  administration of \<open>m_sigtrp.c\<close> with the action installed for each signal, the first file
  descriptor that is not available, and the sizes of the buffers of \<open>moncalls.c\<close>.\<close>

datatype sig_action = SIG_DFL | SIG_IGN | HndlIntSig | HndlEmSig

record unix_state =
  errno :: int
  os_trace :: "(sysreq \<times> sysres) list"
  sig_map :: "int \<Rightarrow> int"
  sig_act :: "int \<Rightarrow> sig_action"
  signalled :: int
  fd_limit :: int
  buf_cnt :: "int \<Rightarrow> size"

record mach = em_prog +
  PI :: long
  PC :: ptr
  HP :: ptr
  SP :: ptr
  LB :: ptr
  AB :: ptr
  ES :: long
  ES_def :: int
  OnTrap :: on_trap
  IgnMask :: long
  TrapPI :: long
  FRA :: "byte list"
  FRA_sh :: "byte list"
  FRASize :: size
  FRA_def :: int
  data :: "int \<Rightarrow> byte"
  data_sh :: "int \<Rightarrow> byte"
  data_len :: int
  HL :: ptr
  stack :: "int \<Rightarrow> byte"
  stack_sh :: "int \<Rightarrow> byte"
  stack_len :: int
  SL :: ptr
  LIN :: long
  FIL :: ptr
  AB_list :: "int \<Rightarrow> ptr"
  frame_limit :: size
  curr_frame :: size
  running :: bool
  wst :: warn_state
  unix :: unix_state

definition UNDEFINED :: int where "UNDEFINED = 0"
definition DEFINED :: int where "DEFINED = 1"

section \<open>Outcomes\<close>

datatype fatal =
    F_alloc string
  | F_trap_before_start int
  | F_trap_not_caught int
  | F_recursive_trap int
  | F_load string
  | F_signal int  \<comment> \<open>a signal the interpreted program did not ask for\<close>
  | F_exec  \<comment> \<open>the process is replaced by another program\<close>
  | F_usage string  \<comment> \<open>the process ends at a bad option, or after the listing \<open>-d\<close> asks for\<close>

datatype 'a outcome =
    Ok 'a mach
  | Trap int mach
  | Fatal fatal mach
  | Undef
  | Diverge

type_synonym 'a M = "mach \<Rightarrow> 'a outcome"

definition returnM :: "'a \<Rightarrow> 'a M" where
  "returnM x = (\<lambda>s. Ok x s)"

definition bindM :: "'a M \<Rightarrow> ('a \<Rightarrow> 'b M) \<Rightarrow> 'b M" where
  "bindM m f = (\<lambda>s. case m s of
      Ok x s' \<Rightarrow> f x s'
    | Trap n s' \<Rightarrow> Trap n s'
    | Fatal e s' \<Rightarrow> Fatal e s'
    | Undef \<Rightarrow> Undef
    | Diverge \<Rightarrow> Diverge)"

definition thenM :: "'a M \<Rightarrow> 'b M \<Rightarrow> 'b M" where
  "thenM m k = bindM m (\<lambda>_. k)"

text \<open>\<open>withM f\<close> runs a routine whose expressions read the registers of the current state.\<close>

definition withM :: "(mach \<Rightarrow> 'a M) \<Rightarrow> 'a M" where
  "withM f = (\<lambda>s. f s s)"

definition modifyM :: "(mach \<Rightarrow> mach) \<Rightarrow> unit M" where
  "modifyM f = (\<lambda>s. Ok () (f s))"

definition undefM :: "'a M" where
  "undefM = (\<lambda>s. Undef)"

definition fatalM :: "fatal \<Rightarrow> 'a M" where
  "fatalM e = (\<lambda>s. Fatal e s)"

definition trap :: "int \<Rightarrow> 'a M" where
  "trap nr = (\<lambda>s. Trap nr s)"

definition whenM :: "bool \<Rightarrow> unit M \<Rightarrow> unit M" where
  "whenM b m = (if b then m else returnM ())"

text \<open>A sequence of statements.\<close>

primrec seqM :: "unit M list \<Rightarrow> unit M" where
  "seqM [] = returnM ()"
| "seqM (m # ms) = thenM m (seqM ms)"

text \<open>Running the operation \<open>f\<close> on \<open>k\<close> consecutive values counting up from \<open>i\<close>.\<close>

primrec forM :: "nat \<Rightarrow> int \<Rightarrow> (int \<Rightarrow> unit M) \<Rightarrow> unit M" where
  "forM 0 i f = returnM ()"
| "forM (Suc k) i f = thenM (f i) (forM k (i + 1) f)"

text \<open>A \<open>while\<close> loop whose condition reads the loop variable; it diverges when it does not end.\<close>

definition whileM :: "('a \<Rightarrow> bool) \<Rightarrow> ('a \<Rightarrow> 'a M) \<Rightarrow> 'a \<Rightarrow> 'a M" where
  "whileM b f x = (\<lambda>s.
     case while_option
       (\<lambda>r. case r of Ok y _ \<Rightarrow> b y | _ \<Rightarrow> False)
       (\<lambda>r. case r of Ok y t \<Rightarrow> f y t | _ \<Rightarrow> r)
       (Ok x s) of
       Some r \<Rightarrow> r
     | None \<Rightarrow> Diverge)"

section \<open>Memory allocation (\<open>alloc.c\<close>)\<close>

text \<open>Both routines return the number of bytes really allocated: the size is cast to
  \<open>unsigned int\<close>.  A failing request ends the process.\<close>

definition Malloc :: "size \<Rightarrow> string \<Rightarrow> int M" where
  "Malloc sz descr = (\<lambda>s. if mem_avail s (c_uint sz) then Ok (c_uint sz) s
     else Fatal (F_alloc descr) s)"

definition Realloc :: "size \<Rightarrow> string \<Rightarrow> int M" where
  "Realloc sz descr = (\<lambda>s. if mem_avail s (c_uint sz) then Ok (c_uint sz) s
     else Fatal (F_alloc descr) s)"

text \<open>\<open>allocfrac(s)\<close> is \<open>s * 3 / 2\<close>, on a \<open>ptr\<close> or on a \<open>size\<close>.\<close>

definition allocfrac_p :: "ptr \<Rightarrow> ptr" where
  "allocfrac_p s = ulong (s * 3) div 2"

definition allocfrac :: "size \<Rightarrow> size" where
  "allocfrac s = slong (s * 3) sdiv 2"

section \<open>Trap numbers (\<open>h/em_abs.h\<close>)\<close>

definition EARRAY :: int where "EARRAY = 0"
definition ERANGE :: int where "ERANGE = 1"
definition ESET :: int where "ESET = 2"
definition EIOVFL :: int where "EIOVFL = 3"
definition EFOVFL :: int where "EFOVFL = 4"
definition EFUNFL :: int where "EFUNFL = 5"
definition EIDIVZ :: int where "EIDIVZ = 6"
definition EFDIVZ :: int where "EFDIVZ = 7"
definition EIUND :: int where "EIUND = 8"
definition EFUND :: int where "EFUND = 9"
definition ECONV :: int where "ECONV = 10"
definition ESTACK :: int where "ESTACK = 16"
definition EHEAP :: int where "EHEAP = 17"
definition EILLINS :: int where "EILLINS = 18"
definition EODDZ :: int where "EODDZ = 19"
definition ECASE :: int where "ECASE = 20"
definition EMEMFLT :: int where "EMEMFLT = 21"
definition EBADPTR :: int where "EBADPTR = 22"
definition EBADPC :: int where "EBADPC = 23"
definition EBADLAE :: int where "EBADLAE = 24"
definition EBADMON :: int where "EBADMON = 25"
definition EBADLIN :: int where "EBADLIN = 26"
definition EBADGTO :: int where "EBADGTO = 27"

lemmas trap_nr_defs =
  EARRAY_def ERANGE_def ESET_def EIOVFL_def EFOVFL_def EFUNFL_def EIDIVZ_def EFDIVZ_def
  EIUND_def EFUND_def ECONV_def ESTACK_def EHEAP_def EILLINS_def EODDZ_def ECASE_def
  EMEMFLT_def EBADPTR_def EBADPC_def EBADLAE_def EBADMON_def EBADLIN_def EBADGTO_def

text \<open>The test \<open>IgnMask&BIT(nr)\<close> that silences a maskable trap.\<close>

definition ignored :: "int \<Rightarrow> mach \<Rightarrow> bool" where
  "ignored nr s \<longleftrightarrow> IgnMask s AND BIT (nat nr) \<noteq> 0"

section \<open>Computation rules\<close>

lemmas M_defs = returnM_def bindM_def thenM_def withM_def modifyM_def undefM_def fatalM_def
  trap_def whenM_def

lemma bindM_apply [simp]: "bindM m f s = (case m s of
      Ok x s' \<Rightarrow> f x s' | Trap n s' \<Rightarrow> Trap n s' | Fatal e s' \<Rightarrow> Fatal e s'
    | Undef \<Rightarrow> Undef | Diverge \<Rightarrow> Diverge)"
  by (simp add: bindM_def)

lemma thenM_apply [simp]: "thenM m k s = (case m s of
      Ok x s' \<Rightarrow> k s' | Trap n s' \<Rightarrow> Trap n s' | Fatal e s' \<Rightarrow> Fatal e s'
    | Undef \<Rightarrow> Undef | Diverge \<Rightarrow> Diverge)"
  by (simp add: thenM_def)

lemma bindM_eq_Ok:
  "bindM m f s = Ok y t \<longleftrightarrow> (\<exists>x s'. m s = Ok x s' \<and> f x s' = Ok y t)"
  by (cases "m s") simp_all

lemma thenM_eq_Ok:
  "thenM m k s = Ok y t \<longleftrightarrow> (\<exists>x s'. m s = Ok x s' \<and> k s' = Ok y t)"
  unfolding thenM_def by (rule bindM_eq_Ok)

lemma thenM_eq_Trap:
  "thenM m k s = Trap n t \<longleftrightarrow> m s = Trap n t \<or> (\<exists>x s'. m s = Ok x s' \<and> k s' = Trap n t)"
  by (cases "m s") simp_all

lemma withM_apply [simp]: "withM f s = f s s"
  by (simp add: withM_def)

lemma bindM_returnM [simp]: "bindM (returnM x) f = f x"
  by (simp add: M_defs)

lemma thenM_returnM [simp]: "thenM (returnM ()) m = m" "thenM m (returnM ()) = m"
  by (rule ext, simp add: M_defs split: outcome.split)+

lemma whenM_True_False [simp]: "whenM True m = m" "whenM False m = returnM ()"
  by (simp_all add: whenM_def)

lemma apply_M [simp]: "returnM x s = Ok x s" "trap n s = Trap n s" "undefM s = Undef"
    "modifyM f s = Ok () (f s)" "fatalM e s = Fatal e s"
  by (simp_all add: M_defs)

lemma bindM_assoc: "bindM (bindM m f) g = bindM m (\<lambda>x. bindM (f x) g)"
  by (rule ext) (simp split: outcome.split)

section \<open>Invariant preservation\<close>

text \<open>
  \<open>keeps I m R\<close>: started in a state with \<open>I\<close>, a routine that returns leaves \<open>I\<close>
  true and a result with \<open>R\<close>, and a routine that traps leaves \<open>I\<close> true for the
  trap handler.
\<close>

definition keeps :: "(mach \<Rightarrow> bool) \<Rightarrow> 'a M \<Rightarrow> ('a \<Rightarrow> bool) \<Rightarrow> bool" where
  "keeps I m R \<longleftrightarrow> (\<forall>s. I s \<longrightarrow> (case m s of
      Ok x s' \<Rightarrow> I s' \<and> R x
    | Trap n s' \<Rightarrow> I s'
    | Fatal e s' \<Rightarrow> True
    | Undef \<Rightarrow> True
    | Diverge \<Rightarrow> True))"

abbreviation anyR :: "'a \<Rightarrow> bool" where
  "anyR \<equiv> \<lambda>_. True"

lemma keepsD:
  assumes "keeps I m R" and "I s"
  shows "case m s of Ok x s' \<Rightarrow> I s' \<and> R x | Trap n s' \<Rightarrow> I s'
      | Fatal e s' \<Rightarrow> True | Undef \<Rightarrow> True | Diverge \<Rightarrow> True"
  using assms unfolding keeps_def by blast

lemma keepsI:
  assumes ok: "\<And>s x s'. I s \<Longrightarrow> m s = Ok x s' \<Longrightarrow> I s' \<and> R x"
    and tr: "\<And>s n s'. I s \<Longrightarrow> m s = Trap n s' \<Longrightarrow> I s'"
  shows "keeps I m R"
  unfolding keeps_def
proof (intro allI impI)
  fix s assume "I s"
  with ok [of s] tr [of s] show "case m s of Ok x s' \<Rightarrow> I s' \<and> R x | Trap n s' \<Rightarrow> I s'
      | Fatal e s' \<Rightarrow> True | Undef \<Rightarrow> True | Diverge \<Rightarrow> True"
    by (simp split: outcome.split)
qed

lemma keeps_OkD: "keeps I m R \<Longrightarrow> I s \<Longrightarrow> m s = Ok x s' \<Longrightarrow> I s' \<and> R x"
  using keepsD [of I m R s] by simp

lemma keeps_TrapD: "keeps I m R \<Longrightarrow> I s \<Longrightarrow> m s = Trap n s' \<Longrightarrow> I s'"
  using keepsD [of I m R s] by simp

lemma keeps_weaken:
  assumes "keeps I m R" and "\<And>x. R x \<Longrightarrow> R' x"
  shows "keeps I m R'"
proof (rule keepsI)
  fix s x s' assume "I s" "m s = Ok x s'"
  then show "I s' \<and> R' x" using keeps_OkD [OF assms(1)] assms(2) by blast
next
  fix s n s' assume "I s" "m s = Trap n s'"
  then show "I s'" by (rule keeps_TrapD [OF assms(1)])
qed

lemma keeps_bind:
  assumes m: "keeps I m R" and f: "\<And>x. R x \<Longrightarrow> keeps I (f x) R'"
  shows "keeps I (bindM m f) R'"
proof (rule keepsI)
  fix s y t assume I: "I s" and b: "bindM m f s = Ok y t"
  from b obtain x s' where "m s = Ok x s'" "f x s' = Ok y t" unfolding bindM_eq_Ok by blast
  then show "I t \<and> R' y" using keeps_OkD [OF m I] keeps_OkD [OF f] by blast
next
  fix s n t assume I: "I s" and b: "bindM m f s = Trap n t"
  show "I t"
  proof (cases "m s")
    case (Ok x s')
    with b have "f x s' = Trap n t" by simp
    then show ?thesis using keeps_OkD [OF m I Ok] keeps_TrapD [OF f] by blast
  next
    case (Trap n' s')
    then show ?thesis using b keeps_TrapD [OF m I] by (simp add: bindM_def)
  qed (use b in \<open>simp_all add: bindM_def\<close>)
qed

lemma keeps_then: "keeps I m anyR \<Longrightarrow> keeps I k R' \<Longrightarrow> keeps I (thenM m k) R'"
  unfolding thenM_def by (rule keeps_bind)

lemma keeps_return: "R x \<Longrightarrow> keeps I (returnM x) R"
  by (simp add: keeps_def returnM_def)

lemma keeps_with: "(\<And>s. I s \<Longrightarrow> keeps I (f s) R) \<Longrightarrow> keeps I (withM f) R"
  unfolding keeps_def withM_def by blast

lemma keeps_modify: "(\<And>s. I s \<Longrightarrow> I (f s)) \<Longrightarrow> keeps I (modifyM f) anyR"
  by (simp add: keeps_def modifyM_def)

lemma keeps_trap: "keeps I (trap n) R"
  by (simp add: keeps_def trap_def)

lemma keeps_undef: "keeps I undefM R"
  by (simp add: keeps_def undefM_def)

lemma keeps_fatal: "keeps I (fatalM e) R"
  by (simp add: keeps_def fatalM_def)

lemma keeps_if:
  "(b \<Longrightarrow> keeps I m R) \<Longrightarrow> (\<not> b \<Longrightarrow> keeps I k R) \<Longrightarrow> keeps I (if b then m else k) R"
  by simp

lemma keeps_when: "(b \<Longrightarrow> keeps I m anyR) \<Longrightarrow> keeps I (whenM b m) anyR"
  by (simp add: whenM_def keeps_return)

lemma keeps_for: "(\<And>i. keeps I (f i) anyR) \<Longrightarrow> keeps I (forM k i f) anyR"
  by (induction k arbitrary: i) (auto intro: keeps_return keeps_then)

lemma keeps_seq_Nil: "keeps I (seqM []) anyR"
  by (simp add: keeps_return)

lemma keeps_seq_Cons: "keeps I m anyR \<Longrightarrow> keeps I (seqM ms) anyR \<Longrightarrow> keeps I (seqM (m # ms)) anyR"
  by (simp add: keeps_then)

lemma keeps_alloc: "keeps I (Malloc sz d) (\<lambda>n. n = c_uint sz)" "keeps I (Realloc sz d) (\<lambda>n. n = c_uint sz)"
  by (simp_all add: keeps_def Malloc_def Realloc_def)

lemma keeps_let: "keeps I (m x) R \<Longrightarrow> keeps I (let y = x in m y) R"
  by simp

lemma keeps_case_prod:
  "(\<And>a b. p = (a, b) \<Longrightarrow> keeps I (f a b) R) \<Longrightarrow> keeps I (case p of (a, b) \<Rightarrow> f a b) R"
  by (cases p) simp

lemma keeps_while:
  assumes "\<And>x. keeps I (f x) anyR"
  shows "keeps I (whileM b f x) anyR"
  unfolding keeps_def
proof (intro allI impI)
  fix s assume s: "I s"
  let ?b = "\<lambda>r. case r of Ok y _ \<Rightarrow> b y | _ \<Rightarrow> False"
  let ?f = "\<lambda>r. case r of Ok y t \<Rightarrow> f y t | _ \<Rightarrow> r"
  let ?P = "\<lambda>r. case r of Ok y t \<Rightarrow> I t | Trap n t \<Rightarrow> I t | _ \<Rightarrow> True"
  show "case whileM b f x s of Ok x s' \<Rightarrow> I s' \<and> True | Trap n s' \<Rightarrow> I s'
      | Fatal e s' \<Rightarrow> True | Undef \<Rightarrow> True | Diverge \<Rightarrow> True"
  proof (cases "while_option ?b ?f (Ok x s)")
    case None
    then show ?thesis by (simp add: whileM_def)
  next
    case (Some r)
    have step: "?P (?f y)" if "?P y" for y
    proof (cases y)
      case (Ok z t)
      then show ?thesis using that keepsD [OF assms, of t z] by (simp split: outcome.splits)
    qed (use that in simp_all)
    have "?P r"
      by (rule while_option_rule [where P = ?P, OF _ Some]) (rule step, assumption, use s in simp)
    then show ?thesis using Some by (simp add: whileM_def split: outcome.splits)
  qed
qed

section \<open>Loops\<close>

lemma whileM_unfold: "whileM b f x s = (if b x then bindM (f x) (whileM b f) s else Ok x s)"
proof (cases "b x")
  case True
  let ?b = "\<lambda>r. case r of Ok y _ \<Rightarrow> b y | _ \<Rightarrow> False"
  let ?f = "\<lambda>r. case r of Ok y t \<Rightarrow> f y t | _ \<Rightarrow> r"
  have "while_option ?b ?f (Ok x s) = while_option ?b ?f (f x s)"
    using True by (subst while_option_unfold) simp
  then show ?thesis
    using True by (cases "f x s") (simp_all add: whileM_def while_option_unfold [of ?b])
next
  case False
  then show ?thesis by (simp add: whileM_def while_option_unfold)
qed

section \<open>Establishing a property\<close>

text \<open>\<open>est P m Q\<close>: a routine started in a state with \<open>P\<close> that returns does so with \<open>Q\<close>.\<close>

definition est :: "(mach \<Rightarrow> bool) \<Rightarrow> 'a M \<Rightarrow> ('a \<Rightarrow> mach \<Rightarrow> bool) \<Rightarrow> bool" where
  "est P m Q \<longleftrightarrow> (\<forall>s x t. P s \<longrightarrow> m s = Ok x t \<longrightarrow> Q x t)"

lemma estI: "(\<And>s x t. P s \<Longrightarrow> m s = Ok x t \<Longrightarrow> Q x t) \<Longrightarrow> est P m Q"
  unfolding est_def by blast

lemma estD: "est P m Q \<Longrightarrow> P s \<Longrightarrow> m s = Ok x t \<Longrightarrow> Q x t"
  unfolding est_def by blast

lemma est_bind: "est P m R \<Longrightarrow> (\<And>x. est (R x) (f x) Q) \<Longrightarrow> est P (bindM m f) Q"
  unfolding est_def bindM_eq_Ok by blast

lemma est_then: "est P m (\<lambda>_. R) \<Longrightarrow> est R k Q \<Longrightarrow> est P (thenM m k) Q"
  unfolding thenM_def by (rule est_bind)

lemma est_with: "(\<And>s. P s \<Longrightarrow> est (\<lambda>t. t = s) (f s) Q) \<Longrightarrow> est P (withM f) Q"
  unfolding est_def withM_def by blast

lemma est_return: "(\<And>s. P s \<Longrightarrow> Q x s) \<Longrightarrow> est P (returnM x) Q"
  by (simp add: est_def)

lemma est_modify: "(\<And>s. P s \<Longrightarrow> Q () (f s)) \<Longrightarrow> est P (modifyM f) Q"
  by (simp add: est_def)

lemma est_fatal: "est P (fatalM e) Q"
  by (simp add: est_def)

lemma est_keeps: "keeps I m R \<Longrightarrow> est I m (\<lambda>x t. I t \<and> R x)"
  by (rule estI) (rule keeps_OkD)

lemma est_weaken: "est P m Q \<Longrightarrow> (\<And>s. P' s \<Longrightarrow> P s) \<Longrightarrow> (\<And>x t. Q x t \<Longrightarrow> Q' x t) \<Longrightarrow> est P' m Q'"
  unfolding est_def by blast

lemmas keeps_basic [keeps_rules] =
  keeps_bind keeps_then keeps_with keeps_case_prod keeps_return keeps_modify keeps_trap keeps_undef keeps_fatal
  keeps_if keeps_when keeps_for keeps_while keeps_let keeps_seq_Nil keeps_seq_Cons keeps_alloc

end
