(* ===== verification/Warn.thy ===== *)
theory Warn
  imports Machine
begin

text \<open>
  Warnings (\<open>util/int/warn.c\<close>).  The numbers are those of \<open>warn.h\<close>, which the build
  extracts from \<open>doc/int/appA\<close>.  A warning never changes the EM machine: it updates the
  occurrence counters and writes to the message file, both kept in the field \<open>wst\<close>.
  The text of a message is not modelled; a message records the warning's number, its occurrence
  count and the position (\<open>FIL\<close>, \<open>LIN\<close>) that \<open>position()\<close> prints.
\<close>

section \<open>Warning numbers\<close>

definition WEXTRIGN :: int where "WEXTRIGN = 4"
definition WNLINEZR :: int where "WNLINEZR = 5"
definition WILLSN :: int where "WILLSN = 31"
definition WUNIXTR :: int where "WUNIXTR = 32"
definition WILLTN :: int where "WILLTN = 33"
definition WEHEAP :: int where "WEHEAP = 36"
definition WESTACK :: int where "WESTACK = 37"
definition WLCEXP :: int where "WLCEXP = 41"
definition WGCEXP :: int where "WGCEXP = 42"
definition WLIEXP :: int where "WLIEXP = 43"
definition WGIEXP :: int where "WGIEXP = 44"
definition WLDPEXP :: int where "WLDPEXP = 47"
definition WGDPEXP :: int where "WGDPEXP = 48"
definition WLIPEXP :: int where "WLIPEXP = 49"
definition WGIPEXP :: int where "WGIPEXP = 50"
definition WWASUND :: int where "WWASUND = 61"
definition WWASINT :: int where "WWASINT = 62"
definition WWASFLOAT :: int where "WWASFLOAT = 63"
definition WWASDATAP :: int where "WWASDATAP = 64"
definition WWASINSP :: int where "WWASINSP = 65"
definition WWASMISC :: int where "WWASMISC = 66"
definition WDESROM :: int where "WDESROM = 71"
definition WDESRSB :: int where "WDESRSB = 72"
definition WUNLOG :: int where "WUNLOG = 81"
definition WUNCMP :: int where "WUNCMP = 82"
definition WSHNEG :: int where "WSHNEG = 91"
definition WSHLARGE :: int where "WSHLARGE = 92"
definition WSEGADP :: int where "WSEGADP = 93"
definition WSEGSBS :: int where "WSEGSBS = 94"
definition WNULLPA :: int where "WNULLPA = 96"
definition WRFUNLAR :: int where "WRFUNLAR = 101"
definition WRFUNSML :: int where "WRFUNSML = 102"
definition WRFUNGAR :: int where "WRFUNGAR = 103"
definition WRETBAD :: int where "WRETBAD = 111"
definition WRETTRAP :: int where "WRETTRAP = 112"
definition WRTTBAD :: int where "WRTTBAD = 115"
definition WRTTEMPTY :: int where "WRTTEMPTY = 116"
definition WRTTCALL :: int where "WRTTCALL = 117"
definition WRTTNRTT :: int where "WRTTNRTT = 118"
definition WRETSTL :: int where "WRETSTL = 121"
definition WRETSTS :: int where "WRETSTS = 122"
definition WRTTSTL :: int where "WRTTSTL = 125"
definition WRTTSTS :: int where "WRTTSTS = 126"
definition WDCHBADLB :: int where "WDCHBADLB = 131"
definition WLPBBADLB :: int where "WLPBBADLB = 132"
definition WSPGTLB :: int where "WSPGTLB = 133"
definition WSPINHEAP :: int where "WSPINHEAP = 134"
definition WSPODD :: int where "WSPODD = 135"
definition WLBOUT :: int where "WLBOUT = 136"
definition WLBODD :: int where "WLBODD = 137"
definition WLBRSB :: int where "WLBRSB = 138"
definition WHPGDA :: int where "WHPGDA = 141"
definition WHPSTACK :: int where "WHPSTACK = 142"
definition WHPODD :: int where "WHPODD = 143"
definition WBADOPC :: int where "WBADOPC = 151"
definition WILLCONV :: int where "WILLCONV = 152"
definition WILLFIL :: int where "WILLFIL = 153"
definition WILLLFR :: int where "WILLLFR = 154"
definition WILLRET :: int where "WILLRET = 155"
definition WARGC :: int where "WARGC = 156"
definition WARGD :: int where "WARGD = 157"
definition WARGL :: int where "WARGL = 158"
definition WARGG :: int where "WARGG = 159"
definition WARGF :: int where "WARGF = 160"
definition WARGN :: int where "WARGN = 161"
definition WARGP :: int where "WARGP = 162"
definition WARGR :: int where "WARGR = 163"
definition WPCOVFL :: int where "WPCOVFL = 172"
definition WPCPROC :: int where "WPCPROC = 173"
definition WGTORSB :: int where "WGTORSB = 181"
definition WGTOSTACK :: int where "WGTOSTACK = 182"
definition WTRP :: int where "WTRP = 191"
definition WMSG :: int where "WMSG = 199"

section \<open>Counting and printing\<close>

definition WMASK :: int where "WMASK = 0x5555"

text \<open>The walk along the \<open>warn_cnt\<close> list of one warning number: the counter of the entry for
  this position, incremented, and the list with that entry updated.\<close>

fun bump_cnt :: "ptr \<Rightarrow> long \<Rightarrow> warn_entry list \<Rightarrow> (long \<times> warn_entry list) option" where
  "bump_cnt fil lin [] = None"
| "bump_cnt fil lin (w # ws) =
     (if wc_fil w = fil \<and> wc_lin w = lin
      then (let n = slong (wc_cnt w + 1) in Some (n, w\<lparr>wc_cnt := n\<rparr> # ws))
      else map_option (\<lambda>(n, ws'). (n, w # ws')) (bump_cnt fil lin ws))"

definition count_wrn :: "int \<Rightarrow> mach \<Rightarrow> long \<times> warn_state" where
  "count_wrn nr s =
     (let w = wst s in
      case bump_cnt (FIL s) (LIN s) (warn_cnt w nr) of
        Some (n, ws) \<Rightarrow> (n, w\<lparr>warn_cnt := (warn_cnt w)(nr := ws)\<rparr>)
      | None \<Rightarrow>
          if mem_avail s 32  \<comment> \<open>\<open>sizeof (struct warn_cnt)\<close>\<close>
          then (1, w\<lparr>warn_cnt := (warn_cnt w)(nr := warn_cnt w nr @
                  [\<lparr>wc_fil = FIL s, wc_lin = LIN s, wc_cnt = 1\<rparr>])\<rparr>)
          else (1, w))"

definition right_power :: "long \<Rightarrow> bool" where
  "right_power wrn_cnt \<longleftrightarrow> (wrn_cnt - 1) AND wrn_cnt = 0 \<and> WMASK AND wrn_cnt \<noteq> 0"

definition print_mess :: "message \<Rightarrow> warn_state \<Rightarrow> warn_state" where
  "print_mess m w = w\<lparr>mess_fp := mess_fp w @ [m]\<rparr>"

definition warning :: "int \<Rightarrow> mach \<Rightarrow> mach" where
  "warning nr s =
     (let s0 = s\<lparr>wst := (wst s)\<lparr>latest_warning_printed := False\<rparr>\<rparr> in
      if nr < WMSG then
        if \<not> warnmask (wst s0) nr then
          (case count_wrn nr s0 of (cnt, w) \<Rightarrow>
             if right_power cnt
             then s0\<lparr>wst := (print_mess (Warning nr cnt (FIL s) (LIN s)) w)
                              \<lparr>latest_warning_printed := True\<rparr>\<rparr>
             else s0\<lparr>wst := w\<rparr>)
        else s0
      else s0\<lparr>wst := print_mess (Trap_occurred (nr - WMSG) (FIL s) (LIN s)) (wst s0)\<rparr>)"

definition warningcont :: "int \<Rightarrow> mach \<Rightarrow> mach" where
  "warningcont nr s =
     (if latest_warning_printed (wst s)
      then if \<not> warnmask (wst s) nr
           then s\<lparr>wst := print_mess (Warning_cont nr (FIL s) (LIN s)) (wst s)\<rparr>
           else s
      else s)"

definition set_wmask :: "int \<Rightarrow> unit M" where
  "set_wmask i =
     (if i < WMSG
      then if 0 \<le> i
           then modifyM (\<lambda>s. s\<lparr>wst := (wst s)\<lparr>warnmask := (warnmask (wst s))(i := True)\<rparr>\<rparr>)
           else undefM
      else returnM ())"

definition warn :: "int \<Rightarrow> unit M" where
  "warn nr = modifyM (warning nr)"

definition warn_cont :: "int \<Rightarrow> unit M" where
  "warn_cont nr = modifyM (warningcont nr)"

definition wtrap :: "int \<Rightarrow> int \<Rightarrow> 'a M" where
  "wtrap wn tr = thenM (warn wn) (trap tr)"

section \<open>A warning touches the warning state only\<close>

lemma warning_frame: "\<exists>w. warning nr s = s\<lparr>wst := w\<rparr>"
  by (auto simp: warning_def Let_def split: prod.splits)

lemma warningcont_frame: "\<exists>w. warningcont nr s = s\<lparr>wst := w\<rparr>"
proof (cases "latest_warning_printed (wst s) \<and> \<not> warnmask (wst s) nr")
  case True
  then show ?thesis by (auto simp: warningcont_def)
next
  case False
  then have "warningcont nr s = s\<lparr>wst := wst s\<rparr>" by (auto simp: warningcont_def)
  then show ?thesis by blast
qed

text \<open>Predicates that do not look at the warning state survive warnings.\<close>

definition wst_free :: "(mach \<Rightarrow> bool) \<Rightarrow> bool" where
  "wst_free I \<longleftrightarrow> (\<forall>s w. I (s\<lparr>wst := w\<rparr>) = I s)"

lemma wst_freeD: "wst_free I \<Longrightarrow> I (s\<lparr>wst := w\<rparr>) = I s"
  unfolding wst_free_def by blast

lemma warning_wst_free: "wst_free I \<Longrightarrow> I (warning n s) = I s"
  using warning_frame [of n s] by (elim exE) (simp add: wst_freeD)

lemma warningcont_wst_free: "wst_free I \<Longrightarrow> I (warningcont n s) = I s"
  using warningcont_frame [of n s] by (elim exE) (simp add: wst_freeD)

lemma keeps_warn: "wst_free I \<Longrightarrow> keeps I (warn n) anyR"
  unfolding warn_def by (rule keeps_modify) (simp add: warning_wst_free)

lemma keeps_wtrap: "wst_free I \<Longrightarrow> keeps I (wtrap w n) R"
  unfolding wtrap_def by (rule keeps_then [OF keeps_warn keeps_trap])

text \<open>Routines that always return and touch the warning state only.\<close>

definition wst_only :: "unit M \<Rightarrow> bool" where
  "wst_only m \<longleftrightarrow> (\<forall>s. \<exists>w. m s = Ok () (s\<lparr>wst := w\<rparr>))"

lemma wst_onlyD: "wst_only m \<Longrightarrow> \<exists>w. m s = Ok () (s\<lparr>wst := w\<rparr>)"
  unfolding wst_only_def by blast

lemma wst_only_warn: "wst_only (warn n)" "wst_only (warn_cont n)"
  unfolding wst_only_def warn_def warn_cont_def modifyM_def
  using warning_frame warningcont_frame by simp_all

lemma wst_only_return: "wst_only (returnM ())"
  unfolding wst_only_def
proof
  fix s show "\<exists>w. returnM () s = Ok () (s\<lparr>wst := w\<rparr>)"
    by (intro exI [of _ "wst s"]) (simp add: returnM_def)
qed

lemma wst_only_then: "wst_only m \<Longrightarrow> wst_only k \<Longrightarrow> wst_only (thenM m k)"
  unfolding wst_only_def
proof
  fix s assume m: "\<forall>s. \<exists>w. m s = Ok () (s\<lparr>wst := w\<rparr>)"
    and k: "\<forall>s. \<exists>w. k s = Ok () (s\<lparr>wst := w\<rparr>)"
  obtain w where w: "m s = Ok () (s\<lparr>wst := w\<rparr>)" using m by blast
  obtain w' where "k (s\<lparr>wst := w\<rparr>) = Ok () (s\<lparr>wst := w\<rparr>\<lparr>wst := w'\<rparr>)" using k by blast
  then show "\<exists>w. thenM m k s = Ok () (s\<lparr>wst := w\<rparr>)"
    by (intro exI [of _ w']) (simp add: thenM_def w)
qed

lemma wst_only_when: "wst_only m \<Longrightarrow> wst_only (whenM b m)"
  by (simp add: whenM_def wst_only_return)

lemma warn_Ok: "\<exists>w. warn n s = Ok () (s\<lparr>wst := w\<rparr>)"
  by (rule wst_onlyD [OF wst_only_warn(1)])

lemma wtrap_frame: "\<exists>w. wtrap n t s = Trap t (s\<lparr>wst := w\<rparr>)"
proof -
  obtain w where "warn n s = Ok () (s\<lparr>wst := w\<rparr>)" using warn_Ok by blast
  then show ?thesis by (intro exI [of _ w]) (simp add: wtrap_def)
qed

lemma wtrap_not_Ok: "wtrap n t s \<noteq> Ok x s'"
  using warn_Ok [of n s] by (elim exE) (simp add: wtrap_def)

lemmas wst_only_rules = wst_only_warn wst_only_return wst_only_then wst_only_when

section \<open>Which occurrences are printed\<close>

lemma and_pred_zero:
  assumes "0 < n" and "(n - 1) AND n = (0::int)"
  shows "\<exists>k. n = 2 ^ k"
  using assms
proof (induction "nat n" arbitrary: n rule: less_induct)
  case less
  show ?case
  proof (cases "even n")
    case False
    then have "(n - 1) AND n = n - 1"
      by (auto elim!: oddE simp: and_int_rec [of "2 * _"] intro: and.idem)
    with less.prems show ?thesis by (intro exI [of _ 0]) simp
  next
    case True
    then obtain m where m: "n = 2 * m" by (auto elim: evenE)
    have "(2 * m - 1) div 2 = m - 1" by presburger
    then have "(n - 1) AND n = 2 * ((m - 1) AND m)"
      using m by (subst and_int_rec) simp
    then have "(m - 1) AND m = 0" using less.prems(2) by simp
    then obtain k where "m = 2 ^ k" using less.hyps [of m] less.prems(1) m by auto
    then show ?thesis using m by (intro exI [of _ "Suc k"]) simp
  qed
qed

lemma right_power_4: "i < 8 \<Longrightarrow> right_power (4 ^ i)"
proof -
  assume "i < 8"
  moreover have "list_all (\<lambda>j. right_power (4 ^ j)) [0..<8]" by code_simp
  ultimately show ?thesis by (simp add: list_all_iff)
qed

lemma right_power_iff:
  assumes "0 < n"
  shows "right_power n \<longleftrightarrow> (\<exists>i<8. n = 4 ^ i)"
proof
  assume r: "right_power n"
  then obtain k where k: "n = 2 ^ k" using and_pred_zero [OF assms] by (auto simp: right_power_def)
  have "bit WMASK k"
    using r k by (simp add: right_power_def and_exp_eq_0_iff_not_bit)
  then have "k < 16 \<and> even k"
  proof -
    have "bit WMASK k \<Longrightarrow> k < 16"
      using bit_take_bit_iff [of 16 WMASK k] by (simp add: WMASK_def)
    moreover have "list_all (\<lambda>j. bit WMASK j \<longrightarrow> even j) [0..<16]" by code_simp
    then have "k < 16 \<Longrightarrow> bit WMASK k \<Longrightarrow> even k" by (simp add: list_all_iff)
    ultimately show ?thesis using \<open>bit WMASK k\<close> by blast
  qed
  then obtain i where "k = 2 * i" "i < 8" by (auto elim!: evenE)
  then show "\<exists>i<8. n = 4 ^ i" using k by (intro exI [of _ i]) (simp add: power_mult)
next
  assume "\<exists>i<8. n = 4 ^ i"
  then show "right_power n" using right_power_4 by blast
qed

text \<open>How often a warning has been counted at a position.\<close>

definition seen :: "ptr \<Rightarrow> long \<Rightarrow> warn_entry list \<Rightarrow> long" where
  "seen fil lin ws =
     (case find (\<lambda>w. wc_fil w = fil \<and> wc_lin w = lin) ws of None \<Rightarrow> 0 | Some w \<Rightarrow> wc_cnt w)"

lemma bump_cnt_None: "bump_cnt fil lin ws = None \<Longrightarrow> seen fil lin ws = 0"
  by (induction ws) (auto simp: seen_def Let_def split: if_splits)

lemma bump_cnt_Some:
  "bump_cnt fil lin ws = Some (n, ws') \<Longrightarrow> n = slong (seen fil lin ws + 1) \<and> seen fil lin ws' = n"
  by (induction ws arbitrary: ws') (auto simp: seen_def Let_def split: if_splits)

lemma seen_append_new:
  "bump_cnt fil lin ws = None \<Longrightarrow> seen fil lin (ws @ [\<lparr>wc_fil = fil, wc_lin = lin, wc_cnt = c\<rparr>]) = c"
  by (induction ws) (auto simp: seen_def Let_def split: if_splits)

lemma count_wrn_seen:
  assumes "count_wrn nr s = (cnt, w)" and "mem_avail s 32"
    and "seen (FIL s) (LIN s) (warn_cnt (wst s) nr) = c" and "0 \<le> c" and "c + 1 < 2 ^ 63"
  shows "cnt = c + 1 \<and> seen (FIL s) (LIN s) (warn_cnt w nr) = c + 1
    \<and> warnmask w = warnmask (wst s) \<and> mess_fp w = mess_fp (wst s)"
proof (cases "bump_cnt (FIL s) (LIN s) (warn_cnt (wst s) nr)")
  case None
  with assms show ?thesis
    by (auto simp: count_wrn_def Let_def seen_append_new dest: bump_cnt_None)
next
  case (Some p)
  then obtain n ws where p: "bump_cnt (FIL s) (LIN s) (warn_cnt (wst s) nr) = Some (n, ws)"
    by (cases p) simp
  with assms bump_cnt_Some [OF p] show ?thesis
    by (auto simp: count_wrn_def Let_def c_simps)
qed

lemma warning_once:
  assumes "nr < WMSG" and "\<not> warnmask (wst s) nr" and "mem_avail s 32"
    and "seen (FIL s) (LIN s) (warn_cnt (wst s) nr) = c" and "0 \<le> c" and "c + 1 < 2 ^ 63"
  shows "\<exists>w. warning nr s = s\<lparr>wst := w\<rparr> \<and> seen (FIL s) (LIN s) (warn_cnt w nr) = c + 1
    \<and> \<not> warnmask w nr
    \<and> mess_fp w = mess_fp (wst s) @ (if right_power (c + 1) then [Warning nr (c + 1) (FIL s) (LIN s)] else [])"
proof -
  let ?s0 = "s\<lparr>wst := (wst s)\<lparr>latest_warning_printed := False\<rparr>\<rparr>"
  obtain cnt w where cw: "count_wrn nr ?s0 = (cnt, w)" by (cases "count_wrn nr ?s0")
  with assms count_wrn_seen [OF cw, of c]
  show ?thesis by (auto simp: warning_def Let_def print_mess_def)
qed

lemma filter_pow4_Suc:
  assumes "n < 2 ^ 62"
  shows "filter (\<lambda>i. 4 ^ i \<le> int (Suc n)) [0..<8] =
    filter (\<lambda>i. 4 ^ i \<le> int n) [0..<8] @ (if right_power (int (Suc n)) then [THE i. 4 ^ i = int (Suc n)] else [])"
proof (cases "right_power (int (Suc n))")
  case True
  then obtain j :: nat where j: "j < 8" "int (Suc n) = 4 ^ j"
    using right_power_iff [of "int (Suc n)"] by auto
  have inj: "(4 ^ i = (4::int) ^ j) = (i = j)" for i :: nat by simp
  have le: "((4::int) ^ i \<le> 4 ^ j) = (i \<le> j)" for i :: nat by simp
  have lt: "(4 ^ i \<le> int n) = (i < j)" for i :: nat
  proof -
    have "(4 ^ i \<le> int n) = (4 ^ i < int (Suc n))" by (simp only: of_nat_Suc) linarith
    then show ?thesis by (simp only: j(2)) simp
  qed
  have split: "[0..<8] = [0..<j] @ j # [Suc j..<8]"
    using j(1) by (metis le_add_diff_inverse less_imp_le_nat upt_add_eq_append upt_conv_Cons zero_le)
  have "filter (\<lambda>i. 4 ^ i \<le> int (Suc n)) [0..<8] = [0..<j] @ [j]"
    by (simp only: j(2) le split) simp
  moreover have "filter (\<lambda>i. 4 ^ i \<le> int n) [0..<8] = [0..<j]"
    by (simp only: lt split) simp
  ultimately show ?thesis using True by (simp only: j(2) inj the_eq_trivial if_True)
next
  case False
  have "(4 ^ i \<le> int (Suc n)) = (4 ^ i \<le> int n)" if "i < 8" for i :: nat
  proof -
    have "4 ^ i \<noteq> int (Suc n)" using False right_power_4 [OF that] by auto
    then show ?thesis by (simp only: of_nat_Suc) linarith
  qed
  then have "filter (\<lambda>i. 4 ^ i \<le> int (Suc n)) [0..<8] = filter (\<lambda>i. 4 ^ i \<le> int n) [0..<8]"
    by (intro filter_cong refl) (simp only: set_upt atLeastLessThan_iff)
  then show ?thesis using False by (simp only: if_False append_Nil2)
qed

text \<open>
  (C31) Repeating one warning at one source position \<open>n\<close> times writes a message exactly for
  the occurrences 1, 4, 16, \<open>\<dots>\<close>, 16384 among them, each carrying its occurrence number,
  and changes nothing of the machine but the warning state.
\<close>

theorem warnings_thinned:
  assumes "nr < WMSG" and "\<not> warnmask (wst s) nr" and "mem_avail s 32"
    and "seen (FIL s) (LIN s) (warn_cnt (wst s) nr) = 0" and "n < 2 ^ 62"
  shows "\<exists>w. (warning nr ^^ n) s = s\<lparr>wst := w\<rparr>
    \<and> mess_fp w = mess_fp (wst s) @
        map (\<lambda>i. Warning nr (4 ^ i) (FIL s) (LIN s)) (filter (\<lambda>i. 4 ^ i \<le> int n) [0..<8])"
proof -
  have "n < 2 ^ 62 \<Longrightarrow> \<exists>w. (warning nr ^^ n) s = s\<lparr>wst := w\<rparr> \<and> \<not> warnmask w nr
    \<and> seen (FIL s) (LIN s) (warn_cnt w nr) = int n
    \<and> mess_fp w = mess_fp (wst s) @
        map (\<lambda>i. Warning nr (4 ^ i) (FIL s) (LIN s)) (filter (\<lambda>i. 4 ^ i \<le> int n) [0..<8])"
  proof (induction n)
    case 0
    have "filter (\<lambda>i. (4::int) ^ i \<le> 0) [0..<8] = []" by (simp add: filter_empty_conv not_le)
    then show ?case using assms(2,4) by (intro exI [of _ "wst s"]) simp
  next
    case (Suc n)
    then obtain w where w: "(warning nr ^^ n) s = s\<lparr>wst := w\<rparr>" "\<not> warnmask w nr"
      "seen (FIL s) (LIN s) (warn_cnt w nr) = int n"
      and mess: "mess_fp w = mess_fp (wst s) @
        map (\<lambda>i. Warning nr (4 ^ i) (FIL s) (LIN s)) (filter (\<lambda>i. 4 ^ i \<le> int n) [0..<8])"
      by auto
    have n: "n < 2 ^ 62" using Suc.prems by simp
    have nth: "right_power (int (Suc n)) \<Longrightarrow> 4 ^ (THE i. 4 ^ i = int (Suc n)) = int (Suc n)"
      using right_power_iff [of "int (Suc n)"] by (auto simp: the_equality)
    obtain w' where w': "warning nr (s\<lparr>wst := w\<rparr>) = s\<lparr>wst := w'\<rparr>" "\<not> warnmask w' nr"
      "seen (FIL s) (LIN s) (warn_cnt w' nr) = int n + 1"
      and mess': "mess_fp w' = mess_fp w @ (if right_power (int n + 1) then [Warning nr (int n + 1) (FIL s) (LIN s)] else [])"
      using warning_once [of nr "s\<lparr>wst := w\<rparr>" "int n"] assms(1,3) w n by auto
    show ?case
      using w' w(1) mess mess' nth filter_pow4_Suc [OF n]
      by (intro exI [of _ w']) (auto simp: add.commute)
  qed
  then show ?thesis using assms(5) by blast
qed

end
