(* ===== verification/Memory.thy ===== *)
theory Memory
  imports Warn
begin

text \<open>
  Direct access to the memory of the EM machine: the address macros and checks of
  \<open>util/int/mem.h\<close>, the shadow bytes of \<open>shadow.h\<close>, the unchecked loads of
  \<open>memdirect.h\<close>, and the byte loops that \<open>data.c\<close> and \<open>stack.c\<close> share in shape.
  The interface between the loops and the two segments is the locale \<open>byte_segment\<close>;
  the theories \<open>Data\<close> and \<open>Stack\<close> interpret it.
\<close>

section \<open>Shadow bytes\<close>

definition SH_UNDEF :: byte where "SH_UNDEF = 0"
definition SH_INT :: byte where "SH_INT = 0x01"
definition SH_FLOAT :: byte where "SH_FLOAT = 0x02"
definition SH_DATAP :: byte where "SH_DATAP = 0x04"
definition SH_INSP :: byte where "SH_INSP = 0x08"
definition SH_PROT :: byte where "SH_PROT = 0x80"

lemmas sh_defs = SH_UNDEF_def SH_INT_def SH_FLOAT_def SH_DATAP_def SH_INSP_def SH_PROT_def

section \<open>The arrays behind the segments\<close>

definition data_ok :: "mach \<Rightarrow> int \<Rightarrow> bool" where
  "data_ok s a \<longleftrightarrow> 0 \<le> a \<and> a < data_len s"

text \<open>\<open>stack_loc(a)\<close> is \<open>*(stackML - a)\<close>, the element \<open>ML - a\<close> of the array.\<close>

definition stack_ok :: "mach \<Rightarrow> int \<Rightarrow> bool" where
  "stack_ok s a \<longleftrightarrow> 0 \<le> MLim s - a \<and> MLim s - a < stack_len s"

definition rd_data :: "ptr \<Rightarrow> byte M" where
  "rd_data a = (\<lambda>s. if data_ok s a then Ok (data s a) s else Undef)"

definition rd_data_sh :: "ptr \<Rightarrow> byte M" where
  "rd_data_sh a = (\<lambda>s. if data_ok s a then Ok (data_sh s a) s else Undef)"

definition wr_data :: "byte \<Rightarrow> ptr \<Rightarrow> byte \<Rightarrow> unit M" where
  "wr_data f a b = (\<lambda>s. if data_ok s a
     then Ok () (s\<lparr>data := (data s)(a := b), data_sh := (data_sh s)(a := f)\<rparr>) else Undef)"

definition wr_data_sh :: "byte \<Rightarrow> ptr \<Rightarrow> unit M" where
  "wr_data_sh f a = (\<lambda>s. if data_ok s a
     then Ok () (s\<lparr>data_sh := (data_sh s)(a := f)\<rparr>) else Undef)"

definition rd_stack :: "ptr \<Rightarrow> byte M" where
  "rd_stack a = (\<lambda>s. if stack_ok s a then Ok (stack s a) s else Undef)"

definition rd_stack_sh :: "ptr \<Rightarrow> byte M" where
  "rd_stack_sh a = (\<lambda>s. if stack_ok s a then Ok (stack_sh s a) s else Undef)"

definition wr_stack :: "byte \<Rightarrow> ptr \<Rightarrow> byte \<Rightarrow> unit M" where
  "wr_stack f a b = (\<lambda>s. if stack_ok s a
     then Ok () (s\<lparr>stack := (stack s)(a := b), stack_sh := (stack_sh s)(a := f)\<rparr>) else Undef)"

definition wr_stack_sh :: "byte \<Rightarrow> ptr \<Rightarrow> unit M" where
  "wr_stack_sh f a = (\<lambda>s. if stack_ok s a
     then Ok () (s\<lparr>stack_sh := (stack_sh s)(a := f)\<rparr>) else Undef)"

text \<open>\<open>stack_loc(a) = b\<close> alone, without touching the shadow byte.\<close>

definition poke_stack :: "ptr \<Rightarrow> byte \<Rightarrow> unit M" where
  "poke_stack a b = (\<lambda>s. if stack_ok s a then Ok () (s\<lparr>stack := (stack s)(a := b)\<rparr>) else Undef)"

definition ch_dt_prot :: "ptr \<Rightarrow> unit M" where
  "ch_dt_prot a = bindM (rd_data_sh a) (\<lambda>f. whenM (f AND SH_PROT \<noteq> 0) (warn WDESROM))"

definition ch_st_prot :: "ptr \<Rightarrow> unit M" where
  "ch_st_prot a = bindM (rd_stack_sh a) (\<lambda>f. whenM (f AND SH_PROT \<noteq> 0) (warn WDESRSB))"

definition dt_put :: "byte \<Rightarrow> ptr \<Rightarrow> byte \<Rightarrow> unit M" where
  "dt_put f a b = thenM (ch_dt_prot a) (wr_data f a b)"

definition st_put :: "byte \<Rightarrow> ptr \<Rightarrow> byte \<Rightarrow> unit M" where
  "st_put f a b = thenM (ch_st_prot a) (wr_stack f a b)"

text \<open>Setting and clearing the protection bit of a run of 2 or 4 shadow bytes.\<close>

definition or_sh2 :: "(ptr \<Rightarrow> byte M) \<Rightarrow> (byte \<Rightarrow> ptr \<Rightarrow> unit M) \<Rightarrow> (byte \<Rightarrow> byte) \<Rightarrow> ptr \<Rightarrow> unit M" where
  "or_sh2 rd wr g a =
     thenM (bindM (rd a) (\<lambda>f. wr (g f) a))
       (bindM (rd (ulong (a + 1))) (\<lambda>f. wr (g f) (ulong (a + 1))))"

definition dt_prot :: "ptr \<Rightarrow> size \<Rightarrow> unit M" where
  "dt_prot a n = thenM (or_sh2 rd_data_sh wr_data_sh (\<lambda>f. f OR SH_PROT) a)
     (whenM (n = 4) (or_sh2 rd_data_sh wr_data_sh (\<lambda>f. f OR SH_PROT) (ulong (a + 2))))"

definition dt_unprot :: "ptr \<Rightarrow> size \<Rightarrow> unit M" where
  "dt_unprot a n = thenM (or_sh2 rd_data_sh wr_data_sh (\<lambda>f. f AND NOT SH_PROT) a)
     (whenM (n = 4) (or_sh2 rd_data_sh wr_data_sh (\<lambda>f. f AND NOT SH_PROT) (ulong (a + 2))))"

definition st_prot :: "ptr \<Rightarrow> size \<Rightarrow> unit M" where
  "st_prot a n = thenM (or_sh2 rd_stack_sh wr_stack_sh (\<lambda>f. f OR SH_PROT) a)
     (whenM (n = 4) (or_sh2 rd_stack_sh wr_stack_sh (\<lambda>f. f OR SH_PROT) (ulong (a + 2))))"

section \<open>Address macros and checks\<close>

definition loc_addr :: "mach \<Rightarrow> long \<Rightarrow> ptr" where
  "loc_addr s off = (if off < 0 then ulong (LB s + off) else ulong (AB s + off))"

definition is_wordaligned :: "mach \<Rightarrow> ptr \<Rightarrow> bool" where
  "is_wordaligned s a \<longleftrightarrow> a AND wsizem1 s = 0"

definition in_gda :: "mach \<Rightarrow> ptr \<Rightarrow> bool" where
  "in_gda s p \<longleftrightarrow> p < HB s"

definition in_stack :: "mach \<Rightarrow> ptr \<Rightarrow> bool" where
  "in_stack s p \<longleftrightarrow> SP s \<le> p \<and> p \<le> MLim s"

definition is_in_data :: "mach \<Rightarrow> ptr \<Rightarrow> size \<Rightarrow> bool" where
  "is_in_data s a n \<longleftrightarrow> ulong (a + n) \<le> HP s"

definition is_in_stack :: "mach \<Rightarrow> ptr \<Rightarrow> size \<Rightarrow> bool" where
  "is_in_stack s a n \<longleftrightarrow> SP s \<le> a \<and> ulong (a + n - 1) \<le> MLim s"

definition w_is_in_stack :: "mach \<Rightarrow> ptr \<Rightarrow> bool" where
  "w_is_in_stack s a \<longleftrightarrow> SP s \<le> a \<and> ulong (a + wsizem1 s) \<le> MLim s"

text \<open>\<open>if (!P) { m }\<close>\<close>

definition ensure :: "(mach \<Rightarrow> bool) \<Rightarrow> unit M \<Rightarrow> unit M" where
  "ensure P m = (\<lambda>s. if P s then Ok () s else m s)"

definition ch_aligned :: "ptr \<Rightarrow> size \<Rightarrow> unit M" where
  "ch_aligned a n = (\<lambda>s. let k = ulong (min n (wsize s)) in
     if k = 0 then Undef else if a mod k = 0 then Ok () s else Trap EBADPTR s)"

definition ch_wordaligned :: "ptr \<Rightarrow> unit M" where
  "ch_wordaligned a = ensure (\<lambda>s. is_wordaligned s a) (trap EBADPTR)"

definition ch_in_data :: "ptr \<Rightarrow> size \<Rightarrow> unit M" where
  "ch_in_data a n = ensure (\<lambda>s. is_in_data s a n) (trap EMEMFLT)"

definition ch_in_stack :: "ptr \<Rightarrow> size \<Rightarrow> unit M" where
  "ch_in_stack a n = ensure (\<lambda>s. is_in_stack s a n) (trap EMEMFLT)"

definition ch_w_in_stack :: "ptr \<Rightarrow> unit M" where
  "ch_w_in_stack a = ensure (\<lambda>s. w_is_in_stack s a) (trap EMEMFLT)"

section \<open>The byte loops\<close>

text \<open>\<open>for (i = n; i > 0; i--, addr++) { \<dots> loc(addr) = (char) l; \<dots> l = l>>8; }\<close>\<close>

primrec store_loop :: "(ptr \<Rightarrow> byte \<Rightarrow> unit M) \<Rightarrow> nat \<Rightarrow> ptr \<Rightarrow> long \<Rightarrow> unit M" where
  "store_loop put 0 addr l = returnM ()"
| "store_loop put (Suc n) addr l =
     thenM (put addr (to_char l)) (store_loop put n (ulong (addr + 1)) (drop_bit 8 l))"

text \<open>\<open>for (i = n-1; i >= 0; i--, addr--) u = (u<<8) | btou(loc(addr));\<close>\<close>

primrec ldu_loop :: "(ptr \<Rightarrow> byte M) \<Rightarrow> nat \<Rightarrow> ptr \<Rightarrow> int \<Rightarrow> int M" where
  "ldu_loop rd 0 addr u = returnM u"
| "ldu_loop rd (Suc n) addr u =
     bindM (rd addr) (\<lambda>b. ldu_loop rd n (ulong (addr - 1)) (ulong (push_bit 8 u) OR btol b))"

definition load_u :: "(ptr \<Rightarrow> byte M) \<Rightarrow> size \<Rightarrow> ptr \<Rightarrow> int M" where
  "load_u rd n addr = ldu_loop rd (nat (c_int n)) (ulong (addr + (n - 1))) 0"

primrec lds_loop :: "(ptr \<Rightarrow> byte M) \<Rightarrow> nat \<Rightarrow> ptr \<Rightarrow> long \<Rightarrow> long M" where
  "lds_loop rd 0 addr l = returnM l"
| "lds_loop rd (Suc n) addr l =
     bindM (rd addr) (\<lambda>b. lds_loop rd n (ulong (addr - 1)) (slong (push_bit 8 l) OR btol b))"

text \<open>\<open>addr += n-2; l = btos(loc(addr+1)); for (i = n-2; i >= 0; i--, addr--) \<dots>\<close>\<close>

definition load_s :: "(ptr \<Rightarrow> byte M) \<Rightarrow> size \<Rightarrow> ptr \<Rightarrow> long M" where
  "load_s rd n addr =
     bindM (rd (ulong (addr + (n - 2) + 1)))
       (\<lambda>b. lds_loop rd (nat (c_int (n - 2) + 1)) (ulong (addr + (n - 2))) (btos b))"

text \<open>\<open>p_in_data\<close>, \<open>p_in_stack\<close> and \<open>w_in_stack\<close> of \<open>memdirect.h\<close>.\<close>

definition p_in :: "(ptr \<Rightarrow> byte M) \<Rightarrow> ptr \<Rightarrow> ptr M" where
  "p_in rd a =
     withM (\<lambda>s. bindM (rd a) (\<lambda>b0. bindM (rd (ulong (a + 1))) (\<lambda>b1.
       if psize s = 2 then returnM (btol b0 OR push_bit 8 (btol b1))
       else bindM (rd (ulong (a + 2))) (\<lambda>b2. bindM (rd (ulong (a + 3))) (\<lambda>b3.
         returnM (btol b0 OR push_bit 8 (btol b1) OR push_bit 16 (btol b2)
           OR push_bit 24 (btol b3)))))))"

definition w_in_stack :: "ptr \<Rightarrow> long M" where
  "w_in_stack a =
     withM (\<lambda>s. bindM (rd_stack a) (\<lambda>b0. bindM (rd_stack (ulong (a + 1))) (\<lambda>b1.
       if wsize s = 2 then returnM (btol b0 OR push_bit 8 (btos b1))
       else bindM (rd_stack (ulong (a + 2))) (\<lambda>b2. bindM (rd_stack (ulong (a + 3))) (\<lambda>b3.
         returnM (btol b0 OR push_bit 8 (btol b1) OR push_bit 16 (btol b2)
           OR push_bit 24 (btos b3)))))))"

section \<open>Shadow checks of the load routines\<close>

definition is_set :: "(ptr \<Rightarrow> byte M) \<Rightarrow> ptr \<Rightarrow> size \<Rightarrow> byte \<Rightarrow> bool M" where
  "is_set rdsh a n f =
     bindM (rdsh a) (\<lambda>x. if x AND f = 0 then returnM False
       else bindM (rdsh (ulong (a + (n - 1)))) (\<lambda>y. returnM (y AND f \<noteq> 0)))"

primrec bits_loop :: "(ptr \<Rightarrow> byte M) \<Rightarrow> nat \<Rightarrow> ptr \<Rightarrow> int \<Rightarrow> int \<Rightarrow> (int \<times> int) M" where
  "bits_loop rdsh 0 addr or_bits and_bits = returnM (or_bits, and_bits)"
| "bits_loop rdsh (Suc n) addr or_bits and_bits =
     bindM (rdsh addr)
       (\<lambda>f. bits_loop rdsh n (ulong (addr + 1)) (or_bits OR btos f) (and_bits AND btos f))"

text \<open>\<open>warn_dtbits()\<close> and \<open>warn_stbits()\<close>; the shadow bytes are (signed) \<open>char\<close>.\<close>

definition warn_bits :: "(ptr \<Rightarrow> byte M) \<Rightarrow> ptr \<Rightarrow> size \<Rightarrow> unit M" where
  "warn_bits rdsh addr n =
     (if n < 0 then undefM else
     bindM (bits_loop rdsh (nat n) addr 0 0xff) (\<lambda>(or_bits, and_bits).
       if or_bits \<noteq> and_bits then warn_cont WWASMISC
       else thenM (whenM (or_bits = 0) (warn_cont WWASUND))
            (thenM (whenM (or_bits AND uint SH_INT \<noteq> 0) (warn_cont WWASINT))
            (thenM (whenM (or_bits AND uint SH_FLOAT \<noteq> 0) (warn_cont WWASFLOAT))
            (thenM (whenM (or_bits AND uint SH_DATAP \<noteq> 0) (warn_cont WWASDATAP))
                   (whenM (or_bits AND uint SH_INSP \<noteq> 0) (warn_cont WWASINSP)))))))"

definition expect :: "(ptr \<Rightarrow> byte M) \<Rightarrow> ptr \<Rightarrow> size \<Rightarrow> byte \<Rightarrow> int \<Rightarrow> unit M" where
  "expect rdsh addr n f wn =
     bindM (is_set rdsh addr n f) (\<lambda>b.
       if b then returnM () else thenM (warn wn) (warn_bits rdsh addr n))"

section \<open>What the checks decide\<close>

lemma ensure_eq [simp]: "P s \<Longrightarrow> ensure P m s = Ok () s" "\<not> P s \<Longrightarrow> ensure P m s = m s"
  by (simp_all add: ensure_def)

lemma keeps_ensure [keeps_rules]: "keeps I m anyR \<Longrightarrow> keeps I (ensure P m) anyR"
  unfolding keeps_def ensure_def by (simp split: outcome.split if_splits)

lemma and_wsizem1:
  assumes "wsize s = 2 \<or> wsize s = 4" and "wsizem1 s = wsize s - 1"
  shows "a AND wsizem1 s = a mod wsize s"
proof -
  have "a AND mask 1 = a mod 2" "a AND mask 2 = a mod 4"
    by (simp_all only: take_bit_eq_mask [symmetric] take_bit_eq_mod) simp_all
  then show ?thesis using assms by (auto simp: mask_eq_exp_minus_1)
qed

section \<open>The segment interface\<close>

locale byte_segment =
  fixes ok :: "mach \<Rightarrow> int \<Rightarrow> bool"
    and loc :: "mach \<Rightarrow> int \<Rightarrow> byte"
    and sh :: "mach \<Rightarrow> int \<Rightarrow> byte"
    and rd :: "ptr \<Rightarrow> byte M"
    and rdsh :: "ptr \<Rightarrow> byte M"
    and put :: "byte \<Rightarrow> ptr \<Rightarrow> byte \<Rightarrow> unit M"
    and upd :: "(int \<Rightarrow> byte) \<Rightarrow> (int \<Rightarrow> byte) \<Rightarrow> warn_state \<Rightarrow> mach \<Rightarrow> mach"
  assumes rd_ok: "ok s a \<Longrightarrow> rd a s = Ok (loc s a) s"
    and rdsh_ok: "ok s a \<Longrightarrow> rdsh a s = Ok (sh s a) s"
    and put_ok: "ok s a \<Longrightarrow> \<exists>w. put f a b s = Ok () (upd ((loc s)(a := b)) ((sh s)(a := f)) w s)"
    and loc_upd: "loc (upd d h w s) = d"
    and sh_upd: "sh (upd d h w s) = h"
    and ok_upd: "ok (upd d h w s) = ok s"
    and upd_upd: "upd d h w (upd d' h' w' s) = upd d h w s"
    and wst_upd: "s\<lparr>wst := w\<rparr> = upd (loc s) (sh s) w s"
begin

text \<open>A run of \<open>n\<close> addresses from \<open>a\<close> that the segment holds.\<close>

definition run_ok :: "mach \<Rightarrow> int \<Rightarrow> nat \<Rightarrow> bool" where
  "run_ok s a n \<longleftrightarrow> 0 \<le> a \<and> a + int n \<le> 2 ^ 63 \<and> (\<forall>i<n. ok s (a + int i))"

lemma run_ok_Suc: "run_ok s a (Suc n) \<longleftrightarrow> ok s a \<and> 0 \<le> a \<and> a < 2 ^ 63 \<and> run_ok s (a + 1) n"
proof -
  have "(\<forall>i<Suc n. ok s (a + int i)) \<longleftrightarrow> ok s a \<and> (\<forall>i<n. ok s (a + 1 + int i))"
    by (simp add: All_less_Suc2 add.assoc)
  then show ?thesis by (auto simp: run_ok_def)
qed

lemma run_ok_snoc: "run_ok s a (Suc n) \<Longrightarrow> ok s (a + int n) \<and> run_ok s a n"
  by (simp add: run_ok_def)

lemma run_ok_upd [simp]: "run_ok (upd d h w s) = run_ok s"
  by (rule ext)+ (simp add: run_ok_def ok_upd)

lemma run_ok_wst [simp]: "run_ok (s\<lparr>wst := w\<rparr>) = run_ok s"
  by (simp add: wst_upd)

lemma store_loop_ok:
  assumes "run_ok s a n"
  shows "\<exists>w. store_loop (put f) n a l s = Ok ()
    (upd (upd_bytes (loc s) a (le_bytes n l)) (upd_bytes (sh s) a (replicate n f)) w s)"
  using assms
proof (induction n arbitrary: a l s)
  case 0
  have "s = upd (loc s) (sh s) (wst s) s" using wst_upd [of "wst s" s] by simp
  then show ?case by (intro exI [of _ "wst s"]) (simp add: returnM_def)
next
  case (Suc n)
  then have a: "ok s a" "0 \<le> a" "a < 2 ^ 63" and r: "run_ok s (a + 1) n"
    by (simp_all add: run_ok_Suc)
  obtain w where w: "put f a (to_char l) s = Ok () (upd ((loc s)(a := to_char l)) ((sh s)(a := f)) w s)"
    using put_ok [OF a(1)] by blast
  let ?s = "upd ((loc s)(a := to_char l)) ((sh s)(a := f)) w s"
  obtain w' where "store_loop (put f) n (a + 1) (drop_bit 8 l) ?s = Ok ()
      (upd (upd_bytes (loc ?s) (a + 1) (le_bytes n (drop_bit 8 l)))
        (upd_bytes (sh ?s) (a + 1) (replicate n f)) w' ?s)"
    using Suc.IH [of ?s "a + 1" "drop_bit 8 l"] r by auto
  moreover have "ulong (a + 1) = a + 1" using a by (intro ulong_id) simp_all
  ultimately show ?case
    using w by (intro exI [of _ w']) (simp add: thenM_def loc_upd sh_upd upd_upd upd_bytes_Cons)
qed

lemma ldu_loop_ok:
  assumes "run_ok s a n" and "n \<le> 7" and "0 \<le> u" and "u < 256 ^ (8 - n)"
  shows "ldu_loop rd n (ulong (a + int n - 1)) u s
    = Ok (u * 256 ^ n + uval (rd_bytes (loc s) a n)) s"
  using assms
proof (induction n arbitrary: u)
  case 0
  then show ?case by (simp add: returnM_def rd_bytes_def)
next
  case (Suc n)
  have o: "ok s (a + int n)" "run_ok s a n" using run_ok_snoc [OF Suc.prems(1)] by simp_all
  have a: "0 \<le> a" "a + int n < 2 ^ 63" using Suc.prems(1) by (simp_all add: run_ok_def)
  have addr: "ulong (a + int (Suc n) - 1) = a + int n" using a by (simp add: ulong_id)
  have p: "256 ^ (8 - n) = 256 * (256::int) ^ (8 - Suc n)"
  proof -
    have "8 - n = Suc (8 - Suc n)" using Suc.prems(2) by simp
    then show ?thesis by (simp only: power_Suc)
  qed
  have le8: "(256::int) ^ (8 - Suc n) \<le> 256 ^ 7" by (rule power_increasing) simp_all
  have u8: "ulong (push_bit 8 u) = 256 * u"
    using Suc.prems(3,4) le8 by (simp add: push_bit_eq_mult ulong_id)
  have "push_bit 8 u OR btol b = 256 * u + btol b" for b by (rule shift_or_byte)
  then have acc: "ulong (push_bit 8 u) OR btol b = 256 * u + btol b" for b
    using u8 by (simp add: push_bit_eq_mult mult.commute)
  let ?v = "256 * u + btol (loc s (a + int n))"
  have "?v < 256 ^ (8 - n)"
  proof -
    have "u + 1 \<le> 256 ^ (8 - Suc n)" using Suc.prems(4) by simp
    then have "256 * u + 256 \<le> 256 ^ (8 - n)" unfolding p by simp
    then show ?thesis using btol_range(2) [of "loc s (a + int n)"] by linarith
  qed
  moreover have "0 \<le> ?v" using Suc.prems(3) btol_range(1) [of "loc s (a + int n)"] by simp
  ultimately have "ldu_loop rd n (ulong (a + int n - 1)) ?v s
      = Ok (?v * 256 ^ n + uval (rd_bytes (loc s) a n)) s"
    using Suc.IH [of ?v] o(2) Suc.prems(2) by simp
  moreover have "?v * 256 ^ n + uval (rd_bytes (loc s) a n) =
      u * 256 ^ Suc n + uval (rd_bytes (loc s) a (Suc n))"
    by (simp add: rd_bytes_snoc uval_append btol_def algebra_simps)
  ultimately show ?case
    using o(1) by (simp only: ldu_loop.simps addr) (simp add: rd_ok acc)
qed

lemma lds_loop_ok:
  assumes "run_ok s a n" and "n \<le> 7"
    and "- (128 * 256 ^ (7 - n)) \<le> l" and "l < 128 * 256 ^ (7 - n)"
  shows "lds_loop rd n (ulong (a + int n - 1)) l s
    = Ok (l * 256 ^ n + uval (rd_bytes (loc s) a n)) s"
  using assms
proof (induction n arbitrary: l)
  case 0
  then show ?case by (simp add: returnM_def rd_bytes_def)
next
  case (Suc n)
  have o: "ok s (a + int n)" "run_ok s a n" using run_ok_snoc [OF Suc.prems(1)] by simp_all
  have a: "0 \<le> a" "a + int n < 2 ^ 63" using Suc.prems(1) by (simp_all add: run_ok_def)
  have addr: "ulong (a + int (Suc n) - 1) = a + int n" using a by (simp add: ulong_id)
  have p: "256 ^ (7 - n) = 256 * (256::int) ^ (7 - Suc n)"
  proof -
    have "7 - n = Suc (7 - Suc n)" using Suc.prems(2) by simp
    then show ?thesis by (simp only: power_Suc)
  qed
  have le7: "(256::int) ^ (7 - Suc n) \<le> 256 ^ 6" by (rule power_increasing) simp_all
  have l8: "slong (push_bit 8 l) = 256 * l"
    using Suc.prems(3,4) le7 by (simp add: push_bit_eq_mult slong_id)
  have "push_bit 8 l OR btol b = 256 * l + btol b" for b by (rule shift_or_byte)
  then have acc: "slong (push_bit 8 l) OR btol b = 256 * l + btol b" for b
    using l8 by (simp add: push_bit_eq_mult mult.commute)
  let ?v = "256 * l + btol (loc s (a + int n))"
  have "?v < 128 * 256 ^ (7 - n)"
  proof -
    have "l + 1 \<le> 128 * 256 ^ (7 - Suc n)" using Suc.prems(4) by simp
    then have "256 * l + 256 \<le> 128 * 256 ^ (7 - n)" unfolding p by simp
    then show ?thesis using btol_range(2) [of "loc s (a + int n)"] by linarith
  qed
  moreover have "- (128 * 256 ^ (7 - n)) \<le> ?v"
    using Suc.prems(3) btol_range(1) [of "loc s (a + int n)"] unfolding p by linarith
  ultimately have "lds_loop rd n (ulong (a + int n - 1)) ?v s
      = Ok (?v * 256 ^ n + uval (rd_bytes (loc s) a n)) s"
    using Suc.IH [of ?v] o(2) Suc.prems(2) by simp
  moreover have "?v * 256 ^ n + uval (rd_bytes (loc s) a n) =
      l * 256 ^ Suc n + uval (rd_bytes (loc s) a (Suc n))"
    by (simp add: rd_bytes_snoc uval_append btol_def algebra_simps)
  ultimately show ?case
    using o(1) by (simp only: lds_loop.simps addr) (simp add: rd_ok acc)
qed

lemma load_u_ok:
  assumes "run_ok s a (nat n)" and "0 < n" and "n \<le> 7"
  shows "load_u rd n a s = Ok (uval (rd_bytes (loc s) a (nat n))) s"
  using ldu_loop_ok [OF assms(1), of 0] assms(2,3)
  by (simp add: load_u_def c_int_id add.assoc add_diff_eq)

lemma load_s_ok:
  assumes "run_ok s a (nat n)" and "0 < n" and "n \<le> 8"
  shows "load_s rd n a s = Ok (sval (rd_bytes (loc s) a (nat n))) s"
proof -
  define m where "m = nat (n - 1)"
  have n: "n = int m + 1" "nat n = Suc m" "m \<le> 7" using assms(2,3) by (simp_all add: m_def)
  have a: "0 \<le> a" "a + int m < 2 ^ 63"
    using assms(1) by (simp_all add: run_ok_def n(2))
  have r: "ok s (a + int m)" "run_ok s a m"
    using run_ok_snoc assms(1) unfolding n(2) by blast+
  have A: "ulong (a + (n - 2) + 1) = a + int m"
    using a by (simp add: n(1) ulong_id)
  have B: "ulong (a + (n - 2)) = ulong (a + int m - 1)" by (simp add: n(1) algebra_simps)
  have C: "nat (c_int (n - 2) + 1) = m" using n by (simp add: c_int_id)
  have b: "- 128 \<le> btos (loc s (a + int m))" "btos (loc s (a + int m)) < 128"
    by (rule btos_range)+
  have le: "(1::int) \<le> 256 ^ (7 - m)" by (rule one_le_power) simp
  have "lds_loop rd m (ulong (a + int m - 1)) (btos (loc s (a + int m))) s
      = Ok (btos (loc s (a + int m)) * 256 ^ m + uval (rd_bytes (loc s) a m)) s"
    using b le by (intro lds_loop_ok r n(3)) linarith+
  then show ?thesis
    unfolding load_s_def A B C n(2)
    by (simp add: rd_ok r(1) rd_bytes_snoc sval_snoc btos_def)
qed

lemma p_in_ok:
  assumes "run_ok s a (nat (psize s))" and "psize s = 2 \<or> psize s = 4"
  shows "p_in rd a s = Ok (uval (rd_bytes (loc s) a (nat (psize s)))) s"
  using assms(2)
proof
  assume p: "psize s = 2"
  then have "0 \<le> a" "a + 2 \<le> 2 ^ 63" "ok s a" "ok s (a + 1)"
    using assms(1) by (auto simp: run_ok_def numeral_2_eq_2 All_less_Suc2)
  then show ?thesis
    by (simp add: p_in_def p rd_ok ulong_id returnM_def or_bytes2 uval_rd2)
next
  assume p: "psize s = 4"
  then have "0 \<le> a" "a + 4 \<le> 2 ^ 63" "ok s a" "ok s (a + 1)" "ok s (a + 2)" "ok s (a + 3)"
    using assms(1) by (auto simp: run_ok_def eval_nat_numeral All_less_Suc2 add.assoc)
  then show ?thesis
    by (simp add: p_in_def p rd_ok ulong_id returnM_def or_bytes4 uval_rd4)
qed

text \<open>The shadow checks touch the warning state only.\<close>

lemma bits_loop_ok: "run_ok s a n \<Longrightarrow> \<exists>r. bits_loop rdsh n a x y s = Ok r s"
proof (induction n arbitrary: a x y)
  case (Suc n)
  then have o: "ok s a" "run_ok s (a + 1) n" "ulong (a + 1) = a + 1"
    by (simp_all add: run_ok_Suc ulong_id)
  then show ?case using Suc.IH [OF o(2)] by (simp add: rdsh_ok)
qed (simp add: returnM_def)

lemma warn_bits_ok:
  assumes "run_ok s a (nat n)" and "0 \<le> n"
  shows "\<exists>w. warn_bits rdsh a n (s\<lparr>wst := w0\<rparr>) = Ok () (s\<lparr>wst := w\<rparr>)"
proof -
  obtain x y where r: "bits_loop rdsh (nat n) a 0 0xff (s\<lparr>wst := w0\<rparr>) = Ok (x, y) (s\<lparr>wst := w0\<rparr>)"
    using bits_loop_ok [of "s\<lparr>wst := w0\<rparr>" a "nat n", where x = 0 and y = 255] assms(1)
    by auto
  let ?k = "if x \<noteq> y then warn_cont WWASMISC
       else thenM (whenM (x = 0) (warn_cont WWASUND))
            (thenM (whenM (x AND uint SH_INT \<noteq> 0) (warn_cont WWASINT))
            (thenM (whenM (x AND uint SH_FLOAT \<noteq> 0) (warn_cont WWASFLOAT))
            (thenM (whenM (x AND uint SH_DATAP \<noteq> 0) (warn_cont WWASDATAP))
                   (whenM (x AND uint SH_INSP \<noteq> 0) (warn_cont WWASINSP)))))"
  have "wst_only ?k" by (simp add: wst_only_rules)
  then obtain w where "?k (s\<lparr>wst := w0\<rparr>) = Ok () (s\<lparr>wst := w0\<rparr>\<lparr>wst := w\<rparr>)"
    using wst_onlyD by blast
  then show ?thesis using assms(2) by (intro exI [of _ w]) (simp add: warn_bits_def r)
qed

lemma expect_ok:
  assumes "run_ok s a (nat n)" and "0 < n"
  shows "\<exists>w. expect rdsh a n f wn s = Ok () (s\<lparr>wst := w\<rparr>)"
proof -
  have "ok s a" "ok s (a + (n - 1))" "ulong (a + (n - 1)) = a + (n - 1)"
  proof -
    obtain m where m: "nat n = Suc m" using assms(2) by (cases "nat n") simp_all
    then have n: "n - 1 = int m" using assms(2) by simp
    show "ok s a" using assms(1) by (simp add: m run_ok_Suc)
    show "ok s (a + (n - 1))" using run_ok_snoc assms(1) unfolding n m by blast
    show "ulong (a + (n - 1)) = a + (n - 1)"
      using assms by (simp add: run_ok_def ulong_id)
  qed
  then have "is_set rdsh a n f s = Ok (sh s a AND f \<noteq> 0 \<and> sh s (a + (n - 1)) AND f \<noteq> 0) s"
    by (simp add: is_set_def rdsh_ok returnM_def)
  moreover obtain w where w: "warn wn s = Ok () (s\<lparr>wst := w\<rparr>)"
    using wst_onlyD [OF wst_only_warn(1)] by blast
  moreover obtain w' where "warn_bits rdsh a n (s\<lparr>wst := w\<rparr>) = Ok () (s\<lparr>wst := w'\<rparr>)"
    using warn_bits_ok [OF assms(1), of w] assms(2) by (meson less_imp_le)
  moreover obtain w'' where "returnM () s = Ok () (s\<lparr>wst := w''\<rparr>)"
    using wst_onlyD [OF wst_only_return] by blast
  ultimately show ?thesis
    by (cases "sh s a AND f \<noteq> 0 \<and> sh s (a + (n - 1)) AND f \<noteq> 0")
      (intro exI [of _ w''], simp add: expect_def, intro exI [of _ w'], simp add: expect_def thenM_def)
qed

text \<open>A warning and a load that only reads.\<close>

lemma expect_then:
  assumes "run_ok s a (nat n)" and "0 < n" and "\<And>w. m (s\<lparr>wst := w\<rparr>) = Ok v (s\<lparr>wst := w\<rparr>)"
  shows "\<exists>w. thenM (expect rdsh a n f wn) m s = Ok v (s\<lparr>wst := w\<rparr>)"
proof -
  obtain w where "expect rdsh a n f wn s = Ok () (s\<lparr>wst := w\<rparr>)"
    using expect_ok [OF assms(1,2)] by blast
  then show ?thesis by (intro exI [of _ w]) (simp add: assms(3))
qed

lemma loc_wst [simp]: "loc (s\<lparr>wst := w\<rparr>) = loc s"
  by (simp add: wst_upd loc_upd)

lemma expect_load_u:
  assumes "run_ok s a (nat n)" and "0 < n" and "n \<le> 7"
  shows "\<exists>w. thenM (expect rdsh a n f wn) (load_u rd n a) s
    = Ok (uval (rd_bytes (loc s) a (nat n))) (s\<lparr>wst := w\<rparr>)"
  using assms by (intro expect_then) (simp_all add: load_u_ok)

lemma expect_load_s:
  assumes "run_ok s a (nat n)" and "0 < n" and "n \<le> 8"
  shows "\<exists>w. thenM (expect rdsh a n f wn) (load_s rd n a) s
    = Ok (sval (rd_bytes (loc s) a (nat n))) (s\<lparr>wst := w\<rparr>)"
  using assms by (intro expect_then) (simp_all add: load_s_ok)

lemma expect_p_in:
  assumes "run_ok s a (nat (psize s))" and "psize s = 2 \<or> psize s = 4"
  shows "\<exists>w. thenM (expect rdsh a (psize s) f wn) (p_in rd a) s
    = Ok (uval (rd_bytes (loc s) a (nat (psize s)))) (s\<lparr>wst := w\<rparr>)"
proof (rule expect_then [OF assms(1)])
  fix w
  show "p_in rd a (s\<lparr>wst := w\<rparr>) = Ok (uval (rd_bytes (loc s) a (nat (psize s)))) (s\<lparr>wst := w\<rparr>)"
    using p_in_ok [of "s\<lparr>wst := w\<rparr>" a] assms by simp
qed (use assms(2) in auto)

end

end
