(* ===== verification/Invariant.thy ===== *)
theory Invariant
  imports Memory
begin

text \<open>
  The invariant of the EM machine and its preservation by the primitives of theory
  \<open>Memory\<close>.  It says what the interpreter relies on without checking: the capacity
  parameters are those \<open>init()\<close> computes, the registers delimit parts of the arrays
  really allocated, and stack pointer and local base are word aligned.
\<close>

section \<open>Capacity parameters\<close>

text \<open>\<open>init_rsb()\<close> of \<open>rsb.c\<close> and the size dependent assignments of \<open>init()\<close>;
  \<open>rd_header()\<close> sets the sizes themselves.\<close>

definition LINSIZE :: size where "LINSIZE = 4"

definition init_rsb :: "'a em_cap_scheme \<Rightarrow> 'a em_cap_scheme" where
  "init_rsb s =
     (let s = s\<lparr>rsb_rsbcode := 0\<rparr>;
          s = s\<lparr>rsb_PI := wsize s\<rparr>;
          s = s\<lparr>rsb_PC := rsb_PI s + psize s\<rparr>;
          s = s\<lparr>rsb_LB := rsb_PC s + psize s\<rparr>;
          s = s\<lparr>rsb_LIN := rsb_LB s + psize s\<rparr>;
          s = s\<lparr>rsb_FIL := rsb_LIN s + LINSIZE\<rparr>
      in s\<lparr>rsbsize := rsb_FIL s + psize s\<rparr>)"

definition init_sizes :: "'a em_cap_scheme \<Rightarrow> 'a em_cap_scheme" where
  "init_sizes s =
     (let s = init_rsb s in
      s\<lparr>i_minsw := (if wsize s = 2 then - 32768 else - 2147483648),
        i_maxsw := (if wsize s = 2 then 32767 else 2147483647),
        i_maxuw := (if wsize s = 2 then 65535 else 4294967295),
        max_addr := ulong ((if psize s = 2 then 65535 else 2147483647) sdiv wsize s * wsize s - 1),
        min_off := (if psize s = 2 then - 32767 - 1 else - 2147483647 - 1),
        max_off := (if psize s = 2 then 32767 else 2147483647)\<rparr>)"

text \<open>The three combinations of word and pointer size that \<open>rd_header()\<close> accepts.\<close>

definition sizes_ok :: "'a em_cap_scheme \<Rightarrow> bool" where
  "sizes_ok s \<longleftrightarrow>
     (wsize s = 2 \<and> psize s = 2 \<or> wsize s = 2 \<and> psize s = 4 \<or> wsize s = 4 \<and> psize s = 4)
     \<and> dwsize s = 2 * wsize s \<and> wsizem1 s = wsize s - 1"

definition cap_ok :: "'a em_cap_scheme \<Rightarrow> bool" where
  "cap_ok s \<longleftrightarrow> sizes_ok s \<and> init_sizes s = s"

lemma cap_ok_init: "sizes_ok s \<Longrightarrow> cap_ok (init_sizes s)"
  by (simp add: cap_ok_def sizes_ok_def init_sizes_def init_rsb_def Let_def)

lemma cap_fields:
  assumes "cap_ok s"
  shows "wsize s = 2 \<or> wsize s = 4" and "psize s = 2 \<or> psize s = 4" and "wsize s \<le> psize s"
    and "dwsize s = 2 * wsize s" and "wsizem1 s = wsize s - 1"
    and "rsb_rsbcode s = 0" and "rsb_PI s = wsize s" and "rsb_PC s = wsize s + psize s"
    and "rsb_LB s = wsize s + 2 * psize s" and "rsb_LIN s = wsize s + 3 * psize s"
    and "rsb_FIL s = wsize s + 3 * psize s + 4" and "rsbsize s = wsize s + 4 * psize s + 4"
    and "i_minsw s = - (2 ^ (8 * nat (wsize s) - 1))" and "i_maxsw s = 2 ^ (8 * nat (wsize s) - 1) - 1"
    and "i_maxuw s = 2 ^ (8 * nat (wsize s)) - 1"
    and "max_addr s = (if psize s = 2 then 65533 else if wsize s = 2 then 2147483645 else 2147483643)"
    and "min_off s = (if psize s = 2 then - 32768 else - 2147483648)"
    and "max_off s = (if psize s = 2 then 32767 else 2147483647)"
proof -
  have e: "init_sizes s = s" and z: "sizes_ok s" using assms by (simp_all add: cap_ok_def)
  show "wsize s = 2 \<or> wsize s = 4" "psize s = 2 \<or> psize s = 4" "wsize s \<le> psize s"
    "dwsize s = 2 * wsize s" "wsizem1 s = wsize s - 1"
    using z by (auto simp: sizes_ok_def)
  show "rsb_rsbcode s = 0" "rsb_PI s = wsize s" "rsb_PC s = wsize s + psize s"
    "rsb_LB s = wsize s + 2 * psize s" "rsb_LIN s = wsize s + 3 * psize s"
    "rsb_FIL s = wsize s + 3 * psize s + 4" "rsbsize s = wsize s + 4 * psize s + 4"
    "min_off s = (if psize s = 2 then - 32768 else - 2147483648)"
    "max_off s = (if psize s = 2 then 32767 else 2147483647)"
    by (subst e [symmetric]; simp add: init_sizes_def init_rsb_def Let_def LINSIZE_def)+
  show "i_minsw s = - (2 ^ (8 * nat (wsize s) - 1))" "i_maxsw s = 2 ^ (8 * nat (wsize s) - 1) - 1"
    "i_maxuw s = 2 ^ (8 * nat (wsize s)) - 1"
    by (subst e [symmetric], use z in \<open>auto simp: init_sizes_def init_rsb_def Let_def sizes_ok_def\<close>)+
  show "max_addr s = (if psize s = 2 then 65533 else if wsize s = 2 then 2147483645 else 2147483643)"
    by (subst e [symmetric], use z in \<open>auto simp: init_sizes_def init_rsb_def Let_def sizes_ok_def
      signed_divide_int_def ulong_id\<close>)
qed

section \<open>The invariant\<close>

definition prog_ok :: "'a em_prog_scheme \<Rightarrow> bool" where
  "prog_ok c \<longleftrightarrow> cap_ok c \<and> MLim c = max_addr c \<and> 0 \<le> HB c \<and> 0 \<le> FRALimit c
     \<and> FRALimit c < 2 ^ 31"

definition prog_of :: "mach \<Rightarrow> em_prog" where
  "prog_of s = em_prog.truncate s"

definition regs_ok :: "mach \<Rightarrow> bool" where
  "regs_ok s \<longleftrightarrow>
     0 \<le> HP s \<and> HP s \<le> HL s \<and> HL s \<le> data_len s \<and> data_len s < 2 ^ 32
     \<and> 0 \<le> SP s \<and> SP s \<le> LB s \<and> LB s \<le> MLim s + 1
     \<and> wsize s dvd SP s \<and> wsize s dvd LB s
     \<and> MLim s + 1 - SP s \<le> stack_len s \<and> SL s = ulong (MLim s + 1 - stack_len s)
     \<and> stack_len s < 2 ^ 32
     \<and> int (length (FRA s)) = FRALimit s \<and> int (length (FRA_sh s)) = FRALimit s
     \<and> FRASize s \<le> FRALimit s"

definition minv :: "em_prog \<Rightarrow> mach \<Rightarrow> bool" where
  "minv c s \<longleftrightarrow> prog_of s = c \<and> prog_ok c \<and> regs_ok s"

lemma prog_of_update [simp]:
  "prog_of (s\<lparr>PI := x1\<rparr>) = prog_of s" "prog_of (s\<lparr>PC := x2\<rparr>) = prog_of s"
  "prog_of (s\<lparr>HP := x3\<rparr>) = prog_of s" "prog_of (s\<lparr>SP := x4\<rparr>) = prog_of s"
  "prog_of (s\<lparr>LB := x5\<rparr>) = prog_of s" "prog_of (s\<lparr>AB := x6\<rparr>) = prog_of s"
  "prog_of (s\<lparr>ES := x7\<rparr>) = prog_of s" "prog_of (s\<lparr>ES_def := x8\<rparr>) = prog_of s"
  "prog_of (s\<lparr>OnTrap := x9\<rparr>) = prog_of s" "prog_of (s\<lparr>IgnMask := x10\<rparr>) = prog_of s"
  "prog_of (s\<lparr>TrapPI := x11\<rparr>) = prog_of s" "prog_of (s\<lparr>FRA := x12\<rparr>) = prog_of s"
  "prog_of (s\<lparr>FRA_sh := x13\<rparr>) = prog_of s" "prog_of (s\<lparr>FRASize := x14\<rparr>) = prog_of s"
  "prog_of (s\<lparr>FRA_def := x15\<rparr>) = prog_of s" "prog_of (s\<lparr>data := x16\<rparr>) = prog_of s"
  "prog_of (s\<lparr>data_sh := x17\<rparr>) = prog_of s" "prog_of (s\<lparr>data_len := x18\<rparr>) = prog_of s"
  "prog_of (s\<lparr>HL := x19\<rparr>) = prog_of s" "prog_of (s\<lparr>stack := x20\<rparr>) = prog_of s"
  "prog_of (s\<lparr>stack_sh := x21\<rparr>) = prog_of s" "prog_of (s\<lparr>stack_len := x22\<rparr>) = prog_of s"
  "prog_of (s\<lparr>SL := x23\<rparr>) = prog_of s" "prog_of (s\<lparr>LIN := x24\<rparr>) = prog_of s"
  "prog_of (s\<lparr>FIL := x25\<rparr>) = prog_of s" "prog_of (s\<lparr>AB_list := x26\<rparr>) = prog_of s"
  "prog_of (s\<lparr>frame_limit := x27\<rparr>) = prog_of s" "prog_of (s\<lparr>curr_frame := x28\<rparr>) = prog_of s"
  "prog_of (s\<lparr>running := x29\<rparr>) = prog_of s" "prog_of (s\<lparr>wst := x30\<rparr>) = prog_of s"
  "prog_of (s\<lparr>unix := x31\<rparr>) = prog_of s"
  by (simp_all add: prog_of_def em_prog.truncate_def)

lemma prog_of_fields:
  assumes "prog_of s = c"
  shows "wsize s = wsize c" "psize s = psize c" "dwsize s = dwsize c" "wsizem1 s = wsizem1 c"
    "i_minsw s = i_minsw c" "i_maxsw s = i_maxsw c" "i_maxuw s = i_maxuw c" "min_off s = min_off c"
    "max_off s = max_off c" "rsb_rsbcode s = rsb_rsbcode c" "rsb_PI s = rsb_PI c"
    "rsb_PC s = rsb_PC c" "rsb_LB s = rsb_LB c" "rsb_LIN s = rsb_LIN c" "rsb_FIL s = rsb_FIL c"
    "rsbsize s = rsbsize c" "MLim s = MLim c" "HB s = HB c" "DB s = DB c" "NProc s = NProc c"
    "FRALimit s = FRALimit c" "proctab s = proctab c" "max_addr s = max_addr c"
  by (simp_all add: assms [symmetric] prog_of_def em_prog.truncate_def)

lemma minvD:
  assumes "minv c s"
  shows "prog_of s = c" "prog_ok c" "regs_ok s" "cap_ok c"
  using assms by (simp_all add: minv_def prog_ok_def)

text \<open>Under the invariant the parameters of the state are those of the program.\<close>

lemmas minv_fields = prog_of_fields [OF minvD(1)]
lemmas minv_caps = cap_fields [OF minvD(4)]

lemma minv_regs:
  assumes "minv c s"
  shows "0 \<le> HP s" "HP s \<le> HL s" "HL s \<le> data_len s" "data_len s < 2 ^ 32"
    "0 \<le> SP s" "SP s \<le> LB s" "LB s \<le> MLim c + 1" "wsize c dvd SP s" "wsize c dvd LB s"
    "MLim c + 1 - SP s \<le> stack_len s" "SL s = ulong (MLim c + 1 - stack_len s)"
    "stack_len s < 2 ^ 32" "int (length (FRA s)) = FRALimit c"
    "int (length (FRA_sh s)) = FRALimit c" "FRASize s \<le> FRALimit c"
  using minvD(3) [OF assms] by (simp_all add: regs_ok_def minv_fields [OF assms])

lemma prog_MLim:
  assumes "prog_ok c"
  shows "0 \<le> MLim c" "MLim c + 1 < 2 ^ 31" "wsize c dvd MLim c + 1"
proof -
  have c: "cap_ok c" "MLim c = max_addr c" using assms by (simp_all add: prog_ok_def)
  then have m: "MLim c = (if psize c = 2 then 65533 else if wsize c = 2 then 2147483645 else 2147483643)"
    using cap_fields(16) by metis
  then show "0 \<le> MLim c" "MLim c + 1 < 2 ^ 31" by simp_all
  show "wsize c dvd MLim c + 1" using m cap_fields(1-3) [OF c(1)] by auto
qed

lemmas minv_MLim = prog_MLim [OF minvD(2)]

lemma minv_SP:
  assumes "minv c s"
  shows "0 \<le> SP s" "SP s \<le> MLim c + 1" "MLim c + 1 < 2147483648"
  using minv_regs(5-7) [OF assms] minv_MLim(2) [OF assms] by simp_all

text \<open>Fields the invariant does not constrain.\<close>

lemma minv_update [simp]:
  "minv c (s\<lparr>PI := x1\<rparr>) = minv c s" "minv c (s\<lparr>PC := x2\<rparr>) = minv c s"
  "minv c (s\<lparr>AB := x6\<rparr>) = minv c s" "minv c (s\<lparr>ES := x7\<rparr>) = minv c s"
  "minv c (s\<lparr>ES_def := x8\<rparr>) = minv c s" "minv c (s\<lparr>OnTrap := x9\<rparr>) = minv c s"
  "minv c (s\<lparr>IgnMask := x10\<rparr>) = minv c s" "minv c (s\<lparr>TrapPI := x11\<rparr>) = minv c s"
  "minv c (s\<lparr>FRA_def := x15\<rparr>) = minv c s" "minv c (s\<lparr>data := x16\<rparr>) = minv c s"
  "minv c (s\<lparr>data_sh := x17\<rparr>) = minv c s" "minv c (s\<lparr>stack := x20\<rparr>) = minv c s"
  "minv c (s\<lparr>stack_sh := x21\<rparr>) = minv c s" "minv c (s\<lparr>LIN := x24\<rparr>) = minv c s"
  "minv c (s\<lparr>FIL := x25\<rparr>) = minv c s" "minv c (s\<lparr>AB_list := x26\<rparr>) = minv c s"
  "minv c (s\<lparr>frame_limit := x27\<rparr>) = minv c s" "minv c (s\<lparr>curr_frame := x28\<rparr>) = minv c s"
  "minv c (s\<lparr>running := x29\<rparr>) = minv c s" "minv c (s\<lparr>wst := x30\<rparr>) = minv c s"
  "minv c (s\<lparr>unix := x31\<rparr>) = minv c s"
  by (simp_all add: minv_def regs_ok_def)

lemma wst_free_minv [simp]: "wst_free (minv c)"
  by (simp add: wst_free_def)

lemmas keeps_warns [keeps_rules] = wst_free_minv keeps_warn keeps_wtrap

lemma keeps_warn_cont [keeps_rules]: "wst_free I \<Longrightarrow> keeps I (warn_cont n) anyR"
  unfolding warn_cont_def by (rule keeps_modify) (simp add: warningcont_wst_free)

section \<open>Routines that only read\<close>

text \<open>Every predicate that ignores the warning state survives the loads and the checks; in
  particular \<open>only_wst t\<close>, which says that nothing but the warning state differs from \<open>t\<close>.\<close>

definition only_wst :: "mach \<Rightarrow> mach \<Rightarrow> bool" where
  "only_wst t s \<longleftrightarrow> (\<exists>w. s = t\<lparr>wst := w\<rparr>)"

lemma only_wst_refl: "only_wst t t"
  unfolding only_wst_def by (intro exI [of _ "wst t"]) simp

lemma wst_free_only_wst: "wst_free (only_wst t)"
  unfolding wst_free_def only_wst_def
proof (intro allI)
  fix s w
  show "(\<exists>w'. s\<lparr>wst := w\<rparr> = t\<lparr>wst := w'\<rparr>) = (\<exists>w. s = t\<lparr>wst := w\<rparr>)"
  proof
    assume "\<exists>w'. s\<lparr>wst := w\<rparr> = t\<lparr>wst := w'\<rparr>"
    then obtain w' where "s\<lparr>wst := w\<rparr> = t\<lparr>wst := w'\<rparr>" ..
    then have "s\<lparr>wst := w\<rparr>\<lparr>wst := wst s\<rparr> = t\<lparr>wst := w'\<rparr>\<lparr>wst := wst s\<rparr>" by (simp only:)
    then have "s = t\<lparr>wst := wst s\<rparr>" by simp
    then show "\<exists>w. s = t\<lparr>wst := w\<rparr>" ..
  next
    assume "\<exists>w. s = t\<lparr>wst := w\<rparr>"
    then obtain w' where "s = t\<lparr>wst := w'\<rparr>" ..
    then have "s\<lparr>wst := w\<rparr> = t\<lparr>wst := w\<rparr>" by simp
    then show "\<exists>w'. s\<lparr>wst := w\<rparr> = t\<lparr>wst := w'\<rparr>" ..
  qed
qed

lemma only_wst_Ok:
  assumes "\<And>I. wst_free I \<Longrightarrow> keeps I m anyR" and "m s = Ok x s'"
  shows "\<exists>w. s' = s\<lparr>wst := w\<rparr>"
  using keeps_OkD [OF assms(1) [OF wst_free_only_wst] only_wst_refl assms(2)]
  unfolding only_wst_def by blast

lemma only_wst_Trap:
  assumes "\<And>I. wst_free I \<Longrightarrow> keeps I m anyR" and "m s = Trap n s'"
  shows "\<exists>w. s' = s\<lparr>wst := w\<rparr>"
  using keeps_TrapD [OF assms(1) [OF wst_free_only_wst] only_wst_refl assms(2)]
  unfolding only_wst_def by blast

lemma keeps_rd [keeps_rules]:
  "keeps I (rd_data a) anyR" "keeps I (rd_data_sh a) anyR"
  "keeps I (rd_stack a) anyR" "keeps I (rd_stack_sh a) anyR"
  by (simp_all add: keeps_def rd_data_def rd_data_sh_def rd_stack_def rd_stack_sh_def)

lemma keeps_checks [keeps_rules]:
  "keeps I (ch_aligned a n) anyR" "keeps I (ch_wordaligned a) anyR"
  "keeps I (ch_in_data a n) anyR" "keeps I (ch_in_stack a n) anyR"
  "keeps I (ch_w_in_stack a) anyR"
  unfolding ch_wordaligned_def ch_in_data_def ch_in_stack_def ch_w_in_stack_def
  by (simp_all add: keeps_ensure keeps_trap) (simp add: keeps_def ch_aligned_def Let_def)

lemma keeps_ch_prot [keeps_rules]:
  "wst_free I \<Longrightarrow> keeps I (ch_dt_prot a) anyR" "wst_free I \<Longrightarrow> keeps I (ch_st_prot a) anyR"
  unfolding ch_dt_prot_def ch_st_prot_def by (rule keeps_rules | assumption)+

lemma keeps_ldu_loop: "(\<And>a. keeps I (rd a) anyR) \<Longrightarrow> keeps I (ldu_loop rd n a u) anyR"
  by (induction n arbitrary: a u) (auto intro: keeps_return keeps_bind)

lemma keeps_lds_loop: "(\<And>a. keeps I (rd a) anyR) \<Longrightarrow> keeps I (lds_loop rd n a u) anyR"
  by (induction n arbitrary: a u) (auto intro: keeps_return keeps_bind)

lemma keeps_load [keeps_rules]:
  assumes "\<And>a. keeps I (rd a) anyR"
  shows "keeps I (load_u rd n a) anyR" "keeps I (load_s rd n a) anyR"
  unfolding load_u_def load_s_def
  by (rule keeps_ldu_loop [OF assms]) (rule keeps_bind [OF assms], rule keeps_lds_loop [OF assms])

definition word32 :: "int \<Rightarrow> bool" where
  "word32 p \<longleftrightarrow> 0 \<le> p \<and> p < 2 ^ 32"

lemma keeps_p_in [keeps_rules]:
  assumes "\<And>a. keeps I (rd a) anyR"
  shows "keeps I (p_in rd a) word32"
proof -
  have "word32 (btol b0 + 256 * btol b1)"
    "word32 (btol b0 + 256 * (btol b1 + 256 * (btol b2 + 256 * btol b3)))" for b0 b1 b2 b3
    using btol_range [of b0] btol_range [of b1] btol_range [of b2] btol_range [of b3]
    unfolding word32_def by (simp, linarith)+
  then show ?thesis
    unfolding p_in_def or_bytes4 or_bytes2
    by (intro keeps_with keeps_bind [OF assms] keeps_if keeps_return)
qed

lemma keeps_w_in_stack [keeps_rules]: "keeps I (w_in_stack a) anyR"
  unfolding w_in_stack_def by (rule keeps_rules | simp)+

lemma keeps_bits_loop: "(\<And>a. keeps I (rd a) anyR) \<Longrightarrow> keeps I (bits_loop rd n a x y) anyR"
proof (induction n arbitrary: a x y)
  case (Suc n)
  show ?case unfolding bits_loop.simps by (rule keeps_bind [OF Suc.prems Suc.IH [OF Suc.prems]])
qed (simp add: keeps_return)

lemma keeps_is_set: "(\<And>a. keeps I (rd a) anyR) \<Longrightarrow> keeps I (is_set rd a n f) anyR"
  unfolding is_set_def by (rule keeps_bind keeps_if keeps_return | assumption | simp)+

lemma keeps_warn_bits:
  "wst_free I \<Longrightarrow> (\<And>a. keeps I (rd a) anyR) \<Longrightarrow> keeps I (warn_bits rd a n) anyR"
  unfolding warn_bits_def
  by (intro keeps_if keeps_undef keeps_bind [OF keeps_bits_loop] keeps_case_prod keeps_then
      keeps_when keeps_warn_cont)

lemma keeps_expect [keeps_rules]:
  assumes "wst_free I" and "\<And>a. keeps I (rdsh a) anyR"
  shows "keeps I (expect rdsh a n f wn) anyR"
  unfolding expect_def
  by (rule keeps_bind keeps_is_set keeps_if keeps_then keeps_warn_bits keeps_warns
      keeps_return assms TrueI)+

section \<open>Writes\<close>

lemma keeps_wr [keeps_rules]:
  "keeps (minv c) (wr_data f a b) anyR" "keeps (minv c) (wr_data_sh f a) anyR"
  "keeps (minv c) (wr_stack f a b) anyR" "keeps (minv c) (wr_stack_sh f a) anyR"
  by (simp_all add: keeps_def wr_data_def wr_data_sh_def wr_stack_def wr_stack_sh_def)

lemma keeps_poke [keeps_rules]: "keeps (minv c) (poke_stack a b) anyR"
  by (simp add: keeps_def poke_stack_def)

lemma keeps_put [keeps_rules]:
  "keeps (minv c) (dt_put f a b) anyR" "keeps (minv c) (st_put f a b) anyR"
  unfolding dt_put_def st_put_def by (rule keeps_rules)+

lemma keeps_store_loop [keeps_rules]:
  "(\<And>a b. keeps I (put a b) anyR) \<Longrightarrow> keeps I (store_loop put n a l) anyR"
  by (induction n arbitrary: a l) (auto intro: keeps_return keeps_then)

lemma keeps_prot [keeps_rules]:
  "keeps (minv c) (dt_prot a n) anyR" "keeps (minv c) (dt_unprot a n) anyR"
  "keeps (minv c) (st_prot a n) anyR"
  unfolding dt_prot_def dt_unprot_def st_prot_def or_sh2_def by (rule keeps_rules)+

end
