(* ===== verification/Data.thy ===== *)
theory Data
  imports Invariant
begin

text \<open>
  Global data and heap: \<open>util/int/data.c\<close>.  The data segment is interpreted as a
  \<open>byte_segment\<close>, which gives every store and load routine its meaning on the bytes.
\<close>

section \<open>Operations\<close>

definition HEAPSIZE :: long where "HEAPSIZE = 1000"

text \<open>\<open>for (a = from; a < to; a++) dt_undef(a);\<close>\<close>

definition dt_clear_area :: "ptr \<Rightarrow> ptr \<Rightarrow> unit M" where
  "dt_clear_area from to = forM (nat (to - from)) from (wr_data_sh SH_UNDEF)"

definition init_data :: "ptr \<Rightarrow> unit M" where
  "init_data hb = seqM [
     modifyM (\<lambda>s. s\<lparr>HB := hb\<rparr>),
     modifyM (\<lambda>s. s\<lparr>HP := HB s\<rparr>),
     modifyM (\<lambda>s. s\<lparr>HL := ulong (HB s + HEAPSIZE)\<rparr>),
     withM (\<lambda>s. bindM (Malloc (slong (HL s)) ''data space'') (\<lambda>n. modifyM (\<lambda>s. s\<lparr>data_len := n\<rparr>))),
     withM (\<lambda>s. bindM (Malloc (slong (HL s)) ''shadowspace for data'') (\<lambda>n. returnM ())),
     withM (\<lambda>s. dt_clear_area 0 (HL s))]"

text \<open>The branch \<open>if (p > HL) \<dots>\<close> of \<open>newHP\<close>; both arrays get the same size.\<close>

definition extend_heap :: "ptr \<Rightarrow> unit M" where
  "extend_heap p = seqM [
     modifyM (\<lambda>s. s\<lparr>HL := ulong (allocfrac_p p - 1)\<rparr>),
     withM (\<lambda>s. bindM (Realloc (slong (HL s + 1)) ''heap space'') (\<lambda>n. modifyM (\<lambda>s. s\<lparr>data_len := n\<rparr>))),
     withM (\<lambda>s. bindM (Realloc (slong (HL s + 1)) ''shadowspace for heap'') (\<lambda>n. returnM ()))]"

definition newHP :: "ptr \<Rightarrow> unit M" where
  "newHP p = seqM [
     withM (\<lambda>s. whenM (in_gda s p) (wtrap WHPGDA EHEAP)),
     withM (\<lambda>s. whenM (in_stack s p) (wtrap WHPSTACK EHEAP)),
     withM (\<lambda>s. whenM (\<not> is_wordaligned s p) (wtrap WHPODD EHEAP)),
     withM (\<lambda>s. whenM (maxheap s \<noteq> 0 \<and> ulong (p - HB s) > ulong (maxheap s)) (wtrap WEHEAP EHEAP)),
     withM (\<lambda>s. whenM (p > HL s) (extend_heap p)),
     withM (\<lambda>s. whenM (p > HP s) (dt_clear_area (HP s) p)),
     modifyM (\<lambda>s. s\<lparr>HP := p\<rparr>)]"

definition dt_stdp :: "ptr \<Rightarrow> ptr \<Rightarrow> unit M" where
  "dt_stdp addr ap = withM (\<lambda>s. seqM [
     ch_in_data addr (psize s),
     ch_wordaligned addr,
     store_loop (dt_put SH_DATAP) (nat (psize s)) addr (slong ap)])"

definition dt_stip :: "ptr \<Rightarrow> ptr \<Rightarrow> unit M" where
  "dt_stip addr ap = withM (\<lambda>s. seqM [
     ch_in_data addr (psize s),
     ch_wordaligned addr,
     store_loop (dt_put SH_INSP) (nat (psize s)) addr (slong ap)])"

text \<open>A zero of pointer size is marked both as integer and as data pointer.\<close>

definition int_flags :: "mach \<Rightarrow> long \<Rightarrow> size \<Rightarrow> byte" where
  "int_flags s l n = (if l = 0 \<and> n = psize s then SH_INT OR SH_DATAP else SH_INT)"

definition dt_stn :: "ptr \<Rightarrow> long \<Rightarrow> size \<Rightarrow> unit M" where
  "dt_stn addr l n = withM (\<lambda>s. seqM [
     ch_in_data addr n,
     ch_aligned addr n,
     store_loop (dt_put (int_flags s l n)) (nat (c_int n)) addr l])"

definition dt_stw :: "ptr \<Rightarrow> long \<Rightarrow> unit M" where
  "dt_stw addr l = withM (\<lambda>s. seqM [
     ch_in_data addr (wsize s),
     ch_wordaligned addr,
     store_loop (dt_put (int_flags s l (wsize s))) (nat (wsize s)) addr l])"

definition dt_lddp :: "ptr \<Rightarrow> ptr M" where
  "dt_lddp addr = thenM (withM (\<lambda>s. seqM [
     ch_in_data addr (psize s),
     ch_wordaligned addr,
     expect rd_data_sh addr (psize s) SH_DATAP WGDPEXP])) (p_in rd_data addr)"

definition dt_ldip :: "ptr \<Rightarrow> ptr M" where
  "dt_ldip addr = thenM (withM (\<lambda>s. seqM [
     ch_in_data addr (psize s),
     ch_wordaligned addr,
     expect rd_data_sh addr (psize s) SH_INSP WGIPEXP])) (p_in rd_data addr)"

definition dt_ldu :: "ptr \<Rightarrow> size \<Rightarrow> int M" where
  "dt_ldu addr n = thenM (seqM [
     ch_in_data addr n,
     ch_aligned addr n,
     expect rd_data_sh addr n SH_INT (if n = 1 then WGCEXP else WGIEXP)]) (load_u rd_data n addr)"

definition dt_lduw :: "ptr \<Rightarrow> int M" where
  "dt_lduw addr = withM (\<lambda>s. thenM (seqM [
     ch_in_data addr (wsize s),
     ch_wordaligned addr,
     expect rd_data_sh addr (wsize s) SH_INT WGIEXP]) (load_u rd_data (wsize s) addr))"

definition dt_lds :: "ptr \<Rightarrow> size \<Rightarrow> long M" where
  "dt_lds addr n = thenM (seqM [
     ch_in_data addr n,
     ch_aligned addr n,
     expect rd_data_sh addr n SH_INT (if n = 1 then WGCEXP else WGIEXP)]) (load_s rd_data n addr)"

definition dt_ldsw :: "ptr \<Rightarrow> long M" where
  "dt_ldsw addr = withM (\<lambda>s. thenM (seqM [
     ch_in_data addr (wsize s),
     ch_wordaligned addr,
     expect rd_data_sh addr (wsize s) SH_INT WGIEXP]) (load_s rd_data (wsize s) addr))"

text \<open>The body of the move loops: copy one byte and its shadow without the protection bit.\<close>

definition copy_byte ::
  "(ptr \<Rightarrow> byte M) \<Rightarrow> (ptr \<Rightarrow> byte M) \<Rightarrow> (byte \<Rightarrow> ptr \<Rightarrow> byte \<Rightarrow> unit M) \<Rightarrow> ptr \<Rightarrow> ptr \<Rightarrow> unit M" where
  "copy_byte rd rdsh wr d s =
     bindM (rd s) (\<lambda>b. bindM (rdsh s) (\<lambda>f. wr (f AND NOT SH_PROT) d b))"

primrec move_loop :: "(ptr \<Rightarrow> ptr \<Rightarrow> unit M) \<Rightarrow> nat \<Rightarrow> ptr \<Rightarrow> ptr \<Rightarrow> unit M" where
  "move_loop step 0 d s = returnM ()"
| "move_loop step (Suc n) d s = thenM (step d s) (move_loop step n (ulong (d + 1)) (ulong (s + 1)))"

definition dt_mvd :: "ptr \<Rightarrow> ptr \<Rightarrow> size \<Rightarrow> unit M" where
  "dt_mvd d2 d1 n = seqM [
     ch_in_data d1 n,
     ch_wordaligned d1,
     ch_in_data d2 n,
     ch_wordaligned d2,
     move_loop (\<lambda>d s. thenM (ch_dt_prot d) (copy_byte rd_data rd_data_sh wr_data d s))
       (nat (c_int n)) d2 d1]"

definition dt_mvs :: "ptr \<Rightarrow> ptr \<Rightarrow> size \<Rightarrow> unit M" where
  "dt_mvs d s n = seqM [
     ch_in_stack s n,
     ch_wordaligned s,
     ch_in_data d n,
     ch_wordaligned d,
     move_loop (\<lambda>d s. seqM [ch_dt_prot d, ch_st_prot s, copy_byte rd_stack rd_stack_sh wr_data d s])
       (nat (c_int n)) d s]"

section \<open>The data segment as a byte segment\<close>

abbreviation upd_data :: "(int \<Rightarrow> byte) \<Rightarrow> (int \<Rightarrow> byte) \<Rightarrow> warn_state \<Rightarrow> mach \<Rightarrow> mach" where
  "upd_data d h w s \<equiv> s\<lparr>data := d, data_sh := h, wst := w\<rparr>"

interpretation dseg: byte_segment data_ok data data_sh rd_data rd_data_sh dt_put upd_data
proof unfold_locales
  fix s a f b
  assume a: "data_ok s a"
  obtain w where "warn WDESROM s = Ok () (s\<lparr>wst := w\<rparr>)" using warn_Ok by blast
  with a have "data_sh s a AND SH_PROT \<noteq> 0 \<Longrightarrow>
      dt_put f a b s = Ok () (upd_data ((data s)(a := b)) ((data_sh s)(a := f)) w s)"
    by (simp add: dt_put_def ch_dt_prot_def rd_data_sh_def wr_data_def data_ok_def)
  moreover from a have "data_sh s a AND SH_PROT = 0 \<Longrightarrow>
      dt_put f a b s = Ok () (upd_data ((data s)(a := b)) ((data_sh s)(a := f)) (wst s) s)"
    by (simp add: dt_put_def ch_dt_prot_def rd_data_sh_def wr_data_def data_ok_def)
  ultimately show "\<exists>w. dt_put f a b s = Ok () (upd_data ((data s)(a := b)) ((data_sh s)(a := f)) w s)"
    by blast
qed (simp_all add: rd_data_def rd_data_sh_def data_ok_def fun_eq_iff)

section \<open>What the checks let through\<close>

lemma aligned_iff:
  assumes "minv c s"
  shows "is_wordaligned s a \<longleftrightarrow> wsize c dvd a"
  using and_wsizem1 [of s a] minv_fields(1,4) [OF assms] minv_caps(1,5) [OF assms]
  by (simp add: is_wordaligned_def dvd_eq_mod_eq_0)

lemma ch_wordaligned_ok:
  assumes "minv c s"
  shows "ch_wordaligned a s = (if wsize c dvd a then Ok () s else Trap EBADPTR s)"
  by (simp add: ch_wordaligned_def ensure_def aligned_iff [OF assms])

lemma ch_aligned_ok:
  assumes "minv c s" and "0 < n" and "n \<le> 8"
  shows "ch_aligned a n s = (if min n (wsize c) dvd a then Ok () s else Trap EBADPTR s)"
proof -
  have "0 < min n (wsize s)" "min n (wsize s) < 2 ^ 64"
    using assms(2,3) minv_caps(1) [OF assms(1)] minv_fields(1) [OF assms(1)] by auto
  then have "ulong (min n (wsize s)) = min n (wsize s)" by (intro ulong_id) simp_all
  moreover have "min n (wsize s) \<noteq> 0" using \<open>0 < min n (wsize s)\<close> by linarith
  ultimately show ?thesis
    unfolding ch_aligned_def Let_def dvd_eq_mod_eq_0 minv_fields(1) [OF assms(1), symmetric] by simp
qed

lemma ch_in_data_ok:
  "0 \<le> a \<Longrightarrow> 0 \<le> a + n \<Longrightarrow> a + n < 2 ^ 64 \<Longrightarrow>
    ch_in_data a n s = (if a + n \<le> HP s then Ok () s else Trap EMEMFLT s)"
  by (simp add: ch_in_data_def ensure_def is_in_data_def ulong_id)

lemma data_run_ok:
  assumes "minv c s" and "0 \<le> a" and "0 \<le> n" and "a + n \<le> HP s"
  shows "dseg.run_ok s a (nat n)"
  using assms(2-4) minv_regs(2-4) [OF assms(1)]
  by (auto simp: dseg.run_ok_def data_ok_def)

section \<open>The invariant\<close>

lemma fill_data_sh_ok:
  assumes "0 \<le> a" and "a + int k \<le> data_len s"
  shows "forM k a (wr_data_sh f) s = Ok () (s\<lparr>data_sh := upd_bytes (data_sh s) a (replicate k f)\<rparr>)"
  using assms
proof (induction k arbitrary: a s)
  case (Suc k)
  let ?s = "s\<lparr>data_sh := (data_sh s)(a := f)\<rparr>"
  have "wr_data_sh f a s = Ok () ?s" using Suc.prems by (simp add: wr_data_sh_def data_ok_def)
  then show ?case using Suc.IH [of "a + 1" ?s] Suc.prems by (simp add: upd_bytes_Cons fun_upd_def)
qed simp

lemma dt_clear_area_ok:
  assumes "0 \<le> from" and "from \<le> to" and "to \<le> data_len s"
  shows "dt_clear_area from to s
    = Ok () (s\<lparr>data_sh := upd_bytes (data_sh s) from (replicate (nat (to - from)) SH_UNDEF)\<rparr>)"
  unfolding dt_clear_area_def using assms by (intro fill_data_sh_ok) simp_all

lemma fill_data_sh_undef:
  assumes "0 \<le> a" and "0 < k" and "data_len s < a + int k"
  shows "forM k a (wr_data_sh f) s = Undef"
  using assms
proof (induction k arbitrary: a s)
  case (Suc k)
  show ?case
  proof (cases "a < data_len s")
    case True
    let ?s = "s\<lparr>data_sh := (data_sh s)(a := f)\<rparr>"
    have k: "0 < k" using True Suc.prems(3) by (cases k) simp_all
    have "wr_data_sh f a s = Ok () ?s" using True Suc.prems(1) by (simp add: wr_data_sh_def data_ok_def)
    then show ?thesis using Suc.IH [of "a + 1" ?s] k Suc.prems by simp
  next
    case False
    then have "wr_data_sh f a s = Undef" by (simp add: wr_data_sh_def data_ok_def)
    then show ?thesis by simp
  qed
qed simp

lemma dt_clear_area_undef:
  assumes "0 \<le> from" and "from < to" and "data_len s < to"
  shows "dt_clear_area from to s = Undef"
  unfolding dt_clear_area_def using assms by (intro fill_data_sh_undef) simp_all

lemma extend_heap_ok:
  assumes "2 \<le> p" and "p < 2 ^ 32" and "extend_heap p s = Ok x s'"
  shows "\<exists>l d. s' = s\<lparr>HL := l, data_len := d\<rparr> \<and> d < 2 ^ 32 \<and> (d < p \<or> p \<le> l \<and> l \<le> d)"
proof -
  let ?q = "p * 3 div 2"
  have q: "allocfrac_p p = ?q" using assms(1,2) by (simp add: allocfrac_p_def ulong_id)
  have b: "p + 1 \<le> ?q" "?q < 2 ^ 33" using assms(1,2) by simp_all
  have l: "ulong (allocfrac_p p - 1) = ?q - 1" using b assms(1) by (simp add: q ulong_id)
  have "s' = s\<lparr>HL := ?q - 1, data_len := c_uint ?q\<rparr>"
    using assms(1,3) b by (simp add: extend_heap_def l Realloc_def slong_id split: if_splits)
  moreover have "c_uint ?q < 2 ^ 32" unfolding c_uint_def by (rule take_bit_int_less_exp)
  moreover have "c_uint ?q < p \<or> p \<le> ?q - 1 \<and> ?q - 1 \<le> c_uint ?q"
  proof (cases "?q < 2 ^ 32")
    case True
    then show ?thesis using b assms(1) by (simp add: c_uint_id)
  next
    case False
    have "?q mod 2 ^ 32 = (?q - 2 ^ 32) mod 2 ^ 32" by simp
    also have "\<dots> = ?q - 2 ^ 32" using b False by (intro mod_pos_pos_trivial) simp_all
    finally have "c_uint ?q = ?q - 2 ^ 32" by (simp add: c_uint_def take_bit_eq_mod)
    then show ?thesis using assms(2) by simp
  qed
  ultimately show ?thesis by blast
qed

text \<open>
  \<open>newHP\<close> either fails one of its tests, leaving the machine alone, or moves the heap
  pointer to \<open>p\<close>, enlarging the arrays when \<open>p\<close> lies beyond their limit.
\<close>

definition newHP_refuses :: "ptr \<Rightarrow> mach \<Rightarrow> bool" where
  "newHP_refuses p s \<longleftrightarrow> in_gda s p \<or> in_stack s p \<or> \<not> is_wordaligned s p
     \<or> maxheap s \<noteq> 0 \<and> ulong (p - HB s) > ulong (maxheap s)"

lemma newHP_refused:
  assumes "newHP_refuses p s"
  shows "\<exists>w. newHP p s = Trap EHEAP (s\<lparr>wst := w\<rparr>)"
proof -
  note t = wtrap_frame [where 'a = unit and t = EHEAP and s = s]
  consider "in_gda s p" | "\<not> in_gda s p" "in_stack s p"
    | "\<not> in_gda s p" "\<not> in_stack s p" "\<not> is_wordaligned s p"
    | "\<not> in_gda s p" "\<not> in_stack s p" "is_wordaligned s p"
      "maxheap s \<noteq> 0 \<and> ulong (p - HB s) > ulong (maxheap s)"
    using assms unfolding newHP_refuses_def by blast
  then show ?thesis
  proof cases
    case 1 with t [of WHPGDA] show ?thesis by (elim exE) (rule exI, simp add: newHP_def)
  next
    case 2 with t [of WHPSTACK] show ?thesis by (elim exE) (rule exI, simp add: newHP_def)
  next
    case 3 with t [of WHPODD] show ?thesis by (elim exE) (rule exI, simp add: newHP_def)
  next
    case 4 with t [of WEHEAP] show ?thesis by (elim exE) (rule exI, simp add: newHP_def)
  qed
qed

lemma newHP_accepted:
  assumes "\<not> newHP_refuses p s"
  shows "newHP p s = seqM [
     withM (\<lambda>s. whenM (p > HL s) (extend_heap p)),
     withM (\<lambda>s. whenM (p > HP s) (dt_clear_area (HP s) p)),
     modifyM (\<lambda>s. s\<lparr>HP := p\<rparr>)] s"
proof -
  have "maxheap s = 0 \<or> \<not> ulong (maxheap s) < ulong (p - HB s)"
    "\<not> in_gda s p" "\<not> in_stack s p" "is_wordaligned s p"
    using assms by (auto simp: newHP_refuses_def)
  then show ?thesis by (cases "maxheap s = 0") (simp_all add: newHP_def)
qed

lemma minv_upd_HL:
  assumes "minv c s" and "d < 2 ^ 32" and "l \<le> d" and "HP s \<le> l"
  shows "minv c (s\<lparr>HL := l, data_len := d\<rparr>)"
  using assms by (simp add: minv_def regs_ok_def)

lemma minv_upd_HP:
  assumes "minv c s" and "0 \<le> p" and "p \<le> HL s"
  shows "minv c (s\<lparr>HP := p\<rparr>)"
  using assms by (simp add: minv_def regs_ok_def)

lemma newHP_Ok:
  assumes s: "minv c s" and p: "word32 p" and e: "newHP p s = Ok x s'"
  shows "minv c s' \<and> HP s' = p"
proof -
  have n: "\<not> newHP_refuses p s" using newHP_refused [of p s] e by auto
  have "wsize c dvd p" "0 \<le> p" "p < 2 ^ 32"
    using n p by (simp_all add: newHP_refuses_def aligned_iff [OF s] word32_def)
  then have p2: "p = 0 \<or> 2 \<le> p" using minv_caps(1) [OF s] zdvd_imp_le [of "wsize c" p] by linarith
  obtain y t where t: "whenM (p > HL s) (extend_heap p) s = Ok y t"
    and u: "seqM [withM (\<lambda>s. whenM (p > HP s) (dt_clear_area (HP s) p)),
       modifyM (\<lambda>s. s\<lparr>HP := p\<rparr>)] t = Ok x s'"
    using e unfolding newHP_accepted [OF n] seqM.simps thenM_eq_Ok withM_apply by blast
  have ht: "minv c t \<and> HP t = HP s \<and> p \<le> HL t \<or> data_len t < p \<and> HP t = HP s \<and> HP s < p"
  proof (cases "HL s < p")
    case True
    then have "2 \<le> p" using p2 minv_regs(1,2) [OF s] by linarith
    moreover have "extend_heap p s = Ok y t" using t True by simp
    ultimately obtain l d where "t = s\<lparr>HL := l, data_len := d\<rparr>" "d < 2 ^ 32" "d < p \<or> p \<le> l \<and> l \<le> d"
      using extend_heap_ok [of p s y t] \<open>p < 2 ^ 32\<close> by blast
    then show ?thesis using minv_upd_HL [OF s, of d l] minv_regs(2) [OF s] True by auto
  next
    case False
    then show ?thesis using t s by auto
  qed
  show ?thesis
  proof (cases "HP s < p")
    case True
    have HP: "HP t = HP s" using ht by blast
    have "data_len t < p \<Longrightarrow> dt_clear_area (HP t) p t = Undef"
      using dt_clear_area_undef [of "HP t" p t] minv_regs(1) [OF s] True HP by simp
    then have "\<not> data_len t < p" using u True HP by (cases "data_len t < p") simp_all
    with ht have t: "minv c t" "HP t = HP s" "p \<le> HL t" by blast+
    then have "dt_clear_area (HP t) p t
      = Ok () (t\<lparr>data_sh := upd_bytes (data_sh t) (HP t) (replicate (nat (p - HP t)) SH_UNDEF)\<rparr>)"
      using True minv_regs(1,3) [OF t(1)] by (intro dt_clear_area_ok) simp_all
    moreover have "minv c (t\<lparr>data_sh := h, HP := p\<rparr>)" for h
      using t True minv_regs(1) [OF s] by (intro minv_upd_HP) simp_all
    ultimately show ?thesis using u t True by auto
  next
    case False
    then show ?thesis using u ht minv_upd_HP [of c t p] \<open>0 \<le> p\<close> by auto
  qed
qed

lemma forM_notrap: "(\<And>i s n s'. f i s \<noteq> Trap n s') \<Longrightarrow> forM k i f s \<noteq> Trap n s'"
  by (induction k arbitrary: i s) (simp_all split: outcome.split)

lemma keeps_newHP [keeps_rules]:
  assumes "word32 p"
  shows "keeps (minv c) (newHP p) anyR"
proof (rule keepsI)
  fix s x s' assume "minv c s" "newHP p s = Ok x s'"
  then show "minv c s' \<and> True" using newHP_Ok [OF _ assms] by blast
next
  fix s n s' assume s: "minv c s" and t: "newHP p s = Trap n s'"
  show "minv c s'"
  proof (cases "newHP_refuses p s")
    case True
    then show ?thesis using newHP_refused [OF True] t s by auto
  next
    case False
    have "dt_clear_area a b u \<noteq> Trap n s'" for a b u
      unfolding dt_clear_area_def by (rule forM_notrap) (simp add: wr_data_sh_def)
    moreover have "extend_heap p u \<noteq> Trap n s'" for u
      by (simp add: extend_heap_def Realloc_def)
    ultimately show ?thesis
      using t unfolding newHP_accepted [OF False] seqM.simps thenM_eq_Trap withM_apply whenM_def
      by (simp split: if_splits)
  qed
qed

lemma keeps_dt_stores [keeps_rules]:
  "keeps (minv c) (dt_stdp a p) anyR" "keeps (minv c) (dt_stip a p) anyR"
  "keeps (minv c) (dt_stn a l n) anyR" "keeps (minv c) (dt_stw a l) anyR"
  unfolding dt_stdp_def dt_stip_def dt_stn_def dt_stw_def by (rule keeps_rules)+

lemma keeps_dt_loads [keeps_rules]:
  assumes "wst_free I"
  shows "keeps I (dt_lddp a) word32" "keeps I (dt_ldip a) word32"
    "keeps I (dt_ldu a n) anyR" "keeps I (dt_lduw a) anyR"
    "keeps I (dt_lds a n) anyR" "keeps I (dt_ldsw a) anyR"
  unfolding dt_lddp_def dt_ldip_def dt_ldu_def dt_lduw_def dt_lds_def dt_ldsw_def
  by (rule keeps_rules assms)+

lemma keeps_copy_byte:
  "(\<And>a. keeps I (rd a) anyR) \<Longrightarrow> (\<And>a. keeps I (rdsh a) anyR) \<Longrightarrow> (\<And>f a b. keeps I (wr f a b) anyR)
    \<Longrightarrow> keeps I (copy_byte rd rdsh wr d s) anyR"
  unfolding copy_byte_def by (rule keeps_bind | assumption)+

lemma keeps_move_loop [keeps_rules]:
  "(\<And>d s. keeps I (step d s) anyR) \<Longrightarrow> keeps I (move_loop step n d s) anyR"
  by (induction n arbitrary: d s) (auto intro: keeps_return keeps_then)

lemmas keeps_copies [keeps_rules] =
  keeps_copy_byte [where rd = rd_data and rdsh = rd_data_sh and wr = wr_data]
  keeps_copy_byte [where rd = rd_stack and rdsh = rd_stack_sh and wr = wr_data]
  keeps_copy_byte [where rd = rd_data and rdsh = rd_data_sh and wr = wr_stack]
  keeps_copy_byte [where rd = rd_stack and rdsh = rd_stack_sh and wr = wr_stack]

lemma keeps_dt_moves [keeps_rules]:
  "keeps (minv c) (dt_mvd a b n) anyR" "keeps (minv c) (dt_mvs a b n) anyR"
  unfolding dt_mvd_def dt_mvs_def by (rule keeps_rules)+

section \<open>Functional behaviour\<close>

lemma dt_stn_ok:
  assumes s: "minv c s" and "0 \<le> a" and "0 < n" and "n \<le> 8" and "a + n \<le> HP s"
    and "min n (wsize c) dvd a"
  shows "\<exists>w. dt_stn a l n s = Ok ()
    (upd_data (upd_bytes (data s) a (le_bytes (nat n) l))
      (upd_bytes (data_sh s) a (replicate (nat n) (int_flags s l n))) w s)"
  using dseg.store_loop_ok [OF data_run_ok [OF s, of a n]] assms minv_regs(2-4) [OF s]
  by (simp add: dt_stn_def ch_in_data_ok ch_aligned_ok [OF s] c_int_id)

lemma dt_ldu_ok:
  assumes s: "minv c s" and "0 \<le> a" and "0 < n" and "n \<le> 4" and "a + n \<le> HP s"
    and "min n (wsize c) dvd a"
  shows "\<exists>w. dt_ldu a n s = Ok (uval (rd_bytes (data s) a (nat n))) (s\<lparr>wst := w\<rparr>)"
  using dseg.expect_load_u [OF data_run_ok [OF s, of a n]] assms minv_regs(2-4) [OF s]
  by (simp add: dt_ldu_def ch_in_data_ok ch_aligned_ok [OF s])

lemma dt_lds_ok:
  assumes s: "minv c s" and "0 \<le> a" and "0 < n" and "n \<le> 8" and "a + n \<le> HP s"
    and "min n (wsize c) dvd a"
  shows "\<exists>w. dt_lds a n s = Ok (sval (rd_bytes (data s) a (nat n))) (s\<lparr>wst := w\<rparr>)"
  using dseg.expect_load_s [OF data_run_ok [OF s, of a n]] assms minv_regs(2-4) [OF s]
  by (simp add: dt_lds_def ch_in_data_ok ch_aligned_ok [OF s])

lemma dt_lddp_ok:
  assumes s: "minv c s" and "0 \<le> a" and "a + psize c \<le> HP s" and "wsize c dvd a"
  shows "\<exists>w. dt_lddp a s = Ok (uval (rd_bytes (data s) a (nat (psize c)))) (s\<lparr>wst := w\<rparr>)"
  using dseg.expect_p_in [OF data_run_ok [OF s, of a "psize s"]] assms minv_regs(2-4) [OF s]
    minv_caps(2) [OF s]
  by (auto simp: dt_lddp_def ch_in_data_ok ch_wordaligned_ok [OF s] minv_fields(2) [OF s])

end
