(* ===== verification/Stack.thy ===== *)
theory Stack
  imports Data
begin

text \<open>
  The run-time stack: \<open>util/int/stack.c\<close>, with the stack related macros of
  \<open>mem.h\<close> and \<open>rsb.h\<close>.
\<close>

section \<open>Registers\<close>

definition STACKSIZE :: long where "STACKSIZE = 1000"

text \<open>\<open>for (a = from; a >= to; a--) st_undef(a);\<close>  With \<open>to\<close> zero the unsigned
  counter wraps around and leaves the array.\<close>

primrec clear_down :: "nat \<Rightarrow> ptr \<Rightarrow> unit M" where
  "clear_down 0 a = returnM ()"
| "clear_down (Suc k) a = thenM (wr_stack_sh SH_UNDEF a) (clear_down k (a - 1))"

definition st_clear_area :: "ptr \<Rightarrow> ptr \<Rightarrow> unit M" where
  "st_clear_area from to = (if to = 0 then undefM else clear_down (nat (from - to + 1)) from)"

definition init_stack :: "unit M" where
  "init_stack = seqM [
     modifyM (\<lambda>s. s\<lparr>MLim := max_addr s\<rparr>),
     modifyM (\<lambda>s. s\<lparr>SP := ulong (MLim s + 1)\<rparr>),
     modifyM (\<lambda>s. s\<lparr>SL := ulong (MLim s + 1)\<rparr>),
     modifyM (\<lambda>s. s\<lparr>LB := ulong (MLim s + 1)\<rparr>),
     modifyM (\<lambda>s. s\<lparr>AB := ulong (MLim s + 1)\<rparr>),
     modifyM (\<lambda>s. s\<lparr>SL := ulong (MLim s + 1 - STACKSIZE)\<rparr>),
     bindM (Malloc STACKSIZE ''stack space'') (\<lambda>n. modifyM (\<lambda>s. s\<lparr>stack_len := n\<rparr>)),
     bindM (Malloc STACKSIZE ''shadowspace for stack'') (\<lambda>n. returnM ()),
     withM (\<lambda>s. st_clear_area (MLim s) (SL s))]"

text \<open>The branch \<open>if (p < SL) \<dots>\<close> of \<open>newSP\<close>.\<close>

definition extend_stack :: "ptr \<Rightarrow> unit M" where
  "extend_stack p = withM (\<lambda>s.
     let stacksize = allocfrac (slong (ulong (MLim s + 1 - p))) in seqM [
       modifyM (\<lambda>s. s\<lparr>SL := ulong (MLim s + 1 - stacksize)\<rparr>),
       bindM (Realloc stacksize ''stack space'') (\<lambda>n. modifyM (\<lambda>s. s\<lparr>stack_len := n\<rparr>)),
       bindM (Realloc stacksize ''shadowspace for stack'') (\<lambda>n. returnM ())])"

definition newSP :: "ptr \<Rightarrow> unit M" where
  "newSP p = seqM [
     withM (\<lambda>s. whenM (LB s < p) (wtrap WSPGTLB ESTACK)),
     withM (\<lambda>s. whenM (\<not> is_wordaligned s p) (wtrap WSPODD ESTACK)),
     withM (\<lambda>s. whenM (p < SP s) (seqM [
       whenM (p < HP s) (wtrap WSPINHEAP ESTACK),
       whenM (maxstack s \<noteq> 0 \<and> ulong (MLim s - p) > ulong (maxstack s)) (wtrap WESTACK ESTACK),
       whenM (p < SL s) (extend_stack p),
       st_clear_area (ulong (SP s - 1)) p])),
     modifyM (\<lambda>s. s\<lparr>SP := p\<rparr>)]"

definition incSP :: "size \<Rightarrow> unit M" where
  "incSP n = withM (\<lambda>s. let p = ulong (SP s - n) in
     if p < HP s \<or> maxstack s \<noteq> 0 \<or> p < SL s then newSP p
     else seqM [
       modifyM (\<lambda>s. s\<lparr>SP := p\<rparr>),
       (if n < 0 then undefM else forM (nat n) p (wr_stack_sh SH_UNDEF))])"

definition decSP :: "size \<Rightarrow> unit M" where
  "decSP n = withM (\<lambda>s. let p = ulong (SP s + n) in
     if LB s < p then newSP p else modifyM (\<lambda>s. s\<lparr>SP := p\<rparr>))"

definition st_inc :: "size \<Rightarrow> unit M" where
  "st_inc n = withM (\<lambda>s. newSP (ulong (SP s - n)))"

definition st_dec :: "size \<Rightarrow> unit M" where
  "st_dec n = withM (\<lambda>s. newSP (ulong (SP s + n)))"

section \<open>Stores\<close>

definition st_stdp :: "ptr \<Rightarrow> ptr \<Rightarrow> unit M" where
  "st_stdp addr ap = withM (\<lambda>s. seqM [
     ch_in_stack addr (psize s),
     ch_wordaligned addr,
     store_loop (st_put SH_DATAP) (nat (psize s)) addr (slong ap)])"

definition st_stip :: "ptr \<Rightarrow> ptr \<Rightarrow> unit M" where
  "st_stip addr ap = withM (\<lambda>s. seqM [
     ch_in_stack addr (psize s),
     ch_wordaligned addr,
     store_loop (st_put SH_INSP) (nat (psize s)) addr (slong ap)])"

definition st_stn :: "ptr \<Rightarrow> long \<Rightarrow> size \<Rightarrow> unit M" where
  "st_stn addr l n = withM (\<lambda>s. seqM [
     ch_in_stack addr n,
     ch_aligned addr n,
     store_loop (st_put (int_flags s l n)) (nat (c_int n)) addr l])"

definition st_stw :: "ptr \<Rightarrow> long \<Rightarrow> unit M" where
  "st_stw addr l = withM (\<lambda>s. seqM [
     ch_w_in_stack addr,
     ch_wordaligned addr,
     store_loop (st_put (int_flags s l (wsize s))) (nat (wsize s)) addr l])"

section \<open>Loads\<close>

definition st_lddp :: "ptr \<Rightarrow> ptr M" where
  "st_lddp addr = thenM (withM (\<lambda>s. seqM [
     ch_in_stack addr (psize s),
     ch_wordaligned addr,
     expect rd_stack_sh addr (psize s) SH_DATAP WLDPEXP])) (p_in rd_stack addr)"

definition st_ldip :: "ptr \<Rightarrow> ptr M" where
  "st_ldip addr = thenM (withM (\<lambda>s. seqM [
     ch_in_stack addr (psize s),
     ch_wordaligned addr,
     expect rd_stack_sh addr (psize s) SH_INSP WLIPEXP])) (p_in rd_stack addr)"

definition st_ldu :: "ptr \<Rightarrow> size \<Rightarrow> int M" where
  "st_ldu addr n = thenM (seqM [
     ch_in_stack addr n,
     ch_aligned addr n,
     expect rd_stack_sh addr n SH_INT (if n = 1 then WLCEXP else WLIEXP)]) (load_u rd_stack n addr)"

definition st_lduw :: "ptr \<Rightarrow> int M" where
  "st_lduw addr = withM (\<lambda>s. thenM (seqM [
     ch_w_in_stack addr,
     ch_wordaligned addr,
     expect rd_stack_sh addr (wsize s) SH_INT WLIEXP]) (load_u rd_stack (wsize s) addr))"

definition st_lds :: "ptr \<Rightarrow> size \<Rightarrow> long M" where
  "st_lds addr n = thenM (seqM [
     ch_in_stack addr n,
     ch_aligned addr n,
     expect rd_stack_sh addr n SH_INT (if n = 1 then WLCEXP else WLIEXP)]) (load_s rd_stack n addr)"

definition st_ldsw :: "ptr \<Rightarrow> long M" where
  "st_ldsw addr = withM (\<lambda>s. thenM (seqM [
     ch_w_in_stack addr,
     ch_wordaligned addr,
     expect rd_stack_sh addr (wsize s) SH_INT WLIEXP]) (load_s rd_stack (wsize s) addr))"

section \<open>Moves\<close>

definition st_mvs :: "ptr \<Rightarrow> ptr \<Rightarrow> size \<Rightarrow> unit M" where
  "st_mvs s2 s1 n = seqM [
     ch_in_stack s1 n,
     ch_wordaligned s1,
     ch_in_stack s2 n,
     ch_wordaligned s2,
     move_loop (\<lambda>d s. seqM [ch_st_prot d, ch_st_prot s, copy_byte rd_stack rd_stack_sh wr_stack d s])
       (nat (c_int n)) s2 s1]"

definition st_mvd :: "ptr \<Rightarrow> ptr \<Rightarrow> size \<Rightarrow> unit M" where
  "st_mvd s d n = seqM [
     ch_in_data d n,
     ch_wordaligned d,
     ch_in_stack s n,
     ch_wordaligned s,
     move_loop (\<lambda>s d. thenM (ch_st_prot s) (copy_byte rd_data rd_data_sh wr_stack s d))
       (nat (c_int n)) s d]"

section \<open>Local base\<close>

definition RSBMASK :: int where "RSBMASK = 0xfff0"
definition RSBCODE :: int where "RSBCODE = 0x2b90"
definition RSB_STP :: int where "RSB_STP = RSBCODE + 1"
definition RSB_CAL :: int where "RSB_CAL = RSBCODE + 2"
definition RSB_RTT :: int where "RSB_RTT = RSBCODE + 3"
definition RSB_NRT :: int where "RSB_NRT = RSBCODE + 4"

definition is_LB :: "ptr \<Rightarrow> bool M" where
  "is_LB p = withM (\<lambda>s. bindM (st_lds (ulong (p + rsb_rsbcode s)) (wsize s))
     (\<lambda>v. returnM (v AND RSBMASK = RSBCODE)))"

definition newLB :: "ptr \<Rightarrow> unit M" where
  "newLB p = seqM [
     withM (\<lambda>s. whenM (\<not> in_stack s p) (wtrap WLBOUT ESTACK)),
     withM (\<lambda>s. whenM (\<not> is_wordaligned s p) (wtrap WLBODD ESTACK)),
     bindM (is_LB p) (\<lambda>b. whenM (\<not> b) (wtrap WLBRSB ESTACK)),
     modifyM (\<lambda>s. s\<lparr>LB := p\<rparr>),
     modifyM (\<lambda>s. s\<lparr>AB := ulong (LB s + rsbsize s)\<rparr>)]"

section \<open>Pops\<close>

definition dppop :: "ptr M" where
  "dppop = withM (\<lambda>s. bindM (st_lddp (SP s)) (\<lambda>p. thenM (decSP (psize s)) (returnM p)))"

definition upop :: "size \<Rightarrow> int M" where
  "upop n = withM (\<lambda>s. bindM (st_ldu (SP s) n) (\<lambda>l. thenM (decSP (max n (wsize s))) (returnM l)))"

definition uwpop :: "int M" where
  "uwpop = withM (\<lambda>s. bindM (st_lduw (SP s)) (\<lambda>l. thenM (decSP (wsize s)) (returnM l)))"

definition spop :: "size \<Rightarrow> long M" where
  "spop n = withM (\<lambda>s. bindM (st_lds (SP s) n) (\<lambda>l. thenM (decSP (max n (wsize s))) (returnM l)))"

definition swpop :: "long M" where
  "swpop = withM (\<lambda>s. bindM (st_ldsw (SP s)) (\<lambda>l. thenM (decSP (wsize s)) (returnM l)))"

definition pop_dt :: "ptr \<Rightarrow> size \<Rightarrow> unit M" where
  "pop_dt d n = withM (\<lambda>s.
     if n < wsize s then bindM (upop n) (\<lambda>l. dt_stn d (slong l) n)
     else seqM [dt_mvs d (SP s) n, decSP n])"

definition popw_dt :: "ptr \<Rightarrow> unit M" where
  "popw_dt d = withM (\<lambda>s. seqM [dt_mvs d (SP s) (wsize s), decSP (wsize s)])"

definition pop_st :: "ptr \<Rightarrow> size \<Rightarrow> unit M" where
  "pop_st a n = withM (\<lambda>s.
     if n < wsize s then bindM (upop n) (\<lambda>l. st_stn a (slong l) n)
     else seqM [st_mvs a (SP s) n, decSP n])"

definition popw_st :: "ptr \<Rightarrow> unit M" where
  "popw_st a = withM (\<lambda>s. seqM [st_mvs a (SP s) (wsize s), decSP (wsize s)])"

definition wpop :: "long M" where
  "wpop = withM (\<lambda>s. bindM (w_in_stack (SP s)) (\<lambda>l. thenM (decSP (wsize s)) (returnM l)))"

section \<open>Pushes\<close>

definition dppush :: "ptr \<Rightarrow> unit M" where
  "dppush p = seqM [withM (\<lambda>s. incSP (psize s)), withM (\<lambda>s. st_stdp (SP s) p)]"

definition wpush :: "long \<Rightarrow> unit M" where
  "wpush l = seqM [withM (\<lambda>s. incSP (wsize s)), withM (\<lambda>s. st_stw (SP s) l)]"

definition npush :: "long \<Rightarrow> size \<Rightarrow> unit M" where
  "npush l n = withM (\<lambda>s.
     if n \<le> wsize s then seqM [
       incSP (wsize s),
       (let l = (if n = 1 then l AND 0xFF else if n = 2 then l AND 0xFFFF else l)
        in withM (\<lambda>s. st_stw (SP s) l))]
     else seqM [incSP n, withM (\<lambda>s. st_stn (SP s) l n)])"

definition push_dt :: "ptr \<Rightarrow> size \<Rightarrow> unit M" where
  "push_dt d n = withM (\<lambda>s.
     if n < wsize s then bindM (dt_ldu d n) (\<lambda>l. npush (slong l) n)
     else seqM [incSP n, withM (\<lambda>s. st_mvd (SP s) d n)])"

definition pushw_dt :: "ptr \<Rightarrow> unit M" where
  "pushw_dt d = withM (\<lambda>s. seqM [incSP (wsize s), withM (\<lambda>s. st_mvd (SP s) d (wsize s))])"

definition push_st :: "ptr \<Rightarrow> size \<Rightarrow> unit M" where
  "push_st a n = withM (\<lambda>s.
     if n < wsize s then bindM (st_ldu a n) (\<lambda>l. npush (slong l) n)
     else seqM [incSP n, withM (\<lambda>s. st_mvs (SP s) a n)])"

definition pushw_st :: "ptr \<Rightarrow> unit M" where
  "pushw_st a = withM (\<lambda>s. seqM [incSP (wsize s), withM (\<lambda>s. st_mvs (SP s) a (wsize s))])"

section \<open>Address dependent access (\<open>mem.h\<close>)\<close>

definition mem_stn :: "ptr \<Rightarrow> long \<Rightarrow> size \<Rightarrow> unit M" where
  "mem_stn a l n = withM (\<lambda>s. if in_stack s a then st_stn a l n else dt_stn a l n)"

definition mem_lddp :: "ptr \<Rightarrow> ptr M" where
  "mem_lddp a = withM (\<lambda>s. if in_stack s a then st_lddp a else dt_lddp a)"

definition mem_ldip :: "ptr \<Rightarrow> ptr M" where
  "mem_ldip a = withM (\<lambda>s. if in_stack s a then st_ldip a else dt_ldip a)"

definition mem_ldu :: "ptr \<Rightarrow> size \<Rightarrow> int M" where
  "mem_ldu a n = withM (\<lambda>s. if in_stack s a then st_ldu a n else dt_ldu a n)"

definition mem_lduw :: "ptr \<Rightarrow> int M" where
  "mem_lduw a = withM (\<lambda>s. if in_stack s a then st_lduw a else dt_lduw a)"

definition mem_lds :: "ptr \<Rightarrow> size \<Rightarrow> long M" where
  "mem_lds a n = withM (\<lambda>s. if in_stack s a then st_lds a n else dt_lds a n)"

definition mem_ldsw :: "ptr \<Rightarrow> long M" where
  "mem_ldsw a = withM (\<lambda>s. if in_stack s a then st_ldsw a else dt_ldsw a)"

definition push_m :: "ptr \<Rightarrow> size \<Rightarrow> unit M" where
  "push_m a n = withM (\<lambda>s. if in_stack s a then push_st a n else push_dt a n)"

definition pushw_m :: "ptr \<Rightarrow> unit M" where
  "pushw_m a = withM (\<lambda>s. if in_stack s a then pushw_st a else pushw_dt a)"

definition pop_m :: "ptr \<Rightarrow> size \<Rightarrow> unit M" where
  "pop_m a n = withM (\<lambda>s. if in_stack s a then pop_st a n else pop_dt a n)"

definition popw_m :: "ptr \<Rightarrow> unit M" where
  "popw_m a = withM (\<lambda>s. if in_stack s a then popw_st a else popw_dt a)"

section \<open>The stack segment as a byte segment\<close>

abbreviation upd_stack :: "(int \<Rightarrow> byte) \<Rightarrow> (int \<Rightarrow> byte) \<Rightarrow> warn_state \<Rightarrow> mach \<Rightarrow> mach" where
  "upd_stack d h w s \<equiv> s\<lparr>stack := d, stack_sh := h, wst := w\<rparr>"

interpretation sseg: byte_segment stack_ok stack stack_sh rd_stack rd_stack_sh st_put upd_stack
proof unfold_locales
  fix s a f b
  assume a: "stack_ok s a"
  obtain w where "warn WDESRSB s = Ok () (s\<lparr>wst := w\<rparr>)" using warn_Ok by blast
  with a have "stack_sh s a AND SH_PROT \<noteq> 0 \<Longrightarrow>
      st_put f a b s = Ok () (upd_stack ((stack s)(a := b)) ((stack_sh s)(a := f)) w s)"
    by (simp add: st_put_def ch_st_prot_def rd_stack_sh_def wr_stack_def stack_ok_def)
  moreover from a have "stack_sh s a AND SH_PROT = 0 \<Longrightarrow>
      st_put f a b s = Ok () (upd_stack ((stack s)(a := b)) ((stack_sh s)(a := f)) (wst s) s)"
    by (simp add: st_put_def ch_st_prot_def rd_stack_sh_def wr_stack_def stack_ok_def)
  ultimately show "\<exists>w. st_put f a b s = Ok () (upd_stack ((stack s)(a := b)) ((stack_sh s)(a := f)) w s)"
    by blast
qed (simp_all add: rd_stack_def rd_stack_sh_def stack_ok_def fun_eq_iff)

section \<open>The stack pointer\<close>

text \<open>Clearing marks the \<open>k\<close> bytes up to \<open>a\<close> as undefined, and no other byte.\<close>

lemma clear_down_eq:
  assumes "0 \<le> a - int k + 1" and "a \<le> MLim s" and "MLim s - (a - int k + 1) < stack_len s \<or> k = 0"
  shows "clear_down k a s
    = Ok () (s\<lparr>stack_sh := \<lambda>q. if a - int k < q \<and> q \<le> a then SH_UNDEF else stack_sh s q\<rparr>)"
  using assms
proof (induction k arbitrary: a s)
  case 0
  have "(\<lambda>q. if a - int 0 < q \<and> q \<le> a then SH_UNDEF else stack_sh s q) = stack_sh s" by (auto simp: fun_eq_iff)
  then show ?case by simp
next
  case (Suc k)
  let ?s = "s\<lparr>stack_sh := (stack_sh s)(a := SH_UNDEF)\<rparr>"
  have w: "wr_stack_sh SH_UNDEF a s = Ok () ?s"
    using Suc.prems by (simp add: wr_stack_sh_def stack_ok_def)
  have c: "clear_down k (a - 1) ?s
      = Ok () (?s\<lparr>stack_sh := \<lambda>q. if a - 1 - int k < q \<and> q \<le> a - 1 then SH_UNDEF else stack_sh ?s q\<rparr>)"
    by (rule Suc.IH) (use Suc.prems in auto)
  have "(\<lambda>q. if a - 1 - int k < q \<and> q \<le> a - 1 then SH_UNDEF else stack_sh ?s q)
      = (\<lambda>q. if a - int (Suc k) < q \<and> q \<le> a then SH_UNDEF else stack_sh s q)" by (auto simp: fun_eq_iff)
  then show ?case by (simp add: w c)
qed

lemma clear_down_cases: "clear_down k a s = Undef \<or> (\<exists>h. clear_down k a s = Ok () (s\<lparr>stack_sh := h\<rparr>))"
proof (induction k arbitrary: a s)
  case 0
  have "clear_down 0 a s = Ok () (s\<lparr>stack_sh := stack_sh s\<rparr>)" by simp
  then show ?case by blast
next
  case (Suc k)
  let ?s = "s\<lparr>stack_sh := (stack_sh s)(a := SH_UNDEF)\<rparr>"
  show ?case
  proof (cases "stack_ok s a")
    case True
    then have "wr_stack_sh SH_UNDEF a s = Ok () ?s" by (simp add: wr_stack_sh_def)
    then have "clear_down (Suc k) a s = clear_down k (a - 1) ?s" by simp
    moreover have "?s\<lparr>stack_sh := h\<rparr> = s\<lparr>stack_sh := h\<rparr>" for h by simp
    ultimately show ?thesis using Suc.IH [of "a - 1" ?s] by metis
  next
    case False
    then show ?thesis by (simp add: wr_stack_sh_def)
  qed
qed

text \<open>Under the invariant an address above the stack limit lies in the array.\<close>

lemma SL_bound:
  assumes "minv c s" and "SL s \<le> p" and "p \<le> MLim c + 1"
  shows "MLim c + 1 - p \<le> stack_len s"
proof (cases "stack_len s \<le> MLim c + 1")
  case True
  have "0 \<le> stack_len s" using minv_regs(5-7,10) [OF assms(1)] by linarith
  then have "SL s = MLim c + 1 - stack_len s"
    using True minv_regs(11) [OF assms(1)] minv_MLim(1,2) [OF assms(1)] by (simp add: ulong_id)
  then show ?thesis using assms(2) by linarith
next
  case False
  then have "SL s = MLim c + 1 - stack_len s + 2 ^ 64"
    using minv_regs(11,12) [OF assms(1)] minv_MLim(1,2) [OF assms(1)] by (simp add: ulong_neg)
  then show ?thesis using assms(2,3) minv_regs(12) [OF assms(1)] minv_MLim(1,2) [OF assms(1)] by simp
qed

lemma minv_upd_SP:
  assumes "minv c s" and "0 \<le> p" and "p \<le> LB s" and "wsize c dvd p"
    and "MLim c + 1 - p \<le> stack_len s"
  shows "minv c (s\<lparr>SP := p\<rparr>)"
  using assms minv_fields [OF assms(1)] by (simp add: minv_def regs_ok_def)

lemma extend_stack_ok:
  assumes s: "minv c s" and p: "0 \<le> p" "p \<le> MLim c + 1"
  shows "(\<exists>e t. extend_stack p s = Fatal e t) \<or>
    extend_stack p s = Ok () (s\<lparr>SL := ulong (MLim c + 1 - (MLim c + 1 - p) * 3 div 2),
      stack_len := (MLim c + 1 - p) * 3 div 2\<rparr>)"
proof -
  let ?x = "MLim c + 1 - p"
  have x: "0 \<le> ?x" "?x < 2 ^ 31" using p minv_MLim(1,2) [OF s] by simp_all
  have u: "ulong ?x = ?x" using x by (intro ulong_id) simp_all
  have l: "slong ?x = ?x" "slong (?x * 3) = ?x * 3" using x by (intro slong_id; simp)+
  have a: "allocfrac (slong (ulong (MLim s + 1 - p))) = ?x * 3 div 2"
    using x unfolding minv_fields(17) [OF s] u l allocfrac_def signed_divide_int_def
    by (cases "?x = 0") (simp_all add: sgn_if)
  have "c_uint (?x * 3 div 2) = ?x * 3 div 2" using x by (intro c_uint_id) simp_all
  then show ?thesis
    unfolding extend_stack_def withM_apply a Let_def
    by (simp add: Realloc_def minv_fields(17) [OF s])
qed

lemma minv_extend_stack:
  assumes s: "minv c s" and p: "0 \<le> p" "p \<le> SP s"
  shows "minv c (s\<lparr>SL := ulong (MLim c + 1 - (MLim c + 1 - p) * 3 div 2),
      stack_len := (MLim c + 1 - p) * 3 div 2\<rparr>)"
proof -
  have "(MLim c + 1 - p) * 3 div 2 < 2 ^ 32" "MLim c + 1 - SP s \<le> (MLim c + 1 - p) * 3 div 2"
    using p minv_regs(6,7) [OF s] minv_MLim(1,2) [OF s] by simp_all
  then show ?thesis
    using s minv_fields(1,17,21) [OF s] by (simp add: minv_def regs_ok_def)
qed

lemma extend_step:
  assumes s: "minv c s" and p0: "0 \<le> p" "p \<le> MLim c + 1" and lt: "p < SP s"
  shows "(\<exists>e t. whenM (p < SL s) (extend_stack p) s = Fatal e t) \<or>
    (\<exists>l k. whenM (p < SL s) (extend_stack p) s = Ok () (s\<lparr>SL := l, stack_len := k\<rparr>)
      \<and> minv c (s\<lparr>SL := l, stack_len := k\<rparr>) \<and> MLim c + 1 - p \<le> k)"
proof (cases "p < SL s")
  case True
  let ?k = "(MLim c + 1 - p) * 3 div 2"
  have k: "MLim c + 1 - p \<le> ?k" using p0 by simp
  have m: "minv c (s\<lparr>SL := ulong (MLim c + 1 - ?k), stack_len := ?k\<rparr>)"
    using minv_extend_stack [OF s p0(1)] lt by simp
  have w: "whenM (p < SL s) (extend_stack p) s = extend_stack p s" using True by simp
  show ?thesis
    unfolding w using extend_stack_ok [OF s p0] k m by blast
next
  case False
  then have "whenM (p < SL s) (extend_stack p) s = Ok () (s\<lparr>SL := SL s, stack_len := stack_len s\<rparr>)
    \<and> minv c (s\<lparr>SL := SL s, stack_len := stack_len s\<rparr>) \<and> MLim c + 1 - p \<le> stack_len s"
    using SL_bound [OF s _ p0(2)] s by simp
  then show ?thesis by blast
qed

definition newSP_refuses :: "ptr \<Rightarrow> mach \<Rightarrow> bool" where
  "newSP_refuses p s \<longleftrightarrow> LB s < p \<or> \<not> is_wordaligned s p
     \<or> p < SP s \<and> (p < HP s \<or> maxstack s \<noteq> 0 \<and> ulong (MLim s - p) > ulong (maxstack s))"

lemma newSP_refused:
  assumes "newSP_refuses p s"
  shows "\<exists>w. newSP p s = Trap ESTACK (s\<lparr>wst := w\<rparr>)"
proof -
  note t = wtrap_frame [where 'a = unit and t = ESTACK and s = s]
  consider "LB s < p" | "\<not> LB s < p" "\<not> is_wordaligned s p"
    | "\<not> LB s < p" "is_wordaligned s p" "p < SP s" "p < HP s"
    | "\<not> LB s < p" "is_wordaligned s p" "p < SP s" "\<not> p < HP s"
      "maxstack s \<noteq> 0" "ulong (MLim s - p) > ulong (maxstack s)"
    using assms unfolding newSP_refuses_def by blast
  then show ?thesis
  proof cases
    case 1 with t [of WSPGTLB] show ?thesis by (elim exE) (rule exI, simp add: newSP_def)
  next
    case 2 with t [of WSPODD] show ?thesis by (elim exE) (rule exI, simp add: newSP_def)
  next
    case 3 with t [of WSPINHEAP] show ?thesis by (elim exE) (rule exI, simp add: newSP_def)
  next
    case 4 with t [of WESTACK] show ?thesis by (elim exE) (rule exI, simp add: newSP_def)
  qed
qed

lemma newSP_accepted:
  assumes "\<not> newSP_refuses p s"
  shows "newSP p s = seqM [
     withM (\<lambda>s. whenM (p < SP s) (seqM [
       whenM (p < SL s) (extend_stack p),
       st_clear_area (ulong (SP s - 1)) p])),
     modifyM (\<lambda>s. s\<lparr>SP := p\<rparr>)] s"
proof -
  have "\<not> LB s < p" "is_wordaligned s p" "p < SP s \<Longrightarrow> \<not> p < HP s"
    "p < SP s \<Longrightarrow> maxstack s = 0 \<or> \<not> ulong (maxstack s) < ulong (MLim s - p)"
    using assms by (auto simp: newSP_refuses_def)
  then show ?thesis by (cases "p < SP s"; cases "maxstack s = 0") (simp_all add: newSP_def)
qed

text \<open>The outcomes of \<open>newSP\<close> when it accepts: out of memory, an overrun of the clearing loop
  for \<open>p = 0\<close>, or the new value in place.\<close>

lemma newSP_accepted_cases:
  assumes s: "minv c s" and n: "\<not> newSP_refuses p s"
  shows "(\<exists>e t. newSP p s = Fatal e t) \<or> newSP p s = Undef \<or>
    (\<exists>s'. newSP p s = Ok () s' \<and> minv c s' \<and>
      (\<exists>h l k. s' = s\<lparr>SP := p, stack_sh := h, SL := l, stack_len := k\<rparr>))"
proof (cases "p < SP s")
  case False
  have "p \<le> LB s" "wsize c dvd p" using n by (simp_all add: newSP_refuses_def aligned_iff [OF s])
  then have "minv c (s\<lparr>SP := p\<rparr>)"
    using False minv_regs(5,10) [OF s] by (intro minv_upd_SP s) simp_all
  moreover have "newSP p s = Ok () (s\<lparr>SP := p\<rparr>)"
    using False by (simp add: newSP_accepted [OF n])
  moreover have "s\<lparr>SP := p\<rparr> = s\<lparr>SP := p, stack_sh := stack_sh s, SL := SL s, stack_len := stack_len s\<rparr>"
    by simp
  ultimately show ?thesis by blast
next
  case True
  have p: "p \<le> LB s" "wsize c dvd p" "HP s \<le> p"
    using n True by (simp_all add: newSP_refuses_def aligned_iff [OF s])
  have p0: "0 \<le> p" "p \<le> MLim c + 1" using p minv_regs(1,7) [OF s] by linarith+
  have st: "(\<exists>e t. whenM (p < SL s) (extend_stack p) s = Fatal e t) \<or>
    (\<exists>l k. whenM (p < SL s) (extend_stack p) s = Ok () (s\<lparr>SL := l, stack_len := k\<rparr>)
      \<and> minv c (s\<lparr>SL := l, stack_len := k\<rparr>) \<and> MLim c + 1 - p \<le> k)"
    by (rule extend_step [OF s p0 True])
  then show ?thesis
  proof (elim disjE exE conjE)
    fix e t assume "whenM (p < SL s) (extend_stack p) s = Fatal e t"
    then show ?thesis using True by (simp add: newSP_accepted [OF n])
  next
    fix l k
    let ?t = "s\<lparr>SL := l, stack_len := k\<rparr>"
    assume t: "whenM (p < SL s) (extend_stack p) s = Ok () ?t" and i: "minv c ?t"
      and k: "MLim c + 1 - p \<le> k"
    have e: "newSP p s = (case st_clear_area (ulong (SP s - 1)) p ?t of
        Ok x u \<Rightarrow> Ok () (u\<lparr>SP := p\<rparr>) | Trap n u \<Rightarrow> Trap n u | Fatal e u \<Rightarrow> Fatal e u
      | Undef \<Rightarrow> Undef | Diverge \<Rightarrow> Diverge)"
      using t True by (simp add: newSP_accepted [OF n] split: outcome.split)
    show ?thesis
    proof (cases "st_clear_area (ulong (SP s - 1)) p ?t = Undef")
      case True
      then show ?thesis using e by simp
    next
      case False
      have "p \<noteq> 0" using False by (cases "p = 0") (simp_all add: st_clear_area_def)
      then have "st_clear_area (ulong (SP s - 1)) p
          = clear_down (nat (ulong (SP s - 1) - p + 1)) (ulong (SP s - 1))"
        by (simp only: st_clear_area_def if_False)
      then obtain h where h: "st_clear_area (ulong (SP s - 1)) p ?t = Ok () (?t\<lparr>stack_sh := h\<rparr>)"
        using False clear_down_cases [of _ _ ?t] by metis
      have "minv c (?t\<lparr>stack_sh := h, SP := p\<rparr>)"
        using i k p p0 by (intro minv_upd_SP) simp_all
      moreover have "?t\<lparr>stack_sh := h, SP := p\<rparr> = s\<lparr>SP := p, stack_sh := h, SL := l, stack_len := k\<rparr>"
        by simp
      moreover have "newSP p s = Ok () (?t\<lparr>stack_sh := h, SP := p\<rparr>)" using e h by simp
      ultimately show ?thesis by blast
    qed
  qed
qed

lemma keeps_newSP [keeps_rules]: "keeps (minv c) (newSP p) anyR"
proof (rule keepsI)
  fix s x s' assume s: "minv c s" and e: "newSP p s = Ok x s'"
  have "\<not> newSP_refuses p s" using newSP_refused [of p s] e by auto
  then show "minv c s' \<and> True" using newSP_accepted_cases [OF s, of p] e by auto
next
  fix s n s' assume s: "minv c s" and e: "newSP p s = Trap n s'"
  then have "newSP_refuses p s" using newSP_accepted_cases [OF s, of p] by auto
  then show "minv c s'" using newSP_refused [of p s] e s by auto
qed

lemma dvd_ulong:
  assumes "minv c s" and "wsize c dvd a"
  shows "wsize c dvd ulong a"
  using assms(2) minv_caps(1) [OF assms(1)]
  by (auto simp: ulong_def take_bit_eq_mod dvd_mod)

lemma fill_stack_sh:
  "forM k a (wr_stack_sh f) s = Undef \<or> (\<exists>h. forM k a (wr_stack_sh f) s = Ok () (s\<lparr>stack_sh := h\<rparr>))"
proof (induction k arbitrary: a s)
  case 0
  have "forM 0 a (wr_stack_sh f) s = Ok () (s\<lparr>stack_sh := stack_sh s\<rparr>)" by simp
  then show ?case by blast
next
  case (Suc k)
  let ?s = "s\<lparr>stack_sh := (stack_sh s)(a := f)\<rparr>"
  show ?case
  proof (cases "stack_ok s a")
    case True
    then have "forM (Suc k) a (wr_stack_sh f) s = forM k (a + 1) (wr_stack_sh f) ?s"
      by (simp add: wr_stack_sh_def)
    moreover have "?s\<lparr>stack_sh := h\<rparr> = s\<lparr>stack_sh := h\<rparr>" for h by simp
    ultimately show ?thesis using Suc.IH [of "a + 1" ?s] by metis
  next
    case False
    then show ?thesis by (simp add: wr_stack_sh_def)
  qed
qed

lemma fill_stack_sh_ok:
  assumes "a + int k \<le> MLim s + 1" and "MLim s + 1 - a \<le> stack_len s"
  shows "\<exists>h. forM k a (wr_stack_sh f) s = Ok () (s\<lparr>stack_sh := h\<rparr>)"
  using assms
proof (induction k arbitrary: a s)
  case 0
  show ?case by (intro exI [of _ "stack_sh s"]) simp
next
  case (Suc k)
  let ?s = "s\<lparr>stack_sh := (stack_sh s)(a := f)\<rparr>"
  have "wr_stack_sh f a s = Ok () ?s"
    using Suc.prems by (simp add: wr_stack_sh_def stack_ok_def)
  moreover have "\<exists>h. forM k (a + 1) (wr_stack_sh f) ?s = Ok () (?s\<lparr>stack_sh := h\<rparr>)"
    using Suc.prems by (intro Suc.IH) simp_all
  then obtain h where "forM k (a + 1) (wr_stack_sh f) ?s = Ok () (?s\<lparr>stack_sh := h\<rparr>)" ..
  ultimately show ?case by (intro exI [of _ h]) simp
qed

lemma fill_stack_sh_undef: "\<not> stack_ok s a \<Longrightarrow> 0 < k \<Longrightarrow> forM k a (wr_stack_sh f) s = Undef"
  by (cases k) (simp_all add: wr_stack_sh_def)

text \<open>The fast path of \<open>incSP\<close>: with \<open>n\<close> beyond the stack pointer the subtraction wraps around,
  and the loop leaves the array.\<close>

definition wmult :: "em_prog \<Rightarrow> size \<Rightarrow> bool" where
  "wmult c n \<longleftrightarrow> 0 \<le> n \<and> wsize c dvd n \<and> n < 2 ^ 63"

lemma incSP_fast:
  assumes s: "minv c s" and n: "wmult c n"
    and f: "\<not> (ulong (SP s - n) < HP s \<or> maxstack s \<noteq> 0 \<or> ulong (SP s - n) < SL s)"
  shows "incSP n s = Undef \<or> 0 \<le> n \<and> n \<le> SP s \<and>
    (\<exists>h. incSP n s = Ok () (s\<lparr>SP := SP s - n, stack_sh := h\<rparr>)) \<and> minv c (s\<lparr>SP := SP s - n\<rparr>)"
proof -
  let ?p = "ulong (SP s - n)"
  have e: "n < 0 \<Longrightarrow> incSP n s = Undef"
    "\<not> n < 0 \<Longrightarrow> incSP n s = forM (nat n) ?p (wr_stack_sh SH_UNDEF) (s\<lparr>SP := ?p\<rparr>)"
    using f by (simp_all add: incSP_def Let_def)
  show ?thesis
  proof (cases "0 < n \<and> \<not> stack_ok s ?p \<or> n < 0")
    case True
    then show ?thesis using e fill_stack_sh_undef [of "s\<lparr>SP := ?p\<rparr>" ?p "nat n" SH_UNDEF]
      by (auto simp: stack_ok_def)
  next
    case False
    have n0: "0 \<le> n" and ok: "n = 0 \<or> ?p \<le> MLim c"
      using False by (auto simp: stack_ok_def minv_fields(17) [OF s])
    have le: "n \<le> SP s"
    proof (rule ccontr)
      assume neg: "\<not> n \<le> SP s"
      then have "?p = SP s - n + 2 ^ 64"
        using n minv_regs(5) [OF s] by (intro ulong_neg) (simp_all add: wmult_def)
      then show False
        using ok neg n minv_regs(5) [OF s] minv_MLim(2) [OF s] by (auto simp: wmult_def)
    qed
    have p: "?p = SP s - n"
      using le n0 minv_regs(6,7) [OF s] minv_MLim(2) [OF s] by (intro ulong_id) simp_all
    have "minv c (s\<lparr>SP := SP s - n\<rparr>)"
    proof (rule minv_upd_SP [OF s])
      show "wsize c dvd SP s - n" using n minv_regs(8) [OF s] by (simp add: wmult_def)
      show "MLim c + 1 - (SP s - n) \<le> stack_len s"
        using f p n0 minv_regs(6,7) [OF s] by (intro SL_bound [OF s]) simp_all
    qed (use le n0 minv_regs(6) [OF s] in simp_all)
    moreover have "incSP n s = Undef \<or> (\<exists>h. incSP n s = Ok () (s\<lparr>SP := SP s - n, stack_sh := h\<rparr>))"
      using fill_stack_sh [of "nat n" ?p SH_UNDEF "s\<lparr>SP := ?p\<rparr>"] e(2) n0 unfolding p by simp
    ultimately show ?thesis using n0 le by blast
  qed
qed

lemma keeps_incSP [keeps_rules]:
  assumes "wmult c n"
  shows "keeps (minv c) (incSP n) anyR"
  unfolding keeps_def
proof (intro allI impI)
  fix s assume s: "minv c s"
  let ?slow = "ulong (SP s - n) < HP s \<or> maxstack s \<noteq> 0 \<or> ulong (SP s - n) < SL s"
  show "case incSP n s of Ok x s' \<Rightarrow> minv c s' \<and> True | Trap n s' \<Rightarrow> minv c s'
      | Fatal e s' \<Rightarrow> True | Undef \<Rightarrow> True | Diverge \<Rightarrow> True"
  proof (cases ?slow)
    case True
    then have "incSP n s = newSP (ulong (SP s - n)) s" unfolding incSP_def by (simp add: Let_def)
    then show ?thesis using keepsD [OF keeps_newSP s] by simp
  next
    case False
    then show ?thesis
      using incSP_fast [OF s assms False] by (auto split: outcome.split)
  qed
qed

lemma SP_plus:
  assumes s: "minv c s" and n: "wmult c n"
  shows "ulong (SP s + n) = SP s + n"
  using n minv_regs(5-7) [OF s] minv_MLim(2) [OF s]
  by (intro ulong_id) (simp_all add: wmult_def)

lemma decSP_fast:
  assumes s: "minv c s" and n: "wmult c n" and le: "SP s + n \<le> LB s"
  shows "decSP n s = Ok () (s\<lparr>SP := SP s + n\<rparr>)" and "minv c (s\<lparr>SP := SP s + n\<rparr>)"
proof -
  show "decSP n s = Ok () (s\<lparr>SP := SP s + n\<rparr>)"
    using le by (simp add: decSP_def Let_def SP_plus [OF s n])
  show "minv c (s\<lparr>SP := SP s + n\<rparr>)"
  proof (rule minv_upd_SP [OF s _ le])
    show "wsize c dvd SP s + n" using n minv_regs(8) [OF s] by (simp add: wmult_def)
  qed (use n minv_regs(5,10) [OF s] in \<open>simp_all add: wmult_def\<close>)
qed

lemma decSP_trap:
  assumes s: "minv c s" and n: "wmult c n" and "LB s < SP s + n"
  shows "\<exists>w. decSP n s = Trap ESTACK (s\<lparr>wst := w\<rparr>)"
  using newSP_refused [of "SP s + n" s] assms(3)
  by (simp add: decSP_def Let_def SP_plus [OF s n] newSP_refuses_def)

lemma keeps_decSP [keeps_rules]:
  assumes "wmult c n"
  shows "keeps (minv c) (decSP n) anyR"
  unfolding keeps_def
proof (intro allI impI)
  fix s assume s: "minv c s"
  show "case decSP n s of Ok x s' \<Rightarrow> minv c s' \<and> True | Trap n s' \<Rightarrow> minv c s'
      | Fatal e s' \<Rightarrow> True | Undef \<Rightarrow> True | Diverge \<Rightarrow> True"
  proof (cases "LB s < SP s + n")
    case True
    then show ?thesis using decSP_trap [OF s assms True] s by (elim exE) simp
  next
    case False
    then show ?thesis using decSP_fast [OF s assms] by simp
  qed
qed

lemma wmult_sizes: "minv c s \<Longrightarrow> wmult c (wsize c)" "minv c s \<Longrightarrow> wmult c (psize c)"
    "minv c s \<Longrightarrow> wmult c (rsbsize c)" "minv c s \<Longrightarrow> wmult c 0"
  using minv_caps [of c s] by (auto simp: wmult_def)

section \<open>The operations keep the invariant\<close>

lemma keeps_st_stores [keeps_rules]:
  "keeps (minv c) (st_stdp a p) anyR" "keeps (minv c) (st_stip a p) anyR"
  "keeps (minv c) (st_stn a l n) anyR" "keeps (minv c) (st_stw a l) anyR"
  unfolding st_stdp_def st_stip_def st_stn_def st_stw_def by (rule keeps_rules)+

lemma keeps_st_loads [keeps_rules]:
  assumes "wst_free I"
  shows "keeps I (st_lddp a) word32" "keeps I (st_ldip a) word32"
    "keeps I (st_ldu a n) anyR" "keeps I (st_lduw a) anyR"
    "keeps I (st_lds a n) anyR" "keeps I (st_ldsw a) anyR"
  unfolding st_lddp_def st_ldip_def st_ldu_def st_lduw_def st_lds_def st_ldsw_def
  by (rule keeps_rules assms)+

lemma keeps_st_moves [keeps_rules]:
  "keeps (minv c) (st_mvs a b n) anyR" "keeps (minv c) (st_mvd a b n) anyR"
  unfolding st_mvs_def st_mvd_def by (rule keeps_rules)+

lemma keeps_st_inc [keeps_rules]:
  "keeps (minv c) (st_inc n) anyR" "keeps (minv c) (st_dec n) anyR"
  unfolding st_inc_def st_dec_def by (rule keeps_rules)+

lemma keeps_is_LB [keeps_rules]: "wst_free I \<Longrightarrow> keeps I (is_LB p) anyR"
  unfolding is_LB_def by (rule keeps_rules TrueI | assumption)+

lemma minv_upd_LB:
  assumes "minv c s" and "SP s \<le> p" and "p \<le> MLim c + 1" and "wsize c dvd p"
  shows "minv c (s\<lparr>LB := p\<rparr>)"
  using assms minv_fields [OF assms(1)] by (simp add: minv_def regs_ok_def)

lemma newLB_Ok:
  assumes s: "minv c s" and e: "newLB p s = Ok x s'"
  shows "\<exists>w. s' = s\<lparr>wst := w, LB := p, AB := ulong (p + rsbsize c)\<rparr> \<and> minv c s'
    \<and> SP s \<le> p \<and> p \<le> MLim c \<and> wsize c dvd p"
proof -
  have g: "in_stack s p \<and> is_wordaligned s p"
  proof (rule ccontr)
    assume n: "\<not> (in_stack s p \<and> is_wordaligned s p)"
    show False
      using e n wtrap_not_Ok [where 'a = unit]
      by (cases "in_stack s p") (simp_all add: newLB_def split: outcome.splits)
  qed
  let ?m = "bindM (is_LB p) (\<lambda>b. whenM (\<not> b) (wtrap WLBRSB ESTACK))"
  let ?k = "seqM [modifyM (\<lambda>s. s\<lparr>LB := p\<rparr>), modifyM (\<lambda>s. s\<lparr>AB := ulong (LB s + rsbsize s)\<rparr>)]"
  have "newLB p s = thenM ?m ?k s" using g by (simp add: newLB_def)
  then have "thenM ?m ?k s = Ok x s'" using e by (simp only:)
  then obtain y t where m: "?m s = Ok y t" and "?k t = Ok x s'" unfolding thenM_eq_Ok by blast
  then have t: "s' = t\<lparr>LB := p, AB := ulong (p + rsbsize t)\<rparr>" by simp
  have "keeps I ?m anyR" if "wst_free I" for I
    by (rule keeps_rules that)+
  then obtain w where w: "t = s\<lparr>wst := w\<rparr>" using only_wst_Ok [of ?m, OF _ m] by blast
  have p: "SP s \<le> p" "p \<le> MLim c" "wsize c dvd p"
    using g minv_fields(17) [OF s] by (simp_all add: in_stack_def aligned_iff [OF s])
  have "minv c (s\<lparr>wst := w, LB := p\<rparr>)" using s p by (intro minv_upd_LB) simp_all
  then show ?thesis using t w p minv_fields(16) [OF s] by (intro exI [of _ w]) simp
qed

lemma keeps_newLB [keeps_rules]: "keeps (minv c) (newLB p) anyR"
proof (rule keepsI)
  fix s x s' assume "minv c s" "newLB p s = Ok x s'"
  then show "minv c s' \<and> True" using newLB_Ok by blast
next
  fix s n s' assume s: "minv c s" and e: "newLB p s = Trap n s'"
  let ?m = "seqM [
     withM (\<lambda>s. whenM (\<not> in_stack s p) (wtrap WLBOUT ESTACK)),
     withM (\<lambda>s. whenM (\<not> is_wordaligned s p) (wtrap WLBODD ESTACK)),
     bindM (is_LB p) (\<lambda>b. whenM (\<not> b) (wtrap WLBRSB ESTACK))]"
  let ?k = "seqM [modifyM (\<lambda>s. s\<lparr>LB := p\<rparr>), modifyM (\<lambda>s. s\<lparr>AB := ulong (LB s + rsbsize s)\<rparr>)]"
  have "newLB p s = thenM ?m ?k s" by (simp add: newLB_def split: outcome.split)
  then have "thenM ?m ?k s = Trap n s'" using e by (simp only:)
  moreover have "?k t \<noteq> Trap n s'" for t by simp
  ultimately have m: "?m s = Trap n s'" unfolding thenM_eq_Trap by blast
  have "keeps I ?m anyR" if "wst_free I" for I
    by (rule keeps_rules that)+
  then obtain w where "s' = s\<lparr>wst := w\<rparr>" using only_wst_Trap [of ?m, OF _ m] by blast
  then show "minv c s'" using s by simp
qed

lemma wmult_max: "minv c s \<Longrightarrow> n \<le> wsize c \<or> wmult c n \<Longrightarrow> wmult c (max n (wsize c))"
  using wmult_sizes(1) [of c s] by (auto simp: max_def wmult_def)

text \<open>Sizes the pop and push routines are called with: within a word, or a multiple of it.\<close>

definition pop_size :: "em_prog \<Rightarrow> size \<Rightarrow> bool" where
  "pop_size c n \<longleftrightarrow> n \<le> wsize c \<or> wmult c n"

lemma keeps_pops [keeps_rules]:
  "keeps (minv c) dppop word32" "keeps (minv c) uwpop anyR" "keeps (minv c) swpop anyR"
  "keeps (minv c) wpop anyR"
  "pop_size c n \<Longrightarrow> keeps (minv c) (upop n) anyR" "pop_size c n \<Longrightarrow> keeps (minv c) (spop n) anyR"
  unfolding dppop_def uwpop_def swpop_def wpop_def upop_def spop_def pop_size_def
  by (rule keeps_rules TrueI | simp add: minv_fields wmult_sizes wmult_max)+

lemma wmult_pop: "pop_size c n \<Longrightarrow> \<not> n < wsize c \<Longrightarrow> minv c s \<Longrightarrow> wmult c n"
  using wmult_sizes(1) [of c s] by (auto simp: pop_size_def)

lemma keeps_pop_to [keeps_rules]:
  "pop_size c n \<Longrightarrow> keeps (minv c) (pop_dt a n) anyR" "keeps (minv c) (popw_dt a) anyR"
  "pop_size c n \<Longrightarrow> keeps (minv c) (pop_st a n) anyR" "keeps (minv c) (popw_st a) anyR"
  "pop_size c n \<Longrightarrow> keeps (minv c) (pop_m a n) anyR" "keeps (minv c) (popw_m a) anyR"
  unfolding pop_m_def popw_m_def pop_dt_def popw_dt_def pop_st_def popw_st_def
  by (rule keeps_rules | simp add: minv_fields wmult_sizes wmult_pop)+

lemma keeps_npush [keeps_rules]: "pop_size c n \<Longrightarrow> keeps (minv c) (npush l n) anyR"
  unfolding npush_def
  by (rule keeps_rules | simp add: minv_fields wmult_sizes wmult_pop)+

lemma keeps_pushes [keeps_rules]:
  "keeps (minv c) (dppush p) anyR" "keeps (minv c) (wpush l) anyR"
  "pop_size c n \<Longrightarrow> keeps (minv c) (push_dt a n) anyR" "keeps (minv c) (pushw_dt a) anyR"
  "pop_size c n \<Longrightarrow> keeps (minv c) (push_st a n) anyR" "keeps (minv c) (pushw_st a) anyR"
  "pop_size c n \<Longrightarrow> keeps (minv c) (push_m a n) anyR" "keeps (minv c) (pushw_m a) anyR"
  unfolding push_m_def pushw_m_def dppush_def wpush_def push_dt_def pushw_dt_def push_st_def pushw_st_def
  by (rule keeps_rules | simp add: minv_fields wmult_sizes wmult_pop)+

lemma keeps_mem [keeps_rules]:
  "keeps (minv c) (mem_stn a l n) anyR" "keeps (minv c) (mem_lddp a) word32"
  "keeps (minv c) (mem_ldip a) word32" "keeps (minv c) (mem_ldu a n) anyR"
  "keeps (minv c) (mem_lduw a) anyR" "keeps (minv c) (mem_lds a n) anyR"
  "keeps (minv c) (mem_ldsw a) anyR"
  unfolding mem_stn_def mem_lddp_def mem_ldip_def mem_ldu_def mem_lduw_def mem_lds_def mem_ldsw_def
  by (rule keeps_rules)+

section \<open>Functional behaviour of loads and stores\<close>

lemma stack_run_ok:
  assumes "minv c s" and "SP s \<le> a" and "0 \<le> n" and "a + n \<le> MLim c + 1"
  shows "sseg.run_ok s a (nat n)"
  using assms(2-4) minv_regs(5,10) [OF assms(1)] minv_MLim(2) [OF assms(1)]
  by (auto simp: sseg.run_ok_def stack_ok_def minv_fields(17) [OF assms(1)])

lemma ch_in_stack_ok:
  assumes "minv c s" and "0 < a + n" and "a + n < 2 ^ 64"
  shows "ch_in_stack a n s = (if SP s \<le> a \<and> a + n \<le> MLim c + 1 then Ok () s else Trap EMEMFLT s)"
  using assms(2,3)
  by (auto simp: ch_in_stack_def ensure_def is_in_stack_def ulong_id minv_fields(17) [OF assms(1)])

text \<open>For a word the two checks together also exclude a wrap-around of \<open>a + wsizem1\<close>.\<close>

lemma ch_w_stack_ok:
  assumes s: "minv c s" and a: "0 \<le> a" "a < 2 ^ 64"
  shows "thenM (ch_w_in_stack a) (ch_wordaligned a) s =
    (if \<not> w_is_in_stack s a then Trap EMEMFLT s
     else if \<not> wsize c dvd a then Trap EBADPTR s else Ok () s)"
    and "w_is_in_stack s a \<Longrightarrow> wsize c dvd a \<Longrightarrow> SP s \<le> a \<and> a + wsize c \<le> MLim c + 1"
proof -
  show "thenM (ch_w_in_stack a) (ch_wordaligned a) s =
    (if \<not> w_is_in_stack s a then Trap EMEMFLT s
     else if \<not> wsize c dvd a then Trap EBADPTR s else Ok () s)"
    by (simp add: ch_w_in_stack_def ensure_def ch_wordaligned_ok [OF s])
  assume w: "w_is_in_stack s a" and d: "wsize c dvd a"
  have "a + (wsize c - 1) < 2 ^ 64"
  proof -
    have "wsize c dvd 2 ^ 64" using minv_caps(1) [OF s] by auto
    then have "wsize c dvd 2 ^ 64 - a" using d by (rule dvd_diff)
    then have "wsize c \<le> 2 ^ 64 - a" using a by (intro zdvd_imp_le) simp_all
    then show ?thesis by linarith
  qed
  then have "ulong (a + wsizem1 s) = a + (wsize c - 1)"
    using a minv_caps(1,5) [OF s] by (intro trans [OF ulong_id]) (auto simp: minv_fields(4) [OF s])
  then show "SP s \<le> a \<and> a + wsize c \<le> MLim c + 1"
    using w by (simp add: w_is_in_stack_def minv_fields(17) [OF s])
qed

lemma st_stw_ok:
  assumes s: "minv c s" and a: "SP s \<le> a" "a + wsize c \<le> MLim c + 1" "wsize c dvd a"
  shows "\<exists>w. st_stw a l s = Ok ()
    (upd_stack (upd_bytes (stack s) a (le_bytes (nat (wsize c)) l))
      (upd_bytes (stack_sh s) a (replicate (nat (wsize c)) (int_flags s l (wsize c)))) w s)"
proof -
  have "w_is_in_stack s a"
    using a minv_regs(5) [OF s] minv_caps(1,5) [OF s] minv_MLim(2) [OF s]
    by (auto simp: w_is_in_stack_def ulong_id minv_fields(4,17) [OF s])
  moreover have "sseg.run_ok s a (nat (wsize c))"
    using a minv_caps(1) [OF s] by (intro stack_run_ok [OF s]) auto
  ultimately show ?thesis
    using sseg.store_loop_ok [of s a "nat (wsize c)"] a(3)
    by (simp add: st_stw_def ch_w_in_stack_def ensure_def ch_wordaligned_ok [OF s] minv_fields(1) [OF s])
qed

lemma st_stn_ok:
  assumes s: "minv c s" and "SP s \<le> a" and "0 < n" and "n \<le> 8" and "a + n \<le> MLim c + 1"
    and "min n (wsize c) dvd a"
  shows "\<exists>w. st_stn a l n s = Ok ()
    (upd_stack (upd_bytes (stack s) a (le_bytes (nat n) l))
      (upd_bytes (stack_sh s) a (replicate (nat n) (int_flags s l n))) w s)"
  using sseg.store_loop_ok [OF stack_run_ok [OF s, of a n]] assms minv_regs(5) [OF s] minv_MLim(2) [OF s]
  by (simp add: st_stn_def ch_in_stack_ok [OF s] ch_aligned_ok [OF s] c_int_id)

lemma st_ldu_ok:
  assumes s: "minv c s" and "SP s \<le> a" and "0 < n" and "n \<le> 4" and "a + n \<le> MLim c + 1"
    and "min n (wsize c) dvd a"
  shows "\<exists>w. st_ldu a n s = Ok (uval (rd_bytes (stack s) a (nat n))) (s\<lparr>wst := w\<rparr>)"
  using sseg.expect_load_u [OF stack_run_ok [OF s, of a n]] assms minv_regs(5) [OF s] minv_MLim(2) [OF s]
  by (simp add: st_ldu_def ch_in_stack_ok [OF s] ch_aligned_ok [OF s])

lemma st_lds_ok:
  assumes s: "minv c s" and "SP s \<le> a" and "0 < n" and "n \<le> 8" and "a + n \<le> MLim c + 1"
    and "min n (wsize c) dvd a"
  shows "\<exists>w. st_lds a n s = Ok (sval (rd_bytes (stack s) a (nat n))) (s\<lparr>wst := w\<rparr>)"
  using sseg.expect_load_s [OF stack_run_ok [OF s, of a n]] assms minv_regs(5) [OF s] minv_MLim(2) [OF s]
  by (simp add: st_lds_def ch_in_stack_ok [OF s] ch_aligned_ok [OF s])

lemma st_lddp_ok:
  assumes s: "minv c s" and "SP s \<le> a" and "a + psize c \<le> MLim c + 1" and "wsize c dvd a"
  shows "\<exists>w. st_lddp a s = Ok (uval (rd_bytes (stack s) a (nat (psize c)))) (s\<lparr>wst := w\<rparr>)"
  using sseg.expect_p_in [OF stack_run_ok [OF s, of a "psize s"]] assms minv_regs(5) [OF s]
    minv_MLim(2) [OF s] minv_caps(2) [OF s]
  by (auto simp: st_lddp_def ch_in_stack_ok [OF s] ch_wordaligned_ok [OF s] minv_fields(2) [OF s])

lemma st_ldip_ok:
  assumes s: "minv c s" and "SP s \<le> a" and "a + psize c \<le> MLim c + 1" and "wsize c dvd a"
  shows "\<exists>w. st_ldip a s = Ok (uval (rd_bytes (stack s) a (nat (psize c)))) (s\<lparr>wst := w\<rparr>)"
  using sseg.expect_p_in [OF stack_run_ok [OF s, of a "psize s"]] assms minv_regs(5) [OF s]
    minv_MLim(2) [OF s] minv_caps(2) [OF s]
  by (auto simp: st_ldip_def ch_in_stack_ok [OF s] ch_wordaligned_ok [OF s] minv_fields(2) [OF s])

lemma st_stp_ok:
  assumes s: "minv c s" and "SP s \<le> a" and "a + psize c \<le> MLim c + 1" and "wsize c dvd a"
  shows "\<exists>w. st_stdp a p s = Ok ()
      (upd_stack (upd_bytes (stack s) a (le_bytes (nat (psize c)) (slong p)))
        (upd_bytes (stack_sh s) a (replicate (nat (psize c)) SH_DATAP)) w s)"
    and "\<exists>w. st_stip a p s = Ok ()
      (upd_stack (upd_bytes (stack s) a (le_bytes (nat (psize c)) (slong p)))
        (upd_bytes (stack_sh s) a (replicate (nat (psize c)) SH_INSP)) w s)"
  using sseg.store_loop_ok [OF stack_run_ok [OF s, of a "psize s"]] assms minv_regs(5) [OF s]
    minv_MLim(2) [OF s] minv_caps(2) [OF s]
  by (auto simp: st_stdp_def st_stip_def ch_in_stack_ok [OF s] ch_wordaligned_ok [OF s] minv_fields(2) [OF s])

lemma w_in_stack_ok:
  assumes s: "minv c s" and a: "SP s + wsize c \<le> MLim c + 1"
  shows "w_in_stack (SP s) s = Ok (sval (rd_bytes (stack s) (SP s) (nat (wsize c)))) s"
proof -
  have r: "rd_stack (ulong (SP s + i)) s = Ok (stack s (SP s + i)) s" if "0 \<le> i" "i < wsize c" for i
    using that a minv_regs(5,10) [OF s] minv_MLim(2) [OF s]
    by (simp add: rd_stack_def stack_ok_def ulong_id minv_fields(17) [OF s])
  have r0: "rd_stack (SP s) s = Ok (stack s (SP s)) s"
    using a minv_regs(5,10) [OF s] minv_caps(1) [OF s]
    by (auto simp: rd_stack_def stack_ok_def minv_fields(17) [OF s])
  consider "wsize c = 2" | "wsize c = 4" using minv_caps(1) [OF s] by blast
  then show ?thesis
    by cases (simp_all add: w_in_stack_def minv_fields(1) [OF s] r r0 or_bytes2 or_bytes4 sval_rd2 sval_rd4)
qed

end
