(* ===== verification/Opstack.thy ===== *)
theory Opstack
  imports Stack
begin

text \<open>
  The operand stack as an abstract data type.  \<open>opstack s\<close> lists the bytes from the stack
  pointer up to the memory limit; the push and pop routines of \<open>stack.c\<close> refine consing
  and dropping bytes on that list.  \<open>runs c m s v bs\<close> says that routine \<open>m\<close> returns
  \<open>v\<close>, leaves the operand stack \<open>bs\<close>, keeps the invariant, and changes
  nothing else of the machine (\<open>stk_frame\<close>) but the book-keeping of the stack segment,
  the warnings and the validity flag of the function return area.  \<open>raises\<close> is its
  counterpart for a routine that traps.
\<close>

section \<open>The abstraction\<close>

definition opstack :: "mach \<Rightarrow> byte list" where
  "opstack s = rd_bytes (stack s) (SP s) (nat (MLim s + 1 - SP s))"

definition stk_frame :: "mach \<Rightarrow> mach \<Rightarrow> bool" where
  "stk_frame s s' \<longleftrightarrow> (\<exists>p d h l k w f.
     s' = s\<lparr>SP := p, stack := d, stack_sh := h, SL := l, stack_len := k, wst := w, FRA_def := f\<rparr>)"

definition gives :: "em_prog \<Rightarrow> 'a M \<Rightarrow> mach \<Rightarrow> int + 'a \<Rightarrow> byte list \<Rightarrow> bool" where
  "gives c m s r bs \<longleftrightarrow> (\<exists>s'. m s = (case r of Inl n \<Rightarrow> Trap n s' | Inr v \<Rightarrow> Ok v s')
     \<and> minv c s' \<and> stk_frame s s' \<and> opstack s' = bs)"

abbreviation runs :: "em_prog \<Rightarrow> 'a M \<Rightarrow> mach \<Rightarrow> 'a \<Rightarrow> byte list \<Rightarrow> bool" where
  "runs c m s v bs \<equiv> gives c m s (Inr v) bs"

abbreviation raises :: "em_prog \<Rightarrow> 'a M \<Rightarrow> mach \<Rightarrow> int \<Rightarrow> byte list \<Rightarrow> bool" where
  "raises c m s n bs \<equiv> gives c m s (Inl n) bs"

text \<open>The bytes that belong to the frames of the callers stay below the local base.\<close>

definition lb_depth :: "mach \<Rightarrow> nat" where
  "lb_depth s = nat (MLim s + 1 - LB s)"

text \<open>A stack of \<open>k\<close> bytes stays clear of the heap; no limit was set on the command line and the
  host does not run out of memory.\<close>

definition fits :: "mach \<Rightarrow> nat \<Rightarrow> bool" where
  "fits s k \<longleftrightarrow> HP s + int k \<le> MLim s + 1 \<and> int k \<le> MLim s
     \<and> maxstack s = 0 \<and> (\<forall>n. mem_avail s n)"

lemma runs_def: "runs c m s v bs \<longleftrightarrow> (\<exists>s'. m s = Ok v s' \<and> minv c s' \<and> stk_frame s s' \<and> opstack s' = bs)"
  by (simp add: gives_def)

lemma raises_def: "raises c m s n bs \<longleftrightarrow> (\<exists>s'. m s = Trap n s' \<and> minv c s' \<and> stk_frame s s' \<and> opstack s' = bs)"
  by (simp add: gives_def)

lemma stk_frameI: "s' = s\<lparr>SP := p, stack := d, stack_sh := h, SL := l, stack_len := k, wst := w\<rparr>
    \<Longrightarrow> stk_frame s s'"
proof -
  assume "s' = s\<lparr>SP := p, stack := d, stack_sh := h, SL := l, stack_len := k, wst := w\<rparr>"
  then have "s' = s\<lparr>SP := p, stack := d, stack_sh := h, SL := l, stack_len := k, wst := w,
    FRA_def := FRA_def s\<rparr>" by simp
  then show "stk_frame s s'" unfolding stk_frame_def by blast
qed

lemma stk_frame_refl: "stk_frame s s"
  by (rule stk_frameI [where p = "SP s" and d = "stack s" and h = "stack_sh s" and l = "SL s"
      and k = "stack_len s" and w = "wst s"]) simp

lemma stk_frame_trans: "stk_frame s t \<Longrightarrow> stk_frame t u \<Longrightarrow> stk_frame s u"
  unfolding stk_frame_def
proof (elim exE)
  fix p d h l k w f p' d' h' l' k' w' f'
  assume "t = s\<lparr>SP := p, stack := d, stack_sh := h, SL := l, stack_len := k, wst := w, FRA_def := f\<rparr>"
    and "u = t\<lparr>SP := p', stack := d', stack_sh := h', SL := l', stack_len := k', wst := w', FRA_def := f'\<rparr>"
  then have "u = s\<lparr>SP := p', stack := d', stack_sh := h', SL := l', stack_len := k', wst := w', FRA_def := f'\<rparr>"
    by simp
  then show "\<exists>p d h l k w f.
      u = s\<lparr>SP := p, stack := d, stack_sh := h, SL := l, stack_len := k, wst := w, FRA_def := f\<rparr>"
    by blast
qed

lemma stk_frame_fields:
  assumes "stk_frame s t"
  shows "lb_depth t = lb_depth s" "fits t = fits s" "IgnMask t = IgnMask s" "must_test t = must_test s"
    "data t = data s" "HP t = HP s" "LB t = LB s" "AB t = AB s" "PC t = PC s" "PI t = PI s"
    "MLim t = MLim s" "wsize t = wsize s" "psize t = psize s" "ignored n t = ignored n s"
    "i_maxsw t = i_maxsw s" "i_minsw t = i_minsw s" "HB t = HB s" "data_len t = data_len s"
    "FRA t = FRA s" "LIN t = LIN s" "FIL t = FIL s" "OnTrap t = OnTrap s"
  using assms unfolding stk_frame_def
  by (auto simp: lb_depth_def fits_def ignored_def fun_eq_iff)

lemma runs_Ok: "runs c m s v bs \<Longrightarrow>
    (\<And>s'. m s = Ok v s' \<Longrightarrow> minv c s' \<Longrightarrow> stk_frame s s' \<Longrightarrow> opstack s' = bs \<Longrightarrow> P) \<Longrightarrow> P"
  unfolding runs_def by blast

lemma runsI: "m s = Ok v s' \<Longrightarrow> minv c s' \<Longrightarrow> stk_frame s s' \<Longrightarrow> opstack s' = bs \<Longrightarrow> runs c m s v bs"
  unfolding runs_def by blast

lemma runs_return: "minv c s \<Longrightarrow> opstack s = bs \<Longrightarrow> runs c (returnM v) s v bs"
  by (rule runsI) (simp_all add: stk_frame_refl)

lemma runs_bind:
  assumes "runs c m s v bs"
    and "\<And>s'. minv c s' \<Longrightarrow> stk_frame s s' \<Longrightarrow> opstack s' = bs \<Longrightarrow> gives c (f v) s' r bs'"
  shows "gives c (bindM m f) s r bs'"
  using assms(1)
proof (rule runs_Ok)
  fix s' assume m: "m s = Ok v s'" "minv c s'" "stk_frame s s'" "opstack s' = bs"
  obtain t where t: "f v s' = (case r of Inl n \<Rightarrow> Trap n t | Inr v \<Rightarrow> Ok v t)" "minv c t"
      "stk_frame s' t" "opstack t = bs'"
    using assms(2) [OF m(2-4)] unfolding gives_def by blast
  show ?thesis
    unfolding gives_def
    by (intro exI [of _ t]) (simp add: m(1) t stk_frame_trans [OF m(3) t(3)])
qed

lemma runs_then:
  assumes "runs c m s v bs"
    and "\<And>s'. minv c s' \<Longrightarrow> stk_frame s s' \<Longrightarrow> opstack s' = bs \<Longrightarrow> gives c k s' r bs'"
  shows "gives c (thenM m k) s r bs'"
  unfolding thenM_def using assms by (rule runs_bind)

lemma raises_bind:
  assumes "raises c m s n bs"
  shows "raises c (bindM m f) s n bs"
proof -
  obtain s' where "m s = Trap n s'" "minv c s'" "stk_frame s s'" "opstack s' = bs"
    using assms unfolding raises_def by blast
  then show ?thesis unfolding raises_def by (intro exI [of _ s']) simp
qed

lemma raises_trap: "minv c s \<Longrightarrow> opstack s = bs \<Longrightarrow> raises c (trap n) s n bs"
  unfolding raises_def by (intro exI [of _ s]) (simp add: stk_frame_refl)

lemma runs_with: "gives c (f s) s r bs \<Longrightarrow> gives c (withM f) s r bs"
  by (simp add: gives_def)

text \<open>A routine that does not change the machine.\<close>

lemma gives_pure:
  assumes "minv c s" and "m s = (case r of Inl n \<Rightarrow> Trap n s | Inr v \<Rightarrow> Ok v s)"
  shows "gives c m s r (opstack s)"
  unfolding gives_def using assms by (intro exI [of _ s]) (simp add: stk_frame_refl)

section \<open>Depth and stack pointer\<close>

lemma opstack_SP:
  assumes "minv c s"
  shows "SP s = MLim c + 1 - int (length (opstack s))"
  using minv_regs(6,7) [OF assms] by (simp add: opstack_def minv_fields(17) [OF assms])

lemma opstack_split:
  assumes s: "minv c s" and "opstack s = bs @ rest"
  shows "rd_bytes (stack s) (SP s) (length bs) = bs"
    and "rd_bytes (stack s) (SP s + int (length bs)) (length rest) = rest"
proof -
  have n: "nat (MLim s + 1 - SP s) = length bs + length rest"
    using arg_cong [OF assms(2), of length] by (simp add: opstack_def)
  have "rd_bytes (stack s) (SP s) (length bs)
      @ rd_bytes (stack s) (SP s + int (length bs)) (length rest) = bs @ rest"
    using assms(2) unfolding opstack_def n rd_bytes_add by simp
  then show "rd_bytes (stack s) (SP s) (length bs) = bs"
    "rd_bytes (stack s) (SP s + int (length bs)) (length rest) = rest"
    by (simp_all add: append_eq_append_conv)
qed

lemma opstack_pop:
  assumes s: "minv c s" and o: "opstack s = bs @ rest"
  shows "opstack (s\<lparr>wst := w, SP := SP s + int (length bs)\<rparr>) = rest"
proof -
  have "length bs + length rest = nat (MLim s + 1 - SP s)"
    using arg_cong [OF o, of length] by (simp add: opstack_def)
  then have "nat (MLim s + 1 - (SP s + int (length bs))) = length rest" by simp
  then show ?thesis using opstack_split(2) [OF s o] by (simp add: opstack_def)
qed

lemma opstack_upd:
  assumes "SP u = p" and "stack u = upd_bytes d p bs" and "MLim u + 1 = p + int (length bs + length rest)"
    and "rd_bytes d (p + int (length bs)) (length rest) = rest"
  shows "opstack u = bs @ rest"
proof -
  have k: "nat (MLim u + 1 - SP u) = length bs + length rest" using assms(1,3) by simp
  have "rd_bytes (upd_bytes d p bs) (p + int (length bs)) (length rest) = rest"
    using assms(4) rd_upd_disjoint [of "p + int (length bs)" "length rest" p bs d] by simp
  then show ?thesis unfolding opstack_def k unfolding assms(1,2) rd_bytes_add by simp
qed

section \<open>Pops\<close>

lemma decSP_pop:
  assumes s: "minv c s" and o: "opstack s = bs @ rest" and l: "lb_depth s \<le> length rest"
    and n: "wmult c (int (length bs))"
  shows "decSP (int (length bs)) (s\<lparr>wst := w\<rparr>) = Ok () (s\<lparr>wst := w, SP := SP s + int (length bs)\<rparr>)"
    and "minv c (s\<lparr>wst := w, SP := SP s + int (length bs)\<rparr>)"
proof -
  have "length bs + length rest = nat (MLim s + 1 - SP s)"
    using arg_cong [OF o, of length] by (simp add: opstack_def)
  then have "SP s + int (length bs) \<le> LB s"
    using l minv_regs(6,7) [OF s] by (simp add: lb_depth_def minv_fields(17) [OF s])
  then show "decSP (int (length bs)) (s\<lparr>wst := w\<rparr>) = Ok () (s\<lparr>wst := w, SP := SP s + int (length bs)\<rparr>)"
    "minv c (s\<lparr>wst := w, SP := SP s + int (length bs)\<rparr>)"
    using decSP_fast [of c "s\<lparr>wst := w\<rparr>", OF _ n] s by simp_all
qed

lemma stk_frame_pop: "stk_frame s (s\<lparr>wst := w, SP := p\<rparr>)"
  by (rule stk_frameI [where p = p and d = "stack s" and h = "stack_sh s" and l = "SL s"
      and k = "stack_len s" and w = w]) simp

text \<open>A load at the stack pointer followed by dropping the loaded bytes.\<close>

lemma runs_pop:
  assumes s: "minv c s" and o: "opstack s = bs @ rest" and l: "lb_depth s \<le> length rest"
    and n: "wmult c (int (length bs))" and m: "\<exists>w. m s = Ok v (s\<lparr>wst := w\<rparr>)"
  shows "runs c (bindM m (\<lambda>v. thenM (decSP (int (length bs))) (returnM v))) s v rest"
proof -
  obtain w where w: "m s = Ok v (s\<lparr>wst := w\<rparr>)" using m ..
  show ?thesis
    using w decSP_pop [OF s o l n, of w] opstack_pop [OF s o, of w] stk_frame_pop
    by (intro runsI [where s' = "s\<lparr>wst := w, SP := SP s + int (length bs)\<rparr>"]) simp_all
qed

lemma opstack_top:
  assumes s: "minv c s" and o: "opstack s = bs @ rest"
  shows "SP s + int (length bs) \<le> MLim c + 1" and "wsize c \<le> n \<Longrightarrow> min n (wsize c) dvd SP s"
  using opstack_SP [OF s] o minv_regs(8) [OF s] by (auto simp: min_def)

lemma runs_spop:
  assumes s: "minv c s" and o: "opstack s = bs @ rest" and l: "lb_depth s \<le> length rest"
    and n: "int (length bs) = n" "wmult c n" "wsize c \<le> n" "n \<le> 8"
  shows "runs c (spop n) s (sval bs) rest"
proof -
  have w: "0 < n" "max n (wsize s) = n"
    using n(3) minv_caps(1) [OF s] minv_fields(1) [OF s] by (auto simp: max_def)
  have "\<exists>w. st_lds (SP s) n s = Ok (sval bs) (s\<lparr>wst := w\<rparr>)"
    using st_lds_ok [OF s, of "SP s" n] opstack_top [OF s o] opstack_split(1) [OF s o] n w by auto
  then show ?thesis
    using runs_pop [OF s o l, of "st_lds (SP s) n"] n(1,2)
    unfolding spop_def by (intro runs_with) (simp add: w)
qed

lemma runs_upop:
  assumes s: "minv c s" and o: "opstack s = bs @ rest" and l: "lb_depth s \<le> length rest"
    and n: "int (length bs) = n" "wmult c n" "wsize c \<le> n" "n \<le> 4"
  shows "runs c (upop n) s (uval bs) rest"
proof -
  have w: "0 < n" "max n (wsize s) = n"
    using n(3) minv_caps(1) [OF s] minv_fields(1) [OF s] by (auto simp: max_def)
  have "\<exists>w. st_ldu (SP s) n s = Ok (uval bs) (s\<lparr>wst := w\<rparr>)"
    using st_ldu_ok [OF s, of "SP s" n] opstack_top [OF s o] opstack_split(1) [OF s o] n w by auto
  then show ?thesis
    using runs_pop [OF s o l, of "st_ldu (SP s) n"] n(1,2)
    unfolding upop_def by (intro runs_with) (simp add: w)
qed

lemma runs_swpop:
  assumes s: "minv c s" and o: "opstack s = bs @ rest" and l: "lb_depth s \<le> length rest"
    and n: "int (length bs) = wsize c"
  shows "runs c swpop s (sval bs) rest" and "runs c uwpop s (uval bs) rest"
    and "runs c wpop s (sval bs) rest"
proof -
  have t: "SP s + wsize c \<le> MLim c + 1" "wsize c dvd SP s" "0 < wsize c" "wsize c \<le> 4"
    using opstack_top(1) [OF s o] n minv_regs(8) [OF s] minv_caps(1) [OF s] by auto
  have d: "w_is_in_stack s (SP s)"
    using t minv_regs(5) [OF s] minv_caps(1,5) [OF s] minv_MLim(2) [OF s]
    by (auto simp: w_is_in_stack_def ulong_id minv_fields(4,17) [OF s])
  have r: "sseg.run_ok s (SP s) (nat (wsize c))"
    using t by (intro stack_run_ok [OF s]) simp_all
  have b: "rd_bytes (stack s) (SP s) (nat (wsize c)) = bs"
    using opstack_split(1) [OF s o] n by (metis nat_int)
  have chk: "ch_w_in_stack (SP s) s = Ok () s" "ch_wordaligned (SP s) s = Ok () s"
    using d t by (simp_all add: ch_w_in_stack_def ensure_def ch_wordaligned_ok [OF s])
  have w1: "\<exists>w. st_ldsw (SP s) s = Ok (sval bs) (s\<lparr>wst := w\<rparr>)"
    using sseg.expect_load_s [OF r] t b by (simp add: st_ldsw_def chk minv_fields(1) [OF s])
  have w2: "\<exists>w. st_lduw (SP s) s = Ok (uval bs) (s\<lparr>wst := w\<rparr>)"
    using sseg.expect_load_u [OF r] t b by (simp add: st_lduw_def chk minv_fields(1) [OF s])
  have "w_in_stack (SP s) s = Ok (sval bs) (s\<lparr>wst := wst s\<rparr>)"
    using b w_in_stack_ok [OF s t(1)] by simp
  then have w3: "\<exists>w. w_in_stack (SP s) s = Ok (sval bs) (s\<lparr>wst := w\<rparr>)" ..
  have wm: "wmult c (int (length bs))" using wmult_sizes(1) [OF s] n by simp
  have pop: "runs c (withM (\<lambda>s. bindM (m (SP s)) (\<lambda>v. thenM (decSP (wsize s)) (returnM v)))) s v rest"
    if "\<exists>w. m (SP s) s = Ok v (s\<lparr>wst := w\<rparr>)" for m and v :: int
    by (rule runs_with, unfold minv_fields(1) [OF s] n [symmetric]) (rule runs_pop [where m = "m (SP s)", OF s o l wm that])
  show "runs c swpop s (sval bs) rest" unfolding swpop_def by (rule pop) (rule w1)
  show "runs c uwpop s (uval bs) rest" unfolding uwpop_def by (rule pop) (rule w2)
  show "runs c wpop s (sval bs) rest" unfolding wpop_def by (rule pop) (rule w3)
qed

lemma runs_dppop:
  assumes s: "minv c s" and o: "opstack s = bs @ rest" and l: "lb_depth s \<le> length rest"
    and n: "int (length bs) = psize c"
  shows "runs c dppop s (uval bs) rest"
proof -
  have "\<exists>w. st_lddp (SP s) s = Ok (uval bs) (s\<lparr>wst := w\<rparr>)"
    using st_lddp_ok [OF s, of "SP s"] opstack_top [OF s o] opstack_split(1) [OF s o] n minv_regs(8) [OF s]
    by (metis nat_int order_refl)
  then show ?thesis
    using runs_pop [OF s o l, of "st_lddp (SP s)"] n wmult_sizes(2) [OF s]
    unfolding dppop_def by (intro runs_with) (simp add: minv_fields(2) [OF s])
qed

section \<open>Pushes\<close>

lemma SP_pred:
  assumes "minv c s" and "0 < SP s"
  shows "ulong (SP s - 1) = SP s - 1"
  using minv_SP [OF assms(1)] assms(2) by (intro ulong_small) linarith+

lemma newSP_up:
  assumes s: "minv c s" and p: "SP s \<le> p" "p \<le> LB s" "wsize c dvd p"
  shows "newSP p s = Ok () (s\<lparr>SP := p\<rparr>)" "minv c (s\<lparr>SP := p\<rparr>)"
proof -
  have "\<not> newSP_refuses p s" using p by (simp add: newSP_refuses_def aligned_iff [OF s])
  then show "newSP p s = Ok () (s\<lparr>SP := p\<rparr>)" using p(1) by (simp add: newSP_accepted)
  show "minv c (s\<lparr>SP := p\<rparr>)"
    using p minv_regs(5,7,10) [OF s] by (intro minv_upd_SP [OF s]) simp_all
qed

lemma newSP_down:
  assumes n: "\<not> newSP_refuses p s" and lt: "p < SP s"
    and e: "whenM (p < SL s) (extend_stack p) s = Ok () (s\<lparr>SL := l, stack_len := k\<rparr>)"
    and cl: "st_clear_area (ulong (SP s - 1)) p (s\<lparr>SL := l, stack_len := k\<rparr>)
      = Ok () (s\<lparr>SL := l, stack_len := k, stack_sh := h\<rparr>)"
  shows "newSP p s = Ok () (s\<lparr>SP := p, stack_sh := h, SL := l, stack_len := k\<rparr>)"
  unfolding newSP_accepted [OF n] using lt by (simp add: e cl)

text \<open>The shadow bytes after the stack has grown down to \<open>p\<close>: what is new is undefined.\<close>

definition cleared :: "mach \<Rightarrow> ptr \<Rightarrow> int \<Rightarrow> byte" where
  "cleared s p q = (if p \<le> q \<and> q < SP s then SH_UNDEF else stack_sh s q)"

lemma clear_below:
  assumes s: "minv c s" and p: "0 < p" "p < SP s" and k: "MLim c + 1 - p \<le> k"
  shows "st_clear_area (ulong (SP s - 1)) p (s\<lparr>SL := l, stack_len := k\<rparr>)
      = Ok () (s\<lparr>SL := l, stack_len := k, stack_sh := cleared s p\<rparr>)"
proof -
  let ?t = "s\<lparr>SL := l, stack_len := k\<rparr>"
  have u: "ulong (SP s - 1) = SP s - 1" by (rule SP_pred [OF s]) (use p in linarith)
  have m: "MLim ?t = MLim c" using minv_fields(17) [OF s] by simp
  have q: "int (nat (SP s - 1 - p + 1)) = SP s - p" using p by simp
  have "clear_down (nat (SP s - 1 - p + 1)) (SP s - 1) ?t = Ok () (?t\<lparr>stack_sh := cleared s p\<rparr>)"
    by (subst clear_down_eq; unfold q m)
      (use p k minv_SP(2) [OF s] in \<open>auto simp: cleared_def fun_eq_iff intro!: mach.equality\<close>)
  then show ?thesis using p(1) by (simp add: st_clear_area_def u)
qed

text \<open>A value of the stack pointer that is not refused is set, if the host has memory for the stack.\<close>

lemma newSP_sets:
  assumes s: "minv c s" and m: "\<And>n. mem_avail s n" and n: "\<not> newSP_refuses p s" and p: "0 < p"
  shows "\<exists>l k. newSP p s = Ok () (s\<lparr>SP := p, stack_sh := cleared s p, SL := l, stack_len := k\<rparr>)
    \<and> minv c (s\<lparr>SP := p, stack_sh := cleared s p, SL := l, stack_len := k\<rparr>)"
proof -
  have r: "p \<le> LB s" "wsize c dvd p" using n by (auto simp: newSP_refuses_def aligned_iff [OF s])
  then have pm: "p \<le> MLim c + 1" using minv_regs(7) [OF s] by linarith
  show ?thesis
  proof (cases "p < SP s")
    case False
    then have "cleared s p = stack_sh s" by (auto simp: cleared_def fun_eq_iff)
    moreover have "newSP p s = Ok () (s\<lparr>SP := p\<rparr>)" using False by (simp add: newSP_accepted [OF n])
    moreover have "minv c (s\<lparr>SP := p\<rparr>)"
      using minv_upd_SP [OF s _ r] False p minv_regs(10) [OF s] by simp
    ultimately show ?thesis by (intro exI [of _ "SL s"] exI [of _ "stack_len s"]) simp
  next
    case True
    have nf: "whenM (p < SL s) (extend_stack p) s \<noteq> Fatal e t" for e t
      by (simp add: extend_stack_def Realloc_def Let_def m whenM_def)
    obtain l k where e: "whenM (p < SL s) (extend_stack p) s = Ok () (s\<lparr>SL := l, stack_len := k\<rparr>)"
      and i: "minv c (s\<lparr>SL := l, stack_len := k\<rparr>)" "MLim c + 1 - p \<le> k"
      using extend_step [OF s less_imp_le [OF p] pm True] nf by blast
    have "minv c (s\<lparr>SL := l, stack_len := k, stack_sh := cleared s p, SP := p\<rparr>)"
      by (rule minv_upd_SP) (simp_all only: minv_update i, use p r i in simp_all)
    moreover have "s\<lparr>SL := l, stack_len := k, stack_sh := cleared s p, SP := p\<rparr>
        = s\<lparr>SP := p, stack_sh := cleared s p, SL := l, stack_len := k\<rparr>" by simp
    ultimately have "minv c (s\<lparr>SP := p, stack_sh := cleared s p, SL := l, stack_len := k\<rparr>)" by (simp only:)
    then show ?thesis using newSP_down [OF n True e clear_below [OF s p True i(2)]] by blast
  qed
qed

lemma newSP_ok:
  assumes s: "minv c s" and f: "fits s (nat (MLim c + 1 - p))" and p: "p \<le> LB s" "wsize c dvd p" "0 < p"
  shows "\<exists>h l k. newSP p s = Ok () (s\<lparr>SP := p, stack_sh := h, SL := l, stack_len := k\<rparr>)
    \<and> minv c (s\<lparr>SP := p, stack_sh := h, SL := l, stack_len := k\<rparr>)"
proof -
  have "p \<le> MLim c + 1" using p(1) minv_regs(7) [OF s] by linarith
  then have h: "HP s \<le> p" "maxstack s = 0" "\<And>n. mem_avail s n"
    using f by (simp_all add: fits_def minv_fields(17) [OF s])
  then have "\<not> newSP_refuses p s" using p by (simp add: newSP_refuses_def aligned_iff [OF s])
  then show ?thesis using newSP_sets [OF s h(3) _ p(3)] by blast
qed

lemma incSP_ok:
  assumes s: "minv c s" and n: "wmult c n" and f: "fits s (length (opstack s) + nat n)"
  shows "\<exists>h l k. incSP n s = Ok () (s\<lparr>SP := SP s - n, stack_sh := h, SL := l, stack_len := k\<rparr>)
    \<and> minv c (s\<lparr>SP := SP s - n, stack_sh := h, SL := l, stack_len := k\<rparr>)"
proof -
  let ?p = "SP s - n"
  have p: "?p = MLim c + 1 - int (length (opstack s) + nat n)"
    using opstack_SP [OF s] n by (simp add: wmult_def)
  have h: "HP s \<le> ?p" "0 < ?p" using f p by (simp_all add: fits_def minv_fields(17) [OF s])
  have u: "ulong ?p = ?p"
    using h minv_regs(6,7) [OF s] minv_MLim(2) [OF s] n by (intro ulong_id) (simp_all add: wmult_def)
  show ?thesis
  proof (cases "?p < SL s")
    case True
    then have "incSP n s = newSP ?p s" by (simp add: incSP_def Let_def u)
    moreover have "nat (MLim c + 1 - ?p) = length (opstack s) + nat n" unfolding p by (simp add: nat_add_distrib)
    moreover have "fits s (nat (MLim c + 1 - ?p))" using f calculation(2) by (simp only:)
    moreover have "?p \<le> LB s" "wsize c dvd ?p"
      using n minv_regs(6,8) [OF s] by (simp_all add: wmult_def)
    ultimately show ?thesis using newSP_ok [OF s _ _ _ h(2)] by simp
  next
    case False
    have m: "maxstack s = 0" using f by (simp add: fits_def)
    have "incSP n s = forM (nat n) ?p (wr_stack_sh SH_UNDEF) (s\<lparr>SP := ?p\<rparr>)"
      using False h m n by (simp add: incSP_def Let_def u wmult_def)
    moreover have "\<exists>h. forM (nat n) ?p (wr_stack_sh SH_UNDEF) (s\<lparr>SP := ?p\<rparr>)
        = Ok () (s\<lparr>SP := ?p\<rparr>\<lparr>stack_sh := h\<rparr>)"
      using False SL_bound [OF s, of ?p] h n minv_SP [OF s] minv_fields(17) [OF s]
      by (intro fill_stack_sh_ok) (simp_all add: wmult_def)
    ultimately obtain h where "incSP n s = Ok () (s\<lparr>SP := ?p\<rparr>\<lparr>stack_sh := h\<rparr>)" by metis
    moreover have "minv c (s\<lparr>SP := ?p\<rparr>)"
      using False SL_bound [OF s, of ?p] h n minv_SP [OF s] minv_regs(6,8) [OF s]
      by (intro minv_upd_SP [OF s]) (simp_all add: wmult_def)
    ultimately show ?thesis
      by (intro exI [of _ h] exI [of _ "SL s"] exI [of _ "stack_len s"]) simp
  qed
qed

text \<open>The state after pushing the bytes \<open>bs\<close>.\<close>

lemma opstack_push:
  assumes s: "minv c s" and p: "SP s' = SP s - int (length bs)" "MLim s' = MLim s"
    and d: "stack s' = upd_bytes (stack s) (SP s') bs"
  shows "opstack s' = bs @ opstack s"
proof -
  have n: "nat (MLim s' + 1 - SP s') = length bs + nat (MLim s + 1 - SP s)"
    using minv_SP [OF s] minv_fields(17) [OF s] p by simp
  have "rd_bytes (upd_bytes (stack s) (SP s') bs) (SP s) k = rd_bytes (stack s) (SP s) k" for k
    using p(1) by (intro rd_upd_disjoint) simp
  then show ?thesis
    unfolding opstack_def n d rd_bytes_add using p(1) by simp
qed

lemma stk_frame_push:
  "stk_frame s (upd_stack d h' w (s\<lparr>SP := p, stack_sh := h, SL := l, stack_len := k\<rparr>))"
  by (rule stk_frameI [where p = p and d = d and h = h' and l = l and k = k and w = w]) simp

lemma runs_push:
  assumes s: "minv c s" and n: "wmult c (int (length bs))" and f: "fits s (length bs + length (opstack s))"
    and m: "\<And>t. minv c t \<Longrightarrow> stk_frame s t \<Longrightarrow> SP t = SP s - int (length bs) \<Longrightarrow> stack t = stack s \<Longrightarrow>
      \<exists>h w. m t = Ok v (upd_stack (upd_bytes (stack t) (SP t) bs) h w t)"
  shows "runs c (thenM (incSP (int (length bs))) m) s v (bs @ opstack s)"
proof -
  obtain h l k where i: "incSP (int (length bs)) s
      = Ok () (s\<lparr>SP := SP s - int (length bs), stack_sh := h, SL := l, stack_len := k\<rparr>)"
    and t: "minv c (s\<lparr>SP := SP s - int (length bs), stack_sh := h, SL := l, stack_len := k\<rparr>)"
    using incSP_ok [OF s n] f by (auto simp: add.commute)
  let ?t = "s\<lparr>SP := SP s - int (length bs), stack_sh := h, SL := l, stack_len := k\<rparr>"
  have "stk_frame s ?t"
    by (rule stk_frameI [where d = "stack s" and w = "wst s" and p = "SP s - int (length bs)"
        and h = h and l = l and k = k]) simp
  then obtain h' w where e: "m ?t = Ok v (upd_stack (upd_bytes (stack ?t) (SP ?t) bs) h' w ?t)"
    using m [OF t] by auto
  let ?u = "upd_stack (upd_bytes (stack ?t) (SP ?t) bs) h' w ?t"
  show ?thesis
  proof (rule runsI [where s' = ?u])
    show "thenM (incSP (int (length bs))) m s = Ok v ?u" using i e by simp
    show "minv c ?u" using t by (simp add: minv_def regs_ok_def)
    show "stk_frame s ?u" by (rule stk_frame_push)
    show "opstack ?u = bs @ opstack s" by (rule opstack_push [OF s]) simp_all
  qed
qed

lemma push_frame:
  assumes s: "minv c s" and t: "minv c t" "stk_frame s t" "SP t = SP s - int (length bs)"
  shows "SP t + int (length bs) \<le> MLim c + 1" "wsize c dvd SP t"
  using t(3) minv_SP(2) [OF s] minv_regs(8) [OF t(1)] by simp_all

lemma runs_wpush:
  assumes s: "minv c s" and f: "fits s (nat (wsize c) + length (opstack s))"
  shows "runs c (wpush l) s () (le_bytes (nat (wsize c)) l @ opstack s)"
proof -
  have w: "int (length (le_bytes (nat (wsize c)) l)) = wsize c" using minv_caps(1) [OF s] by auto
  have "runs c (thenM (incSP (int (length (le_bytes (nat (wsize c)) l)))) (withM (\<lambda>s. st_stw (SP s) l)))
      s () (le_bytes (nat (wsize c)) l @ opstack s)"
  proof (rule runs_push [OF s])
    show "wmult c (int (length (le_bytes (nat (wsize c)) l)))" unfolding w by (rule wmult_sizes [OF s])
    show "fits s (length (le_bytes (nat (wsize c)) l) + length (opstack s))" using f by simp
  next
    fix t assume t: "minv c t" "stk_frame s t" "SP t = SP s - int (length (le_bytes (nat (wsize c)) l))"
    from st_stw_ok [OF t(1), of "SP t" l] push_frame [OF s t] w
    show "\<exists>h w. withM (\<lambda>s. st_stw (SP s) l) t
        = Ok () (upd_stack (upd_bytes (stack t) (SP t) (le_bytes (nat (wsize c)) l)) h w t)"
      by auto
  qed
  then show ?thesis
    unfolding w by (simp add: wpush_def runs_def minv_fields(1) [OF s])
qed

text \<open>\<open>npush\<close> keeps the low \<open>n\<close> bytes of its argument; a value shorter than a word is
  zero-extended to a word.\<close>

lemma runs_npush:
  assumes s: "minv c s" and n: "wmult c n" "wsize c \<le> n" "n \<le> 4"
    and f: "fits s (nat n + length (opstack s))"
  shows "runs c (npush l n) s () (le_bytes (nat n) l @ opstack s)"
proof (cases "n \<le> wsize c")
  case True
  then have nw: "n = wsize c" using n(2) by simp
  have m: "le_bytes (nat n) (if n = 1 then l AND 0xFF else if n = 2 then l AND 0xFFFF else l)
      = le_bytes (nat n) l"
  proof (cases "n = 2")
    case True
    have "l AND 65535 = take_bit (8 * 2) l" by (simp add: take_bit_eq_mask mask_eq_exp_minus_1)
    then have "le_bytes 2 (l AND 65535) = le_bytes 2 l" by (simp only: le_bytes_take_bit)
    then show ?thesis using True by simp
  next
    case False
    then show ?thesis using n minv_caps(1) [OF s] by auto
  qed
  have "npush l n s = wpush (if n = 1 then l AND 0xFF else if n = 2 then l AND 0xFFFF else l) s"
    using nw by (simp add: npush_def wpush_def minv_fields(1) [OF s] Let_def split: outcome.split)
  then show ?thesis
    using runs_wpush [OF s, of "if n = 1 then l AND 0xFF else if n = 2 then l AND 0xFFFF else l"] f m
    unfolding nw by (simp only: runs_def)
next
  case False
  have w: "int (length (le_bytes (nat n) l)) = n" using n(2) minv_caps(1) [OF s] by auto
  have "runs c (thenM (incSP (int (length (le_bytes (nat n) l)))) (withM (\<lambda>s. st_stn (SP s) l n)))
      s () (le_bytes (nat n) l @ opstack s)"
  proof (rule runs_push [OF s])
    show "wmult c (int (length (le_bytes (nat n) l)))" unfolding w by (rule n(1))
    show "fits s (length (le_bytes (nat n) l) + length (opstack s))" using f by simp
  next
    fix t assume t: "minv c t" "stk_frame s t" "SP t = SP s - int (length (le_bytes (nat n) l))"
    have "min n (wsize c) = wsize c" "0 < n" using n(2) minv_caps(1) [OF s] by auto
    with st_stn_ok [OF t(1), of "SP t" n l] push_frame [OF s t] w n(3)
    show "\<exists>h w. withM (\<lambda>s. st_stn (SP s) l n) t
        = Ok () (upd_stack (upd_bytes (stack t) (SP t) (le_bytes (nat n) l)) h w t)"
      by auto
  qed
  then show ?thesis
    unfolding w using False by (simp add: npush_def runs_def minv_fields(1) [OF s])
qed

lemma runs_dppush:
  assumes s: "minv c s" and f: "fits s (nat (psize c) + length (opstack s))"
  shows "runs c (dppush p) s () (le_bytes (nat (psize c)) (slong p) @ opstack s)"
proof -
  have w: "int (length (le_bytes (nat (psize c)) (slong p))) = psize c" using minv_caps(2) [OF s] by auto
  have "runs c (thenM (incSP (int (length (le_bytes (nat (psize c)) (slong p))))) (withM (\<lambda>s. st_stdp (SP s) p)))
      s () (le_bytes (nat (psize c)) (slong p) @ opstack s)"
  proof (rule runs_push [OF s])
    show "wmult c (int (length (le_bytes (nat (psize c)) (slong p))))"
      unfolding w by (rule wmult_sizes [OF s])
    show "fits s (length (le_bytes (nat (psize c)) (slong p)) + length (opstack s))" using f by simp
  next
    fix t assume t: "minv c t" "stk_frame s t" "SP t = SP s - int (length (le_bytes (nat (psize c)) (slong p)))"
    from st_stp_ok(1) [OF t(1), of "SP t" p] push_frame [OF s t] w
    show "\<exists>h w. withM (\<lambda>s. st_stdp (SP s) p) t
        = Ok () (upd_stack (upd_bytes (stack t) (SP t) (le_bytes (nat (psize c)) (slong p))) h w t)"
      by auto
  qed
  then show ?thesis
    unfolding w by (simp add: dppush_def runs_def minv_fields(2) [OF s])
qed

end
