(* ===== verification/Text.thy ===== *)
theory Text
  imports Opstack
begin

text \<open>
  Access to the program text: the operand macros and argument checks of \<open>util/int/text.h\<close>,
  and \<open>newPC()\<close> of \<open>text.c\<close>.  Also \<open>spoilFRA()\<close> of \<open>fra.h\<close>, which most
  instructions use.
\<close>

section \<open>Reading operands\<close>

definition rd_text :: "ptr \<Rightarrow> byte M" where
  "rd_text a = (\<lambda>s. if 0 \<le> a \<and> a < text_len s then Ok (text_seg s a) s else Undef)"

definition bumpPC :: "int \<Rightarrow> unit M" where
  "bumpPC n = modifyM (\<lambda>s. s\<lparr>PC := ulong (PC s + n)\<rparr>)"

definition text_at :: "int \<Rightarrow> byte M" where
  "text_at n = withM (\<lambda>s. rd_text (ulong (PC s - n)))"

definition nextPCbyte :: "int M" where
  "nextPCbyte = thenM (bumpPC 1) (bindM (text_at 1) (\<lambda>b. returnM (btol b)))"

definition S_arg :: "int \<Rightarrow> long M" where
  "S_arg h = thenM (bumpPC 1) (bindM (text_at 1) (\<lambda>b. returnM (push_bit 8 h + btol b)))"

definition L_arg_2 :: "long M" where
  "L_arg_2 = thenM (bumpPC 2) (bindM (text_at 1) (\<lambda>b. bindM (text_at 2) (\<lambda>b'.
     returnM (btol b OR push_bit 8 (btos b')))))"

definition P_arg_2 :: "long M" where
  "P_arg_2 = thenM (bumpPC 2) (bindM (text_at 1) (\<lambda>b. bindM (text_at 2) (\<lambda>b'.
     returnM (btol b OR push_bit 8 (btos b')))))"

definition N_arg_2 :: "long M" where
  "N_arg_2 = thenM (bumpPC 2) (bindM (text_at 1) (\<lambda>b. bindM (text_at 2) (\<lambda>b'.
     returnM (btol b OR push_bit 8 (btos b')))))"

definition U_arg :: "long M" where
  "U_arg = thenM (bumpPC 2) (bindM (text_at 1) (\<lambda>b. bindM (text_at 2) (\<lambda>b'.
     returnM (btol b OR push_bit 8 (btol b')))))"

definition L_arg_4 :: "long M" where
  "L_arg_4 = thenM (bumpPC 4) (bindM (text_at 1) (\<lambda>b1. bindM (text_at 2) (\<lambda>b2.
     bindM (text_at 3) (\<lambda>b3. bindM (text_at 4) (\<lambda>b4.
       returnM (btol b1 OR push_bit 8 (btol b2) OR push_bit 16 (btol b3) OR push_bit 24 (btos b4)))))))"

definition P_arg_4 :: "long M" where
  "P_arg_4 = thenM (bumpPC 4) (bindM (text_at 1) (\<lambda>b1. bindM (text_at 2) (\<lambda>b2.
     bindM (text_at 3) (\<lambda>b3. bindM (text_at 4) (\<lambda>b4.
       returnM (btol b1 OR push_bit 8 (btol b2) OR push_bit 16 (btol b3) OR push_bit 24 (btos b4)))))))"

definition N_arg_4 :: "long M" where
  "N_arg_4 = thenM (bumpPC 4) (bindM (text_at 1) (\<lambda>b1. bindM (text_at 2) (\<lambda>b2.
     bindM (text_at 3) (\<lambda>b3. bindM (text_at 4) (\<lambda>b4.
       returnM (btol b1 OR push_bit 8 (btol b2) OR push_bit 16 (btol b3) OR push_bit 24 (btos b4)))))))"

section \<open>Argument checks\<close>

definition arg_c :: "long \<Rightarrow> long M" where
  "arg_c n = withM (\<lambda>s. if n < i_minsw s \<or> n > i_maxsw s then wtrap WARGC EILLINS else returnM n)"

definition arg_d :: "long \<Rightarrow> long M" where
  "arg_d n = withM (\<lambda>s. if wsize s > 2 then wtrap WARGD EILLINS else returnM n)"

definition arg_l :: "long \<Rightarrow> long M" where
  "arg_l n = withM (\<lambda>s. if n < min_off s \<or> n > max_off s then wtrap WARGL EILLINS else returnM n)"

definition arg_g :: "ptr \<Rightarrow> ptr M" where
  "arg_g p = withM (\<lambda>s. if p \<ge> HB s then wtrap WARGG EILLINS else returnM p)"

definition arg_f :: "long \<Rightarrow> long M" where
  "arg_f n = withM (\<lambda>s. if n < min_off s \<or> n > max_off s then wtrap WARGF EILLINS else returnM n)"

definition arg_n :: "int \<Rightarrow> int M" where
  "arg_n u = withM (\<lambda>s. if u > i_maxuw s then wtrap WARGL EILLINS else returnM u)"

definition arg_s :: "size \<Rightarrow> size M" where
  "arg_s n = withM (\<lambda>s. if n \<le> 0 \<or> n > max_off s \<or> n AND wsizem1 s \<noteq> 0 then trap EODDZ else returnM n)"

definition arg_z :: "size \<Rightarrow> size M" where
  "arg_z n = withM (\<lambda>s. if n < 0 \<or> n > max_off s \<or> n AND wsizem1 s \<noteq> 0 then trap EODDZ else returnM n)"

definition arg_o :: "size \<Rightarrow> size M" where
  "arg_o n = withM (\<lambda>s. if n < 0 \<or> n > max_off s \<or> n AND wsizem1 s \<noteq> 0 \<and> wsize s smod n \<noteq> 0
     then trap EODDZ else returnM n)"

definition arg_w :: "size \<Rightarrow> size M" where
  "arg_w n = withM (\<lambda>s. if n \<le> 0 \<or> n > max_off s \<or> n AND wsizem1 s \<noteq> 0 then trap EODDZ else returnM n)"

definition arg_p :: "long \<Rightarrow> long M" where
  "arg_p l = withM (\<lambda>s. if l \<ge> NProc s then wtrap WARGP EILLINS else returnM l)"

definition arg_r :: "long \<Rightarrow> long M" where
  "arg_r n = (if n < 0 \<or> n > 2 then wtrap WARGR EILLINS else returnM n)"

definition arg_wn :: "size \<Rightarrow> size M" where
  "arg_wn n = (if n \<noteq> 1 \<and> n \<noteq> 2 \<and> n \<noteq> 4 then trap EODDZ else returnM n)"

definition arg_wf :: "size \<Rightarrow> size M" where
  "arg_wf n = (if n \<noteq> 4 \<and> n \<noteq> 8 then trap EODDZ else returnM n)"

definition arg_wi :: "size \<Rightarrow> size M" where
  "arg_wi n = withM (\<lambda>s. if n \<noteq> 2 \<and> n \<noteq> 4 \<or> n AND wsizem1 s \<noteq> 0 then trap EODDZ else returnM n)"

definition arg_lae :: "ptr \<Rightarrow> ptr M" where
  "arg_lae p = withM (\<lambda>s. if p > MLim s then trap EBADLAE else returnM p)"

definition arg_gto :: "ptr \<Rightarrow> ptr M" where
  "arg_gto p = withM (\<lambda>s. if p \<ge> HB s then wtrap WGTOSTACK EBADGTO else returnM p)"

definition arg_lin :: "long \<Rightarrow> long M" where
  "arg_lin u = withM (\<lambda>s. if u > NLINE s then trap EBADLIN else returnM u)"

section \<open>Program counter and function return area\<close>

definition spoilFRA :: "unit M" where
  "spoilFRA = modifyM (\<lambda>s. s\<lparr>FRA_def := UNDEFINED\<rparr>)"

text \<open>\<open>proctab[i]\<close>; an index outside the table is outside the array.\<close>

definition proctab_at :: "int \<Rightarrow> proc M" where
  "proctab_at i = (\<lambda>s. if 0 \<le> i \<and> i < int (length (proctab s)) then Ok (proctab s ! nat i) s else Undef)"

definition newPC :: "ptr \<Rightarrow> unit M" where
  "newPC p = seqM [
     withM (\<lambda>s. whenM (p \<ge> DB s) (wtrap WPCOVFL EBADPC)),
     withM (\<lambda>s. bindM (proctab_at (PI s)) (\<lambda>pr.
       whenM (p < pr_ep pr \<or> p \<ge> pr_ff pr) (wtrap WPCPROC EBADPC))),
     modifyM (\<lambda>s. s\<lparr>PC := p\<rparr>)]"

section \<open>What the checks guarantee\<close>

lemma and_wsizem1_c:
  assumes "minv c s"
  shows "(n AND wsizem1 s = 0) = (wsize c dvd n)"
  using and_wsizem1 [of s n] minv_fields(1,4) [OF assms] minv_caps(1,5) [OF assms]
  by (simp add: dvd_eq_mod_eq_0)

definition wi_size :: "em_prog \<Rightarrow> size \<Rightarrow> bool" where
  "wi_size c n \<longleftrightarrow> (n = 2 \<or> n = 4) \<and> wsize c dvd n"

lemma arg_wi_eq:
  assumes "minv c s"
  shows "arg_wi n s = (if wi_size c n then Ok n s else Trap EODDZ s)"
  using and_wsizem1_c [OF assms, of n] by (auto simp: arg_wi_def wi_size_def)

lemma wi_size_facts:
  assumes "minv c s" and "wi_size c n"
  shows "wmult c n" "wsize c \<le> n" "n \<le> 4" "0 < n" "n = 2 \<or> n = 4" "pop_size c n"
proof -
  show n: "n = 2 \<or> n = 4" "n \<le> 4" "0 < n" using assms(2) by (auto simp: wi_size_def)
  show w: "wmult c n" using assms(2) n by (auto simp: wmult_def wi_size_def)
  show "wsize c \<le> n" using zdvd_imp_le [of "wsize c" n] assms(2) n(3) by (simp add: wi_size_def)
  show "pop_size c n" using w by (simp add: pop_size_def)
qed

lemma keeps_args [keeps_rules]:
  assumes "wst_free I"
  shows "keeps I (arg_c n) anyR" "keeps I (arg_d n) anyR" "keeps I (arg_l n) anyR"
    "keeps I (arg_g n) anyR" "keeps I (arg_f n) anyR" "keeps I (arg_n n) anyR"
    "keeps I (arg_p n) anyR" "keeps I (arg_r n) anyR" "keeps I (arg_lae n) anyR"
    "keeps I (arg_gto n) anyR" "keeps I (arg_lin n) anyR"
  unfolding arg_c_def arg_d_def arg_l_def arg_g_def arg_f_def arg_n_def arg_p_def arg_r_def
    arg_lae_def arg_gto_def arg_lin_def
  by (rule keeps_rules assms TrueI)+

lemma max_off_small: "minv c s \<Longrightarrow> max_off s < 2 ^ 63"
  using minv_fields(9) [of c s] minv_caps(18) [of c s] by simp

lemma keeps_arg_wi [keeps_rules]: "keeps (minv c) (arg_wi n) (\<lambda>x. x = n \<and> wi_size c n \<and> pop_size c n)"
  unfolding keeps_def
proof (intro allI impI)
  fix s assume s: "minv c s"
  show "case arg_wi n s of Ok x s' \<Rightarrow> minv c s' \<and> x = n \<and> wi_size c n \<and> pop_size c n | Trap m s' \<Rightarrow> minv c s'
      | Fatal e s' \<Rightarrow> True | Undef \<Rightarrow> True | Diverge \<Rightarrow> True"
    using s wi_size_facts(6) [OF s] by (simp add: arg_wi_eq [OF s])
qed

lemma keeps_guard: "(\<And>s. I s \<Longrightarrow> \<not> P s \<Longrightarrow> R v) \<Longrightarrow>
    keeps I (withM (\<lambda>s. if P s then trap e else returnM v)) R"
  by (simp add: keeps_def)

lemma arg_size_wmult:
  assumes "minv c s" and "0 \<le> n" and "\<not> max_off s < n" and "n AND wsizem1 s = 0"
  shows "wmult c n"
  using assms(2,3,4) max_off_small [OF assms(1)] and_wsizem1_c [OF assms(1), of n] by (simp add: wmult_def)

lemma keeps_arg_sz [keeps_rules]:
  "keeps (minv c) (arg_s n) (\<lambda>x. x = n \<and> wmult c n)"
  "keeps (minv c) (arg_z n) (\<lambda>x. x = n \<and> wmult c n)"
  "keeps (minv c) (arg_w n) (\<lambda>x. x = n \<and> wmult c n)"
  unfolding arg_s_def arg_z_def arg_w_def
  by (rule keeps_guard, simp add: arg_size_wmult)+

lemma keeps_arg_o [keeps_rules]: "keeps (minv c) (arg_o n) (\<lambda>x. x = n \<and> pop_size c n)"
  unfolding arg_o_def
proof (rule keeps_guard)
  fix s assume s: "minv c s"
    and n: "\<not> (n < 0 \<or> n > max_off s \<or> n AND wsizem1 s \<noteq> 0 \<and> wsize s smod n \<noteq> 0)"
  show "n = n \<and> pop_size c n"
  proof (cases "n AND wsizem1 s = 0")
    case True
    then have "wmult c n" using n by (intro arg_size_wmult [OF s]) simp_all
    then show ?thesis by (simp add: pop_size_def)
  next
    case False
    have w: "0 < wsize c" using minv_caps(1) [OF s] by auto
    have n0: "0 < n" using n False by (cases "n = 0") simp_all
    have "wsize c smod n = 0" using n False minv_fields(1) [OF s] by simp
    then have "wsize c mod n = 0" using n0 w by (simp add: signed_modulo_int_def signed_divide_int_def minus_mult_div_eq_mod)
    then have "n \<le> wsize c" using w by (intro zdvd_imp_le) (simp_all add: dvd_eq_mod_eq_0)
    then show ?thesis by (simp add: pop_size_def)
  qed
qed

lemma keeps_arg_widths [keeps_rules]:
  "keeps I (arg_wn n) (\<lambda>x. x = n \<and> (n = 1 \<or> n = 2 \<or> n = 4))"
  "keeps I (arg_wf n) (\<lambda>x. x = n \<and> (n = 4 \<or> n = 8))"
  by (simp_all add: keeps_def arg_wn_def arg_wf_def)

lemma keeps_spoilFRA [keeps_rules]: "keeps (minv c) spoilFRA anyR"
  unfolding spoilFRA_def by (rule keeps_modify) simp

lemma keeps_proctab_at [keeps_rules]: "keeps I (proctab_at i) anyR"
  by (simp add: keeps_def proctab_at_def)

lemma keeps_newPC [keeps_rules]: "keeps (minv c) (newPC p) anyR"
  unfolding newPC_def by (rule keeps_rules | simp)+

lemma keeps_text [keeps_rules]:
  "keeps I (rd_text a) anyR" "keeps (minv c) (bumpPC n) anyR" "keeps I (text_at n) anyR"
  by (simp_all add: keeps_def rd_text_def bumpPC_def text_at_def)

lemma keeps_operands [keeps_rules]:
  "keeps (minv c) nextPCbyte anyR" "keeps (minv c) (S_arg h) anyR" "keeps (minv c) L_arg_2 anyR"
  "keeps (minv c) P_arg_2 anyR" "keeps (minv c) N_arg_2 anyR" "keeps (minv c) U_arg anyR"
  "keeps (minv c) L_arg_4 anyR" "keeps (minv c) P_arg_4 anyR" "keeps (minv c) N_arg_4 anyR"
  unfolding nextPCbyte_def S_arg_def L_arg_2_def P_arg_2_def N_arg_2_def U_arg_def
    L_arg_4_def P_arg_4_def N_arg_4_def
  by (rule keeps_rules TrueI)+

section \<open>On the operand stack\<close>

lemma runs_spoilFRA:
  assumes "minv c s"
  shows "runs c spoilFRA s () (opstack s)"
proof (rule runsI)
  show "stk_frame s (s\<lparr>FRA_def := UNDEFINED\<rparr>)"
    unfolding stk_frame_def
    by (intro exI [of _ "SP s"] exI [of _ "stack s"] exI [of _ "stack_sh s"] exI [of _ "SL s"]
        exI [of _ "stack_len s"] exI [of _ "wst s"] exI [of _ UNDEFINED]) simp
qed (use assms in \<open>simp_all add: spoilFRA_def opstack_def\<close>)

lemma runs_arg_wi:
  assumes "minv c s" and "wi_size c n"
  shows "runs c (arg_wi n) s n (opstack s)"
  using assms by (intro runsI [where s' = s]) (simp_all add: arg_wi_eq [OF assms(1)] stk_frame_refl)

end
