(* ===== verification/Sample.thy ===== *)
theory Sample
  imports Text
begin

text \<open>
  A small concrete machine on which the theorems of the development are instantiated: two-byte
  words and pointers, 100 bytes of global data, an empty heap, and a given operand stack.
\<close>

definition sample_cap :: em_cap where
  "sample_cap = init_sizes \<lparr>wsize = 2, dwsize = 4, psize = 2, i_minsw = 0, i_maxsw = 0, i_maxuw = 0,
     min_off = 0, max_off = 0, max_addr = 0, wsizem1 = 1, rsb_rsbcode = 0, rsb_PI = 0, rsb_PC = 0,
     rsb_LB = 0, rsb_LIN = 0, rsb_FIL = 0, rsbsize = 0\<rparr>"

definition sample_prog :: em_prog where
  "sample_prog = em_cap.extend sample_cap \<lparr>MLim = 65533, HB = 100, DB = 64, NProc = 1, PreIgnMask = 0,
     FRALimit = 8, maxstack = 0, maxheap = 0, NLINE = 1000, must_test = True,
     text_seg = (\<lambda>_. 0), text_len = 64, proctab = [\<lparr>pr_nloc = 0, pr_ep = 0, pr_ff = 64\<rparr>],
     mem_avail = (\<lambda>_. True),
     host_os = (\<lambda>_ _. \<lparr>sr_ret = 0, sr_errno = 0, sr_vals = [], sr_data = []\<rparr>)\<rparr>"

definition no_warnings :: warn_state where
  "no_warnings = \<lparr>warn_cnt = (\<lambda>_. []), warnmask = (\<lambda>_. False), latest_warning_printed = False,
     mess_fp = []\<rparr>"

definition no_signals :: unix_state where
  "no_signals = \<lparr>errno = 0, os_trace = [], sig_map = (\<lambda>_. - 2), sig_act = (\<lambda>_. SIG_DFL), signalled = 0,
     fd_limit = 100, buf_cnt = (\<lambda>_. 0)\<rparr>"

text \<open>The machine whose operand stack is \<open>bs\<close>, with the local base below all of it.\<close>

definition sample :: "byte list \<Rightarrow> mach" where
  "sample bs = em_prog.extend sample_prog \<lparr>PI = 0, PC = 0, HP = 100, SP = 65534 - int (length bs),
     LB = 65534, AB = 65534, ES = 0, ES_def = UNDEFINED, OnTrap = TR_HALT, IgnMask = 0, TrapPI = 0,
     FRA = replicate 8 0, FRA_sh = replicate 8 0, FRASize = 0, FRA_def = UNDEFINED,
     data = (\<lambda>_. 0), data_sh = (\<lambda>_. 0), data_len = 1100, HL = 1100,
     stack = upd_bytes (\<lambda>_. 0) (65534 - int (length bs)) bs, stack_sh = (\<lambda>_. SH_INT),
     stack_len = 1000, SL = 64534, LIN = 1, FIL = 0, AB_list = (\<lambda>_. 65534), frame_limit = 100,
     curr_frame = 0, running = True, wst = no_warnings, unix = no_signals\<rparr>"

lemmas sample_defs = sample_def sample_prog_def sample_cap_def em_cap.extend_def em_prog.extend_def
  init_sizes_def init_rsb_def Let_def

lemma sample_fields [simp]:
  "SP (sample bs) = 65534 - int (length bs)" "LB (sample bs) = 65534" "MLim (sample bs) = 65533"
  "HP (sample bs) = 100" "maxstack (sample bs) = 0" "mem_avail (sample bs) n" "must_test (sample bs)"
  "IgnMask (sample bs) = 0" "wsize (sample bs) = 2" "psize (sample bs) = 2" "HB (sample bs) = 100"
  "wsize sample_prog = 2" "psize sample_prog = 2" "MLim sample_prog = 65533"
  "stack (sample bs) = upd_bytes (\<lambda>_. 0) (65534 - int (length bs)) bs" "LIN (sample bs) = 1"
  "FIL (sample bs) = 0" "wst (sample bs) = no_warnings" "OnTrap (sample bs) = TR_HALT"
  "data (sample bs) = (\<lambda>_. 0)"
  by (simp_all add: sample_defs)

lemma prog_of_sample: "prog_of (sample bs) = sample_prog"
  by (simp add: prog_of_def em_prog.truncate_def sample_def em_prog.extend_def)

lemma cap_ok_sample: "cap_ok sample_prog"
  by (simp add: cap_ok_def sizes_ok_def sample_defs)

lemma minv_sample [simp]: "even (length bs) \<Longrightarrow> length bs \<le> 1000 \<Longrightarrow> minv sample_prog (sample bs)"
  unfolding minv_def regs_ok_def prog_ok_def
  using cap_ok_sample by (auto simp: prog_of_sample) (simp_all add: sample_defs signed_divide_int_def ulong_small)

lemma opstack_sample [simp]: "length bs \<le> 1000 \<Longrightarrow> opstack (sample bs) = bs"
  by (simp add: opstack_def)

lemma sample_ready [simp]: "lb_depth (sample bs) = 0" "fits (sample bs) k \<longleftrightarrow> k \<le> 65434"
  by (auto simp: lb_depth_def fits_def)

theorem warnings_witness:
  "\<exists>w. (warning 3 ^^ 5) (sample []) = (sample [])\<lparr>wst := w\<rparr>
    \<and> mess_fp w = [Warning 3 1 0 1, Warning 3 4 0 1]"
proof -
  have "filter (\<lambda>i. 4 ^ i \<le> (5 :: int)) [0..<8] = [0, 1]" by code_simp
  moreover have "seen 0 1 [] = 0" by code_simp
  ultimately show ?thesis
    using warnings_thinned [of 3 "sample []" 5] by (simp add: no_warnings_def WMSG_def)
qed

end
