(* ===== verification/Int_Arith.thy ===== *)
theory Int_Arith
  imports Sample
begin

text \<open>
  Integer and unsigned arithmetic: \<open>util/int/do_intar.c\<close> and \<open>do_unsar.c\<close>.  The two
  groups share their shape, pop two operands, combine them, push the result; the locale
  \<open>operand_kind\<close> proves that shape once, for signed and for unsigned operands.
\<close>

section \<open>Integer arithmetic (\<open>do_intar.c\<close>)\<close>

definition i_maxs :: "size \<Rightarrow> long" where
  "i_maxs n = (if n = 2 then 32767 else 2147483647)"

definition i_mins :: "size \<Rightarrow> long" where
  "i_mins n = (if n = 2 then - 32768 else - 2147483648)"

definition test_ovfl :: "mach \<Rightarrow> bool" where
  "test_ovfl s \<longleftrightarrow> must_test s \<and> \<not> ignored EIOVFL s"

definition adi :: "long \<Rightarrow> long \<Rightarrow> size \<Rightarrow> long M" where
  "adi w1 w2 nbytes = withM (\<lambda>s. thenM (whenM (test_ovfl s)
       (if w1 > 0 \<and> w2 > 0 then whenM (i_maxs nbytes - w1 < w2) (trap EIOVFL)
        else if w1 < 0 \<and> w2 < 0 then whenM (i_mins nbytes - w1 > w2) (trap EIOVFL)
        else returnM ()))
     (returnM (slong (w1 + w2))))"

definition sbi :: "long \<Rightarrow> long \<Rightarrow> size \<Rightarrow> long M" where
  "sbi w1 w2 nbytes = withM (\<lambda>s. thenM (whenM (test_ovfl s)
       (if w2 < 0 \<and> w1 > 0 then whenM (i_maxs nbytes + w2 < w1) (trap EIOVFL)
        else if w2 > 0 \<and> w1 < 0 then whenM (i_mins nbytes + w2 > w1) (trap EIOVFL)
        else returnM ()))
     (returnM (slong (w1 - w2))))"

definition mli :: "long \<Rightarrow> long \<Rightarrow> size \<Rightarrow> long M" where
  "mli w1 w2 nbytes = withM (\<lambda>s.
     if w1 = 0 \<or> w2 = 0 then returnM 0
     else thenM (whenM (test_ovfl s)
       (if w1 > 0 \<and> w2 > 0 \<or> w2 < 0 \<and> w1 < 0
        then whenM (w1 = i_mins nbytes \<or> w2 = i_mins nbytes \<or> i_maxs nbytes sdiv \<bar>w1\<bar> < \<bar>w2\<bar>) (trap EIOVFL)
        else if w1 > 0 then whenM (i_mins nbytes sdiv w1 > w2) (trap EIOVFL)
        else whenM (i_mins nbytes sdiv w2 > w1) (trap EIOVFL)))
     (returnM (slong (w1 * w2))))"

definition dvi :: "long \<Rightarrow> long \<Rightarrow> size \<Rightarrow> long M" where
  "dvi w1 w2 nbytes = withM (\<lambda>s.
     if w2 = 0 then (if \<not> ignored EIDIVZ s then trap EIDIVZ else returnM 0)
     else if w1 = i_mins nbytes \<and> w2 = - 1
     then (if test_ovfl s then trap EIOVFL else returnM (i_mins nbytes))
     else returnM (slong (w1 sdiv w2)))"

definition rmi :: "long \<Rightarrow> long \<Rightarrow> long M" where
  "rmi w1 w2 = withM (\<lambda>s.
     if w2 = 0 then (if \<not> ignored EIDIVZ s then trap EIDIVZ else returnM 0)
     else returnM (slong (w1 smod w2)))"

definition ngi :: "long \<Rightarrow> size \<Rightarrow> long M" where
  "ngi w1 nbytes = withM (\<lambda>s.
     thenM (whenM (test_ovfl s \<and> w1 = i_mins nbytes) (trap EIOVFL)) (returnM (slong (- w1))))"

text \<open>A shift by a negative distance or by 64 and more is undefined in C.\<close>

definition shl :: "long \<Rightarrow> long \<Rightarrow> long M" where
  "shl w1 w2 = (if 0 \<le> w2 \<and> w2 < 64 then returnM (slong (push_bit (nat w2) w1)) else undefM)"

definition shr :: "long \<Rightarrow> long \<Rightarrow> long M" where
  "shr w1 w2 = (if 0 \<le> w2 \<and> w2 < 64 then returnM (drop_bit (nat w2) w1) else undefM)"

definition shift_dist :: "long \<Rightarrow> size \<Rightarrow> long M" where
  "shift_dist w2 nbytes =
     bindM (if w2 < 0 then thenM (warn WSHNEG) (returnM 0) else returnM w2)
       (\<lambda>w2. if w2 \<ge> nbytes * 8 then thenM (warn WSHLARGE) (returnM (nbytes * 8 - 1)) else returnM w2)"

definition sli :: "long \<Rightarrow> long \<Rightarrow> size \<Rightarrow> long M" where
  "sli w1 w2 nbytes = withM (\<lambda>s.
     if must_test s then bindM (shift_dist w2 nbytes) (\<lambda>w2.
       thenM (whenM (\<not> ignored EIOVFL s) (seqM [
           whenM (w1 \<ge> 0 \<and> w1 > drop_bit (nat w2) (i_maxs nbytes)) (trap EIOVFL),
           whenM (w1 < 0 \<and> w1 < drop_bit (nat w2) (i_mins nbytes)) (trap EIOVFL)]))
         (shl w1 w2))
     else shl w1 w2)"

definition sri :: "long \<Rightarrow> long \<Rightarrow> size \<Rightarrow> long M" where
  "sri w1 w2 nbytes = withM (\<lambda>s.
     if must_test s then bindM (shift_dist w2 nbytes) (\<lambda>w2. shr w1 w2) else shr w1 w2)"

definition DoADI :: "size \<Rightarrow> unit M" where
  "DoADI l = bindM (arg_wi l) (\<lambda>l'. bindM (spop l') (\<lambda>t. seqM [
     spoilFRA, bindM (spop l) (\<lambda>w. bindM (adi w t l) (\<lambda>r. npush r l))]))"

definition DoSBI :: "size \<Rightarrow> unit M" where
  "DoSBI l = bindM (arg_wi l) (\<lambda>l'. bindM (spop l') (\<lambda>t. seqM [
     spoilFRA, bindM (spop l) (\<lambda>w. bindM (sbi w t l) (\<lambda>r. npush r l))]))"

definition DoMLI :: "size \<Rightarrow> unit M" where
  "DoMLI l = bindM (arg_wi l) (\<lambda>l'. bindM (spop l') (\<lambda>t. seqM [
     spoilFRA, bindM (spop l) (\<lambda>w. bindM (mli w t l) (\<lambda>r. npush r l))]))"

definition DoDVI :: "size \<Rightarrow> unit M" where
  "DoDVI l = bindM (arg_wi l) (\<lambda>l'. bindM (spop l') (\<lambda>t. seqM [
     spoilFRA, bindM (spop l) (\<lambda>w. bindM (dvi w t l) (\<lambda>r. npush r l))]))"

definition DoRMI :: "size \<Rightarrow> unit M" where
  "DoRMI l = bindM (arg_wi l) (\<lambda>l'. bindM (spop l') (\<lambda>t. seqM [
     spoilFRA, bindM (spop l) (\<lambda>w. bindM (rmi w t) (\<lambda>r. npush r l))]))"

definition DoNGI :: "size \<Rightarrow> unit M" where
  "DoNGI l = seqM [spoilFRA,
     bindM (arg_wi l) (\<lambda>l. bindM (spop l) (\<lambda>w. bindM (ngi w l) (\<lambda>r. npush r l)))]"

definition DoSLI :: "size \<Rightarrow> unit M" where
  "DoSLI l = bindM swpop (\<lambda>t. seqM [spoilFRA,
     bindM (arg_wi l) (\<lambda>l. bindM (spop l) (\<lambda>w. bindM (sli w t l) (\<lambda>r. npush r l)))])"

definition DoSRI :: "size \<Rightarrow> unit M" where
  "DoSRI l = bindM swpop (\<lambda>t. seqM [spoilFRA,
     bindM (arg_wi l) (\<lambda>l. bindM (spop l) (\<lambda>w. bindM (sri w t l) (\<lambda>r. npush r l)))])"

section \<open>Unsigned arithmetic (\<open>do_unsar.c\<close>)\<close>

definition adu :: "int \<Rightarrow> int \<Rightarrow> int" where "adu w1 w2 = ulong (w1 + w2)"
definition sbu :: "int \<Rightarrow> int \<Rightarrow> int" where "sbu w1 w2 = ulong (w1 - w2)"
definition mlu :: "int \<Rightarrow> int \<Rightarrow> int" where "mlu w1 w2 = ulong (w1 * w2)"

definition dvu :: "int \<Rightarrow> int \<Rightarrow> int M" where
  "dvu w1 w2 = withM (\<lambda>s.
     if w2 = 0 then (if \<not> ignored EIDIVZ s then trap EIDIVZ else returnM 0) else returnM (w1 div w2))"

definition rmu :: "int \<Rightarrow> int \<Rightarrow> int M" where
  "rmu w1 w2 = withM (\<lambda>s.
     if w2 = 0 then (if \<not> ignored EIDIVZ s then trap EIDIVZ else returnM 0) else returnM (w1 mod w2))"

definition ushift_dist :: "int \<Rightarrow> size \<Rightarrow> int M" where
  "ushift_dist w2 nbytes = withM (\<lambda>s.
     if must_test s \<and> w2 \<ge> nbytes * 8 then thenM (warn WSHLARGE) (returnM (nbytes * 8 - 1))
     else returnM w2)"

definition slu :: "int \<Rightarrow> int \<Rightarrow> size \<Rightarrow> int M" where
  "slu w1 w2 nbytes = bindM (ushift_dist w2 nbytes)
     (\<lambda>w2. if w2 < 64 then returnM (ulong (push_bit (nat w2) w1)) else undefM)"

definition sru :: "int \<Rightarrow> int \<Rightarrow> size \<Rightarrow> int M" where
  "sru w1 w2 nbytes = bindM (ushift_dist w2 nbytes)
     (\<lambda>w2. if w2 < 64 then returnM (drop_bit (nat w2) w1) else undefM)"

definition DoADU :: "size \<Rightarrow> unit M" where
  "DoADU l = bindM (arg_wi l) (\<lambda>l'. bindM (upop l') (\<lambda>t. seqM [
     spoilFRA, bindM (upop l) (\<lambda>w. npush (slong (adu w t)) l)]))"

definition DoSBU :: "size \<Rightarrow> unit M" where
  "DoSBU l = bindM (arg_wi l) (\<lambda>l'. bindM (upop l') (\<lambda>t. seqM [
     spoilFRA, bindM (upop l) (\<lambda>w. npush (slong (sbu w t)) l)]))"

definition DoMLU :: "size \<Rightarrow> unit M" where
  "DoMLU l = bindM (arg_wi l) (\<lambda>l'. bindM (upop l') (\<lambda>t. seqM [
     spoilFRA, bindM (upop l) (\<lambda>w. npush (slong (mlu w t)) l)]))"

definition DoDVU :: "size \<Rightarrow> unit M" where
  "DoDVU l = bindM (arg_wi l) (\<lambda>l'. bindM (upop l') (\<lambda>t. seqM [
     spoilFRA, bindM (upop l) (\<lambda>w. bindM (dvu w t) (\<lambda>r. npush (slong r) l))]))"

definition DoRMU :: "size \<Rightarrow> unit M" where
  "DoRMU l = bindM (arg_wi l) (\<lambda>l'. bindM (upop l') (\<lambda>t. seqM [
     spoilFRA, bindM (upop l) (\<lambda>w. bindM (rmu w t) (\<lambda>r. npush (slong r) l))]))"

definition DoSLU :: "size \<Rightarrow> unit M" where
  "DoSLU l = bindM uwpop (\<lambda>t. seqM [spoilFRA,
     bindM (arg_wi l) (\<lambda>l. bindM (upop l) (\<lambda>w. bindM (slu w t l) (\<lambda>r. npush (slong r) l)))])"

definition DoSRU :: "size \<Rightarrow> unit M" where
  "DoSRU l = bindM uwpop (\<lambda>t. seqM [spoilFRA,
     bindM (arg_wi l) (\<lambda>l. bindM (upop l) (\<lambda>w. bindM (sru w t l) (\<lambda>r. npush (slong r) l)))])"

section \<open>The invariant\<close>

lemma keeps_arith_ops [keeps_rules]:
  assumes "wst_free I"
  shows "keeps I (adi a b n) anyR" "keeps I (sbi a b n) anyR" "keeps I (mli a b n) anyR"
    "keeps I (dvi a b n) anyR" "keeps I (rmi a b) anyR" "keeps I (ngi a n) anyR"
    "keeps I (shl a b) anyR" "keeps I (shr a b) anyR" "keeps I (dvu a b) anyR" "keeps I (rmu a b) anyR"
    "keeps I (ushift_dist a n) anyR"
  unfolding adi_def sbi_def mli_def dvi_def rmi_def ngi_def shl_def shr_def dvu_def rmu_def ushift_dist_def
  by (rule keeps_rules assms TrueI)+

lemma keeps_shift_dist [keeps_rules]:
  assumes "wst_free I"
  shows "keeps I (shift_dist a n) anyR"
  unfolding shift_dist_def
  by (rule keeps_bind [where R = anyR]) (rule keeps_rules assms TrueI)+

lemma keeps_shifts [keeps_rules]:
  assumes "wst_free I"
  shows "keeps I (sli a b n) anyR" "keeps I (sri a b n) anyR" "keeps I (slu a b n) anyR" "keeps I (sru a b n) anyR"
  unfolding sli_def sri_def slu_def sru_def by (rule keeps_rules assms TrueI)+

lemma keeps_int_arith [keeps_rules]:
  "keeps (minv c) (DoADI l) anyR" "keeps (minv c) (DoSBI l) anyR" "keeps (minv c) (DoMLI l) anyR"
  "keeps (minv c) (DoDVI l) anyR" "keeps (minv c) (DoRMI l) anyR" "keeps (minv c) (DoNGI l) anyR"
  "keeps (minv c) (DoSLI l) anyR" "keeps (minv c) (DoSRI l) anyR"
  unfolding DoADI_def DoSBI_def DoMLI_def DoDVI_def DoRMI_def DoNGI_def DoSLI_def DoSRI_def
  by (rule keeps_rules | simp)+

lemma keeps_uns_arith [keeps_rules]:
  "keeps (minv c) (DoADU l) anyR" "keeps (minv c) (DoSBU l) anyR" "keeps (minv c) (DoMLU l) anyR"
  "keeps (minv c) (DoDVU l) anyR" "keeps (minv c) (DoRMU l) anyR" "keeps (minv c) (DoSLU l) anyR"
  "keeps (minv c) (DoSRU l) anyR"
  unfolding DoADU_def DoSBU_def DoMLU_def DoDVU_def DoRMU_def DoSLU_def DoSRU_def
  by (rule keeps_rules | simp)+

section \<open>Two operands on the stack\<close>

text \<open>Operands \<open>ys\<close> (on top) and \<open>xs\<close> of \<open>n\<close> bytes, both above the local base, on a stack
  clear of the heap.\<close>

definition two_ops :: "em_prog \<Rightarrow> mach \<Rightarrow> size \<Rightarrow> byte list \<Rightarrow> byte list \<Rightarrow> byte list \<Rightarrow> bool" where
  "two_ops c s n ys xs rest \<longleftrightarrow> minv c s \<and> wi_size c n \<and> opstack s = ys @ xs @ rest
     \<and> int (length ys) = n \<and> int (length xs) = n \<and> lb_depth s \<le> length rest
     \<and> fits s (length (opstack s))"

definition one_op :: "em_prog \<Rightarrow> mach \<Rightarrow> size \<Rightarrow> byte list \<Rightarrow> byte list \<Rightarrow> bool" where
  "one_op c s n xs rest \<longleftrightarrow> minv c s \<and> wi_size c n \<and> opstack s = xs @ rest
     \<and> int (length xs) = n \<and> lb_depth s \<le> length rest \<and> fits s (length (opstack s))"

lemma fits_mono: "fits s k \<Longrightarrow> k' \<le> k \<Longrightarrow> fits s k'"
  by (auto simp: fits_def)

locale operand_kind =
  fixes pop :: "size \<Rightarrow> long M" and operand :: "byte list \<Rightarrow> long"
  assumes pop_runs: "minv c s \<Longrightarrow> wi_size c n \<Longrightarrow> opstack s = bs @ rest \<Longrightarrow> int (length bs) = n \<Longrightarrow>
      lb_depth s \<le> length rest \<Longrightarrow> runs c (pop n) s (operand bs) rest"
begin

text \<open>Pop, compute without touching the machine, push: either the computation traps, with the
  operand gone, or its result replaces the operand.\<close>

lemma pop_compute_push:
  assumes s: "one_op c s n xs rest"
    and f: "\<And>t. stk_frame s t \<Longrightarrow> f (operand xs) t = (case r of Inl e \<Rightarrow> Trap e t | Inr v \<Rightarrow> Ok v t)"
  shows "gives c (bindM (pop n) (\<lambda>w. bindM (f w) (\<lambda>r. npush (g r) n))) s
    (case r of Inl e \<Rightarrow> Inl e | Inr v \<Rightarrow> Inr ())
    (case r of Inl e \<Rightarrow> rest | Inr v \<Rightarrow> le_bytes (nat n) (g v) @ rest)"
proof -
  have a: "minv c s" "wi_size c n" "opstack s = xs @ rest" "int (length xs) = n" "lb_depth s \<le> length rest"
    "fits s (length (opstack s))"
    using s unfolding one_op_def by blast+
  show ?thesis
  proof (rule runs_bind [OF pop_runs [OF a(1-5)]])
    fix t assume t: "minv c t" "stk_frame s t" "opstack t = rest"
    have ft: "gives c (f (operand xs)) t r rest"
      using gives_pure [OF t(1), of "f (operand xs)" r] f [OF t(2)] t(3) by simp
    show "gives c (bindM (f (operand xs)) (\<lambda>r. npush (g r) n)) t
        (case r of Inl e \<Rightarrow> Inl e | Inr v \<Rightarrow> Inr ())
        (case r of Inl e \<Rightarrow> rest | Inr v \<Rightarrow> le_bytes (nat n) (g v) @ rest)"
    proof (cases r)
      case (Inl e)
      with ft show ?thesis by (simp add: raises_bind)
    next
      case (Inr v)
      have "runs c (npush (g v) n) u () (le_bytes (nat n) (g v) @ rest)"
        if u: "minv c u" "stk_frame t u" "opstack u = rest" for u
      proof -
        have "fits u (length (opstack s))"
          using a(6) stk_frame_fields(2) [OF stk_frame_trans [OF t(2) u(2)]] by simp
        then have "fits u (nat n + length (opstack u))"
          by (rule fits_mono) (use a(3,4) u(3) in simp)
        then show ?thesis
          using runs_npush [OF u(1) wi_size_facts(1-3) [OF a(1,2)]] u(3) by simp
      qed
      with ft Inr show ?thesis by (simp add: runs_bind)
    qed
  qed
qed

text \<open>The second operand, once the first is gone.\<close>

lemma second_op:
  assumes s: "two_ops c s n ys xs rest" and t: "minv c t" "stk_frame s t" "opstack t = xs @ rest"
  shows "one_op c t n xs rest"
  using s t stk_frame_fields(1,2) [OF t(2)] fits_mono [of s]
  unfolding one_op_def two_ops_def by auto

lemma binop_gives:
  assumes s: "two_ops c s n ys xs rest"
    and f: "\<And>t. stk_frame s t \<Longrightarrow>
      f (operand xs) (operand ys) t = (case r of Inl e \<Rightarrow> Trap e t | Inr v \<Rightarrow> Ok v t)"
  shows "gives c (bindM (arg_wi n) (\<lambda>l'. bindM (pop l') (\<lambda>t. seqM [spoilFRA,
      bindM (pop n) (\<lambda>w. bindM (f w t) (\<lambda>r. npush (g r) n))]))) s
    (case r of Inl e \<Rightarrow> Inl e | Inr v \<Rightarrow> Inr ())
    (case r of Inl e \<Rightarrow> rest | Inr v \<Rightarrow> le_bytes (nat n) (g v) @ rest)"
proof -
  have a: "minv c s" "wi_size c n" "opstack s = ys @ (xs @ rest)" "int (length ys) = n"
    "lb_depth s \<le> length (xs @ rest)"
    using s by (simp_all add: two_ops_def)
  show ?thesis
  proof (rule runs_bind [OF runs_arg_wi [OF a(1,2)]], unfold seqM.simps thenM_returnM,
      rule runs_bind [OF pop_runs [OF _ a(2)]], assumption)
    fix t assume t: "minv c t" "stk_frame s t" "opstack t = opstack s"
    show "opstack t = ys @ (xs @ rest)" "int (length ys) = n" "lb_depth t \<le> length (xs @ rest)"
      using t(3) a stk_frame_fields(1) [OF t(2)] by simp_all
  next
    fix t u assume t: "minv c t" "stk_frame s t" and u: "minv c u" "stk_frame t u" "opstack u = xs @ rest"
    show "gives c (thenM spoilFRA (bindM (pop n) (\<lambda>w. bindM (f w (operand ys)) (\<lambda>r. npush (g r) n)))) u
      (case r of Inl e \<Rightarrow> Inl e | Inr v \<Rightarrow> Inr ())
      (case r of Inl e \<Rightarrow> rest | Inr v \<Rightarrow> le_bytes (nat n) (g v) @ rest)"
    proof (rule runs_then [OF runs_spoilFRA [OF u(1)]])
      fix v assume v: "minv c v" "stk_frame u v" "opstack v = opstack u"
      have fr: "stk_frame s v" by (rule stk_frame_trans [OF t(2) stk_frame_trans [OF u(2) v(2)]])
      show "gives c (bindM (pop n) (\<lambda>w. bindM (f w (operand ys)) (\<lambda>r. npush (g r) n))) v
        (case r of Inl e \<Rightarrow> Inl e | Inr v \<Rightarrow> Inr ())
        (case r of Inl e \<Rightarrow> rest | Inr v \<Rightarrow> le_bytes (nat n) (g v) @ rest)"
      proof (rule pop_compute_push)
        show "one_op c v n xs rest" using v(3) u(3) by (intro second_op [OF s] v(1) fr) simp
        show "f (operand xs) (operand ys) t = (case r of Inl e \<Rightarrow> Trap e t | Inr v \<Rightarrow> Ok v t)"
          if "stk_frame v t" for t
          by (rule f [OF stk_frame_trans [OF fr that]])
      qed
    qed
  qed
qed

lemma binop_if:
  assumes s: "two_ops c s n ys xs rest"
    and f: "\<And>t. stk_frame s t \<Longrightarrow> f (operand xs) (operand ys) t = (if P then Trap e t else Ok v t)"
  shows "if P then raises c (bindM (arg_wi n) (\<lambda>l'. bindM (pop l') (\<lambda>t. seqM [spoilFRA,
        bindM (pop n) (\<lambda>w. bindM (f w t) (\<lambda>r. npush (g r) n))]))) s e rest
    else runs c (bindM (arg_wi n) (\<lambda>l'. bindM (pop l') (\<lambda>t. seqM [spoilFRA,
        bindM (pop n) (\<lambda>w. bindM (f w t) (\<lambda>r. npush (g r) n))]))) s () (le_bytes (nat n) (g v) @ rest)"
  using binop_gives [OF s, of f "if P then Inl e else Inr v" g] f by (cases P) simp_all

end

interpretation sgn: operand_kind spop sval
proof
  fix c s n bs rest
  assume "minv c s" "wi_size c n" "opstack s = bs @ rest" "int (length bs) = n" "lb_depth s \<le> length rest"
  then show "runs c (spop n) s (sval bs) rest"
    using wi_size_facts [of c s n] by (intro runs_spop) simp_all
qed

interpretation uns: operand_kind upop uval
proof
  fix c s n bs rest
  assume "minv c s" "wi_size c n" "opstack s = bs @ rest" "int (length bs) = n" "lb_depth s \<le> length rest"
  then show "runs c (upop n) s (uval bs) rest"
    using wi_size_facts [of c s n] by (intro runs_upop) simp_all
qed

section \<open>What the operations compute\<close>

definition s_range :: "size \<Rightarrow> long \<Rightarrow> bool" where
  "s_range n x \<longleftrightarrow> i_mins n \<le> x \<and> x \<le> i_maxs n"

lemma sval_s_range: "n = 2 \<or> n = 4 \<Longrightarrow> int (length bs) = n \<Longrightarrow> s_range n (sval bs)"
  using sval_range [of bs] by (cases bs) (auto simp: s_range_def i_mins_def i_maxs_def)

lemma uval_u_range: "n = 2 \<or> n = 4 \<Longrightarrow> int (length bs) = n \<Longrightarrow> 0 \<le> uval bs \<and> uval bs < 2 ^ (8 * nat n)"
  using uval_range [of bs] by (auto simp: power_mult)

lemma s_range_slong:
  assumes "s_range n x" and "s_range n y"
  shows "slong (x + y) = x + y" "slong (x - y) = x - y" "slong (x * y) = x * y" "slong (- x) = - x"
proof -
  have x: "\<bar>x\<bar> \<le> 2 ^ 31" "\<bar>y\<bar> \<le> 2 ^ 31"
    using assms by (auto simp: s_range_def i_mins_def i_maxs_def split: if_splits)
  have "\<bar>x * y\<bar> \<le> 2 ^ 31 * 2 ^ 31" unfolding abs_mult using x by (intro mult_mono) simp_all
  then show "slong (x * y) = x * y" by (intro slong_id) (simp_all add: abs_le_iff)
  show "slong (x + y) = x + y" "slong (x - y) = x - y" "slong (- x) = - x"
    using x by (intro slong_id; simp add: abs_le_iff)+
qed

text \<open>Each operation is exact: it traps just when the mathematical result does not fit, if
  overflow is to be tested at all.\<close>

lemma adi_eq:
  assumes "s_range n x" and "s_range n y"
  shows "adi x y n s = (if test_ovfl s \<and> \<not> s_range n (x + y) then Trap EIOVFL s else Ok (x + y) s)"
  using assms s_range_slong(1) [OF assms]
  by (auto simp: adi_def s_range_def i_mins_def i_maxs_def whenM_def)

text \<open>\<open>sbi\<close> is not: with \<open>x = 0\<close> the overflow of \<open>0 - i_mins\<close> passes unnoticed.\<close>

lemma sbi_eq:
  assumes "s_range n x" and "s_range n y"
  shows "sbi x y n s = (if test_ovfl s \<and> \<not> s_range n (x - y) \<and> x \<noteq> 0 then Trap EIOVFL s else Ok (x - y) s)"
  using assms s_range_slong(2) [OF assms]
  by (auto simp: sbi_def s_range_def i_mins_def i_maxs_def whenM_def)

lemma sdiv_pos: "0 \<le> a \<Longrightarrow> 0 < b \<Longrightarrow> a sdiv b = a div (b::int)"
  by (cases "a = 0") (simp_all add: signed_divide_int_def)

lemma sdiv_neg: "0 \<le> a \<Longrightarrow> 0 < b \<Longrightarrow> (- a) sdiv b = - (a div (b::int))"
  by (cases "a = 0") (simp_all add: signed_divide_int_def sgn_if)

lemma zdiv_less_iff:
  assumes "0 < (a::int)"
  shows "(m div a < b) = (m < b * a)"
proof -
  have m: "m = a * (m div a) + m mod a" "0 \<le> m mod a" "m mod a < a" using assms by simp_all
  show ?thesis
  proof
    assume "m div a < b"
    then have "a * (m div a + 1) \<le> a * b" using assms by (intro mult_left_mono) simp_all
    then have "a * (m div a) + a \<le> b * a" by (simp add: algebra_simps)
    then show "m < b * a" using m by linarith
  next
    assume "m < b * a"
    then have "a * (m div a) < a * b" using m mult.commute [of a b] by linarith
    then show "m div a < b" using assms by simp
  qed
qed

lemma abs_sdiv_le: "\<bar>x sdiv y\<bar> \<le> \<bar>x\<bar> div \<bar>y::int\<bar>"
  by (auto simp: signed_divide_int_def abs_mult abs_sgn_eq pos_imp_zdiv_nonneg_iff)

lemma sdiv_s_range:
  assumes "s_range n x" and "y \<noteq> 0" and "\<not> (x = i_mins n \<and> y = - 1)"
  shows "s_range n (x sdiv y)"
proof -
  have m: "0 < i_maxs n" "i_mins n = - i_maxs n - 1" by (simp_all add: i_maxs_def i_mins_def)
  have d: "\<bar>x sdiv y\<bar> \<le> \<bar>x\<bar> div \<bar>y\<bar>" by (rule abs_sdiv_le)
  show ?thesis
  proof (cases "x = i_mins n")
    case False
    then have "\<bar>x\<bar> \<le> i_maxs n" using assms(1) m by (auto simp: s_range_def)
    moreover have "\<bar>x\<bar> div \<bar>y\<bar> \<le> \<bar>x\<bar>" using assms(2) by (intro zdiv_mono2 [of "\<bar>x\<bar>" 1, simplified]) auto
    ultimately show ?thesis using d m unfolding s_range_def by linarith
  next
    case True
    show ?thesis
    proof (cases "y = 1")
      case False
      then have "2 \<le> \<bar>y\<bar>" using assms(2,3) True by auto
      then have "\<bar>x\<bar> div \<bar>y\<bar> \<le> \<bar>x\<bar> div 2" by (intro zdiv_mono2) auto
      moreover have "\<bar>x\<bar> div 2 \<le> i_maxs n" using True m by simp
      ultimately show ?thesis using d m unfolding s_range_def by linarith
    qed (use assms(1) in \<open>simp add: signed_divide_int_def sgn_mult_abs\<close>)
  qed
qed

lemma dvi_eq:
  assumes x: "s_range n x"
  shows "dvi x y n s =
    (if y = 0 then if ignored EIDIVZ s then Ok 0 s else Trap EIDIVZ s
     else if s_range n (x sdiv y) then Ok (x sdiv y) s
     else if test_ovfl s then Trap EIOVFL s else Ok (i_mins n) s)"
proof -
  have "\<not> s_range n (i_mins n sdiv - 1)"
    by (simp add: s_range_def i_mins_def i_maxs_def signed_divide_int_def)
  moreover have "s_range n z \<Longrightarrow> slong z = z" for z
    by (rule slong_id) (auto simp: s_range_def i_mins_def i_maxs_def split: if_splits)
  ultimately show ?thesis using sdiv_s_range [OF x, of y] by (auto simp: dvi_def)
qed

lemma rmi_eq:
  assumes y: "s_range n y"
  shows "rmi x y s =
    (if y = 0 then if ignored EIDIVZ s then Ok 0 s else Trap EIDIVZ s else Ok (x smod y) s)"
proof -
  have "\<bar>y\<bar> \<le> 2 ^ 31" using y by (auto simp: s_range_def i_mins_def i_maxs_def split: if_splits)
  then have "y \<noteq> 0 \<Longrightarrow> slong (x smod y) = x smod y"
    using smod_int_range [of y x] by (intro slong_id) auto
  then show ?thesis by (simp add: rmi_def)
qed

lemma mli_eq:
  assumes "s_range n x" and "s_range n y"
  shows "mli x y n s = (if test_ovfl s \<and> \<not> s_range n (x * y) then Trap EIOVFL s else Ok (x * y) s)"
proof -
  let ?M = "i_maxs n"
  have m: "0 < ?M" "i_mins n = - (?M + 1)" by (simp_all add: i_maxs_def i_mins_def)
  have r: "- (?M + 1) \<le> x" "x \<le> ?M" "- (?M + 1) \<le> y" "y \<le> ?M" using assms m by (simp_all add: s_range_def)
  have same: "(x = i_mins n \<or> y = i_mins n \<or> ?M sdiv \<bar>x\<bar> < \<bar>y\<bar>) = (\<not> s_range n (x * y))"
    if "x > 0 \<and> y > 0 \<or> y < 0 \<and> x < 0"
  proof -
    have p: "x * y = \<bar>x\<bar> * \<bar>y\<bar>" "0 < \<bar>x\<bar>" "0 < \<bar>y\<bar>" using that by (auto simp: abs_if)
    have "\<bar>x\<bar> \<le> \<bar>x\<bar> * \<bar>y\<bar>" "\<bar>y\<bar> \<le> \<bar>x\<bar> * \<bar>y\<bar>" using p by simp_all
    moreover have "x = i_mins n \<Longrightarrow> ?M < \<bar>x\<bar>" "y = i_mins n \<Longrightarrow> ?M < \<bar>y\<bar>" using m by simp_all
    ultimately have "x = i_mins n \<or> y = i_mins n \<Longrightarrow> ?M < \<bar>x\<bar> * \<bar>y\<bar>" by linarith
    moreover have "(?M sdiv \<bar>x\<bar> < \<bar>y\<bar>) = (?M < \<bar>x\<bar> * \<bar>y\<bar>)"
      using m(1) zdiv_less_iff [OF p(2), of ?M "\<bar>y\<bar>"] sdiv_pos [of ?M "\<bar>x\<bar>"] p(2)
      by (simp add: mult.commute)
    moreover have "s_range n (x * y) = (\<bar>x\<bar> * \<bar>y\<bar> \<le> ?M)"
      using m p(2,3) unfolding p(1) s_range_def by (simp add: order_trans [of _ 0])
    ultimately show ?thesis by auto
  qed
  have diff: "(i_mins n sdiv a > b) = (\<not> s_range n (a * b))" if "0 < a" "b < 0" for a b
  proof -
    have "i_mins n sdiv a = - ((?M + 1) div a)"
      unfolding m(2) using that(1) m(1) by (intro sdiv_neg) simp_all
    then have "(i_mins n sdiv a > b) = ((?M + 1) div a < - b)" by linarith
    also have "\<dots> = (?M + 1 < (- b) * a)" using that(1) by (rule zdiv_less_iff)
    also have "(- b) * a = - (a * b)" by simp
    also have "(?M + 1 < - (a * b)) = (\<not> s_range n (a * b))"
      unfolding s_range_def m(2) using m(1) mult_pos_neg [OF that] by auto
    finally show ?thesis .
  qed
  have z: "s_range n 0" using m by (simp add: s_range_def)
  show ?thesis
  proof (cases "x = 0 \<or> y = 0")
    case True
    then show ?thesis using z by (auto simp: mli_def)
  next
    case False
    then consider "x > 0 \<and> y > 0 \<or> y < 0 \<and> x < 0" | "x > 0" "y < 0" | "x < 0" "y > 0" by linarith
    then show ?thesis
    proof cases
      case 1
      then show ?thesis
        using same [OF 1] False s_range_slong(3) [OF assms] by (simp add: mli_def whenM_def)
    next
      case 2
      then show ?thesis
        using diff [OF 2] False s_range_slong(3) [OF assms] by (simp add: mli_def whenM_def)
    next
      case 3
      then show ?thesis
        using diff [OF 3(2,1)] False s_range_slong(3) [OF assms] by (simp add: mli_def whenM_def mult.commute)
    qed
  qed
qed

text \<open>The sample machine with two two-byte operands.\<close>

lemma sample_two:
  assumes "length ys = 2" and "length xs = 2" and "even (length rest)" and "length rest \<le> 900"
  shows "two_ops sample_prog (sample (ys @ xs @ rest)) 2 ys xs rest"
  using assms by (simp add: two_ops_def wi_size_def)

lemmas sample_test = test_ovfl_def ignored_def s_range_def i_mins_def i_maxs_def

lemma two_ops_range:
  assumes "two_ops c s n ys xs rest"
  shows "s_range n (sval xs)" "s_range n (sval ys)"
  using assms by (auto simp: two_ops_def wi_size_def intro!: sval_s_range)

lemma test_ovfl_frame: "stk_frame s t \<Longrightarrow> test_ovfl t = test_ovfl s"
  using stk_frame_fields(4,14) [of s t] by (simp add: test_ovfl_def)

text \<open>
  (C13) ADI on two \<open>n\<close>-byte operands replaces them by their sum; when the program asks for
  overflow tests and the trap is not masked, it instead raises EIOVFL exactly when the sum does not
  fit \<open>n\<close> bytes, with both operands popped.  Nothing else of the machine changes.
\<close>

theorem DoADI_spec:
  assumes s: "two_ops c s n ys xs rest"
  shows "if test_ovfl s \<and> \<not> s_range n (sval xs + sval ys)
    then raises c (DoADI n) s EIOVFL rest
    else runs c (DoADI n) s () (le_bytes (nat n) (sval xs + sval ys) @ rest)"
  unfolding DoADI_def
  by (rule sgn.binop_if [OF s, where f = "\<lambda>w t. adi w t n" and g = "\<lambda>r. r"])
    (simp add: adi_eq [OF two_ops_range [OF s]] test_ovfl_frame)

theorem DoADI_witness: "runs sample_prog (DoADI 2) (sample [5, 0, 3, 0, 9, 9]) () [8, 0, 9, 9]"
proof -
  have "sval [3, 0] = 3" "sval [5, 0] = 5" "le_bytes 2 8 = [8, 0]" by code_simp+
  then show ?thesis
    using DoADI_spec [OF sample_two, of "[5, 0]" "[3, 0]" "[9, 9]"] by (simp add: sample_test)
qed

text \<open>
  (C14) SBI replaces its operands by their difference.  It raises EIOVFL when the difference
  does not fit, except for a minuend of zero: \<open>0 - i_mins\<close> is not noticed.
\<close>

theorem DoSBI_spec:
  assumes s: "two_ops c s n ys xs rest"
  shows "if test_ovfl s \<and> \<not> s_range n (sval xs - sval ys) \<and> sval xs \<noteq> 0
    then raises c (DoSBI n) s EIOVFL rest
    else runs c (DoSBI n) s () (le_bytes (nat n) (sval xs - sval ys) @ rest)"
  unfolding DoSBI_def
  by (rule sgn.binop_if [OF s, where f = "\<lambda>w t. sbi w t n" and g = "\<lambda>r. r"])
    (simp add: sbi_eq [OF two_ops_range [OF s]] test_ovfl_frame)

theorem DoSBI_witness: "runs sample_prog (DoSBI 2) (sample [0, 0x80, 0, 0]) () [0, 0x80]"
proof -
  have "sval [0, 0] = 0" "sval [0, 0x80] = - 32768" "le_bytes 2 32768 = [0, 0x80]" by code_simp+
  then show ?thesis
    using DoSBI_spec [OF sample_two, of "[0, 0x80]" "[0, 0]" "[]"] by (simp add: sample_test)
qed

text \<open>
  (C15) MLI replaces its operands by their product, and its overflow test by division is exact: it
  raises EIOVFL just when the product does not fit \<open>n\<close> bytes.
\<close>

theorem DoMLI_spec:
  assumes s: "two_ops c s n ys xs rest"
  shows "if test_ovfl s \<and> \<not> s_range n (sval xs * sval ys)
    then raises c (DoMLI n) s EIOVFL rest
    else runs c (DoMLI n) s () (le_bytes (nat n) (sval xs * sval ys) @ rest)"
  unfolding DoMLI_def
  by (rule sgn.binop_if [OF s, where f = "\<lambda>w t. mli w t n" and g = "\<lambda>r. r"])
    (simp add: mli_eq [OF two_ops_range [OF s]] test_ovfl_frame)

theorem DoMLI_witness: "raises sample_prog (DoMLI 2) (sample [0, 1, 0, 1]) EIOVFL []"
proof -
  have "sval [0, 1] = 256" by code_simp
  then show ?thesis
    using DoMLI_spec [OF sample_two, of "[0, 1]" "[0, 1]" "[]"] by (simp add: sample_test)
qed

text \<open>
  (C16) DVI divides truncating toward zero.  A zero divisor raises EIDIVZ, or gives zero when that
  trap is masked; the one overflowing quotient raises EIOVFL, or gives the least integer.
\<close>

theorem DoDVI_spec:
  assumes s: "two_ops c s n ys xs rest"
  shows "let x = sval xs; y = sval ys; z = y = 0; ovf = \<not> s_range n (x sdiv y) in
    if z \<and> \<not> ignored EIDIVZ s \<or> \<not> z \<and> ovf \<and> test_ovfl s
    then raises c (DoDVI n) s (if z then EIDIVZ else EIOVFL) rest
    else runs c (DoDVI n) s ()
      (le_bytes (nat n) (if z then 0 else if ovf then i_mins n else x sdiv y) @ rest)"
  unfolding DoDVI_def Let_def
  by (rule sgn.binop_if [OF s, where f = "\<lambda>w t. dvi w t n" and g = "\<lambda>r. r"])
    (simp add: dvi_eq [OF two_ops_range(1) [OF s]] test_ovfl_frame stk_frame_fields(14))

theorem DoDVI_witness: "runs sample_prog (DoDVI 2) (sample [2, 0, 0xF9, 0xFF]) () [0xFD, 0xFF]"
proof -
  have "sval [0xF9, 0xFF] = - 7" "sval [2, 0] = 2" "le_bytes 2 (- 3) = [0xFD, 0xFF]" by code_simp+
  then show ?thesis
    using DoDVI_spec [OF sample_two, of "[2, 0]" "[0xF9, 0xFF]" "[]"] by (simp add: sample_test)
qed

text \<open>The numbers in range are those that \<open>n\<close> bytes hold.\<close>

lemma sval_le_s_range: "n = 2 \<or> n = 4 \<Longrightarrow> s_range n z \<Longrightarrow> sval (le_bytes (nat n) z) = z"
  by (auto simp: sval_le_bytes s_range_def i_mins_def i_maxs_def intro!: signed_take_bit_int_eq_self)

lemma smod_facts:
  fixes x y :: int
  assumes "y \<noteq> 0"
  shows "\<bar>x smod y\<bar> < \<bar>y\<bar>" "x smod y = 0 \<or> sgn (x smod y) = sgn x" "x = x sdiv y * y + x smod y"
proof -
  show "\<bar>x smod y\<bar> < \<bar>y\<bar>" using smod_int_range [OF assms, of x] by auto
  have "0 < \<bar>x\<bar> mod \<bar>y\<bar> \<or> \<bar>x\<bar> mod \<bar>y\<bar> = 0"
    using assms pos_mod_sign [of "\<bar>y\<bar>" "\<bar>x\<bar>"] by linarith
  then show "x smod y = 0 \<or> sgn (x smod y) = sgn x" unfolding smod_int_alt_def by (auto simp: sgn_mult)
  show "x = x sdiv y * y + x smod y" by (simp add: sdiv_mult_smod_eq)
qed

lemma DVI_quotient:
  assumes s: "two_ops c s n ys xs rest" and y: "sval ys \<noteq> 0" and o: "\<not> (sval xs = i_mins n \<and> sval ys = - 1)"
  shows "\<exists>qs. runs c (DoDVI n) s () (qs @ rest) \<and> int (length qs) = n \<and> sval qs = sval xs sdiv sval ys"
proof -
  let ?q = "sval xs sdiv sval ys"
  have n: "n = 2 \<or> n = 4" using s by (auto simp: two_ops_def wi_size_def)
  have q: "s_range n ?q" by (rule sdiv_s_range [OF two_ops_range(1) [OF s] y o])
  have "runs c (DoDVI n) s () (le_bytes (nat n) ?q @ rest)"
    unfolding DoDVI_def
    using sgn.binop_if [OF s, where f = "\<lambda>w t. dvi w t n" and g = "\<lambda>r. r" and P = False and v = ?q] q y
    by (simp add: dvi_eq [OF two_ops_range(1) [OF s]])
  then show ?thesis using n sval_le_s_range [OF n q] by (intro exI [of _ "le_bytes (nat n) ?q"]) auto
qed

text \<open>
  (C17) RMI traps on a zero divisor, unless that trap is ignored: then the result is zero.  Otherwise
  it leaves a remainder \<open>r\<close> of the dividend \<open>x\<close>, smaller in magnitude than the divisor \<open>y\<close>
  and zero or of the dividend's sign; and except for the smallest number by \<open>-1\<close>, whose
  quotient does not fit, DVI on the same operands leaves a \<open>q\<close> with \<open>x = q * y + r\<close>.
\<close>

theorem DoRMI_spec:
  assumes s: "two_ops c s n ys xs rest"
  shows "let x = sval xs; y = sval ys in
    if y = 0 \<and> \<not> ignored EIDIVZ s then raises c (DoRMI n) s EIDIVZ rest
    else \<exists>rs. runs c (DoRMI n) s () (rs @ rest) \<and> int (length rs) = n
      \<and> (if y = 0 then sval rs = 0
         else \<bar>sval rs\<bar> < \<bar>y\<bar> \<and> (sval rs = 0 \<or> sgn (sval rs) = sgn x) \<and> y dvd x - sval rs
           \<and> (if x = i_mins n \<and> y = - 1 then sval rs = 0
              else \<exists>qs. runs c (DoDVI n) s () (qs @ rest) \<and> int (length qs) = n \<and> x = sval qs * y + sval rs))"
proof -
  let ?x = "sval xs" and ?y = "sval ys"
  define r where "r = (if ?y = 0 then 0 else ?x smod ?y)"
  have n: "n = 2 \<or> n = 4" using s by (auto simp: two_ops_def wi_size_def)
  have rm: "if ?y = 0 \<and> \<not> ignored EIDIVZ s then raises c (DoRMI n) s EIDIVZ rest
      else runs c (DoRMI n) s () (le_bytes (nat n) r @ rest)"
    unfolding DoRMI_def
    by (rule sgn.binop_if [OF s, where f = rmi and g = "\<lambda>r. r"])
      (simp add: rmi_eq [OF two_ops_range(2) [OF s]] r_def stk_frame_fields(14))
  show ?thesis
  proof (cases "?y = 0")
    case True
    have "sval (le_bytes (nat n) 0) = 0" by (rule sval_le_s_range [OF n]) (simp add: s_range_def i_mins_def i_maxs_def)
    then show ?thesis
      using rm n True by (auto simp: Let_def r_def intro!: exI [of _ "le_bytes (nat n) 0"])
  next
    case False
    note f = smod_facts [OF False, of ?x]
    have "s_range n r" using f(1) False two_ops_range(2) [OF s]
      by (auto simp: r_def s_range_def i_mins_def i_maxs_def split: if_splits)
    then have v: "sval (le_bytes (nat n) r) = ?x smod ?y" using sval_le_s_range [OF n] False by (simp add: r_def)
    have d: "?y dvd ?x - ?x smod ?y" using f(3) by (metis add_diff_cancel_right' dvd_triv_right)
    have m: "?x smod ?y = 0" if "?y = - 1" using f(1) that by simp
    have q: "\<exists>qs. runs c (DoDVI n) s () (qs @ rest) \<and> int (length qs) = n \<and> ?x = sval qs * ?y + ?x smod ?y"
      if "\<not> (?x = i_mins n \<and> ?y = - 1)"
      using DVI_quotient [OF s False that] f(3) by metis
    have "runs c (DoRMI n) s () (le_bytes (nat n) r @ rest)" "int (length (le_bytes (nat n) r)) = n"
      using rm n False by auto
    then show ?thesis
      using f(1,2) d m q False unfolding Let_def v [symmetric]
      by (simp only: False if_False simp_thms) (intro exI [of _ "le_bytes (nat n) r"], simp)
  qed
qed

theorem DoRMI_witness:
  "\<exists>rs qs. runs sample_prog (DoRMI 2) (sample [2, 0, 0xF9, 0xFF]) () rs
    \<and> runs sample_prog (DoDVI 2) (sample [2, 0, 0xF9, 0xFF]) () qs
    \<and> - 7 = sval qs * 2 + sval rs \<and> \<bar>sval rs\<bar> < 2 \<and> (sval rs = 0 \<or> sgn (sval rs) = - 1)"
proof -
  have "sval [0xF9, 0xFF] = - 7" "sval [2, 0] = 2" by code_simp+
  then show ?thesis using DoRMI_spec [OF sample_two, of "[2, 0]" "[0xF9, 0xFF]" "[]"] by auto
qed

text \<open>
  (C18) The unsigned instructions ADU, SBU and MLU compute modulo \<open>2 ^ (8 * n)\<close>; they never trap on
  overflow.
\<close>

theorem unsigned_modular:
  assumes s: "two_ops c s n ys xs rest"
  shows "runs c (DoADU n) s () (le_bytes (nat n) ((uval xs + uval ys) mod 2 ^ (8 * nat n)) @ rest)
    \<and> runs c (DoSBU n) s () (le_bytes (nat n) ((uval xs - uval ys) mod 2 ^ (8 * nat n)) @ rest)
    \<and> runs c (DoMLU n) s () (le_bytes (nat n) ((uval xs * uval ys) mod 2 ^ (8 * nat n)) @ rest)"
proof -
  have n: "nat n \<le> 7" using s by (auto simp: two_ops_def wi_size_def)
  have e: "le_bytes (nat n) (slong (ulong z)) = le_bytes (nat n) (z mod 2 ^ (8 * nat n))" for z
    using le_bytes_take_bit [of "nat n" z] by (simp add: le_bytes_slong [OF n] le_bytes_ulong [OF n] take_bit_eq_mod)
  note b = uns.binop_if [OF s, where f = "\<lambda>w t. returnM (h w t)" and P = False and g = slong
      and v = "h (uval xs) (uval ys)" for h, simplified]
  show ?thesis
    unfolding DoADU_def DoSBU_def DoMLU_def
    using b [of adu] b [of sbu] b [of mlu] by (simp add: adu_def sbu_def mlu_def e)
qed

theorem unsigned_modular_witness:
  "runs sample_prog (DoADU 2) (sample [1, 0, 0xFF, 0xFF]) () [0, 0]
    \<and> runs sample_prog (DoSBU 2) (sample [1, 0, 0xFF, 0xFF]) () [0xFE, 0xFF]
    \<and> runs sample_prog (DoMLU 2) (sample [1, 0, 0xFF, 0xFF]) () [0xFF, 0xFF]"
proof -
  have "uval [1, 0] = 1" "uval [0xFF, 0xFF] = 65535" "le_bytes 2 0 = [0, 0]"
    "le_bytes 2 65534 = [0xFE, 0xFF]" "le_bytes 2 65535 = [0xFF, 0xFF]" by code_simp+
  then show ?thesis using unsigned_modular [OF sample_two, of "[1, 0]" "[0xFF, 0xFF]" "[]"] by simp
qed

text \<open>
  (C19) DVU and RMU divide as unsigned numbers; a zero divisor raises EIDIVZ or gives zero.
\<close>

theorem unsigned_division:
  assumes s: "two_ops c s n ys xs rest"
  shows "if uval ys = 0 \<and> \<not> ignored EIDIVZ s
    then raises c (DoDVU n) s EIDIVZ rest \<and> raises c (DoRMU n) s EIDIVZ rest
    else runs c (DoDVU n) s () (le_bytes (nat n) (uval xs div uval ys) @ rest)
      \<and> runs c (DoRMU n) s () (le_bytes (nat n) (if uval ys = 0 then 0 else uval xs mod uval ys) @ rest)"
proof -
  have n: "nat n \<le> 7" using s by (auto simp: two_ops_def wi_size_def)
  define P where "P \<longleftrightarrow> uval ys = 0 \<and> \<not> ignored EIDIVZ s"
  have d: "dvu (uval xs) (uval ys) t = (if P then Trap EIDIVZ t else Ok (uval xs div uval ys) t)"
    and r: "rmu (uval xs) (uval ys) t = (if P then Trap EIDIVZ t
        else Ok (if uval ys = 0 then 0 else uval xs mod uval ys) t)" if "stk_frame s t" for t
    using stk_frame_fields(14) [OF that] by (simp_all add: P_def dvu_def rmu_def)
  from uns.binop_if [OF s, where f = dvu and g = slong, OF d] uns.binop_if [OF s, where f = rmu and g = slong, OF r]
  show ?thesis
    unfolding DoDVU_def DoRMU_def P_def [symmetric] by (cases P) (simp_all add: le_bytes_slong [OF n])
qed

theorem unsigned_division_witness:
  "raises sample_prog (DoDVU 2) (sample [0, 0, 7, 0]) EIDIVZ [] \<and>
   raises sample_prog (DoRMU 2) (sample [0, 0, 7, 0]) EIDIVZ []"
  using unsigned_division [OF sample_two, of "[0, 0]" "[7, 0]" "[]"] by (simp add: sample_test)

section \<open>Shifts\<close>

text \<open>A shift distance word \<open>ds\<close> on top of an \<open>n\<close>-byte operand.\<close>

definition shift_ops :: "em_prog \<Rightarrow> mach \<Rightarrow> size \<Rightarrow> byte list \<Rightarrow> byte list \<Rightarrow> byte list \<Rightarrow> bool" where
  "shift_ops c s n ds xs rest \<longleftrightarrow> minv c s \<and> wi_size c n \<and> opstack s = ds @ xs @ rest
     \<and> int (length ds) = wsize c \<and> int (length xs) = n \<and> lb_depth s \<le> length rest
     \<and> fits s (length (opstack s))"

lemma shift_one_op:
  assumes s: "shift_ops c s n ds xs rest" and t: "minv c t" "stk_frame s t" "opstack t = xs @ rest"
  shows "one_op c t n xs rest"
  using s t stk_frame_fields(1,2) [OF t(2)] fits_mono [of s]
  unfolding one_op_def shift_ops_def by auto

lemma shift_prefix:
  assumes s: "shift_ops c s n ds xs rest" and p: "runs c popd s v (xs @ rest)"
    and k: "\<And>t. one_op c t n xs rest \<Longrightarrow> stk_frame s t \<Longrightarrow> gives c (k n v) t r bs"
  shows "gives c (bindM popd (\<lambda>t. seqM [spoilFRA, bindM (arg_wi n) (\<lambda>l. k l t)])) s r bs"
proof -
  have n: "wi_size c n" using s by (simp add: shift_ops_def)
  show ?thesis
  proof (rule runs_bind [OF p], unfold seqM.simps thenM_returnM, rule runs_then [OF runs_spoilFRA],
      assumption, rule runs_bind [OF runs_arg_wi [OF _ n]], assumption)
    fix t u w assume t: "stk_frame s t" "opstack t = xs @ rest" and u: "stk_frame t u" "opstack u = opstack t"
      and w: "minv c w" "stk_frame u w" "opstack w = opstack u"
    have "stk_frame s w" by (rule stk_frame_trans [OF t(1) stk_frame_trans [OF u(1) w(2)]])
    moreover have "one_op c w n xs rest"
      using t(2) u(2) w(3) by (intro shift_one_op [OF s w(1) calculation]) simp
    ultimately show "gives c (k n v) w r bs" by (intro k)
  qed
qed

lemma shl_exact:
  assumes "s_range n x" and "0 \<le> d" and "d < 8 * n" and "n = 2 \<or> n = 4"
  shows "sli x d n s = (if test_ovfl s \<and> \<not> s_range n (x * 2 ^ nat d) then Trap EIOVFL s
    else Ok (x * 2 ^ nat d) s)"
proof -
  have d: "shift_dist d n s = Ok d s" using assms(2,3) by (simp add: shift_dist_def mult.commute)
  have sh: "shl x d s = Ok (x * 2 ^ nat d) s"
  proof -
    have "\<bar>x\<bar> \<le> 2 ^ 31" using assms(1) by (auto simp: s_range_def i_mins_def i_maxs_def split: if_splits)
    moreover have "(2::int) ^ nat d \<le> 2 ^ 31" using assms by (intro power_increasing) auto
    ultimately have "\<bar>x\<bar> * 2 ^ nat d \<le> 2 ^ 31 * 2 ^ 31" by (intro mult_mono) simp_all
    then have "\<bar>x * 2 ^ nat d\<bar> \<le> 2 ^ 62" by (simp add: abs_mult)
    then have "slong (x * 2 ^ nat d) = x * 2 ^ nat d" by (intro slong_id) (simp_all add: abs_le_iff)
    then show ?thesis using assms by (auto simp: shl_def push_bit_eq_mult)
  qed
  have m: "0 < i_maxs n" "i_mins n = - (i_maxs n + 1)" by (simp_all add: i_maxs_def i_mins_def)
  have p: "(0::int) < 2 ^ nat d" by simp
  have hi: "(x > drop_bit (nat d) (i_maxs n)) = (x * 2 ^ nat d > i_maxs n)"
    unfolding drop_bit_eq_div using zdiv_less_iff [OF p, of "i_maxs n" x] by simp
  have lo: "(x < drop_bit (nat d) (i_mins n)) = (x * 2 ^ nat d < i_mins n)"
  proof -
    have "i_mins n = - (2 ^ (8 * nat n - 1))" using assms(4) by (auto simp: i_mins_def)
    moreover have "(2::int) ^ nat d dvd 2 ^ (8 * nat n - 1)" using assms(2-4) by (intro le_imp_power_dvd) auto
    ultimately obtain q where "i_mins n = q * 2 ^ nat d" by (metis dvd_def dvd_minus_iff mult.commute)
    then show ?thesis by (simp add: drop_bit_eq_div)
  qed
  have pos: "0 \<le> x \<Longrightarrow> i_mins n \<le> x * 2 ^ nat d"
    using m mult_nonneg_nonneg [OF _ less_imp_le [OF p], of x] by linarith
  have neg: "x < 0 \<Longrightarrow> x * 2 ^ nat d \<le> i_maxs n"
    using m(1) mult_neg_pos [OF _ p, of x] by linarith
  show ?thesis
  proof (cases "must_test s \<and> \<not> ignored EIOVFL s")
    case True
    then show ?thesis
      using pos neg unfolding sli_def test_ovfl_def s_range_def
      by (cases "0 \<le> x") (simp_all add: d sh hi lo whenM_def)
  next
    case False
    then have n: "\<not> test_ovfl s" by (simp add: test_ovfl_def)
    from False show ?thesis unfolding sli_def by (cases "must_test s") (simp_all add: n d sh)
  qed
qed

text \<open>
  (C20) SLI with a distance inside the operand multiplies by the power of two and raises EIOVFL
  exactly when the product does not fit; SRI divides by it, rounding down.
\<close>

theorem shift_spec:
  assumes s: "shift_ops c s n ds xs rest" and d: "0 \<le> sval ds" "sval ds < 8 * n"
  shows "(if test_ovfl s \<and> \<not> s_range n (sval xs * 2 ^ nat (sval ds))
      then raises c (DoSLI n) s EIOVFL rest
      else runs c (DoSLI n) s () (le_bytes (nat n) (sval xs * 2 ^ nat (sval ds)) @ rest))
    \<and> runs c (DoSRI n) s () (le_bytes (nat n) (sval xs div 2 ^ nat (sval ds)) @ rest)"
proof -
  have a: "minv c s" "opstack s = ds @ (xs @ rest)" "lb_depth s \<le> length (xs @ rest)"
    "int (length ds) = wsize c" "wi_size c n" "n = 2 \<or> n = 4" "int (length xs) = n"
    using s by (auto simp: shift_ops_def wi_size_def)
  have x: "s_range n (sval xs)" by (rule sval_s_range [OF a(6,7)])
  note prefix = shift_prefix [OF s runs_swpop(1) [OF a(1-4)]]
  define P where "P \<longleftrightarrow> test_ovfl s \<and> \<not> s_range n (sval xs * 2 ^ nat (sval ds))"
  let ?r = "if P then Inl EIOVFL else Inr (sval xs * 2 ^ nat (sval ds))"
  have sl: "sli (sval xs) (sval ds) n t = (if P then Trap EIOVFL t else Ok (sval xs * 2 ^ nat (sval ds)) t)"
    if "stk_frame s t" for t
    using shl_exact [OF x d a(6)] test_ovfl_frame [OF that] by (simp add: P_def)
  have "gives c (bindM (spop n) (\<lambda>w. bindM (sli w (sval ds) n) (\<lambda>r. npush r n))) t
      (if P then Inl EIOVFL else Inr ())
      (if P then rest else le_bytes (nat n) (sval xs * 2 ^ nat (sval ds)) @ rest)"
    if "one_op c t n xs rest" "stk_frame s t" for t
    using sgn.pop_compute_push [OF that(1), of "\<lambda>w. sli w (sval ds) n" ?r "\<lambda>r. r"]
      sl [OF stk_frame_trans [OF that(2)]] by (cases P) simp_all
  note prefix [where k = "\<lambda>l t. bindM (spop l) (\<lambda>w. bindM (sli w t l) (\<lambda>r. npush r l))", OF this]
  then have "if test_ovfl s \<and> \<not> s_range n (sval xs * 2 ^ nat (sval ds)) then raises c (DoSLI n) s EIOVFL rest
      else runs c (DoSLI n) s () (le_bytes (nat n) (sval xs * 2 ^ nat (sval ds)) @ rest)"
    unfolding DoSLI_def P_def [symmetric] by (cases P) simp_all
  moreover have "runs c (bindM (spop n) (\<lambda>w. bindM (sri w (sval ds) n) (\<lambda>r. npush r n))) t ()
      (le_bytes (nat n) (sval xs div 2 ^ nat (sval ds)) @ rest)"
    if "one_op c t n xs rest" "stk_frame s t" for t
    using sgn.pop_compute_push [OF that(1), of "\<lambda>w. sri w (sval ds) n"
        "Inr (sval xs div 2 ^ nat (sval ds))" "\<lambda>r. r"] d a(6)
    by (auto simp: sri_def shr_def shift_dist_def drop_bit_eq_div)
  note prefix [where k = "\<lambda>l t. bindM (spop l) (\<lambda>w. bindM (sri w t l) (\<lambda>r. npush r l))", OF this]
  then have "runs c (DoSRI n) s () (le_bytes (nat n) (sval xs div 2 ^ nat (sval ds)) @ rest)"
    unfolding DoSRI_def .
  ultimately show ?thesis ..
qed

theorem shift_witness:
  "runs sample_prog (DoSLI 2) (sample [3, 0, 5, 0]) () [40, 0]
    \<and> runs sample_prog (DoSRI 2) (sample [3, 0, 5, 0]) () [0, 0]"
proof -
  have "sval [3, 0] = 3" "sval [5, 0] = 5" "le_bytes 2 40 = [40, 0]" "le_bytes 2 0 = [0, 0]" by code_simp+
  moreover have "shift_ops sample_prog (sample ([3, 0] @ [5, 0] @ [])) 2 [3, 0] [5, 0] []"
    by (simp add: shift_ops_def wi_size_def)
  ultimately show ?thesis
    using shift_spec [of sample_prog "sample ([3, 0] @ [5, 0] @ [])" 2 "[3, 0]" "[5, 0]" "[]"]
    by (simp add: sample_test)
qed

section \<open>Pushing and popping\<close>

context operand_kind
begin

lemma push_then_pop:
  assumes s: "minv c s" and n: "wi_size c n" and f: "fits s (nat n + length (opstack s))"
  shows "runs c (thenM (npush l n) (pop n)) s (operand (le_bytes (nat n) l)) (opstack s)"
proof -
  note w = wi_size_facts [OF s n]
  have d: "lb_depth s \<le> length (opstack s)"
    using minv_regs(6,7) [OF s] opstack_SP [OF s] by (simp add: lb_depth_def minv_fields(17) [OF s])
  have "0 < n" using w(2) minv_caps(1) [OF s] by auto
  then have l: "int (length (le_bytes (nat n) l)) = n" by simp
  show ?thesis
  proof (rule runs_then [OF runs_npush [OF s w(1-3) f]])
    fix t assume "minv c t" "stk_frame s t" "opstack t = le_bytes (nat n) l @ opstack s"
    then show "runs c (pop n) t (operand (le_bytes (nat n) l)) (opstack s)"
      using l d stk_frame_fields(1) by (intro pop_runs n) simp_all
  qed
qed

end

text \<open>
  (C23) The abstract stack: pushing an \<open>n\<close>-byte value and popping it again returns the value cut to
  \<open>n\<close> bytes, read as a signed number by \<open>spop\<close> and as an unsigned one by \<open>upop\<close>, and leaves
  the operand stack as it was.\<close>

theorem push_pop:
  assumes s: "minv c s" and n: "wi_size c n" and f: "fits s (nat n + length (opstack s))"
  shows "runs c (thenM (npush l n) (spop n)) s (signed_take_bit (8 * nat n - 1) l) (opstack s)
    \<and> runs c (thenM (npush l n) (upop n)) s (take_bit (8 * nat n) l) (opstack s)"
proof -
  have "0 < nat n" using wi_size_facts(2) [OF s n] minv_caps(1) [OF s] by auto
  then show ?thesis
    using sgn.push_then_pop [OF assms] uns.push_then_pop [OF assms]
    by (simp add: sval_le_bytes uval_le_bytes)
qed

theorem push_pop_witness:
  "runs sample_prog (thenM (npush 65535 2) (spop 2)) (sample []) (- 1) []
    \<and> runs sample_prog (thenM (npush 65535 2) (upop 2)) (sample []) 65535 []"
proof -
  have "signed_take_bit 15 65535 = (- 1 :: int)" "take_bit 16 65535 = (65535 :: int)" by code_simp+
  then show ?thesis using push_pop [of sample_prog "sample []" 2 65535] by (simp add: wi_size_def)
qed

end
