(* ===== verification/Load_Store.thy ===== *)
theory Load_Store
  imports Sample
begin

text \<open>
  The load and store groups: \<open>util/int/do_load.c\<close> and \<open>do_store.c\<close>.
\<close>

section \<open>Loads (\<open>do_load.c\<close>)\<close>

definition i2p :: "long \<Rightarrow> ptr" where
  "i2p arg = ulong arg"

text \<open>\<open>lexback_LB(n)\<close>: follow the static link \<open>n\<close> times.\<close>

primrec lexback_from :: "nat \<Rightarrow> ptr \<Rightarrow> ptr M" where
  "lexback_from 0 lb = returnM lb"
| "lexback_from (Suc n) lb = withM (\<lambda>s. bindM (st_lddp (ulong (lb + rsbsize s))) (lexback_from n))"

definition lexback_LB :: "int \<Rightarrow> ptr M" where
  "lexback_LB n = withM (\<lambda>s. lexback_from (nat n) (LB s))"

definition DoLOC :: "long \<Rightarrow> unit M" where
  "DoLOC l = seqM [spoilFRA, bindM (arg_c l) wpush]"

definition DoLDC :: "long \<Rightarrow> unit M" where
  "DoLDC l = seqM [spoilFRA, bindM (arg_d l) (\<lambda>l. withM (\<lambda>s. npush l (dwsize s)))]"

definition DoLOL :: "long \<Rightarrow> unit M" where
  "DoLOL l = seqM [spoilFRA, bindM (arg_l l) (\<lambda>l. withM (\<lambda>s. pushw_st (loc_addr s l)))]"

definition DoLOE :: "long \<Rightarrow> unit M" where
  "DoLOE arg = seqM [spoilFRA, bindM (arg_g (i2p arg)) pushw_m]"

text \<open>The macros \<open>pushw_m\<close> and \<open>popw_m\<close> evaluate their argument again for each comparison of
  \<open>in_stack\<close> and once more for the call, so an argument that warns can warn three times.\<close>

definition in_stack_of :: "ptr M \<Rightarrow> bool M" where
  "in_stack_of e = bindM e (\<lambda>p. withM (\<lambda>s.
     if SP s \<le> p then bindM e (\<lambda>q. returnM (q \<le> MLim s)) else returnM False))"

definition DoLIL :: "long \<Rightarrow> unit M" where
  "DoLIL l = seqM [spoilFRA, bindM (arg_l l) (\<lambda>l. withM (\<lambda>s.
     let e = st_lddp (loc_addr s l) in
     bindM (in_stack_of e) (\<lambda>b. if b then bindM e pushw_st else bindM e pushw_dt)))]"

definition DoLOF :: "long \<Rightarrow> unit M" where
  "DoLOF l = bindM dppop (\<lambda>p. seqM [spoilFRA, bindM (arg_f l) (\<lambda>f. pushw_m (ulong (p + f)))])"

definition DoLAL :: "long \<Rightarrow> unit M" where
  "DoLAL l = seqM [spoilFRA, bindM (arg_l l) (\<lambda>l. withM (\<lambda>s. dppush (loc_addr s l)))]"

definition DoLAE :: "int \<Rightarrow> unit M" where
  "DoLAE arg = seqM [spoilFRA, bindM (arg_lae (i2p arg)) dppush]"

definition DoLXL :: "int \<Rightarrow> unit M" where
  "DoLXL l = seqM [spoilFRA, bindM (arg_n l) (\<lambda>l. bindM (lexback_LB l) dppush)]"

definition DoLXA :: "int \<Rightarrow> unit M" where
  "DoLXA l = seqM [spoilFRA, bindM (arg_n l) (\<lambda>l. bindM (lexback_LB l) (\<lambda>p. withM (\<lambda>s.
     dppush (ulong (p + rsbsize s)))))]"

definition DoLOI :: "size \<Rightarrow> unit M" where
  "DoLOI l = bindM dppop (\<lambda>p. seqM [spoilFRA, bindM (arg_o l) (push_m p)])"

definition DoLOS :: "size \<Rightarrow> unit M" where
  "DoLOS l = seqM [spoilFRA, bindM (arg_wi l) (\<lambda>l. bindM (upop l) (\<lambda>l. bindM dppop (\<lambda>p.
     bindM (arg_o (slong l)) (push_m p))))]"

definition DoLDL :: "long \<Rightarrow> unit M" where
  "DoLDL l = seqM [spoilFRA, bindM (arg_l l) (\<lambda>l. withM (\<lambda>s. push_st (loc_addr s l) (dwsize s)))]"

definition DoLDE :: "long \<Rightarrow> unit M" where
  "DoLDE arg = seqM [spoilFRA, bindM (arg_g (i2p arg)) (\<lambda>p. withM (\<lambda>s. push_m p (dwsize s)))]"

definition DoLDF :: "long \<Rightarrow> unit M" where
  "DoLDF l = bindM dppop (\<lambda>p. seqM [spoilFRA, bindM (arg_f l) (\<lambda>f.
     withM (\<lambda>s. push_m (ulong (p + f)) (dwsize s)))])"

definition DoLPI :: "long \<Rightarrow> unit M" where
  "DoLPI pi = seqM [spoilFRA, bindM (arg_p pi) (\<lambda>pi. withM (\<lambda>s. npush pi (psize s)))]"

section \<open>Stores (\<open>do_store.c\<close>)\<close>

definition DoSTL :: "long \<Rightarrow> unit M" where
  "DoSTL l = seqM [spoilFRA, bindM (arg_l l) (\<lambda>l. withM (\<lambda>s. popw_st (loc_addr s l)))]"

definition DoSTE :: "int \<Rightarrow> unit M" where
  "DoSTE arg = seqM [spoilFRA, bindM (arg_g (i2p arg)) popw_m]"

definition DoSIL :: "long \<Rightarrow> unit M" where
  "DoSIL l = seqM [spoilFRA, bindM (arg_l l) (\<lambda>l. withM (\<lambda>s.
     let e = st_lddp (loc_addr s l) in
     bindM (in_stack_of e) (\<lambda>b. if b then bindM e popw_st else bindM e popw_dt)))]"

definition DoSTF :: "long \<Rightarrow> unit M" where
  "DoSTF l = bindM dppop (\<lambda>p. seqM [spoilFRA, bindM (arg_f l) (\<lambda>f. popw_m (ulong (p + f)))])"

definition DoSTI :: "size \<Rightarrow> unit M" where
  "DoSTI l = bindM dppop (\<lambda>p. seqM [spoilFRA, bindM (arg_o l) (pop_m p)])"

definition DoSTS :: "size \<Rightarrow> unit M" where
  "DoSTS l = seqM [spoilFRA, bindM (arg_wi l) (\<lambda>l. bindM (upop l) (\<lambda>l. bindM dppop (\<lambda>p.
     bindM (arg_o (slong l)) (pop_m p))))]"

definition DoSDL :: "long \<Rightarrow> unit M" where
  "DoSDL l = seqM [spoilFRA, bindM (arg_l l) (\<lambda>l. withM (\<lambda>s. pop_st (loc_addr s l) (dwsize s)))]"

definition DoSDE :: "int \<Rightarrow> unit M" where
  "DoSDE arg = seqM [spoilFRA, bindM (arg_g (i2p arg)) (\<lambda>p. withM (\<lambda>s. pop_m p (dwsize s)))]"

definition DoSDF :: "long \<Rightarrow> unit M" where
  "DoSDF l = bindM dppop (\<lambda>p. seqM [spoilFRA, bindM (arg_f l) (\<lambda>f.
     withM (\<lambda>s. pop_m (ulong (p + f)) (dwsize s)))])"

section \<open>The invariant\<close>

lemma pop_size_caps:
  assumes "minv c s"
  shows "pop_size c (dwsize s)" "pop_size c (psize s)" "pop_size c (wsize s)"
proof -
  have w: "wsize c = 2 \<or> wsize c = 4" by (rule minv_caps(1) [OF assms])
  have "0 \<le> 2 * wsize c" "2 * wsize c < 2 ^ 63" using w by auto
  then have "wmult c (2 * wsize c)" by (simp only: wmult_def dvd_triv_right)
  then have "wmult c (dwsize s)" by (simp only: minv_fields(3) [OF assms] minv_caps(4) [OF assms])
  then show "pop_size c (dwsize s)" by (simp add: pop_size_def)
  show "pop_size c (psize s)" "pop_size c (wsize s)"
    using wmult_sizes(2) [OF assms] by (simp_all add: pop_size_def minv_fields(1,2) [OF assms])
qed

lemma keeps_lexback_from: "wst_free I \<Longrightarrow> keeps I (lexback_from n lb) anyR"
proof (induction n arbitrary: lb)
  case (Suc n)
  show ?case
    unfolding lexback_from.simps
    by (intro keeps_with keeps_bind [OF keeps_st_loads(1)] Suc)
qed (simp add: keeps_return)

lemma keeps_lexback [keeps_rules]: "wst_free I \<Longrightarrow> keeps I (lexback_LB n) anyR"
  unfolding lexback_LB_def by (intro keeps_with keeps_lexback_from)

lemma keeps_in_stack_of [keeps_rules]: "keeps I e anyR \<Longrightarrow> keeps I (in_stack_of e) anyR"
  unfolding in_stack_of_def by (rule keeps_bind keeps_with keeps_if keeps_return TrueI | assumption)+

lemma keeps_st_lddp_any: "wst_free I \<Longrightarrow> keeps I (st_lddp a) anyR"
  by (rule keeps_weaken [OF keeps_st_loads(1)]) simp_all

lemma keeps_loads [keeps_rules]:
  "keeps (minv c) (DoLOC l) anyR" "keeps (minv c) (DoLDC l) anyR" "keeps (minv c) (DoLOL l) anyR"
  "keeps (minv c) (DoLOE l) anyR" "keeps (minv c) (DoLOF l) anyR" "keeps (minv c) (DoLAL l) anyR"
  "keeps (minv c) (DoLAE l) anyR" "keeps (minv c) (DoLXL l) anyR" "keeps (minv c) (DoLXA l) anyR"
  "keeps (minv c) (DoLOI l) anyR" "keeps (minv c) (DoLOS l) anyR" "keeps (minv c) (DoLDL l) anyR"
  "keeps (minv c) (DoLDE l) anyR" "keeps (minv c) (DoLDF l) anyR" "keeps (minv c) (DoLPI l) anyR"
  unfolding DoLOC_def DoLDC_def DoLOL_def DoLOE_def DoLOF_def DoLAL_def DoLAE_def DoLXL_def DoLXA_def
    DoLOI_def DoLOS_def DoLDL_def DoLDE_def DoLDF_def DoLPI_def
  by (rule keeps_rules | simp add: pop_size_caps)+

lemma keeps_LIL [keeps_rules]: "keeps (minv c) (DoLIL l) anyR"
  unfolding DoLIL_def Let_def
  by (rule keeps_in_stack_of keeps_st_lddp_any keeps_bind [OF keeps_st_lddp_any] keeps_rules | simp)+

lemma keeps_stores [keeps_rules]:
  "keeps (minv c) (DoSTL l) anyR" "keeps (minv c) (DoSTE l) anyR" "keeps (minv c) (DoSTF l) anyR"
  "keeps (minv c) (DoSTI l) anyR" "keeps (minv c) (DoSTS l) anyR" "keeps (minv c) (DoSDL l) anyR"
  "keeps (minv c) (DoSDE l) anyR" "keeps (minv c) (DoSDF l) anyR"
  unfolding DoSTL_def DoSTE_def DoSTF_def DoSTI_def DoSTS_def DoSDL_def DoSDE_def DoSDF_def
  by (rule keeps_rules | simp add: pop_size_caps)+

lemma keeps_SIL [keeps_rules]: "keeps (minv c) (DoSIL l) anyR"
  unfolding DoSIL_def Let_def
  by (rule keeps_in_stack_of keeps_st_lddp_any keeps_bind [OF keeps_st_lddp_any] keeps_rules | simp)+

section \<open>Constants\<close>

lemma runs_LOC:
  assumes s: "minv c s" and l: "i_minsw c \<le> l" "l \<le> i_maxsw c"
    and f: "fits s (nat (wsize c) + length (opstack s))"
  shows "runs c (DoLOC l) s () (le_bytes (nat (wsize c)) l @ opstack s)"
  unfolding DoLOC_def seqM.simps thenM_returnM
proof (rule runs_then [OF runs_spoilFRA [OF s]])
  fix t assume t: "minv c t" "stk_frame s t" "opstack t = opstack s"
  have "bindM (arg_c l) wpush t = wpush l t"
    using l minv_fields(5,6) [OF t(1)] by (simp add: arg_c_def)
  moreover have "runs c (wpush l) t () (le_bytes (nat (wsize c)) l @ opstack s)"
    using runs_wpush [OF t(1), of l] f t(3) stk_frame_fields(2) [OF t(2)] by simp
  ultimately show "runs c (bindM (arg_c l) wpush) t () (le_bytes (nat (wsize c)) l @ opstack s)"
    by (simp only: runs_def)
qed

end
