(* ===== verification/Inc_Dec.thy ===== *)
theory Inc_Dec
  imports Load_Store
begin

text \<open>
  Increment, decrement and zero: \<open>util/int/do_incdec.c\<close>, without the floating zero.
\<close>

section \<open>Operations\<close>

definition inc :: "long \<Rightarrow> long M" where
  "inc l = withM (\<lambda>s. thenM (whenM (must_test s \<and> \<not> ignored EIOVFL s)
     (whenM (l = i_maxsw s) (trap EIOVFL))) (returnM (slong (l + 1))))"

definition dec :: "long \<Rightarrow> long M" where
  "dec l = withM (\<lambda>s. thenM (whenM (must_test s \<and> \<not> ignored EIOVFL s)
     (whenM (l = i_minsw s) (trap EIOVFL))) (returnM (slong (l - 1))))"

definition DoINC :: "unit M" where
  "DoINC = seqM [spoilFRA, bindM swpop (\<lambda>l. bindM (inc l) wpush)]"

definition DoINL :: "long \<Rightarrow> unit M" where
  "DoINL l = seqM [spoilFRA, bindM (arg_l l) (\<lambda>l. withM (\<lambda>s. let p = loc_addr s l in
     bindM (st_ldsw p) (\<lambda>v. bindM (inc v) (st_stw p))))]"

definition DoINE :: "long \<Rightarrow> unit M" where
  "DoINE arg = seqM [spoilFRA, bindM (arg_g (i2p arg)) (\<lambda>p.
     bindM (dt_ldsw p) (\<lambda>v. bindM (inc v) (dt_stw p)))]"

definition DoDEC :: "unit M" where
  "DoDEC = seqM [spoilFRA, bindM swpop (\<lambda>l. bindM (dec l) wpush)]"

definition DoDEL :: "long \<Rightarrow> unit M" where
  "DoDEL l = seqM [spoilFRA, bindM (arg_l l) (\<lambda>l. withM (\<lambda>s. let p = loc_addr s l in
     bindM (st_ldsw p) (\<lambda>v. bindM (dec v) (st_stw p))))]"

definition DoDEE :: "long \<Rightarrow> unit M" where
  "DoDEE arg = seqM [spoilFRA, bindM (arg_g (i2p arg)) (\<lambda>p.
     bindM (dt_ldsw p) (\<lambda>v. bindM (dec v) (dt_stw p)))]"

definition DoZRL :: "long \<Rightarrow> unit M" where
  "DoZRL l = seqM [spoilFRA, bindM (arg_l l) (\<lambda>l. withM (\<lambda>s. st_stw (loc_addr s l) 0))]"

definition DoZRE :: "long \<Rightarrow> unit M" where
  "DoZRE arg = seqM [spoilFRA, bindM (arg_g (i2p arg)) (\<lambda>p. dt_stw p 0)]"

definition DoZER :: "size \<Rightarrow> unit M" where
  "DoZER l = seqM [spoilFRA, bindM (arg_w l) (npush 0)]"

section \<open>The invariant\<close>

lemma keeps_inc_dec [keeps_rules]: "keeps I (inc l) anyR" "keeps I (dec l) anyR"
  unfolding inc_def dec_def by (rule keeps_rules TrueI)+

lemma wmult_pop_size: "wmult c n \<Longrightarrow> pop_size c n"
  by (simp add: pop_size_def)

lemma keeps_incdec_ops [keeps_rules]:
  "keeps (minv c) DoINC anyR" "keeps (minv c) (DoINL l) anyR" "keeps (minv c) (DoINE l) anyR"
  "keeps (minv c) DoDEC anyR" "keeps (minv c) (DoDEL l) anyR" "keeps (minv c) (DoDEE l) anyR"
  "keeps (minv c) (DoZRL l) anyR" "keeps (minv c) (DoZRE l) anyR" "keeps (minv c) (DoZER n) anyR"
  unfolding DoINC_def DoINL_def DoINE_def DoDEC_def DoDEL_def DoDEE_def DoZRL_def DoZRE_def DoZER_def Let_def
  by (rule keeps_rules | simp add: wmult_pop_size)+

end
