(* ===== verification/Segment.thy ===== *)
theory Segment
  imports Sample
begin

text \<open>
  The list of stack frames kept for the segment checks: \<open>util/int/segment.c\<close>.
  \<open>AB_list\<close> maps a frame number to the actual base of that frame; the number of bytes the C
  array has is the one the last \<open>Malloc\<close> or \<open>Realloc\<close> granted.
\<close>

section \<open>Operations\<close>

definition ABLISTSIZE :: size where "ABLISTSIZE = 100"
definition DATA_SEGMENT :: int where "DATA_SEGMENT = - 2"
definition HEAP_SEGMENT :: int where "HEAP_SEGMENT = - 1"

text \<open>\<open>sizeof (ptr)\<close> is 8.\<close>

definition AB_ok :: "mach \<Rightarrow> int \<Rightarrow> bool" where
  "AB_ok s i \<longleftrightarrow> 0 \<le> i \<and> 8 * i + 8 \<le> c_uint (frame_limit s * 8)"

definition rd_AB :: "int \<Rightarrow> ptr M" where
  "rd_AB i = (\<lambda>s. if AB_ok s i then Ok (AB_list s i) s else Undef)"

definition wr_AB :: "int \<Rightarrow> ptr \<Rightarrow> unit M" where
  "wr_AB i p = (\<lambda>s. if AB_ok s i then Ok () (s\<lparr>AB_list := (AB_list s)(i := p)\<rparr>) else Undef)"

definition init_AB_list :: "unit M" where
  "init_AB_list = seqM [
     modifyM (\<lambda>s. s\<lparr>frame_limit := ABLISTSIZE\<rparr>),
     modifyM (\<lambda>s. s\<lparr>curr_frame := 0\<rparr>),
     withM (\<lambda>s. bindM (Malloc (frame_limit s * 8) ''AB_list'') (\<lambda>n. returnM ())),
     withM (\<lambda>s. wr_AB (curr_frame s) (AB s))]"

definition push_frame :: "ptr \<Rightarrow> unit M" where
  "push_frame p = seqM [
     modifyM (\<lambda>s. s\<lparr>curr_frame := curr_frame s + 1\<rparr>),
     withM (\<lambda>s. whenM (curr_frame s = frame_limit s) (seqM [
       modifyM (\<lambda>s. s\<lparr>frame_limit := allocfrac (frame_limit s)\<rparr>),
       withM (\<lambda>s. bindM (Realloc (frame_limit s * 8) ''AB_list'') (\<lambda>n. returnM ()))])),
     withM (\<lambda>s. wr_AB (curr_frame s) p)]"

text \<open>\<open>while (AB_list[curr_frame] < AB) curr_frame--;\<close>  Below frame 0 the loop leaves the array.\<close>

primrec pop_loop :: "nat \<Rightarrow> unit M" where
  "pop_loop 0 = undefM"
| "pop_loop (Suc k) = withM (\<lambda>s. bindM (rd_AB (curr_frame s)) (\<lambda>a.
     if a < AB s then thenM (modifyM (\<lambda>s. s\<lparr>curr_frame := curr_frame s - 1\<rparr>)) (pop_loop k)
     else returnM ()))"

definition pop_frames :: "unit M" where
  "pop_frames = withM (\<lambda>s. pop_loop (nat (curr_frame s + 1)))"

text \<open>\<open>for (s = curr_frame; s > 0; s--) if (AB_list[s] > p) break;\<close>\<close>

primrec seg_loop :: "nat \<Rightarrow> ptr \<Rightarrow> int M" where
  "seg_loop 0 p = returnM 0"
| "seg_loop (Suc k) p = bindM (rd_AB (int (Suc k))) (\<lambda>a.
     if a > p then returnM (int (Suc k)) else seg_loop k p)"

definition ptr2seg :: "ptr \<Rightarrow> int M" where
  "ptr2seg p = withM (\<lambda>s.
     if in_gda s p then returnM DATA_SEGMENT
     else if \<not> in_stack s p then returnM HEAP_SEGMENT
     else let f = c_int (curr_frame s) in if f > 0 then seg_loop (nat f) p else returnM f)"

section \<open>The invariant\<close>

lemma keeps_AB [keeps_rules]: "keeps I (rd_AB i) anyR" "keeps (minv c) (wr_AB i p) anyR"
  by (simp_all add: keeps_def rd_AB_def wr_AB_def)

lemma keeps_push_frame [keeps_rules]: "keeps (minv c) (push_frame p) anyR"
  unfolding push_frame_def by (rule keeps_rules | simp)+

lemma keeps_pop_loop: "keeps (minv c) (pop_loop k) anyR"
proof (induction k)
  case (Suc k)
  show ?case unfolding pop_loop.simps by (rule keeps_rules Suc | simp)+
qed (simp only: pop_loop.simps keeps_undef)

lemma keeps_pop_frames [keeps_rules]: "keeps (minv c) pop_frames anyR"
  unfolding pop_frames_def by (intro keeps_with keeps_pop_loop)

lemma keeps_seg_loop: "keeps I (seg_loop k p) anyR"
proof (induction k)
  case (Suc k)
  show ?case
    unfolding seg_loop.simps by (intro keeps_bind [OF keeps_AB(1)] keeps_if keeps_return Suc TrueI)
qed (simp only: seg_loop.simps keeps_return)

lemma keeps_ptr2seg [keeps_rules]: "keeps I (ptr2seg p) anyR"
  unfolding ptr2seg_def Let_def by (intro keeps_with keeps_if keeps_return keeps_seg_loop TrueI)

section \<open>Frames\<close>

text \<open>The list has an entry for every live frame, the actual bases decrease with the frame number,
  and the last one is not beyond the actual base register.\<close>

definition frames_ok :: "mach \<Rightarrow> bool" where
  "frames_ok s \<longleftrightarrow> 0 \<le> curr_frame s \<and> curr_frame s < frame_limit s \<and> frame_limit s < 2 ^ 28
     \<and> (\<forall>i j. 0 \<le> i \<longrightarrow> i < j \<longrightarrow> j \<le> curr_frame s \<longrightarrow> AB_list s j \<le> AB_list s i)"

lemma frames_AB_ok: "frames_ok s \<Longrightarrow> 0 \<le> i \<Longrightarrow> i \<le> curr_frame s \<Longrightarrow> AB_ok s i"
  by (auto simp: frames_ok_def AB_ok_def c_uint_id)

lemma seg_loop_ok:
  assumes "\<And>i. 0 \<le> i \<Longrightarrow> i \<le> int k \<Longrightarrow> AB_ok s i"
  shows "\<exists>f. seg_loop k p s = Ok f s \<and> 0 \<le> f \<and> f \<le> int k \<and> (f = 0 \<or> p < AB_list s f)
    \<and> (\<forall>i. f < i \<longrightarrow> i \<le> int k \<longrightarrow> AB_list s i \<le> p)"
  using assms
proof (induction k)
  case (Suc k)
  show ?case
  proof (cases "p < AB_list s (int (Suc k))")
    case True
    then show ?thesis using Suc.prems [of "int (Suc k)"] by (simp add: rd_AB_def)
  next
    case False
    from Suc obtain f where f: "seg_loop k p s = Ok f s" "0 \<le> f" "f \<le> int k" "f = 0 \<or> p < AB_list s f"
      "\<forall>i. f < i \<longrightarrow> i \<le> int k \<longrightarrow> AB_list s i \<le> p" by auto
    have "AB_list s i \<le> p" if "f < i" "i \<le> int (Suc k)" for i
      using f(5) that False by (cases "i = int (Suc k)") auto
    then show ?thesis
      using False f Suc.prems [of "int (Suc k)"] by (intro exI [of _ f]) (simp add: rd_AB_def)
  qed
qed simp

lemma pop_loop_ok:
  assumes "\<And>i. 0 \<le> i \<Longrightarrow> i \<le> curr_frame s \<Longrightarrow> AB_ok s i" and "0 \<le> f" and "f \<le> curr_frame s"
    and "AB s \<le> AB_list s f" and "\<And>i. f < i \<Longrightarrow> i \<le> curr_frame s \<Longrightarrow> AB_list s i < AB s"
    and "int k = curr_frame s - f"
  shows "pop_loop (Suc (m + k)) s = Ok () (s\<lparr>curr_frame := f\<rparr>)"
  using assms
proof (induction k arbitrary: s)
  case 0
  then show ?case by (simp add: rd_AB_def)
next
  case (Suc k)
  let ?t = "s\<lparr>curr_frame := curr_frame s - 1\<rparr>"
  have t: "pop_loop (Suc (m + k)) ?t = Ok () (?t\<lparr>curr_frame := f\<rparr>)"
  proof (rule Suc.IH)
    show "AB_ok ?t i" if "0 \<le> i" "i \<le> curr_frame ?t" for i
      using Suc.prems(1) [of i] that by (simp add: AB_ok_def)
  qed (use Suc.prems in simp_all)
  have "AB_list s (curr_frame s) < AB s" using Suc.prems(5) [of "curr_frame s"] Suc.prems(6) by simp
  moreover have "AB_ok s (curr_frame s)" using Suc.prems(1-3) by simp
  ultimately show ?case using t by (simp add: rd_AB_def)
qed

text \<open>
  (C28) With a well-formed frame list, \<open>ptr2seg\<close> returns on every pointer, never leaving the
  array, and classifies it: the data segment below the heap base, the heap segment outside the stack,
  and otherwise the innermost frame whose actual base lies above the pointer, frame 0 if there is
  none.  The machine is not changed.
\<close>

theorem ptr2seg_spec:
  assumes "frames_ok s"
  shows "\<exists>f. ptr2seg p s = Ok f s \<and>
    (if p < HB s then f = DATA_SEGMENT
     else if \<not> (SP s \<le> p \<and> p \<le> MLim s) then f = HEAP_SEGMENT
     else 0 \<le> f \<and> f \<le> curr_frame s \<and> (f = 0 \<or> p < AB_list s f)
       \<and> (\<forall>i. f < i \<longrightarrow> i \<le> curr_frame s \<longrightarrow> AB_list s i \<le> p))"
proof -
  have c: "0 \<le> curr_frame s" "c_int (curr_frame s) = curr_frame s" "int (nat (curr_frame s)) = curr_frame s"
    using assms by (simp_all add: frames_ok_def c_int_id)
  have "\<exists>f. seg_loop (nat (curr_frame s)) p s = Ok f s \<and> 0 \<le> f \<and> f \<le> curr_frame s
      \<and> (f = 0 \<or> p < AB_list s f) \<and> (\<forall>i. f < i \<longrightarrow> i \<le> curr_frame s \<longrightarrow> AB_list s i \<le> p)"
    using seg_loop_ok [of "nat (curr_frame s)" s p] frames_AB_ok [OF assms] c by simp
  then show ?thesis
    using c by (auto simp: ptr2seg_def in_gda_def in_stack_def Let_def)
qed

lemma frames_ok_sample: "frames_ok (sample bs)"
  by (simp add: frames_ok_def sample_defs)

theorem ptr2seg_witness:
  "frames_ok (sample [1, 2, 3, 4]) \<and> (\<exists>f. ptr2seg 65532 (sample [1, 2, 3, 4]) = Ok f (sample [1, 2, 3, 4])
     \<and> f \<noteq> DATA_SEGMENT)"
proof -
  from ptr2seg_spec [of "sample [1, 2, 3, 4]" 65532, OF frames_ok_sample]
  obtain f where "ptr2seg 65532 (sample [1, 2, 3, 4]) = Ok f (sample [1, 2, 3, 4])" "0 \<le> f" by auto
  then show ?thesis using frames_ok_sample by (auto simp: DATA_SEGMENT_def)
qed

text \<open>
  (C29) Dropping frames: when some live frame has an actual base at or above the register \<open>AB\<close>,
  \<open>pop_frames\<close> ends, never leaving the array, and the current frame becomes the innermost
  frame with that property; nothing else changes.
\<close>

theorem pop_frames_spec:
  assumes "frames_ok s" and "0 \<le> f" and "f \<le> curr_frame s" and "AB s \<le> AB_list s f"
    and "\<And>i. f < i \<Longrightarrow> i \<le> curr_frame s \<Longrightarrow> AB_list s i < AB s"
  shows "pop_frames s = Ok () (s\<lparr>curr_frame := f\<rparr>)"
proof -
  have "nat (curr_frame s + 1) = Suc (nat f + nat (curr_frame s - f))"
    using assms(2,3) by (simp add: nat_add_distrib [symmetric] nat_eq_iff)
  then show ?thesis
    using pop_loop_ok [of s f "nat (curr_frame s - f)" "nat f"] frames_AB_ok [OF assms(1)] assms(2-5)
    by (simp add: pop_frames_def)
qed

theorem pop_frames_witness:
  "pop_frames (sample [1, 2]\<lparr>curr_frame := 1, AB_list := (\<lambda>i. if i = 1 then 65532 else 65534)\<rparr>)
     = Ok () (sample [1, 2]\<lparr>curr_frame := 0, AB_list := (\<lambda>i. if i = 1 then 65532 else 65534)\<rparr>)"
  (is "pop_frames ?s = _")
proof -
  have "pop_frames ?s = Ok () (?s\<lparr>curr_frame := 0\<rparr>)"
    by (rule pop_frames_spec) (auto simp: frames_ok_def sample_defs)
  then show ?thesis by simp
qed

end
