(* ===== verification/Ptr_Arith.thy ===== *)
theory Ptr_Arith
  imports Segment
begin

text \<open>
  Pointer arithmetic with its segment checks: \<open>util/int/do_ptrar.c\<close>.
\<close>

section \<open>Operations\<close>

definition adp :: "ptr \<Rightarrow> long \<Rightarrow> ptr" where
  "adp p w = ulong (p + w)"

definition sbs :: "ptr \<Rightarrow> ptr \<Rightarrow> ptr" where
  "sbs t s = ulong (s - t)"

definition check_seg :: "int M \<Rightarrow> int M \<Rightarrow> int \<Rightarrow> unit M" where
  "check_seg s1 s2 w = bindM s1 (\<lambda>x. bindM s2 (\<lambda>y. whenM (x \<noteq> y) (warn w)))"

definition DoADP :: "long \<Rightarrow> unit M" where
  "DoADP l = withM (\<lambda>s. bindM (st_lddp (SP s)) (\<lambda>t. seqM [
     spoilFRA,
     whenM (t = 0) (warn WNULLPA),
     bindM (arg_f l) (\<lambda>l. let p = adp t l in seqM [
       check_seg (ptr2seg t) (ptr2seg p) WSEGADP,
       withM (\<lambda>s. st_stdp (SP s) p)])]))"

definition DoADS :: "size \<Rightarrow> unit M" where
  "DoADS l = bindM (arg_wi l) (\<lambda>l. bindM (spop l) (\<lambda>t. withM (\<lambda>s. bindM (st_lddp (SP s)) (\<lambda>a. seqM [
     spoilFRA,
     bindM (arg_f t) (\<lambda>t. seqM [
       whenM (a = 0) (warn WNULLPA),
       (let p = adp a t in seqM [
         check_seg (ptr2seg a) (ptr2seg p) WSEGADP,
         withM (\<lambda>s. st_stdp (SP s) p)])])]))))"

definition DoSBS :: "size \<Rightarrow> unit M" where
  "DoSBS l = withM (\<lambda>s. bindM (st_lddp (SP s)) (\<lambda>t. bindM (st_lddp (ulong (SP s + psize s))) (\<lambda>s'. seqM [
     spoilFRA,
     bindM (arg_wi l) (\<lambda>l. seqM [
       check_seg (ptr2seg t) (ptr2seg s') WSEGSBS,
       (let w = slong (sbs t s') in seqM [
         withM (\<lambda>s. whenM (must_test s \<and> \<not> ignored EIOVFL s)
           (whenM (l = 2 \<and> (w < - 32768 \<or> w > 32767)) (trap EIOVFL))),
         bindM dppop (\<lambda>_. returnM ()),
         bindM dppop (\<lambda>_. returnM ()),
         npush w l])])])))"

section \<open>The invariant\<close>

lemma keeps_check_seg [keeps_rules]:
  "wst_free I \<Longrightarrow> keeps I (check_seg (ptr2seg p) (ptr2seg q) w) anyR"
  unfolding check_seg_def by (intro keeps_bind [OF keeps_ptr2seg] keeps_when keeps_warn)

lemma keeps_drop [keeps_rules]: "keeps (minv c) (bindM dppop (\<lambda>_. returnM ())) anyR"
  by (rule keeps_bind [OF keeps_pops(1)]) (rule keeps_return, simp)

lemma keeps_ptr_arith [keeps_rules]:
  "keeps (minv c) (DoADP l) anyR" "keeps (minv c) (DoADS n) anyR" "keeps (minv c) (DoSBS n) anyR"
  unfolding DoADP_def DoADS_def DoSBS_def Let_def
  by (rule keeps_drop keeps_rules | simp)+

end
