(* ===== verification/Branch.thy ===== *)
theory Branch
  imports Sample
begin

text \<open>
  Branches: \<open>util/int/do_branch.c\<close>.  In the load file a branch carries a distance relative to
  the program counter after the instruction.
\<close>

section \<open>Operations\<close>

definition do_jump :: "long \<Rightarrow> unit M" where
  "do_jump j = withM (\<lambda>s. newPC (ulong (PC s + j)))"

definition DoBRA :: "long \<Rightarrow> unit M" where
  "DoBRA jump = bindM (arg_c jump) do_jump"

definition DoBLT :: "long \<Rightarrow> unit M" where
  "DoBLT jump = bindM wpop (\<lambda>t. seqM [spoilFRA,
     bindM wpop (\<lambda>w. whenM (w < t) (bindM (arg_c jump) do_jump))])"

definition DoBLE :: "long \<Rightarrow> unit M" where
  "DoBLE jump = bindM wpop (\<lambda>t. seqM [spoilFRA,
     bindM wpop (\<lambda>w. whenM (w \<le> t) (bindM (arg_c jump) do_jump))])"

definition DoBEQ :: "long \<Rightarrow> unit M" where
  "DoBEQ jump = bindM wpop (\<lambda>t. seqM [spoilFRA,
     bindM wpop (\<lambda>w. whenM (t = w) (bindM (arg_c jump) do_jump))])"

definition DoBNE :: "long \<Rightarrow> unit M" where
  "DoBNE jump = bindM wpop (\<lambda>t. seqM [spoilFRA,
     bindM wpop (\<lambda>w. whenM (t \<noteq> w) (bindM (arg_c jump) do_jump))])"

definition DoBGE :: "long \<Rightarrow> unit M" where
  "DoBGE jump = bindM wpop (\<lambda>t. seqM [spoilFRA,
     bindM wpop (\<lambda>w. whenM (w \<ge> t) (bindM (arg_c jump) do_jump))])"

definition DoBGT :: "long \<Rightarrow> unit M" where
  "DoBGT jump = bindM wpop (\<lambda>t. seqM [spoilFRA,
     bindM wpop (\<lambda>w. whenM (w > t) (bindM (arg_c jump) do_jump))])"

definition DoZLT :: "long \<Rightarrow> unit M" where
  "DoZLT jump = seqM [spoilFRA, bindM wpop (\<lambda>w. whenM (w < 0) (bindM (arg_c jump) do_jump))]"

definition DoZLE :: "long \<Rightarrow> unit M" where
  "DoZLE jump = seqM [spoilFRA, bindM wpop (\<lambda>w. whenM (w \<le> 0) (bindM (arg_c jump) do_jump))]"

definition DoZEQ :: "long \<Rightarrow> unit M" where
  "DoZEQ jump = seqM [spoilFRA, bindM wpop (\<lambda>w. whenM (w = 0) (bindM (arg_c jump) do_jump))]"

definition DoZNE :: "long \<Rightarrow> unit M" where
  "DoZNE jump = seqM [spoilFRA, bindM wpop (\<lambda>w. whenM (w \<noteq> 0) (bindM (arg_c jump) do_jump))]"

definition DoZGE :: "long \<Rightarrow> unit M" where
  "DoZGE jump = seqM [spoilFRA, bindM wpop (\<lambda>w. whenM (w \<ge> 0) (bindM (arg_c jump) do_jump))]"

definition DoZGT :: "long \<Rightarrow> unit M" where
  "DoZGT jump = seqM [spoilFRA, bindM wpop (\<lambda>w. whenM (w > 0) (bindM (arg_c jump) do_jump))]"

section \<open>The invariant\<close>

lemma keeps_do_jump [keeps_rules]: "keeps (minv c) (do_jump j) anyR"
  unfolding do_jump_def by (rule keeps_rules)+

lemma keeps_branches [keeps_rules]:
  "keeps (minv c) (DoBRA j) anyR" "keeps (minv c) (DoBLT j) anyR" "keeps (minv c) (DoBLE j) anyR"
  "keeps (minv c) (DoBEQ j) anyR" "keeps (minv c) (DoBNE j) anyR" "keeps (minv c) (DoBGE j) anyR"
  "keeps (minv c) (DoBGT j) anyR" "keeps (minv c) (DoZLT j) anyR" "keeps (minv c) (DoZLE j) anyR"
  "keeps (minv c) (DoZEQ j) anyR" "keeps (minv c) (DoZNE j) anyR" "keeps (minv c) (DoZGE j) anyR"
  "keeps (minv c) (DoZGT j) anyR"
  unfolding DoBRA_def DoBLT_def DoBLE_def DoBEQ_def DoBNE_def DoBGE_def DoBGT_def DoZLT_def DoZLE_def
    DoZEQ_def DoZNE_def DoZGE_def DoZGT_def
  by (rule keeps_rules | simp)+

end
