(* ===== verification/Logic.thy ===== *)
theory Logic
  imports Int_Arith
begin

text \<open>
  Logical operations on groups of bytes and rotations: \<open>util/int/do_logic.c\<close>.
\<close>

section \<open>Operations\<close>

definition SIGNBIT2 :: long where "SIGNBIT2 = BIT 15"
definition SIGNBIT4 :: long where "SIGNBIT4 = BIT 31"

definition check_def :: "ptr \<Rightarrow> size \<Rightarrow> unit M" where
  "check_def p l = bindM (rd_stack_sh p) (\<lambda>f.
     if f = 0 then warn WUNLOG
     else bindM (rd_stack_sh (ulong (p + l))) (\<lambda>g. whenM (g = 0) (warn WUNLOG)))"

text \<open>\<open>for (p = SP; p < (SP + l); p++) { check_def(p, l); stack_loc(p + l) op= stack_loc(p); }\<close>\<close>

primrec logic_loop :: "(byte \<Rightarrow> byte \<Rightarrow> byte) \<Rightarrow> nat \<Rightarrow> ptr \<Rightarrow> size \<Rightarrow> unit M" where
  "logic_loop f 0 p l = returnM ()"
| "logic_loop f (Suc k) p l = thenM (seqM [
     check_def p l,
     bindM (rd_stack (ulong (p + l))) (\<lambda>x. bindM (rd_stack p) (\<lambda>y.
       poke_stack (ulong (p + l)) (f x y)))]) (logic_loop f k (ulong (p + 1)) l)"

definition DoAND :: "size \<Rightarrow> unit M" where
  "DoAND l = seqM [spoilFRA, bindM (arg_w l) (\<lambda>l. seqM [
     withM (\<lambda>s. logic_loop (\<lambda>x y. x AND y) (nat l) (SP s) l), st_dec l])]"

definition DoIOR :: "size \<Rightarrow> unit M" where
  "DoIOR l = seqM [spoilFRA, bindM (arg_w l) (\<lambda>l. seqM [
     withM (\<lambda>s. logic_loop (\<lambda>x y. x OR y) (nat l) (SP s) l), st_dec l])]"

definition DoXOR :: "size \<Rightarrow> unit M" where
  "DoXOR l = seqM [spoilFRA, bindM (arg_w l) (\<lambda>l. seqM [
     withM (\<lambda>s. logic_loop (\<lambda>x y. x XOR y) (nat l) (SP s) l), st_dec l])]"

primrec com_loop :: "nat \<Rightarrow> ptr \<Rightarrow> unit M" where
  "com_loop 0 p = returnM ()"
| "com_loop (Suc k) p = thenM (seqM [
     check_def p 0,
     bindM (rd_stack p) (\<lambda>x. poke_stack p (NOT x))]) (com_loop k (ulong (p + 1)))"

definition DoCOM :: "size \<Rightarrow> unit M" where
  "DoCOM l = seqM [spoilFRA, bindM (arg_w l) (\<lambda>l. withM (\<lambda>s. com_loop (nat l) (SP s)))]"

text \<open>One turn of the loops of \<open>ROL\<close> and \<open>ROR\<close>.\<close>

definition rol1 :: "long \<Rightarrow> long \<Rightarrow> long" where
  "rol1 signbit s = (if s AND signbit \<noteq> 0 then slong (push_bit 1 s) OR BIT 0 else slong (push_bit 1 s))"

definition ror1 :: "long \<Rightarrow> long \<Rightarrow> long" where
  "ror1 signbit s = (if s AND BIT 0 \<noteq> 0 then drop_bit 1 s OR signbit else drop_bit 1 s AND NOT signbit)"

text \<open>\<open>while (t--) s = \<dots>\<close> with \<open>t\<close> not negative.\<close>

primrec rot_loop :: "(long \<Rightarrow> long) \<Rightarrow> nat \<Rightarrow> long \<Rightarrow> long" where
  "rot_loop f 0 s = s"
| "rot_loop f (Suc t) s = rot_loop f t (f s)"

definition rot_dist :: "long \<Rightarrow> size \<Rightarrow> long M" where
  "rot_dist t l = withM (\<lambda>s. if must_test s then shift_dist t l else returnM t)"

definition DoROL :: "size \<Rightarrow> unit M" where
  "DoROL l = bindM uwpop (\<lambda>t. seqM [spoilFRA,
     bindM (arg_wi l) (\<lambda>l'. let signbit = (if l' = 2 then SIGNBIT2 else SIGNBIT4) in
       bindM (upop l) (\<lambda>s. bindM (rot_dist (slong t) l) (\<lambda>t.
         npush (rot_loop (rol1 signbit) (nat t) (slong s)) l)))])"

definition DoROR :: "size \<Rightarrow> unit M" where
  "DoROR l = bindM uwpop (\<lambda>t. seqM [spoilFRA,
     bindM (arg_wi l) (\<lambda>l'. let signbit = (if l' = 2 then SIGNBIT2 else SIGNBIT4) in
       bindM (upop l) (\<lambda>s. bindM (rot_dist (slong t) l) (\<lambda>t.
         npush (rot_loop (ror1 signbit) (nat t) (slong s)) l)))])"

section \<open>The invariant\<close>

lemma keeps_check_def [keeps_rules]: "wst_free I \<Longrightarrow> keeps I (check_def p l) anyR"
  unfolding check_def_def by (rule keeps_rules | assumption)+

lemma keeps_logic_loop [keeps_rules]: "keeps (minv c) (logic_loop f k p l) anyR"
proof (induction k arbitrary: p)
  case (Suc k)
  show ?case unfolding logic_loop.simps by (rule keeps_rules Suc | simp)+
qed (simp only: logic_loop.simps keeps_return)

lemma keeps_com_loop [keeps_rules]: "keeps (minv c) (com_loop k p) anyR"
proof (induction k arbitrary: p)
  case (Suc k)
  show ?case unfolding com_loop.simps by (rule keeps_rules Suc | simp)+
qed (simp only: com_loop.simps keeps_return)

lemma keeps_rot_dist [keeps_rules]: "wst_free I \<Longrightarrow> keeps I (rot_dist t l) anyR"
  unfolding rot_dist_def
  by (intro keeps_with keeps_if keeps_return keeps_weaken [OF keeps_shift_dist] TrueI)

lemma keeps_logic [keeps_rules]:
  "keeps (minv c) (DoAND n) anyR" "keeps (minv c) (DoIOR n) anyR" "keeps (minv c) (DoXOR n) anyR"
  "keeps (minv c) (DoCOM n) anyR" "keeps (minv c) (DoROL n) anyR" "keeps (minv c) (DoROR n) anyR"
  unfolding DoAND_def DoIOR_def DoXOR_def DoCOM_def DoROL_def DoROR_def Let_def
  by (rule keeps_rules | simp)+

section \<open>Rotations\<close>

lemma and_BIT: "x AND BIT n \<noteq> 0 \<longleftrightarrow> bit x n"
  by (simp add: BIT_def push_bit_of_1 and_exp_eq_0_iff_not_bit)

lemma bit_BIT: "bit (BIT m) n \<longleftrightarrow> m = n"
  by (auto simp: BIT_def bit_simps)

lemma bit_slong: "i < 64 \<Longrightarrow> bit (slong x) i = bit x i"
  by (cases "i = 63") (auto simp: slong_def bit_signed_take_bit_iff min_def)

lemma bit_rol1:
  assumes "i < n" and "n < 64"
  shows "bit (rol1 (BIT (n - 1)) x) i = bit x ((i + (n - 1)) mod n)"
proof (cases i)
  case 0
  then have "\<not> bit (slong (push_bit 1 x)) i" by (simp add: bit_slong bit_push_bit_iff del: push_bit_Suc push_bit_of_Suc_0)
  then show ?thesis using 0 assms by (auto simp: rol1_def and_BIT bit_or_iff bit_BIT)
next
  case (Suc j)
  then have "(i + (n - 1)) mod n = j" using assms(1) by (simp add: mod_add_left_eq)
  moreover have "bit (slong (push_bit 1 x)) i = bit x j"
    using assms Suc by (subst bit_slong) (simp_all add: bit_push_bit_iff del: push_bit_Suc push_bit_of_Suc_0)
  ultimately show ?thesis using Suc by (simp add: rol1_def bit_or_iff bit_BIT)
qed

lemma bit_ror1:
  assumes "i < n" and "n < 64"
  shows "bit (ror1 (BIT (n - 1)) x) i = bit x ((i + 1) mod n)"
proof (cases "i = n - 1")
  case True
  then have "(i + 1) mod n = 0" using assms(1) by simp
  then show ?thesis using True assms by (auto simp: ror1_def and_BIT bit_simps bit_BIT)
next
  case False
  then have "(i + 1) mod n = i + 1" using assms(1) by simp
  then show ?thesis using False assms by (auto simp: ror1_def bit_simps bit_BIT)
qed

lemma rot_bits:
  assumes f: "\<And>i x. i < n \<Longrightarrow> bit (f x) i = bit x ((i + d) mod n)" and i: "i < n"
  shows "bit (rot_loop f k x) i = bit x ((i + k * d) mod n)"
  using i
proof (induction k arbitrary: i x)
  case (Suc k)
  have "bit (rot_loop f (Suc k) x) i = bit (f x) ((i + k * d) mod n)" using Suc by simp
  also have "\<dots> = bit x (((i + k * d) mod n + d) mod n)" using Suc.prems by (intro f) simp
  also have "((i + k * d) mod n + d) mod n = (i + Suc k * d) mod n" 
    by (simp add: mod_add_left_eq add.assoc add.commute [of d])
  finally show ?case .
qed simp

lemma rot_index:
  assumes "0 < (n :: nat)"
  shows "(i + k * (n - 1)) mod n = (i + (n - k mod n)) mod n"
proof -
  have "int (i + k * (n - 1)) = int i - int k + int k * int n"
    using assms by (simp add: of_nat_diff right_diff_distrib)
  then have "int ((i + k * (n - 1)) mod n) = (int i - int k + int k * int n) mod int n"
    by (simp only: zmod_int)
  also have "\<dots> = (int i - int k) mod int n" by simp
  also have "\<dots> = (int i - int k mod int n) mod int n" by (simp add: mod_diff_right_eq)
  also have "\<dots> = (int i - int k mod int n + int n) mod int n" by simp
  also have "int i - int k mod int n + int n = int (i + (n - k mod n))"
    using mod_less_divisor [OF assms, of k] by (simp only: of_nat_add of_nat_diff zmod_int less_imp_le)
  also have "int (i + (n - k mod n)) mod int n = int ((i + (n - k mod n)) mod n)" by (rule zmod_int [symmetric])
  finally show ?thesis by simp
qed

lemma rol_word:
  fixes w :: "'a::len word"
  assumes "LENGTH('a) < 64"
  shows "take_bit LENGTH('a) (rot_loop (rol1 (BIT (LENGTH('a) - 1))) k (uint w)) = uint (word_rotl k w)"
proof (rule bit_eqI)
  fix i
  have n: "0 < LENGTH('a)" by simp
  have e: "(i + k * (LENGTH('a) - 1)) mod LENGTH('a) = (i + (LENGTH('a) - k mod LENGTH('a))) mod LENGTH('a)"
    by (rule rot_index [OF n])
  show "bit (take_bit LENGTH('a) (rot_loop (rol1 (BIT (LENGTH('a) - 1))) k (uint w))) i = bit (uint (word_rotl k w)) i"
  proof (cases "i < LENGTH('a)")
    case True
    then have "bit (rot_loop (rol1 (BIT (LENGTH('a) - 1))) k (uint w)) i = bit (uint w) ((i + k * (LENGTH('a) - 1)) mod LENGTH('a))"
      using rot_bits [of "LENGTH('a)" "rol1 (BIT (LENGTH('a) - 1))", OF bit_rol1 [OF _ assms]] by blast
    then show ?thesis using True unfolding e by (simp only: bit_take_bit_iff bit_word_rotl_iff bit_uint_iff) auto
  qed (simp add: bit_simps)
qed

lemma ror_word:
  fixes w :: "'a::len word"
  assumes "LENGTH('a) < 64"
  shows "take_bit LENGTH('a) (rot_loop (ror1 (BIT (LENGTH('a) - 1))) k (uint w)) = uint (word_rotr k w)"
proof (rule bit_eqI)
  fix i
  show "bit (take_bit LENGTH('a) (rot_loop (ror1 (BIT (LENGTH('a) - 1))) k (uint w))) i = bit (uint (word_rotr k w)) i"
  proof (cases "i < LENGTH('a)")
    case True
    then have "bit (rot_loop (ror1 (BIT (LENGTH('a) - 1))) k (uint w)) i = bit (uint w) ((i + k * 1) mod LENGTH('a))"
      using rot_bits [of "LENGTH('a)" "ror1 (BIT (LENGTH('a) - 1))", OF bit_ror1 [OF _ assms]] by blast
    then show ?thesis using True by (simp add: bit_take_bit_iff bit_word_rotr_iff bit_uint_iff mod_add_right_eq)
  qed (simp add: bit_simps)
qed


text \<open>With tests on, a distance beyond the operand is cut down, with a warning.\<close>

definition rot_count :: "mach \<Rightarrow> size \<Rightarrow> int \<Rightarrow> nat" where
  "rot_count s n d = nat (if must_test s then min d (8 * n - 1) else d)"

lemma runs_rot_dist:
  assumes s: "minv c s" and d: "0 \<le> d" and n: "0 < n"
  shows "runs c (rot_dist d n) s (if must_test s then min d (8 * n - 1) else d) (opstack s)"
proof (cases "must_test s \<and> 8 * n \<le> d")
  case True
  obtain w where w: "warn WSHLARGE s = Ok () (s\<lparr>wst := w\<rparr>)" using warn_Ok by blast
  have "rot_dist d n s = Ok (8 * n - 1) (s\<lparr>wst := w\<rparr>)"
    using True d by (simp add: rot_dist_def shift_dist_def w mult.commute)
  moreover have "stk_frame s (s\<lparr>wst := w\<rparr>)"
    by (rule stk_frameI [where p = "SP s" and d = "stack s" and h = "stack_sh s" and l = "SL s"
          and k = "stack_len s" and w = w]) simp
  ultimately show ?thesis
    using True s by (intro runsI [where s' = "s\<lparr>wst := w\<rparr>"]) (simp_all add: opstack_def)
next
  case False
  then have "rot_dist d n s = Ok (if must_test s then min d (8 * n - 1) else d) s"
    using d n by (auto simp: rot_dist_def shift_dist_def)
  then show ?thesis using s by (intro runsI [where s' = s]) (simp_all add: stk_frame_refl)
qed

lemma runs_rotate:
  assumes s: "shift_ops c s n ds xs rest"
  shows "runs c (bindM uwpop (\<lambda>t. seqM [spoilFRA,
     bindM (arg_wi n) (\<lambda>l'. let signbit = (if l' = 2 then SIGNBIT2 else SIGNBIT4) in
       bindM (upop n) (\<lambda>s. bindM (rot_dist (slong t) n) (\<lambda>t.
         npush (rot_loop (g signbit) (nat t) (slong s)) n)))])) s ()
    (le_bytes (nat n) (rot_loop (g (BIT (8 * nat n - 1))) (rot_count s n (uval ds)) (uval xs)) @ rest)"
proof (rule shift_prefix [OF s, where v = "uval ds"])
  have a: "minv c s" "opstack s = ds @ (xs @ rest)" "lb_depth s \<le> length (xs @ rest)"
    "int (length ds) = wsize c" and n: "n = 2 \<or> n = 4" and x: "int (length xs) = n"
    using s by (auto simp: shift_ops_def wi_size_def)
  show "runs c uwpop s (uval ds) (xs @ rest)" by (rule runs_swpop(2) [OF a])
  have b: "slong (uval bs) = uval bs" "0 \<le> uval bs" if "length bs \<le> 4" for bs
  proof -
    have "uval bs < 256 ^ length bs" by (rule uval_range)
    also have "(256 :: int) ^ length bs \<le> 256 ^ 4" using that by (intro power_increasing) simp_all
    finally show "slong (uval bs) = uval bs" "0 \<le> uval bs" using uval_range(1) [of bs] by (simp_all add: slong_id)
  qed
  have l: "length ds \<le> 4" "length xs \<le> 4" using a(4) x n minv_caps(1) [OF a(1)] by auto
  have sb: "(if n = 2 then SIGNBIT2 else SIGNBIT4) = BIT (8 * nat n - 1)"
    using n by (auto simp: SIGNBIT2_def SIGNBIT4_def)
  fix t assume t: "one_op c t n xs rest" "stk_frame s t"
  have o: "minv c t" "wi_size c n" "opstack t = xs @ rest" "lb_depth t \<le> length rest" "fits t (length (opstack t))"
    using t(1) unfolding one_op_def by blast+
  have mt: "must_test u = must_test s" if "stk_frame t u" for u
    using stk_frame_fields(4) [OF that] stk_frame_fields(4) [OF t(2)] by simp
  show "runs c (let signbit = (if n = 2 then SIGNBIT2 else SIGNBIT4) in
       bindM (upop n) (\<lambda>s. bindM (rot_dist (slong (uval ds)) n) (\<lambda>t.
         npush (rot_loop (g signbit) (nat t) (slong s)) n))) t ()
    (le_bytes (nat n) (rot_loop (g (BIT (8 * nat n - 1))) (rot_count s n (uval ds)) (uval xs)) @ rest)"
    unfolding Let_def sb b(1) [OF l(1)]
  proof (rule runs_bind [OF uns.pop_runs [OF o(1,2,3) x o(4)]])
    fix u assume u: "minv c u" "stk_frame t u" "opstack u = rest"
    have d: "runs c (rot_dist (uval ds) n) u (if must_test s then min (uval ds) (8 * n - 1) else uval ds) rest"
      using runs_rot_dist [OF u(1) b(2) [OF l(1)], of n] n u(3) mt [OF u(2)] by auto
    show "runs c (bindM (rot_dist (uval ds) n) (\<lambda>t.
        npush (rot_loop (g (BIT (8 * nat n - 1))) (nat t) (slong (uval xs))) n)) u ()
      (le_bytes (nat n) (rot_loop (g (BIT (8 * nat n - 1))) (rot_count s n (uval ds)) (uval xs)) @ rest)"
      unfolding b(1) [OF l(2)] rot_count_def
    proof (rule runs_bind [OF d])
      fix v assume v: "minv c v" "stk_frame u v" "opstack v = rest"
      have "fits v (length (opstack t))"
        using o(5) stk_frame_fields(2) [OF stk_frame_trans [OF u(2) v(2)]] by simp
      then have "fits v (nat n + length (opstack v))" by (rule fits_mono) (use o(3) x v(3) in simp)
      then show "runs c (npush (rot_loop (g (BIT (8 * nat n - 1)))
          (nat (if must_test s then min (uval ds) (8 * n - 1) else uval ds)) (uval xs)) n) v ()
        (le_bytes (nat n) (rot_loop (g (BIT (8 * nat n - 1)))
          (nat (if must_test s then min (uval ds) (8 * n - 1) else uval ds)) (uval xs)) @ rest)"
        using runs_npush [OF v(1) wi_size_facts(1-3) [OF o(1,2)]] v(3) by simp
    qed
  qed
qed

lemma le_bytes_rot:
  fixes w :: "'a::len word"
  assumes "take_bit LENGTH('a) v = uint w" and "LENGTH('a) = 8 * n"
  shows "le_bytes n v = le_bytes n (uint w)"
  using le_bytes_take_bit [of n v] assms by simp

lemma uint_uval: "length xs = n \<Longrightarrow> LENGTH('a) = 8 * n \<Longrightarrow> uint (word_of_int (uval xs) :: 'a::len word) = uval xs"
  using uval_range [of xs] by (simp add: uint_word_of_int power_mult)

text \<open>
  (C21) The loops of ROL and ROR compute the rotations of machine words: on operands of 2 and 4 bytes
  the results are those of \<open>word_rotl\<close> and \<open>word_rotr\<close> on words of 16 and 32 bits.  The distance
  is cut to the size of the operand when the program asks for tests.
\<close>

theorem rotate_spec:
  assumes s: "shift_ops c s n ds xs rest"
  shows "let k = rot_count s n (uval ds) in
    if n = 2
    then runs c (DoROL n) s () (le_bytes 2 (uint (word_rotl k (word_of_int (uval xs) :: 16 word))) @ rest)
      \<and> runs c (DoROR n) s () (le_bytes 2 (uint (word_rotr k (word_of_int (uval xs) :: 16 word))) @ rest)
    else runs c (DoROL n) s () (le_bytes 4 (uint (word_rotl k (word_of_int (uval xs) :: 32 word))) @ rest)
      \<and> runs c (DoROR n) s () (le_bytes 4 (uint (word_rotr k (word_of_int (uval xs) :: 32 word))) @ rest)"
proof -
  define k where "k = rot_count s n (uval ds)"
  have n: "n = 2 \<or> n = 4" and x: "int (length xs) = n" using s by (auto simp: shift_ops_def wi_size_def)
  note r = runs_rotate [OF s, of rol1] runs_rotate [OF s, of ror1]
  have 2: "uint (word_of_int (uval xs) :: 16 word) = uval xs" if "n = 2"
    using that x by (intro uint_uval [of xs 2]) simp_all
  have 4: "uint (word_of_int (uval xs) :: 32 word) = uval xs" if "n = 4"
    using that x by (intro uint_uval [of xs 4]) simp_all
  show ?thesis
  proof (cases "n = 2")
    case True
    then show ?thesis
      using r le_bytes_rot [OF rol_word [of k "word_of_int (uval xs) :: 16 word"], of 2]
        le_bytes_rot [OF ror_word [of k "word_of_int (uval xs) :: 16 word"], of 2]
      by (simp add: DoROL_def DoROR_def k_def 2)
  next
    case False
    then have "n = 4" using n by simp
    then show ?thesis
      using r le_bytes_rot [OF rol_word [of k "word_of_int (uval xs) :: 32 word"], of 4]
        le_bytes_rot [OF ror_word [of k "word_of_int (uval xs) :: 32 word"], of 4]
      by (simp add: DoROL_def DoROR_def k_def 4)
  qed
qed

theorem rotate_witness:
  "runs sample_prog (DoROL 2) (sample [4, 0, 0x34, 0x12]) () [0x41, 0x23]
    \<and> runs sample_prog (DoROR 2) (sample [4, 0, 0x34, 0x12]) () [0x23, 0x41]"
proof -
  have "uval [4, 0] = 4" "uval [0x34, 0x12] = 4660"
    "le_bytes 2 (uint (word_rotl 4 (word_of_int 4660 :: 16 word))) = [0x41, 0x23]"
    "le_bytes 2 (uint (word_rotr 4 (word_of_int 4660 :: 16 word))) = [0x23, 0x41]" by code_simp+
  moreover have "shift_ops sample_prog (sample ([4, 0] @ [0x34, 0x12] @ [])) 2 [4, 0] [0x34, 0x12] []"
    by (simp add: shift_ops_def wi_size_def)
  ultimately show ?thesis
    using rotate_spec [of sample_prog "sample ([4, 0] @ [0x34, 0x12] @ [])" 2 "[4, 0]" "[0x34, 0x12]" "[]"]
    by (simp add: rot_count_def)
qed

section \<open>Bitwise operations\<close>

lemma check_def_ok:
  assumes "stack_ok s p" and "stack_ok s (ulong (p + l))"
  shows "\<exists>w. check_def p l s = Ok () (s\<lparr>wst := w\<rparr>)"
proof -
  obtain w where w: "warn WUNLOG s = Ok () (s\<lparr>wst := w\<rparr>)" using warn_Ok by blast
  have "check_def p l s = (if stack_sh s p = 0 \<or> stack_sh s (ulong (p + l)) = 0 then warn WUNLOG s else Ok () s)"
    using assms by (simp add: check_def_def rd_stack_sh_def)
  then have "check_def p l s = Ok () (s\<lparr>wst := w\<rparr>) \<or> check_def p l s = Ok () (s\<lparr>wst := wst s\<rparr>)"
    unfolding w by simp
  then show ?thesis by blast
qed

lemma stack_ok_wst [simp]: "stack_ok (s\<lparr>wst := w\<rparr>) a = stack_ok s a" "stack_ok (s\<lparr>stack := d\<rparr>) a = stack_ok s a"
  by (simp_all add: stack_ok_def)

lemma logic_loop_ok:
  assumes "0 \<le> p" and "p + l + int k \<le> 2 ^ 63" and "int k \<le> l"
    and "\<And>i. i < k \<Longrightarrow> stack_ok s (p + int i) \<and> stack_ok s (p + l + int i)"
  shows "\<exists>w. logic_loop f k p l s = Ok () (s\<lparr>wst := w,
    stack := upd_bytes (stack s) (p + l) (map2 f (rd_bytes (stack s) (p + l) k) (rd_bytes (stack s) p k))\<rparr>)"
  using assms
proof (induction k arbitrary: p s)
  case 0
  show ?case by (intro exI [of _ "wst s"]) (simp add: rd_bytes_def)
next
  case (Suc k)
  have u: "ulong (p + l) = p + l" "ulong (p + 1) = p + 1"
    using Suc.prems(1-3) by (intro ulong_id; simp)+
  have ok: "stack_ok s p" "stack_ok s (p + l)" using Suc.prems(4) [of 0] by simp_all
  obtain w where w: "check_def p l s = Ok () (s\<lparr>wst := w\<rparr>)" using check_def_ok ok u by metis
  let ?b = "f (stack s (p + l)) (stack s p)"
  let ?t = "s\<lparr>wst := w, stack := (stack s)(p + l := ?b)\<rparr>"
  have t: "logic_loop f (Suc k) p l s = logic_loop f k (p + 1) l ?t"
    using w ok by (simp add: u rd_stack_def poke_stack_def)
  have "stack_ok ?t (p + 1 + int i) \<and> stack_ok ?t (p + 1 + l + int i)" if "i < k" for i
    using Suc.prems(4) [of "Suc i"] that by (simp add: algebra_simps)
  then obtain w' where "logic_loop f k (p + 1) l ?t = Ok () (?t\<lparr>wst := w',
      stack := upd_bytes (stack ?t) (p + 1 + l) (map2 f (rd_bytes (stack ?t) (p + 1 + l) k) (rd_bytes (stack ?t) (p + 1) k))\<rparr>)"
    using Suc.IH [of "p + 1" ?t] Suc.prems(1-3) by fastforce
  moreover have "rd_bytes (stack ?t) (p + 1 + l) k = rd_bytes (stack s) (p + 1 + l) k"
    "rd_bytes (stack ?t) (p + 1) k = rd_bytes (stack s) (p + 1) k"
    using Suc.prems(3) by (auto simp: rd_bytes_def)
  ultimately show ?case
    unfolding t by (intro exI [of _ w']) (simp add: rd_bytes_Suc upd_bytes_Cons add.assoc add.commute [of 1])
qed

lemma com_loop_ok:
  assumes "0 \<le> p" and "p + int k \<le> 2 ^ 63" and "\<And>i. i < k \<Longrightarrow> stack_ok s (p + int i)"
  shows "\<exists>w. com_loop k p s = Ok () (s\<lparr>wst := w,
    stack := upd_bytes (stack s) p (map NOT (rd_bytes (stack s) p k))\<rparr>)"
  using assms
proof (induction k arbitrary: p s)
  case 0
  show ?case by (intro exI [of _ "wst s"]) (simp add: rd_bytes_def)
next
  case (Suc k)
  have u: "ulong (p + 0) = p" "ulong (p + 1) = p + 1"
    using Suc.prems(1,2) by (simp_all add: ulong_id)
  have ok: "stack_ok s p" using Suc.prems(3) [of 0] by simp
  obtain w where w: "check_def p 0 s = Ok () (s\<lparr>wst := w\<rparr>)" using check_def_ok [of s p 0] ok u by metis
  let ?t = "s\<lparr>wst := w, stack := (stack s)(p := NOT (stack s p))\<rparr>"
  have t: "com_loop (Suc k) p s = com_loop k (p + 1) ?t"
    using w ok by (simp add: u rd_stack_def poke_stack_def)
  have "stack_ok ?t (p + 1 + int i)" if "i < k" for i
    using Suc.prems(3) [of "Suc i"] that by (simp add: algebra_simps)
  then obtain w' where "com_loop k (p + 1) ?t = Ok () (?t\<lparr>wst := w',
      stack := upd_bytes (stack ?t) (p + 1) (map NOT (rd_bytes (stack ?t) (p + 1) k))\<rparr>)"
    using Suc.IH [of "p + 1" ?t] Suc.prems(1,2) by fastforce
  moreover have "rd_bytes (stack ?t) (p + 1) k = rd_bytes (stack s) (p + 1) k" by (auto simp: rd_bytes_def)
  ultimately show ?case unfolding t by (intro exI [of _ w']) (simp add: rd_bytes_Suc upd_bytes_Cons)
qed


text \<open>Operands of any number of words.\<close>

definition word_ops :: "em_prog \<Rightarrow> mach \<Rightarrow> size \<Rightarrow> byte list \<Rightarrow> byte list \<Rightarrow> byte list \<Rightarrow> bool" where
  "word_ops c s n ys xs rest \<longleftrightarrow> minv c s \<and> 0 < n \<and> wsize c dvd n \<and> opstack s = ys @ xs @ rest
     \<and> int (length ys) = n \<and> int (length xs) = n \<and> lb_depth s \<le> length rest"

lemma arg_w_ok:
  assumes s: "minv c s" and n: "0 < n" "wsize c dvd n" "n \<le> max_off c"
  shows "arg_w n s = Ok n s"
proof -
  have "n AND wsizem1 s = n mod wsize s"
    using and_wsizem1 [of s n] minv_fields(1,4) [OF s] minv_caps(1,5) [OF s] by simp
  then have "n AND wsizem1 s = 0" using n(2) minv_fields(1) [OF s] by simp
  then show ?thesis using n minv_fields(9) [OF s] by (simp add: arg_w_def)
qed

lemma runs_logic:
  assumes s: "word_ops c s n ys xs rest" and m: "n \<le> max_off c"
  shows "runs c (seqM [spoilFRA, bindM (arg_w n) (\<lambda>l. seqM [
     withM (\<lambda>s. logic_loop f (nat l) (SP s) l), st_dec l])]) s () (map2 f xs ys @ rest)"
  unfolding seqM.simps thenM_returnM
proof (rule runs_then [OF runs_spoilFRA])
  show "minv c s" using s by (simp add: word_ops_def)
  fix t assume t: "minv c t" "stk_frame s t" "opstack t = opstack s"
  have a: "0 < n" "wsize c dvd n" "opstack t = ys @ (xs @ rest)" "length ys = nat n" "length xs = nat n"
    "lb_depth t \<le> length rest"
    using s t(3) stk_frame_fields(1) [OF t(2)] by (auto simp: word_ops_def)
  have o: "rd_bytes (stack t) (SP t) (nat n) = ys" "rd_bytes (stack t) (SP t + n) (nat n) = xs"
    "rd_bytes (stack t) (SP t + 2 * n) (length rest) = rest"
    using opstack_split [OF t(1) a(3)] opstack_split [OF t(1), of "ys @ xs" rest] a by simp_all (simp add: rd_bytes_add)
  have sp: "0 \<le> SP t" "SP t + n + n + int (length rest) = MLim c + 1" "MLim c + 1 < 2 ^ 31"
    using opstack_SP [OF t(1)] a minv_SP [OF t(1)] by simp_all
  have ok: "stack_ok t (SP t + int i) \<and> stack_ok t (SP t + n + int i)" if "i < nat n" for i
    using that sp minv_regs(10) [OF t(1)] a(1) unfolding stack_ok_def minv_fields(17) [OF t(1)] by linarith
  obtain w where w: "logic_loop f (nat n) (SP t) n t = Ok () (t\<lparr>wst := w, stack := upd_bytes (stack t) (SP t + n) (map2 f xs ys)\<rparr>)"
    using logic_loop_ok [OF sp(1), of n "nat n" t f] sp a(1) ok o by auto
  let ?u = "t\<lparr>wst := w, stack := upd_bytes (stack t) (SP t + n) (map2 f xs ys)\<rparr>"
  have u: "minv c ?u" using t(1) by (simp only: minv_update)
  have p: "SP ?u \<le> SP t + n" "SP t + n \<le> LB ?u" "wsize c dvd SP t + n"
    using a sp minv_regs(8) [OF t(1)] minv_fields(17) [OF t(1)] by (simp_all add: lb_depth_def)
  have "ulong (SP t + n) = SP t + n" using sp a(1) by (intro ulong_id) simp_all
  then have d: "st_dec n ?u = Ok () (?u\<lparr>SP := SP t + n\<rparr>)" using newSP_up(1) [OF u p] by (simp add: st_dec_def)
  show "runs c (bindM (arg_w n) (\<lambda>l. thenM (withM (\<lambda>s. logic_loop f (nat l) (SP s) l)) (st_dec l))) t ()
      (map2 f xs ys @ rest)"
  proof (rule runsI)
    show "bindM (arg_w n) (\<lambda>l. thenM (withM (\<lambda>s. logic_loop f (nat l) (SP s) l)) (st_dec l)) t
        = Ok () (?u\<lparr>SP := SP t + n\<rparr>)"
      using arg_w_ok [OF t(1) a(1,2) m] w d by simp
    show "minv c (?u\<lparr>SP := SP t + n\<rparr>)" by (rule newSP_up(2) [OF u p])
    show "stk_frame t (?u\<lparr>SP := SP t + n\<rparr>)"
      by (rule stk_frameI [where p = "SP t + n" and d = "upd_bytes (stack t) (SP t + n) (map2 f xs ys)"
            and h = "stack_sh t" and l = "SL t" and k = "stack_len t" and w = w]) simp
    have l: "int (length (map2 f xs ys)) = n" using a(1,4,5) by simp
    show "opstack (?u\<lparr>SP := SP t + n\<rparr>) = map2 f xs ys @ rest"
    proof (rule opstack_upd [where p = "SP t + n" and d = "stack t"])
      show "MLim (?u\<lparr>SP := SP t + n\<rparr>) + 1 = SP t + n + int (length (map2 f xs ys) + length rest)"
        using sp(2) l minv_fields(17) [OF t(1)] by simp
      show "rd_bytes (stack t) (SP t + n + int (length (map2 f xs ys))) (length rest) = rest"
        unfolding l using o(3) by (simp only: mult_2 add.assoc)
    qed simp_all
  qed
qed


lemma runs_com:
  assumes s: "minv c s" and n: "0 < n" "wsize c dvd n" "n \<le> max_off c"
    and o: "opstack s = xs @ rest" "int (length xs) = n"
  shows "runs c (DoCOM n) s () (map NOT xs @ rest)"
  unfolding DoCOM_def seqM.simps thenM_returnM
proof (rule runs_then [OF runs_spoilFRA [OF s]])
  fix t assume t: "minv c t" "stk_frame s t" "opstack t = opstack s"
  have x: "rd_bytes (stack t) (SP t) (nat n) = xs" "rd_bytes (stack t) (SP t + n) (length rest) = rest"
    using opstack_split [OF t(1), of xs rest] t(3) o by auto
  have sp: "0 \<le> SP t" "SP t + n + int (length rest) = MLim c + 1" "MLim c + 1 < 2 ^ 31"
    using opstack_SP [OF t(1)] t(3) o minv_SP [OF t(1)] by simp_all
  have ok: "stack_ok t (SP t + int i)" if "i < nat n" for i
    using that sp minv_regs(10) [OF t(1)] n(1) by (simp add: stack_ok_def minv_fields(17) [OF t(1)])
  obtain w where w: "com_loop (nat n) (SP t) t = Ok () (t\<lparr>wst := w, stack := upd_bytes (stack t) (SP t) (map NOT xs)\<rparr>)"
    using com_loop_ok [OF sp(1), of "nat n" t] sp n(1) ok x by auto
  let ?u = "t\<lparr>wst := w, stack := upd_bytes (stack t) (SP t) (map NOT xs)\<rparr>"
  show "runs c (bindM (arg_w n) (\<lambda>l. withM (\<lambda>s. com_loop (nat l) (SP s)))) t () (map NOT xs @ rest)"
  proof (rule runsI)
    show "bindM (arg_w n) (\<lambda>l. withM (\<lambda>s. com_loop (nat l) (SP s))) t = Ok () ?u"
      using arg_w_ok [OF t(1) n] w by simp
    show "minv c ?u" using t(1) by (simp only: minv_update)
    show "stk_frame t ?u"
      by (rule stk_frameI [where p = "SP t" and d = "upd_bytes (stack t) (SP t) (map NOT xs)" and h = "stack_sh t"
            and l = "SL t" and k = "stack_len t" and w = w]) simp
    show "opstack ?u = map NOT xs @ rest"
      using sp(2) x(2) o(2) minv_fields(17) [OF t(1)]
      by (intro opstack_upd [where p = "SP t" and d = "stack t"]) simp_all
  qed
qed

lemma le_bytes_bitwise:
  "le_bytes n (x AND y) = map2 (AND) (le_bytes n x) (le_bytes n y)"
  "le_bytes n (x OR y) = map2 (OR) (le_bytes n x) (le_bytes n y)"
  "le_bytes n (x XOR y) = map2 (XOR) (le_bytes n x) (le_bytes n y)"
  "le_bytes n (NOT x) = map NOT (le_bytes n x)"
proof -
  have d: "drop_bit 8 (NOT x) = NOT (drop_bit 8 x)" for x :: int
    by (rule bit_eqI) (simp add: bit_simps)
  show "le_bytes n (x AND y) = map2 (AND) (le_bytes n x) (le_bytes n y)"
    "le_bytes n (x OR y) = map2 (OR) (le_bytes n x) (le_bytes n y)"
    "le_bytes n (x XOR y) = map2 (XOR) (le_bytes n x) (le_bytes n y)"
    "le_bytes n (NOT x) = map NOT (le_bytes n x)"
    by (induction n arbitrary: x y) (simp_all add: to_char_def d of_int_and_eq of_int_or_eq of_int_xor_eq of_int_not_eq)
qed

text \<open>
  (C22) AND, IOR, XOR and COM work byte by byte on the stack; the result is the bitwise operation on
  the whole operands, read as numbers, whatever number of words they have.
\<close>

theorem bitwise_spec:
  assumes s: "word_ops c s n ys xs rest" and m: "n \<le> max_off c"
  shows "runs c (DoAND n) s () (le_bytes (nat n) (uval xs AND uval ys) @ rest)
    \<and> runs c (DoIOR n) s () (le_bytes (nat n) (uval xs OR uval ys) @ rest)
    \<and> runs c (DoXOR n) s () (le_bytes (nat n) (uval xs XOR uval ys) @ rest)
    \<and> runs c (DoCOM n) s () (le_bytes (nat n) (NOT (uval ys)) @ xs @ rest)"
proof -
  have a: "minv c s" "0 < n" "wsize c dvd n" "opstack s = ys @ (xs @ rest)" "int (length ys) = n"
    "nat n = length ys" "nat n = length xs"
    using s by (auto simp: word_ops_def)
  have y: "le_bytes (nat n) (uval ys) = ys" unfolding a(6) by (rule le_bytes_uval)
  have x: "le_bytes (nat n) (uval xs) = xs" unfolding a(7) by (rule le_bytes_uval)
  show ?thesis
    unfolding DoAND_def DoIOR_def DoXOR_def le_bytes_bitwise x y
    by (intro conjI runs_logic [OF s m] runs_com [OF a(1-3) m a(4,5)])
qed

theorem bitwise_witness:
  "runs sample_prog (DoAND 4) (sample [12, 0, 255, 1, 10, 7, 15, 3]) () [8, 0, 15, 1]
    \<and> runs sample_prog (DoCOM 4) (sample [12, 0, 255, 1, 10, 7, 15, 3]) () [243, 255, 0, 254, 10, 7, 15, 3]"
proof -
  let ?ys = "[12, 0, 255, 1] :: byte list" and ?xs = "[10, 7, 15, 3] :: byte list"
  have "le_bytes 4 (uval ?xs AND uval ?ys) = [8, 0, 15, 1]" "le_bytes 4 (NOT (uval ?ys)) = [243, 255, 0, 254]"
    by code_simp+
  moreover have "word_ops sample_prog (sample (?ys @ ?xs @ [])) 4 ?ys ?xs []" by (simp add: word_ops_def)
  moreover have "4 \<le> max_off sample_prog" by (simp add: sample_defs)
  ultimately show ?thesis
    using bitwise_spec [of sample_prog "sample (?ys @ ?xs @ [])" 4 ?ys ?xs "[]"] by simp
qed

end
