(* ===== verification/Compare.thy ===== *)
theory Compare
  imports Int_Arith
begin

text \<open>
  Comparisons: \<open>util/int/do_comp.c\<close>, without the comparison of floating numbers.
\<close>

section \<open>Operations\<close>

text \<open>\<open>t < s ? 1 : t > s ? -1 : 0\<close>\<close>

definition three_way :: "int \<Rightarrow> int \<Rightarrow> long" where
  "three_way t s = (if t < s then 1 else if t > s then - 1 else 0)"

definition DoCMI :: "size \<Rightarrow> unit M" where
  "DoCMI l = bindM (arg_wi l) (\<lambda>l'. bindM (spop l') (\<lambda>t. bindM (spop l) (\<lambda>s. seqM [
     spoilFRA, wpush (three_way t s)])))"

definition DoCMU :: "size \<Rightarrow> unit M" where
  "DoCMU l = bindM (arg_wi l) (\<lambda>l'. bindM (upop l') (\<lambda>t. bindM (upop l) (\<lambda>s. seqM [
     spoilFRA, wpush (three_way t s)])))"

text \<open>The loop of \<open>compare_obj\<close>: 1 at the first byte that differs or is undefined.\<close>

primrec cmp_loop :: "nat \<Rightarrow> ptr \<Rightarrow> ptr \<Rightarrow> long M" where
  "cmp_loop 0 addr1 addr2 = returnM 0"
| "cmp_loop (Suc k) addr1 addr2 =
     bindM (bindM (rd_stack_sh addr1) (\<lambda>f. if f = 0 then returnM True
       else bindM (rd_stack_sh addr2) (\<lambda>g. returnM (g = 0)))) (\<lambda>u.
     if u then thenM (warn WUNCMP) (returnM 1)
     else bindM (rd_stack addr1) (\<lambda>x. bindM (rd_stack addr2) (\<lambda>y.
       if x \<noteq> y then returnM 1 else cmp_loop k (ulong (addr1 + 1)) (ulong (addr2 + 1)))))"

definition compare_obj :: "size \<Rightarrow> unit M" where
  "compare_obj obj_size = withM (\<lambda>s.
     bindM (cmp_loop (nat obj_size) (SP s) (ulong (SP s + obj_size))) (\<lambda>comp_res. seqM [
       st_dec (2 * obj_size),
       wpush comp_res]))"

definition DoCMS :: "size \<Rightarrow> unit M" where
  "DoCMS l = seqM [spoilFRA, bindM (arg_w l) compare_obj]"

definition DoCMP :: "unit M" where
  "DoCMP = seqM [spoilFRA, bindM dppop (\<lambda>t. bindM dppop (\<lambda>s. wpush (three_way t s)))]"

definition DoTLT :: "unit M" where
  "DoTLT = seqM [spoilFRA, bindM wpop (\<lambda>w. wpush (if w < 0 then 1 else 0))]"

definition DoTLE :: "unit M" where
  "DoTLE = seqM [spoilFRA, bindM wpop (\<lambda>w. wpush (if w \<le> 0 then 1 else 0))]"

definition DoTEQ :: "unit M" where
  "DoTEQ = seqM [spoilFRA, bindM wpop (\<lambda>w. wpush (if w = 0 then 1 else 0))]"

definition DoTNE :: "unit M" where
  "DoTNE = seqM [spoilFRA, bindM wpop (\<lambda>w. wpush (if w \<noteq> 0 then 1 else 0))]"

definition DoTGE :: "unit M" where
  "DoTGE = seqM [spoilFRA, bindM wpop (\<lambda>w. wpush (if w \<ge> 0 then 1 else 0))]"

definition DoTGT :: "unit M" where
  "DoTGT = seqM [spoilFRA, bindM wpop (\<lambda>w. wpush (if w > 0 then 1 else 0))]"

section \<open>The invariant\<close>

lemma keeps_undef_test: "keeps I (bindM (rd_stack_sh a) (\<lambda>f. if f = 0 then returnM True
       else bindM (rd_stack_sh b) (\<lambda>g. returnM (g = 0)))) anyR"
  by (rule keeps_rules TrueI)+

lemma keeps_cmp_loop [keeps_rules]: "wst_free I \<Longrightarrow> keeps I (cmp_loop k a b) anyR"
proof (induction k arbitrary: a b)
  case (Suc k)
  show ?case
    unfolding cmp_loop.simps
    by (rule keeps_bind [OF keeps_undef_test]) (rule keeps_rules Suc TrueI)+
qed (simp only: cmp_loop.simps keeps_return)

lemma keeps_compare_obj [keeps_rules]: "keeps (minv c) (compare_obj n) anyR"
  unfolding compare_obj_def by (rule keeps_rules | simp)+

lemma keeps_compare [keeps_rules]:
  "keeps (minv c) (DoCMI n) anyR" "keeps (minv c) (DoCMU n) anyR" "keeps (minv c) (DoCMS n) anyR"
  "keeps (minv c) DoCMP anyR" "keeps (minv c) DoTLT anyR" "keeps (minv c) DoTLE anyR"
  "keeps (minv c) DoTEQ anyR" "keeps (minv c) DoTNE anyR" "keeps (minv c) DoTGE anyR"
  "keeps (minv c) DoTGT anyR"
  unfolding DoCMI_def DoCMU_def DoCMS_def DoCMP_def DoTLT_def DoTLE_def DoTEQ_def DoTNE_def DoTGE_def
    DoTGT_def
  by (rule keeps_rules | simp)+

section \<open>What they compute\<close>

context operand_kind
begin

lemma compare_runs:
  assumes s: "two_ops c s n ys xs rest"
  shows "runs c (bindM (arg_wi n) (\<lambda>l'. bindM (pop l') (\<lambda>t. bindM (pop n) (\<lambda>w. seqM [
      spoilFRA, wpush (three_way t w)])))) s ()
    (le_bytes (nat (wsize c)) (sgn (operand xs - operand ys)) @ rest)"
proof -
  have a: "minv c s" "wi_size c n" "opstack s = ys @ (xs @ rest)" "int (length ys) = n" "int (length xs) = n"
    "lb_depth s \<le> length (xs @ rest)" "lb_depth s \<le> length rest" "fits s (length (opstack s))"
    using s unfolding two_ops_def by auto
  have w: "nat (wsize c) \<le> length xs" using wi_size_facts(2) [OF a(1,2)] a(5) by simp
  have g: "three_way (operand ys) (operand xs) = sgn (operand xs - operand ys)"
    by (simp add: three_way_def sgn_if)
  show ?thesis
  proof (rule runs_bind [OF runs_arg_wi [OF a(1,2)]])
    fix t assume t: "minv c t" "stk_frame s t" "opstack t = opstack s"
    have "runs c (pop n) t (operand ys) (xs @ rest)"
      using t a stk_frame_fields(1) [OF t(2)] by (intro pop_runs) simp_all
    then show "runs c (bindM (pop n) (\<lambda>t. bindM (pop n) (\<lambda>w. seqM [spoilFRA, wpush (three_way t w)]))) t ()
      (le_bytes (nat (wsize c)) (sgn (operand xs - operand ys)) @ rest)"
    proof (rule runs_bind)
      fix u assume u: "minv c u" "stk_frame t u" "opstack u = xs @ rest"
      note su = stk_frame_trans [OF t(2) u(2)]
      have "runs c (pop n) u (operand xs) rest"
        using u a stk_frame_fields(1) [OF su] by (intro pop_runs) simp_all
      then show "runs c (bindM (pop n) (\<lambda>w. seqM [spoilFRA, wpush (three_way (operand ys) w)])) u ()
        (le_bytes (nat (wsize c)) (sgn (operand xs - operand ys)) @ rest)"
      proof (rule runs_bind, unfold seqM.simps thenM_returnM g)
        fix v assume v: "minv c v" "stk_frame u v" "opstack v = rest"
        show "runs c (thenM spoilFRA (wpush (sgn (operand xs - operand ys)))) v ()
          (le_bytes (nat (wsize c)) (sgn (operand xs - operand ys)) @ rest)"
        proof (rule runs_then [OF runs_spoilFRA [OF v(1)]])
          fix x assume x: "minv c x" "stk_frame v x" "opstack x = opstack v"
          have "fits x = fits s"
            by (rule stk_frame_fields(2) [OF stk_frame_trans [OF su stk_frame_trans [OF v(2) x(2)]]])
          then have "fits x (nat (wsize c) + length (opstack x))"
            using fits_mono [OF a(8)] w a(3) x(3) v(3) by simp
          then show "runs c (wpush (sgn (operand xs - operand ys))) x ()
            (le_bytes (nat (wsize c)) (sgn (operand xs - operand ys)) @ rest)"
            using runs_wpush [OF x(1)] x(3) v(3) by metis
        qed
      qed
    qed
  qed
qed

end

text \<open>
  (C24) CMI and CMU compare: they replace two \<open>n\<close>-byte operands by one word, which is negative, zero
  or positive as the lower operand is less than, equal to or greater than the one on top; CMI reads
  the operands as two's complement numbers, CMU as unsigned ones.
\<close>

theorem compare_spec:
  assumes s: "two_ops c s n ys xs rest"
  shows "runs c (DoCMI n) s () (le_bytes (nat (wsize c)) (sgn (sval xs - sval ys)) @ rest)
    \<and> runs c (DoCMU n) s () (le_bytes (nat (wsize c)) (sgn (uval xs - uval ys)) @ rest)"
  unfolding DoCMI_def DoCMU_def by (intro conjI sgn.compare_runs uns.compare_runs s)

theorem compare_witness:
  "runs sample_prog (DoCMI 2) (sample [1, 0, 0xFF, 0xFF]) () [0xFF, 0xFF]
    \<and> runs sample_prog (DoCMU 2) (sample [1, 0, 0xFF, 0xFF]) () [1, 0]"
proof -
  have "sval [0xFF, 0xFF] = - 1" "uval [0xFF, 0xFF] = 65535" "sval [1, 0] = 1" "uval [1, 0] = 1"
    "le_bytes 2 (- 1) = [0xFF, 0xFF]" "le_bytes 2 1 = [1, 0]" by code_simp+
  then show ?thesis
    using compare_spec [OF sample_two, of "[1, 0]" "[0xFF, 0xFF]" "[]"] by simp
qed

end
