(* ===== verification/Mem_Access.thy ===== *)
theory Mem_Access
  imports Sample
begin

text \<open>
  Memory as the instructions see it: the macros of \<open>mem.h\<close> that choose the stack or the data
  segment by the address.  Every access is checked before an array is touched.
\<close>

section \<open>Checked accesses\<close>

definition inside :: "mach \<Rightarrow> ptr \<Rightarrow> size \<Rightarrow> bool" where
  "inside s a n \<longleftrightarrow> (if in_stack s a then a + n \<le> MLim s + 1 else a + n \<le> HP s)"

definition mem_of :: "mach \<Rightarrow> ptr \<Rightarrow> int \<Rightarrow> byte" where
  "mem_of s a = (if in_stack s a then stack s else data s)"

lemma loads_refused:
  assumes s: "minv c s" and n: "0 < n" "n \<le> 8" and a: "0 \<le> a" "a + n < 2 ^ 64"
    and r: "\<not> inside s a n \<or> \<not> min n (wsize c) dvd a"
  shows "mem_ldu a n s = Trap (if inside s a n then EBADPTR else EMEMFLT) s"
    and "mem_lds a n s = Trap (if inside s a n then EBADPTR else EMEMFLT) s"
    and "mem_stn a l n s = Trap (if inside s a n then EBADPTR else EMEMFLT) s"
proof -
  have st: "ch_in_stack a n s = (if inside s a n then Ok () s else Trap EMEMFLT s)" if "in_stack s a"
    using that n a ch_in_stack_ok [OF s, of a n] minv_fields(17) [OF s] by (auto simp: inside_def in_stack_def)
  have dt: "ch_in_data a n s = (if inside s a n then Ok () s else Trap EMEMFLT s)" if "\<not> in_stack s a"
    using that n a ch_in_data_ok [of a n s] by (auto simp: inside_def)
  note al = ch_aligned_ok [OF s n, of a]
  show "mem_ldu a n s = Trap (if inside s a n then EBADPTR else EMEMFLT) s"
    "mem_lds a n s = Trap (if inside s a n then EBADPTR else EMEMFLT) s"
    "mem_stn a l n s = Trap (if inside s a n then EBADPTR else EMEMFLT) s"
    using r by (cases "in_stack s a"; simp add: mem_ldu_def mem_lds_def mem_stn_def st_ldu_def st_lds_def
      st_stn_def dt_ldu_def dt_lds_def dt_stn_def st dt al split: if_splits)+
qed

lemma inside_ok:
  assumes s: "minv c s" and i: "inside s a n"
  shows "in_stack s a \<Longrightarrow> SP s \<le> a \<and> a + n \<le> MLim c + 1" and "\<not> in_stack s a \<Longrightarrow> a + n \<le> HP s"
  using i by (auto simp: inside_def in_stack_def minv_fields(17) [OF s])

lemma mem_ld_ok:
  assumes s: "minv c s" and n: "0 < n" "n \<le> 4" and a: "0 \<le> a" "inside s a n" "min n (wsize c) dvd a"
  shows "\<exists>w. mem_ldu a n s = Ok (uval (rd_bytes (mem_of s a) a (nat n))) (s\<lparr>wst := w\<rparr>)"
    and "\<exists>w. mem_lds a n s = Ok (sval (rd_bytes (mem_of s a) a (nat n))) (s\<lparr>wst := w\<rparr>)"
  using inside_ok [OF s a(2)] st_ldu_ok [OF s, of a n] st_lds_ok [OF s, of a n] dt_ldu_ok [OF s, of a n]
    dt_lds_ok [OF s, of a n] n a(1,3)
  by (cases "in_stack s a"; simp add: mem_ldu_def mem_lds_def mem_of_def)+

definition stored :: "mach \<Rightarrow> ptr \<Rightarrow> byte list \<Rightarrow> mach \<Rightarrow> bool" where
  "stored s a bs t \<longleftrightarrow> (\<exists>h w. t = (if in_stack s a
     then s\<lparr>stack := upd_bytes (stack s) a bs, stack_sh := h, wst := w\<rparr>
     else s\<lparr>data := upd_bytes (data s) a bs, data_sh := h, wst := w\<rparr>))"

lemma mem_stn_ok:
  assumes s: "minv c s" and n: "0 < n" "n \<le> 8" and a: "0 \<le> a" "inside s a n" "min n (wsize c) dvd a"
  shows "\<exists>t. mem_stn a l n s = Ok () t \<and> stored s a (le_bytes (nat n) l) t \<and> minv c t"
proof (cases "in_stack s a")
  case True
  then obtain w where "st_stn a l n s = Ok () (s\<lparr>stack := upd_bytes (stack s) a (le_bytes (nat n) l),
      stack_sh := upd_bytes (stack_sh s) a (replicate (nat n) (int_flags s l n)), wst := w\<rparr>)"
    using inside_ok(1) [OF s a(2)] st_stn_ok [OF s _ n _ a(3)] by blast
  then show ?thesis using True s by (auto simp: mem_stn_def stored_def)
next
  case False
  then obtain w where "dt_stn a l n s = Ok () (s\<lparr>data := upd_bytes (data s) a (le_bytes (nat n) l),
      data_sh := upd_bytes (data_sh s) a (replicate (nat n) (int_flags s l n)), wst := w\<rparr>)"
    using inside_ok(2) [OF s a(2)] dt_stn_ok [OF s a(1) n _ a(3)] by blast
  then show ?thesis using False s by (auto simp: mem_stn_def stored_def)
qed

text \<open>
  The end of the access is computed modulo \<open>2 ^ 64\<close>: just below that bound an access has its
  end at a small address, which passes the test against the heap pointer.
\<close>

definition wraps :: "mach \<Rightarrow> ptr \<Rightarrow> size \<Rightarrow> bool" where
  "wraps s a n \<longleftrightarrow> 2 ^ 64 \<le> a + n \<and> a + n - 2 ^ 64 \<le> HP s"

lemma end_wraps:
  assumes s: "minv c s" and n: "0 < n" "n \<le> 4" and a: "a < 2 ^ 64" "2 ^ 64 \<le> a + n"
  shows "\<not> in_stack s a" "\<not> data_ok s a" "\<not> inside s a n"
    "ch_in_data a n s = (if wraps s a n then Ok () s else Trap EMEMFLT s)"
proof -
  have "a + n - 2 ^ 64 = ulong (a + n)"
    using n a ulong_id [of "a + n - 2 ^ 64"] by (simp add: ulong_def take_bit_eq_mod)
  then show "ch_in_data a n s = (if wraps s a n then Ok () s else Trap EMEMFLT s)"
    using a(2) by (simp add: ch_in_data_def ensure_def is_in_data_def wraps_def)
  show st: "\<not> in_stack s a" "\<not> data_ok s a"
    using n a minv_MLim(2) [OF s] minv_regs(4) [OF s] by (auto simp: in_stack_def data_ok_def minv_fields(17) [OF s])
  show "\<not> inside s a n" using st(1) a(2) minv_regs(2-4) [OF s] by (simp add: inside_def)
qed

lemma wrapped_access:
  assumes s: "minv c s" and n: "0 < n" "n \<le> 4" and a: "a < 2 ^ 64" "2 ^ 64 \<le> a + n"
  shows "\<not> wraps s a n \<Longrightarrow> mem_ldu a n s = Trap EMEMFLT s \<and> mem_lds a n s = Trap EMEMFLT s
      \<and> mem_stn a l n s = Trap EMEMFLT s"
    and "wraps s a n \<Longrightarrow> \<not> min n (wsize c) dvd a \<Longrightarrow>
      mem_ldu a n s = Trap EBADPTR s \<and> mem_lds a n s = Trap EBADPTR s \<and> mem_stn a l n s = Trap EBADPTR s"
    and "wraps s a n \<Longrightarrow> min n (wsize c) dvd a \<Longrightarrow>
      mem_ldu a n s = Undef \<and> mem_lds a n s = Undef \<and> mem_stn a l n s = Undef"
proof -
  note e = end_wraps [OF s n a]
  have k: "nat (c_int n) = Suc (nat (n - 1))" using n by (simp add: c_int_id)
  have al: "ch_aligned a n s = (if min n (wsize c) dvd a then Ok () s else Trap EBADPTR s)"
    using ch_aligned_ok [OF s n(1), of a] n(2) by simp
  note d = e(1,2,4) al rd_data_sh_def mem_ldu_def mem_lds_def mem_stn_def dt_ldu_def dt_lds_def dt_stn_def
    expect_def is_set_def dt_put_def ch_dt_prot_def k
  show "\<not> wraps s a n \<Longrightarrow> mem_ldu a n s = Trap EMEMFLT s \<and> mem_lds a n s = Trap EMEMFLT s
      \<and> mem_stn a l n s = Trap EMEMFLT s"
    and "wraps s a n \<Longrightarrow> \<not> min n (wsize c) dvd a \<Longrightarrow>
      mem_ldu a n s = Trap EBADPTR s \<and> mem_lds a n s = Trap EBADPTR s \<and> mem_stn a l n s = Trap EBADPTR s"
    and "wraps s a n \<Longrightarrow> min n (wsize c) dvd a \<Longrightarrow>
      mem_ldu a n s = Undef \<and> mem_lds a n s = Undef \<and> mem_stn a l n s = Undef"
    by (simp_all add: d)
qed

text \<open>
  (C7) Loads and stores of \<open>n\<close> bytes at any address.  Inside a segment and aligned, a load
  returns the bytes as an unsigned or a signed number, and a store replaces just these bytes.
  Elsewhere they raise EMEMFLT, and at an address that is not aligned EBADPTR, both before anything
  changes: with the one exception that an access whose end wraps around the address space, to an
  address below the heap pointer, is taken for one in the data segment, and leaves the data array
  (undefined behaviour) if it is aligned.
\<close>

theorem memory_checked:
  assumes "minv c s" and "0 < n" and "n \<le> 4" and "0 \<le> a" and "a < 2 ^ 64"
  shows "if inside s a n \<and> min n (wsize c) dvd a
    then (\<exists>w. mem_ldu a n s = Ok (uval (rd_bytes (mem_of s a) a (nat n))) (s\<lparr>wst := w\<rparr>))
      \<and> (\<exists>w. mem_lds a n s = Ok (sval (rd_bytes (mem_of s a) a (nat n))) (s\<lparr>wst := w\<rparr>))
      \<and> (\<exists>t. mem_stn a l n s = Ok () t \<and> stored s a (le_bytes (nat n) l) t \<and> minv c t)
    else if wraps s a n \<and> min n (wsize c) dvd a
    then mem_ldu a n s = Undef \<and> mem_lds a n s = Undef \<and> mem_stn a l n s = Undef
    else let nr = (if inside s a n \<or> wraps s a n then EBADPTR else EMEMFLT) in
      mem_ldu a n s = Trap nr s \<and> mem_lds a n s = Trap nr s \<and> mem_stn a l n s = Trap nr s"
proof (cases "2 ^ 64 \<le> a + n")
  case True
  then show ?thesis
    using wrapped_access [OF assms(1,2,3,5) True, of l] end_wraps(3) [OF assms(1,2,3,5) True]
    by (auto simp: Let_def)
next
  case False
  then have w: "\<not> wraps s a n" "a + n < 2 ^ 64" by (simp_all add: wraps_def)
  then show ?thesis
    using mem_ld_ok [of c s n a] mem_stn_ok [of c s n a l] loads_refused [OF assms(1,2) _ assms(4) w(2)] assms
    by (cases "inside s a n \<and> min n (wsize c) dvd a") (simp_all add: Let_def)
qed

lemma stored_facts:
  assumes "stored s a bs t"
  shows "in_stack t a = in_stack s a" "inside t a n = inside s a n" "mem_of t a = upd_bytes (mem_of s a) a bs"
    "stack t = (if in_stack s a then upd_bytes (stack s) a bs else stack s)"
    "data t = (if in_stack s a then data s else upd_bytes (data s) a bs)"
proof -
  obtain h w where t: "t = (if in_stack s a then s\<lparr>stack := upd_bytes (stack s) a bs, stack_sh := h, wst := w\<rparr>
     else s\<lparr>data := upd_bytes (data s) a bs, data_sh := h, wst := w\<rparr>)"
    using assms unfolding stored_def by blast
  show i: "in_stack t a = in_stack s a" unfolding t by (simp add: in_stack_def)
  show "inside t a n = inside s a n" unfolding inside_def i unfolding t by simp
  show "mem_of t a = upd_bytes (mem_of s a) a bs" unfolding mem_of_def i unfolding t by simp
  show "stack t = (if in_stack s a then upd_bytes (stack s) a bs else stack s)"
    "data t = (if in_stack s a then data s else upd_bytes (data s) a bs)" unfolding t by simp_all
qed

text \<open>
  (C8) What is stored can be loaded again: after a store of \<open>n\<close> bytes the loads at that address
  return the value cut to \<open>n\<close> bytes, unsigned or signed, and every byte elsewhere is as it was.
\<close>

theorem memory_roundtrip:
  assumes "minv c s" and "0 < n" and "n \<le> 4" and "0 \<le> a" and "inside s a n" and "min n (wsize c) dvd a"
  shows "\<exists>t. mem_stn a l n s = Ok () t
    \<and> (\<exists>w. mem_ldu a n t = Ok (take_bit (8 * nat n) l) (t\<lparr>wst := w\<rparr>))
    \<and> (\<exists>w. mem_lds a n t = Ok (signed_take_bit (8 * nat n - 1) l) (t\<lparr>wst := w\<rparr>))
    \<and> (\<forall>b. b < a \<or> a + n \<le> b \<longrightarrow> stack t b = stack s b \<and> data t b = data s b)"
proof -
  obtain t where t: "mem_stn a l n s = Ok () t" "stored s a (le_bytes (nat n) l) t" "minv c t"
    using mem_stn_ok [of c s n a l] assms by auto
  note f = stored_facts [OF t(2)]
  have r: "rd_bytes (mem_of t a) a (nat n) = le_bytes (nat n) l" by (simp add: f(3))
  have e: "\<forall>b. b < a \<or> a + n \<le> b \<longrightarrow> stack t b = stack s b \<and> data t b = data s b"
    using assms(2) by (simp add: f(4,5) upd_bytes_def)
  have i: "inside t a n" using assms(5) by (simp add: f(2))
  have "0 < nat n" using assms(2) by simp
  then show ?thesis
    using t(1) e mem_ld_ok [OF t(3) assms(2-4) i assms(6)] unfolding r
    by (intro exI [of _ t]) (simp add: uval_le_bytes sval_le_bytes)
qed


theorem memory_checked_witness:
  "let s = sample [1, 2, 3, 4] in
     (\<exists>w. mem_ldu 65530 2 s = Ok 513 (s\<lparr>wst := w\<rparr>)) \<and> mem_ldu 65531 2 s = Trap EBADPTR s
     \<and> mem_stn 200 9 2 s = Trap EMEMFLT s \<and> mem_ldu (2 ^ 64 - 2) 2 s = Undef"
proof -
  let ?s = "sample [1, 2, 3, 4]"
  have m: "minv sample_prog ?s" by simp
  have "inside ?s 65530 2" "inside ?s 65531 2" "\<not> inside ?s 200 2" "mem_of ?s 65530 = stack ?s"
    "\<not> wraps ?s 65531 2" "\<not> wraps ?s 200 2" "wraps ?s (2 ^ 64 - 2) 2" "\<not> inside ?s (2 ^ 64 - 2) 2"
    by (simp_all add: inside_def in_stack_def mem_of_def wraps_def)
  moreover have "uval (rd_bytes (stack ?s) 65530 2) = 513"
    by (simp add: rd_bytes_def upd_bytes_def upt_rec)
  ultimately show ?thesis
    using memory_checked [OF m, of 2 65530] memory_checked [OF m, of 2 65531] memory_checked [OF m, of 2 200 9]
      memory_checked [OF m, of 2 "2 ^ 64 - 2"]
    by (simp add: Let_def)
qed

theorem memory_roundtrip_witness:
  "\<exists>t. mem_stn 40 (- 2) 2 (sample []) = Ok () t \<and> (\<exists>w. mem_ldu 40 2 t = Ok 65534 (t\<lparr>wst := w\<rparr>))
     \<and> (\<exists>w. mem_lds 40 2 t = Ok (- 2) (t\<lparr>wst := w\<rparr>)) \<and> data t 42 = 0"
proof -
  have m: "minv sample_prog (sample [])" by simp
  have "inside (sample []) 40 2" by (simp add: inside_def in_stack_def)
  then obtain t where t: "mem_stn 40 (- 2) 2 (sample []) = Ok () t"
    "\<exists>w. mem_ldu 40 2 t = Ok (take_bit 16 (- 2)) (t\<lparr>wst := w\<rparr>)"
    "\<exists>w. mem_lds 40 2 t = Ok (signed_take_bit 15 (- 2)) (t\<lparr>wst := w\<rparr>)"
    "\<forall>b. b < 40 \<or> 40 + 2 \<le> b \<longrightarrow> stack t b = stack (sample []) b \<and> data t b = data (sample []) b"
    using memory_roundtrip [OF m, of 2 40 "- 2"] by auto
  have "take_bit 16 (- 2 :: int) = 65534" "signed_take_bit 15 (- 2 :: int) = - 2" by code_simp+
  then show ?thesis using t by (intro exI [of _ t]) simp
qed

section \<open>The stack pointer\<close>

text \<open>
  (C9) Setting the stack pointer to \<open>p > 0\<close>, on a host with enough memory: \<open>newSP\<close> raises
  ESTACK, with nothing changed but the warnings, exactly if \<open>p\<close> lies above the local base, is not
  word aligned, or would grow the stack into the heap or beyond the limit of the command line.
  Otherwise it succeeds: the bytes of the stack stay as they are, and the shadow bytes of what
  is new are cleared, those and no others.
\<close>

theorem newSP_spec:
  assumes s: "minv c s" and m: "\<forall>n. mem_avail s n" and p: "0 < p"
  shows "if LB s < p \<or> \<not> wsize c dvd p
      \<or> p < SP s \<and> (p < HP s \<or> maxstack s \<noteq> 0 \<and> ulong (maxstack s) < MLim c - p)
    then \<exists>w. newSP p s = Trap ESTACK (s\<lparr>wst := w\<rparr>)
    else \<exists>t. newSP p s = Ok () t \<and> minv c t \<and> SP t = p \<and> stk_frame s t \<and> stack t = stack s
      \<and> (\<forall>q. stack_sh t q = (if p \<le> q \<and> q < SP s then SH_UNDEF else stack_sh s q))"
proof -
  have "ulong (MLim s - p) = MLim c - p" if "p < SP s"
    using that p minv_SP [OF s] by (simp add: minv_fields(17) [OF s] ulong_small)
  then have r: "newSP_refuses p s \<longleftrightarrow> LB s < p \<or> \<not> wsize c dvd p
      \<or> p < SP s \<and> (p < HP s \<or> maxstack s \<noteq> 0 \<and> ulong (maxstack s) < MLim c - p)"
    by (auto simp: newSP_refuses_def aligned_iff [OF s])
  show ?thesis
  proof (cases "newSP_refuses p s")
    case True
    then show ?thesis unfolding r [symmetric] by (simp add: newSP_refused)
  next
    case False
    then obtain l k where t: "newSP p s = Ok () (s\<lparr>SP := p, stack_sh := cleared s p, SL := l, stack_len := k\<rparr>)"
      "minv c (s\<lparr>SP := p, stack_sh := cleared s p, SL := l, stack_len := k\<rparr>)"
      using newSP_sets [OF s _ _ p] m by blast
    moreover have "stk_frame s (s\<lparr>SP := p, stack_sh := cleared s p, SL := l, stack_len := k\<rparr>)"
      by (rule stk_frameI [where d = "stack s" and w = "wst s"]) simp
    ultimately show ?thesis unfolding r [symmetric] if_not_P [OF False]
      by (intro exI [of _ "s\<lparr>SP := p, stack_sh := cleared s p, SL := l, stack_len := k\<rparr>"])
        (simp add: cleared_def)
  qed
qed

theorem newSP_witness:
  "\<exists>t. newSP 64000 (sample []) = Ok () t \<and> SP t = 64000 \<and> stack_sh t 64000 = SH_UNDEF \<and> regs_ok t
     \<and> (\<exists>w. newSP 50 (sample []) = Trap ESTACK (sample []\<lparr>wst := w\<rparr>))"
proof -
  have m: "minv sample_prog (sample [])" "\<forall>n. mem_avail (sample []) n" by simp_all
  show ?thesis
    using newSP_spec [OF m, of 64000] newSP_spec [OF m, of 50] by (auto simp: minv_def)
qed

end
