(* ===== verification/Arrays.thy ===== *)
theory Arrays
  imports Int_Arith Mem_Access
begin

text \<open>
  Array access through a descriptor: \<open>util/int/do_array.c\<close>.  The descriptor holds three integers
  of the instruction's width: lower bound, upper bound (the code compares the index with it),
  and object size.
\<close>

section \<open>Operations\<close>

datatype arr_op = LAR | SAR | AAR

definition arr :: "arr_op \<Rightarrow> size \<Rightarrow> unit M" where
  "arr type elm_size =
     bindM dppop (\<lambda>desc.
     bindM (spop elm_size) (\<lambda>index.
     bindM (mem_lds desc elm_size) (\<lambda>low. let diff = slong (index - low) in
     bindM dppop (\<lambda>arr_addr. seqM [
       withM (\<lambda>s. whenM (must_test s \<and> \<not> ignored EARRAY s)
         (if diff < 0 then trap EARRAY
          else bindM (mem_lds (ulong (desc + elm_size)) elm_size) (\<lambda>high.
            whenM (index > high) (trap EARRAY)))),
       bindM (mem_lds (ulong (desc + 2 * elm_size)) elm_size) (\<lambda>obj_size.
       bindM (arg_o obj_size) (\<lambda>obj_size.
         let a = ulong (arr_addr + slong (diff * obj_size)) in seqM [
           spoilFRA,
           (case type of
              LAR \<Rightarrow> push_m a obj_size
            | SAR \<Rightarrow> pop_m a obj_size
            | AAR \<Rightarrow> dppush a)]))]))))"

definition DoLAR :: "size \<Rightarrow> unit M" where
  "DoLAR arg = bindM (arg_wi arg) (arr LAR)"

definition DoSAR :: "size \<Rightarrow> unit M" where
  "DoSAR arg = bindM (arg_wi arg) (arr SAR)"

definition DoAAR :: "size \<Rightarrow> unit M" where
  "DoAAR arg = bindM (arg_wi arg) (arr AAR)"

section \<open>The invariant\<close>

lemma keeps_arr_op: "pop_size c n \<Longrightarrow>
    keeps (minv c) (case type of LAR \<Rightarrow> push_m a n | SAR \<Rightarrow> pop_m a n | AAR \<Rightarrow> dppush a) anyR"
  by (cases type) (simp_all add: keeps_rules)

lemma keeps_arr [keeps_rules]: "pop_size c n \<Longrightarrow> keeps (minv c) (arr type n) anyR"
  unfolding arr_def Let_def
  by (rule keeps_arr_op keeps_rules | simp)+

lemma keeps_arrays [keeps_rules]:
  "keeps (minv c) (DoLAR n) anyR" "keeps (minv c) (DoSAR n) anyR" "keeps (minv c) (DoAAR n) anyR"
  unfolding DoLAR_def DoSAR_def DoAAR_def by (rule keeps_rules | simp)+

section \<open>Computing the address of an element\<close>

text \<open>The operands of an array instruction on the stack: the address \<open>ds\<close> of the descriptor, the
  index \<open>is\<close> and the address \<open>bs\<close> of the array; the descriptor is in the data segment.\<close>

definition arr_ops :: "em_prog \<Rightarrow> mach \<Rightarrow> size \<Rightarrow> byte list \<Rightarrow> byte list \<Rightarrow> byte list \<Rightarrow> byte list \<Rightarrow> bool" where
  "arr_ops c s n ds is bs rest \<longleftrightarrow> minv c s \<and> wi_size c n \<and> opstack s = ds @ is @ bs @ rest
     \<and> int (length ds) = psize c \<and> int (length is) = n \<and> int (length bs) = psize c
     \<and> lb_depth s \<le> length rest \<and> fits s (length (opstack s))
     \<and> HP s \<le> SP s \<and> uval ds + 3 * n \<le> HP s \<and> n dvd uval ds"

text \<open>The integers of a descriptor at \<open>a\<close>.\<close>

definition descr :: "mach \<Rightarrow> ptr \<Rightarrow> size \<Rightarrow> nat \<Rightarrow> int" where
  "descr s a n k = sval (rd_bytes (data s) (a + int k * n) (nat n))"

lemma runs_only_wst:
  assumes "m s = Ok v (s\<lparr>wst := w\<rparr>)" and "minv c s"
  shows "runs c m s v (opstack s)"
proof (rule runsI)
  show "m s = Ok v (s\<lparr>wst := w\<rparr>)" by (rule assms(1))
  show "stk_frame s (s\<lparr>wst := w\<rparr>)"
    by (rule stk_frameI [where p = "SP s" and d = "stack s" and h = "stack_sh s" and l = "SL s"
          and k = "stack_len s" and w = w]) simp
qed (use assms(2) in \<open>simp_all add: opstack_def\<close>)

lemma descr_load:
  assumes s: "minv c s" "HP s \<le> SP s" and t: "minv c t" "stk_frame s t" "length (opstack t) \<le> length (opstack s)"
    and n: "wi_size c n" and a: "0 \<le> a" "a + n \<le> HP s" "n dvd a"
  shows "runs c (mem_lds a n) t (sval (rd_bytes (data s) a (nat n))) (opstack t)"
proof -
  note f = stk_frame_fields [OF t(2)]
  have m: "0 < n" "n \<le> 4" "min n (wsize c) dvd a"
    using wi_size_facts [OF s(1) n] n a(3) dvd_trans [of "wsize c" n a] by (auto simp: wi_size_def min_def)
  have "SP s \<le> SP t" using opstack_SP [OF s(1)] opstack_SP [OF t(1)] t(3) by simp
  then have i: "\<not> in_stack t a" using s(2) a(2) m(1) by (simp add: in_stack_def)
  then have "inside t a n" using a(2) f(6) by (simp add: inside_def)
  then obtain w where "mem_lds a n t = Ok (sval (rd_bytes (data s) a (nat n))) (t\<lparr>wst := w\<rparr>)"
    using mem_ld_ok(2) [OF t(1) m(1,2) a(1) _ m(3)] i f(5) by (auto simp: mem_of_def)
  then show ?thesis by (rule runs_only_wst [OF _ t(1)])
qed

lemma arg_o_ok:
  assumes s: "minv c s" and n: "0 < n" "n \<le> max_off c" "wsize c dvd n \<or> n dvd wsize c"
  shows "arg_o n s = Ok n s"
proof -
  have "n AND wsizem1 s = n mod wsize s"
    using and_wsizem1 [of s n] minv_fields(1,4) [OF s] minv_caps(1,5) [OF s] by simp
  moreover have "wsize c smod n = wsize c mod n"
    using n(1) minv_caps(1) [OF s] by (auto simp: signed_modulo_int_def)
  ultimately have "n AND wsizem1 s = 0 \<or> wsize s smod n = 0" using n(3) minv_fields(1) [OF s] by auto
  then show ?thesis using n minv_fields(9) [OF s] by (auto simp: arg_o_def)
qed

lemma le_bytes_addr:
  assumes n: "n \<le> 7" and d: "\<bar>x\<bar> \<le> 2 ^ 32" and z: "0 \<le> z" "z < 2 ^ 31"
  shows "le_bytes n (slong (ulong (b + slong (x * z)))) = le_bytes n (b + x * z)"
proof -
  have "\<bar>x * z\<bar> \<le> 2 ^ 32 * (2 ^ 31 - 1)"
    unfolding abs_mult using d z by (intro mult_mono) simp_all
  then have "slong (x * z) = x * z" by (intro slong_id) (simp_all add: abs_le_iff)
  then show ?thesis by (simp add: le_bytes_slong [OF n] le_bytes_ulong [OF n])
qed

text \<open>What is left once the operands are popped and the lower bound is known.\<close>

definition arr_check :: "ptr \<Rightarrow> size \<Rightarrow> long \<Rightarrow> long \<Rightarrow> unit M" where
  "arr_check desc n index diff = withM (\<lambda>s. whenM (must_test s \<and> \<not> ignored EARRAY s)
     (if diff < 0 then trap EARRAY
      else bindM (mem_lds (ulong (desc + n)) n) (\<lambda>high. whenM (index > high) (trap EARRAY))))"

lemma gives_arr_check:
  assumes s: "minv c s" "HP s \<le> SP s" and t: "minv c t" "stk_frame s t" "length (opstack t) \<le> length (opstack s)"
    and n: "wi_size c n" and a: "0 \<le> a" "a + 3 * n \<le> HP s" "n dvd a"
  shows "gives c (arr_check a n i d) t
    (if must_test s \<and> \<not> ignored EARRAY s \<and> (d < 0 \<or> descr s a n 1 < i) then Inl EARRAY else Inr ()) (opstack t)"
proof -
  note f = stk_frame_fields [OF t(2)] and w = wi_size_facts [OF s(1) n]
  have u: "ulong (a + n) = a + n"
    using a w minv_regs(2-4) [OF s(1)] by (intro ulong_small) simp_all
  have l: "runs c (mem_lds (a + n) n) t (descr s a n 1) (opstack t)"
    using descr_load [OF s t n, of "a + n"] a w(4) by (simp add: descr_def)
  have k: "gives c (whenM (i > descr s a n 1) (trap EARRAY)) v (if descr s a n 1 < i then Inl EARRAY else Inr ()) (opstack t)"
    if "minv c v" "opstack v = opstack t" for v
    using that by (simp add: whenM_def raises_trap runs_return)
  have b: "gives c (bindM (mem_lds (a + n) n) (\<lambda>high. whenM (i > high) (trap EARRAY))) t
      (if descr s a n 1 < i then Inl EARRAY else Inr ()) (opstack t)"
    by (rule runs_bind [OF l]) (rule k)
  consider "\<not> (must_test s \<and> \<not> ignored EARRAY s)" | "must_test s \<and> \<not> ignored EARRAY s" "d < 0"
    | "must_test s \<and> \<not> ignored EARRAY s" "\<not> d < 0" by blast
  then show ?thesis
  proof cases
    case 1
    then have "\<not> (must_test t \<and> \<not> ignored EARRAY t)" using f(4,14) by simp
    then have "arr_check a n i d t = returnM () t" by (auto simp: arr_check_def whenM_def)
    then have "runs c (arr_check a n i d) t () (opstack t)" using runs_return [OF t(1)] by (simp add: runs_def)
    then show ?thesis using 1 by (simp only: de_Morgan_conj not_not) auto
  next
    case 2
    then show ?thesis
      unfolding arr_check_def using f(4,14) t(1) by (intro runs_with) (simp add: raises_trap)
  next
    case 3
    then show ?thesis
      unfolding arr_check_def u using f(4,14) b by (intro runs_with) simp
  qed
qed

lemma runs_arr_address:
  assumes s: "minv c s" "HP s \<le> SP s" and t: "minv c t" "stk_frame s t" "length (opstack t) \<le> length (opstack s)"
    and n: "wi_size c n" and a: "0 \<le> a" "a + 3 * n \<le> HP s" "n dvd a"
    and z: "0 < descr s a n 2" "descr s a n 2 \<le> max_off c" "wsize c dvd descr s a n 2 \<or> descr s a n 2 dvd wsize c"
    and f: "fits s (nat (psize c) + length (opstack t))" and d: "\<bar>d\<bar> \<le> 2 ^ 32"
  shows "runs c (bindM (mem_lds (ulong (a + 2 * n)) n) (\<lambda>obj_size. bindM (arg_o obj_size) (\<lambda>obj_size.
         let p = ulong (b + slong (d * obj_size)) in seqM [spoilFRA, dppush p]))) t ()
    (le_bytes (nat (psize c)) (b + d * descr s a n 2) @ opstack t)"
proof -
  let ?z = "descr s a n 2"
  note w = wi_size_facts [OF s(1) n]
  have u: "ulong (a + 2 * n) = a + 2 * n"
    using a w minv_regs(2-4) [OF s(1)] by (intro ulong_small) simp_all
  have l: "runs c (mem_lds (a + 2 * n) n) t ?z (opstack t)"
    using descr_load [OF s t n, of "a + 2 * n"] a w(4) by (simp add: descr_def)
  have p: "psize c \<le> 4" "?z < 2 ^ 31" using minv_caps(2,18) [OF s(1)] z(2) by auto
  show ?thesis
    unfolding u Let_def seqM.simps thenM_returnM
  proof (rule runs_bind [OF l], rule runs_bind)
    fix v assume v: "minv c v" "stk_frame t v" "opstack v = opstack t"
    show "runs c (arg_o ?z) v ?z (opstack t)"
      using arg_o_ok [OF v(1) z] v by (intro runsI [where s' = v]) (simp_all add: stk_frame_refl)
  next
    fix v x assume v: "minv c v" "stk_frame t v" "opstack v = opstack t"
      and x: "minv c x" "stk_frame v x" "opstack x = opstack t"
    show "runs c (thenM spoilFRA (dppush (ulong (b + slong (d * ?z))))) x ()
        (le_bytes (nat (psize c)) (b + d * ?z) @ opstack t)"
    proof (rule runs_then [OF runs_spoilFRA [OF x(1)]])
      fix y assume y: "minv c y" "stk_frame x y" "opstack y = opstack x"
      have "stk_frame s y"
        by (rule stk_frame_trans [OF t(2) stk_frame_trans [OF v(2) stk_frame_trans [OF x(2) y(2)]]])
      then have "fits y (nat (psize c) + length (opstack y))"
        using f stk_frame_fields(2) [of s y] y(3) x(3) by simp
      from runs_dppush [OF y(1) this, of "ulong (b + slong (d * ?z))"]
      show "runs c (dppush (ulong (b + slong (d * ?z)))) y () (le_bytes (nat (psize c)) (b + d * ?z) @ opstack t)"
        using le_bytes_addr [OF _ d, of "nat (psize c)" ?z b] p z(1) y(3) x(3) by simp
    qed
  qed
qed

lemma arr_body:
  "arr AAR n = bindM dppop (\<lambda>desc. bindM (spop n) (\<lambda>index. bindM (mem_lds desc n) (\<lambda>low.
     bindM dppop (\<lambda>b. thenM (arr_check desc n index (slong (index - low)))
       (bindM (mem_lds (ulong (desc + 2 * n)) n) (\<lambda>obj_size. bindM (arg_o obj_size) (\<lambda>obj_size.
         let p = ulong (b + slong (slong (index - low) * obj_size)) in seqM [spoilFRA, dppush p])))))))"
  unfolding arr_def arr_check_def Let_def seqM.simps thenM_returnM arr_op.case by (rule refl)

text \<open>The check and what follows it, with the operands popped.\<close>

lemma gives_arr_end:
  assumes s: "minv c s" "HP s \<le> SP s" and t: "minv c t" "stk_frame s t" "length (opstack t) \<le> length (opstack s)"
    and n: "wi_size c n" and a: "0 \<le> a" "a + 3 * n \<le> HP s" "n dvd a"
    and z: "0 < descr s a n 2" "descr s a n 2 \<le> max_off c" "wsize c dvd descr s a n 2 \<or> descr s a n 2 dvd wsize c"
    and f: "fits s (nat (psize c) + length (opstack t))" and d: "\<bar>d\<bar> \<le> 2 ^ 32"
    and P: "P = (must_test s \<and> \<not> ignored EARRAY s \<and> (d < 0 \<or> descr s a n 1 < i))"
  shows "gives c (thenM (arr_check a n i d) (bindM (mem_lds (ulong (a + 2 * n)) n) (\<lambda>obj_size. bindM (arg_o obj_size) (\<lambda>obj_size.
         let p = ulong (b + slong (d * obj_size)) in seqM [spoilFRA, dppush p])))) t
    (if P then Inl EARRAY else Inr ()) (if P then opstack t else le_bytes (nat (psize c)) (b + d * descr s a n 2) @ opstack t)"
proof -
  have ck: "gives c (arr_check a n i d) t (if P then Inl EARRAY else Inr ()) (opstack t)"
    unfolding P by (rule gives_arr_check [OF s t n a])
  show ?thesis
  proof (cases P)
    case True
    then show ?thesis using ck by (simp add: thenM_def raises_bind)
  next
    case False
    have "runs c (bindM (mem_lds (ulong (a + 2 * n)) n) (\<lambda>obj_size. bindM (arg_o obj_size) (\<lambda>obj_size.
        let p = ulong (b + slong (d * obj_size)) in seqM [spoilFRA, dppush p]))) r ()
      (le_bytes (nat (psize c)) (b + d * descr s a n 2) @ opstack t)"
      if r: "minv c r" "stk_frame t r" "opstack r = opstack t" for r
      using runs_arr_address [OF s r(1) stk_frame_trans [OF t(2) r(2)] _ n a z, of d b] t(3) f d r(3) by simp
    then show ?thesis using ck False by (simp add: runs_then)
  qed
qed

text \<open>
  (C25) AAR replaces its operands by the address of the element, the base plus the distance of the index
  from the lower bound times the size of an element.  With tests on it raises EARRAY exactly if the
  index lies below the lower bound or above the second integer of the descriptor.
\<close>

theorem aar_spec:
  fixes c s n "is" bs
  defines "i \<equiv> sval is" and "base \<equiv> uval bs"
  assumes s: "arr_ops c s n ds is bs rest"
    and d: "low = descr s (uval ds) n 0" "up = descr s (uval ds) n 1" "sz = descr s (uval ds) n 2"
    and z: "0 < sz" "sz \<le> max_off c" "wsize c dvd sz \<or> sz dvd wsize c"
  shows "if must_test s \<and> \<not> ignored EARRAY s \<and> (i < low \<or> up < i)
    then raises c (DoAAR n) s EARRAY rest
    else runs c (DoAAR n) s () (le_bytes (nat (psize c)) (base + (i - low) * sz) @ rest)"
proof -
  define a where "a = uval ds"
  have o: "minv c s" "wi_size c n" "opstack s = ds @ (is @ bs @ rest)" "int (length ds) = psize c"
    "int (length is) = n" "int (length bs) = psize c" "lb_depth s \<le> length rest" "fits s (length (opstack s))"
    "HP s \<le> SP s" "a + 3 * n \<le> HP s" "n dvd a" "0 \<le> a"
    using s uval_range(1) [of ds] unfolding arr_ops_def a_def by blast+
  note w = wi_size_facts [OF o(1,2)]
  have lo: "\<bar>low\<bar> \<le> 2 ^ 31" "\<bar>i\<bar> \<le> 2 ^ 31"
    using sval_s_range [OF w(5) o(5)] sval_s_range [OF w(5), of "rd_bytes (data s) a (nat n)"] w(4,5)
    by (auto simp: i_def d(1) descr_def a_def s_range_def i_maxs_def i_mins_def split: if_splits)
  then have df: "slong (i - low) = i - low" by (intro slong_id) (simp_all add: abs_le_iff)
  define P where "P \<longleftrightarrow> must_test s \<and> \<not> ignored EARRAY s \<and> (i < low \<or> up < i)"
  have "gives c (DoAAR n) s (if P then Inl EARRAY else Inr ())
      (if P then rest else le_bytes (nat (psize c)) (base + (i - low) * sz) @ rest)"
    unfolding DoAAR_def
  proof (rule runs_bind [OF runs_arg_wi [OF o(1,2)]], unfold arr_body, rule runs_bind)
    fix t assume t: "minv c t" "stk_frame s t" "opstack t = opstack s"
    show "runs c dppop t a (is @ bs @ rest)"
      unfolding a_def using t o stk_frame_fields(1) [OF t(2)] by (intro runs_dppop) simp_all
    fix u assume u: "minv c u" "stk_frame t u" "opstack u = is @ bs @ rest"
    have su: "stk_frame s u" by (rule stk_frame_trans [OF t(2) u(2)])
    have si: "runs c (spop n) u i (bs @ rest)"
      unfolding i_def using o(2,5,7) stk_frame_fields(1) [OF su] by (intro sgn.pop_runs u) simp_all
    show "gives c (bindM (spop n) (\<lambda>index. bindM (mem_lds a n) (\<lambda>low.
        bindM dppop (\<lambda>b. thenM (arr_check a n index (slong (index - low)))
          (bindM (mem_lds (ulong (a + 2 * n)) n) (\<lambda>obj_size. bindM (arg_o obj_size) (\<lambda>obj_size.
            let p = ulong (b + slong (slong (index - low) * obj_size)) in seqM [spoilFRA, dppush p]))))))) u
        (if P then Inl EARRAY else Inr ()) (if P then rest else le_bytes (nat (psize c)) (base + (i - low) * sz) @ rest)"
    proof (rule runs_bind [OF si], rule runs_bind)
      fix v assume v: "minv c v" "stk_frame u v" "opstack v = bs @ rest"
      have sv: "stk_frame s v" by (rule stk_frame_trans [OF su v(2)])
      have "runs c (mem_lds a n) v (sval (rd_bytes (data s) a (nat n))) (opstack v)"
        using o w(4) v(3) by (intro descr_load [OF o(1,9) v(1) sv]) simp_all
      then show "runs c (mem_lds a n) v low (bs @ rest)" using d(1) v(3) by (simp add: descr_def a_def)
      fix x assume x: "minv c x" "stk_frame v x" "opstack x = bs @ rest"
      have sx: "stk_frame s x" by (rule stk_frame_trans [OF sv x(2)])
      have b: "runs c dppop x base rest"
        unfolding base_def using x o(6,7) stk_frame_fields(1) [OF sx] by (intro runs_dppop) simp_all
      show "gives c (bindM dppop (\<lambda>b. thenM (arr_check a n i (slong (i - low)))
          (bindM (mem_lds (ulong (a + 2 * n)) n) (\<lambda>obj_size. bindM (arg_o obj_size) (\<lambda>obj_size.
            let p = ulong (b + slong (slong (i - low) * obj_size)) in seqM [spoilFRA, dppush p]))))) x
        (if P then Inl EARRAY else Inr ()) (if P then rest else le_bytes (nat (psize c)) (base + (i - low) * sz) @ rest)"
        unfolding df
      proof (rule runs_bind [OF b])
        fix y assume y: "minv c y" "stk_frame x y" "opstack y = rest"
        have sy: "stk_frame s y" by (rule stk_frame_trans [OF sx y(2)])
        have f: "fits s (nat (psize c) + length (opstack y))"
          using o(8) by (rule fits_mono) (use o(3,6) y(3) in simp)
        have h: "length (opstack y) \<le> length (opstack s)" "\<bar>i - low\<bar> \<le> 2 ^ 32" "descr s a n 2 = sz"
          "P = (must_test s \<and> \<not> ignored EARRAY s \<and> (i - low < 0 \<or> descr s a n 1 < i))"
          using o(3) y(3) lo d by (simp_all add: P_def a_def)
        show "gives c (thenM (arr_check a n i (i - low))
            (bindM (mem_lds (ulong (a + 2 * n)) n) (\<lambda>obj_size. bindM (arg_o obj_size) (\<lambda>obj_size.
              let p = ulong (base + slong ((i - low) * obj_size)) in seqM [spoilFRA, dppush p])))) y
          (if P then Inl EARRAY else Inr ()) (if P then rest else le_bytes (nat (psize c)) (base + (i - low) * sz) @ rest)"
          using gives_arr_end [OF o(1,9) y(1) sy h(1) o(2,12,10,11) _ _ _ f h(2,4), unfolded h(3) y(3), OF z] .
      qed
    qed
  qed
  then show ?thesis unfolding P_def [symmetric] by (cases P) simp_all
qed


text \<open>The descriptor \<open>(1, 9, 2)\<close> that the EM definition prescribes for an array with bounds 1 and 10: the
  index 4 is accepted, the index 10 refused.\<close>

definition array_sample :: "byte \<Rightarrow> mach" where
  "array_sample i = (sample [40, 0, i, 0, 60, 0])\<lparr>data := upd_bytes (\<lambda>_. 0) 40 [1, 0, 9, 0, 2, 0]\<rparr>"

lemma array_sample_ops: "arr_ops sample_prog (array_sample i) 2 [40, 0] [i, 0] [60, 0] []"
proof -
  have o: "opstack (array_sample i) = [40, 0, i, 0, 60, 0]"
    using opstack_sample [of "[40, 0, i, 0, 60, 0]"] by (simp add: array_sample_def opstack_def)
  have "minv sample_prog (array_sample i)" unfolding array_sample_def minv_update by simp
  then show ?thesis
    unfolding arr_ops_def using o
    by (simp add: wi_size_def, simp add: array_sample_def lb_depth_def fits_def)
qed

lemma array_sample_descr:
  "descr (array_sample i) 40 2 0 = 1" "descr (array_sample i) 40 2 1 = 9" "descr (array_sample i) 40 2 2 = 2"
proof -
  have "rd_bytes (data (array_sample i)) 40 2 = [1, 0]" "rd_bytes (data (array_sample i)) 42 2 = [9, 0]"
    "rd_bytes (data (array_sample i)) 44 2 = [2, 0]"
    by (simp_all add: array_sample_def rd_bytes_def upd_bytes_def upt_rec)
  moreover have "sval [1, 0] = 1" "sval [9, 0] = 9" "sval [2, 0] = 2" by code_simp+
  ultimately show "descr (array_sample i) 40 2 0 = 1" "descr (array_sample i) 40 2 1 = 9"
    "descr (array_sample i) 40 2 2 = 2"
    by (simp_all add: descr_def)
qed

theorem aar_witness:
  "runs sample_prog (DoAAR 2) (array_sample 4) () [66, 0]
    \<and> raises sample_prog (DoAAR 2) (array_sample 10) EARRAY []"
proof -
  have v: "uval [40, 0] = 40" "uval [60, 0] = 60" "sval [4, 0] = 4" "sval [10, 0] = 10" "le_bytes 2 66 = [66, 0]"
    by code_simp+
  have m: "must_test (array_sample i)" "\<not> ignored EARRAY (array_sample i)" "2 \<le> max_off sample_prog" for i
    by (simp_all add: array_sample_def ignored_def, simp add: sample_defs)
  show ?thesis
    using aar_spec [OF array_sample_ops refl refl refl, of 4] aar_spec [OF array_sample_ops refl refl refl, of 10] m
    by (simp add: v array_sample_descr array_sample_descr(2) [unfolded One_nat_def])
qed

end
