(* ===== verification/Sets.thy ===== *)
theory Sets
  imports Sample
begin

text \<open>
  Bit sets: \<open>util/int/do_sets.c\<close>.
\<close>

section \<open>Operations\<close>

text \<open>\<open>bitno / 8\<close> and \<open>bitno % 8\<close>, the latter made non-negative.\<close>

definition set_wordoff :: "int \<Rightarrow> int" where
  "set_wordoff bitno = bitno sdiv 8"

definition set_bitoff :: "int \<Rightarrow> int" where
  "set_bitoff bitno = (let bitoff = bitno smod 8 in if bitoff < 0 then bitoff + 8 else bitoff)"

definition bit_test :: "size \<Rightarrow> unit M" where
  "bit_test w = bindM swpop (\<lambda>v.
     let bitno = c_int v; wordoff = set_wordoff bitno; bitoff = set_bitoff bitno in seqM [
       withM (\<lambda>s. whenM (must_test s \<and> \<not> ignored ESET s) (whenM (wordoff \<ge> w) (trap ESET))),
       withM (\<lambda>s. bindM (rd_stack (ulong (SP s + wordoff))) (\<lambda>test_byte. seqM [
         st_dec w,
         wpush (if btos test_byte AND BIT (nat bitoff) \<noteq> 0 then 1 else 0)]))])"

text \<open>\<open>while (--nbytes >= 0) st_stn(SP + nbytes, 0L, 1L);\<close>\<close>

primrec zero_loop :: "nat \<Rightarrow> unit M" where
  "zero_loop 0 = returnM ()"
| "zero_loop (Suc k) = thenM (withM (\<lambda>s. st_stn (ulong (SP s + int k)) 0 1)) (zero_loop k)"

definition create_set :: "size \<Rightarrow> unit M" where
  "create_set w = bindM swpop (\<lambda>v.
     let bitno = c_int v; wordoff = set_wordoff bitno; bitoff = set_bitoff bitno in seqM [
       st_inc w,
       zero_loop (nat w),
       withM (\<lambda>s. whenM (must_test s \<and> \<not> ignored ESET s) (whenM (wordoff \<ge> w) (trap ESET))),
       withM (\<lambda>s. st_stn (ulong (SP s + wordoff)) (BIT (nat bitoff)) 1)])"

definition DoINN :: "size \<Rightarrow> unit M" where
  "DoINN l = seqM [spoilFRA, bindM (arg_w l) bit_test]"

definition DoSET :: "size \<Rightarrow> unit M" where
  "DoSET l = seqM [spoilFRA, bindM (arg_w l) create_set]"

section \<open>The invariant\<close>

lemma keeps_zero_loop [keeps_rules]: "keeps (minv c) (zero_loop k) anyR"
proof (induction k)
  case (Suc k)
  show ?case unfolding zero_loop.simps by (rule keeps_rules Suc)+
qed (simp only: zero_loop.simps keeps_return)

lemma keeps_sets [keeps_rules]:
  "keeps (minv c) (DoINN n) anyR" "keeps (minv c) (DoSET n) anyR"
  unfolding DoINN_def DoSET_def bit_test_def create_set_def Let_def
  by (rule keeps_rules | simp)+

end
