(* ===== verification/Convert.thy ===== *)
theory Convert
  imports Sample
begin

text \<open>
  Conversions between integers and unsigneds of different sizes: \<open>util/int/do_conv.c\<close>, without
  the conversions to and from floating numbers.  The sizes are on the stack, the new size on top.
\<close>

section \<open>Operations\<close>

text \<open>\<open>register int newsize = swpop(); spoilFRA(); switch ((int)(10 * swpop() + newsize))\<close>\<close>

definition conv_sizes :: "int M" where
  "conv_sizes = bindM swpop (\<lambda>n. thenM spoilFRA (bindM swpop (\<lambda>m.
     returnM (c_int (slong (slong (10 * m) + c_int n))))))"

text \<open>\<open>if (wsize == 4) { wtrap(WILLCONV, EILLINS); }\<close>\<close>

definition no_wsize4 :: "unit M" where
  "no_wsize4 = withM (\<lambda>s. whenM (wsize s = 4) (wtrap WILLCONV EILLINS))"

definition ch_conv :: "bool \<Rightarrow> unit M" where
  "ch_conv bad = withM (\<lambda>s. whenM (must_test s \<and> \<not> ignored ECONV s) (whenM bad (trap ECONV)))"

definition DoCII :: "unit M" where
  "DoCII = bindM conv_sizes (\<lambda>k.
     if k = 12 then seqM [no_wsize4, bindM (spop 1) (\<lambda>v. npush v 2)]
     else if k = 14 then bindM (spop 1) (\<lambda>v. npush v 4)
     else if k = 22 then no_wsize4
     else if k = 24 then bindM (spop 2) (\<lambda>v. npush v 4)
     else if k = 42 then seqM [no_wsize4, bindM (spop 4) (\<lambda>s. seqM [
       ch_conv (s < - 32768 \<or> s > 32767), npush s 2])]
     else if k = 44 then returnM ()
     else wtrap WILLCONV EILLINS)"

definition DoCUI :: "unit M" where
  "DoCUI = bindM conv_sizes (\<lambda>k.
     if k = 22 then seqM [no_wsize4, bindM (upop 2) (\<lambda>u. seqM [
       ch_conv (u > 32767), npush (slong u) 2])]
     else if k = 24 then seqM [no_wsize4, bindM (upop 2) (\<lambda>u. npush (slong u) 4)]
     else if k = 42 then seqM [no_wsize4, bindM (upop 4) (\<lambda>u. seqM [
       ch_conv (u > 32767), npush (slong u) 2])]
     else if k = 44 then bindM (upop 4) (\<lambda>u. seqM [
       ch_conv (u > 2147483647), npush (slong u) 4])
     else wtrap WILLCONV EILLINS)"

definition DoCIU :: "unit M" where
  "DoCIU = bindM conv_sizes (\<lambda>k.
     if k = 22 then no_wsize4
     else if k = 24 then seqM [no_wsize4, bindM (upop 2) (\<lambda>u. npush (slong u) 4)]
     else if k = 42 then seqM [no_wsize4, bindM (upop 4) (\<lambda>u. npush (slong u) 2)]
     else if k = 44 then returnM ()
     else wtrap WILLCONV EILLINS)"

definition DoCUU :: "unit M" where
  "DoCUU = bindM conv_sizes (\<lambda>k.
     if k = 22 then no_wsize4
     else if k = 24 then seqM [no_wsize4, bindM (upop 2) (\<lambda>u. npush (slong u) 4)]
     else if k = 42 then seqM [no_wsize4, bindM (upop 4) (\<lambda>u. npush (slong u) 2)]
     else if k = 44 then returnM ()
     else wtrap WILLCONV EILLINS)"

section \<open>The invariant\<close>

text \<open>Objects of 1, 2 and 4 bytes.\<close>

lemma pop_size_124:
  assumes "minv c s"
  shows "pop_size c 1" "pop_size c 2" "pop_size c 4"
proof -
  consider "wsize c = 2" | "wsize c = 4" using minv_caps(1) [OF assms] by blast
  then show "pop_size c 1" "pop_size c 2" "pop_size c 4"
    by (cases; simp add: pop_size_def wmult_def)+
qed

lemma keeps_with_size:
  assumes "\<And>s. minv c s \<Longrightarrow> pop_size c n" and "pop_size c n \<Longrightarrow> keeps (minv c) m R"
  shows "keeps (minv c) m R"
  using assms unfolding keeps_def by blast

lemma keeps_size_ops [keeps_rules]:
  "keeps (minv c) (spop 1) anyR" "keeps (minv c) (spop 2) anyR" "keeps (minv c) (spop 4) anyR"
  "keeps (minv c) (upop 2) anyR" "keeps (minv c) (upop 4) anyR"
  "keeps (minv c) (npush v 2) anyR" "keeps (minv c) (npush v 4) anyR"
  by (rule keeps_with_size [OF pop_size_124(1)], assumption, rule keeps_rules, assumption)
    (rule keeps_with_size [OF pop_size_124(2)] keeps_with_size [OF pop_size_124(3)], assumption,
      rule keeps_rules, assumption)+

lemma keeps_conv_aux [keeps_rules]:
  "keeps (minv c) conv_sizes anyR" "keeps (minv c) no_wsize4 anyR" "keeps (minv c) (ch_conv b) anyR"
  unfolding conv_sizes_def no_wsize4_def ch_conv_def by (rule keeps_rules TrueI)+

lemma keeps_convert [keeps_rules]:
  "keeps (minv c) DoCII anyR" "keeps (minv c) DoCUI anyR" "keeps (minv c) DoCIU anyR"
  "keeps (minv c) DoCUU anyR"
  unfolding DoCII_def DoCUI_def DoCIU_def DoCUU_def
  by (rule keeps_size_ops keeps_rules TrueI)+

end
