(* ===== verification/Floats.thy ===== *)
theory Floats
  imports Convert
begin

text \<open>
  Floating point: \<open>util/int/do_fpar.c\<close>, the floating conversions of \<open>do_conv.c\<close>, the
  floating comparison of \<open>do_comp.c\<close>, \<open>ZRF\<close> of \<open>do_incdec.c\<close>, and the routines of
  \<open>data.c\<close> and \<open>stack.c\<close> that store, load, push and pop floating numbers.  A
  \<open>double\<close> of the host is its 64-bit representation, least significant byte first in memory;
  the host's arithmetic on it is the record \<open>fpu\<close> that every definition takes as an argument,
  and nothing is assumed about it.
\<close>

type_synonym double = "64 word"

record fpu =
  f_add :: "double \<Rightarrow> double \<Rightarrow> double"
  f_sub :: "double \<Rightarrow> double \<Rightarrow> double"
  f_mul :: "double \<Rightarrow> double \<Rightarrow> double"
  f_div :: "double \<Rightarrow> double \<Rightarrow> double"
  f_neg :: "double \<Rightarrow> double"
  f_lt :: "double \<Rightarrow> double \<Rightarrow> bool"
  f_le :: "double \<Rightarrow> double \<Rightarrow> bool"
  f_eq :: "double \<Rightarrow> double \<Rightarrow> bool"
  f_of_long :: "long \<Rightarrow> double"
  f_to_long :: "double \<Rightarrow> long option"   \<comment> \<open>undefined out of range\<close>
  f_to_ulong :: "double \<Rightarrow> int option"
  f_to_float :: "double \<Rightarrow> 32 word"
  f_of_float :: "32 word \<Rightarrow> double"
  MAXDOUBLE :: double

definition WBADFLOAT :: int where "WBADFLOAT = 7"
definition WLFEXP :: int where "WLFEXP = 45"

section \<open>Storing, loading, pushing and popping\<close>

text \<open>The bytes of the \<open>double\<close> or, for size 4, of the \<open>float\<close>.\<close>

definition fl_bytes :: "fpu \<Rightarrow> double \<Rightarrow> size \<Rightarrow> byte list" where
  "fl_bytes F f n = (if c_int n = 4 then le_bytes 4 (uint (f_to_float F f)) else le_bytes 8 (uint f))"

definition fl_val :: "fpu \<Rightarrow> byte list \<Rightarrow> size \<Rightarrow> double" where
  "fl_val F bs n = (if c_int n = 4 then f_of_float F (word_of_int (uval bs)) else word_of_int (uval bs))"

primrec put_bytes :: "(ptr \<Rightarrow> byte \<Rightarrow> unit M) \<Rightarrow> byte list \<Rightarrow> ptr \<Rightarrow> unit M" where
  "put_bytes put [] addr = returnM ()"
| "put_bytes put (b # bs) addr = thenM (put addr b) (put_bytes put bs (ulong (addr + 1)))"

primrec get_bytes :: "(ptr \<Rightarrow> byte M) \<Rightarrow> nat \<Rightarrow> ptr \<Rightarrow> byte list M" where
  "get_bytes rd 0 addr = returnM []"
| "get_bytes rd (Suc k) addr = bindM (rd addr) (\<lambda>b. bindM (get_bytes rd k (ulong (addr + 1)))
     (\<lambda>bs. returnM (b # bs)))"

definition dt_stf :: "fpu \<Rightarrow> ptr \<Rightarrow> double \<Rightarrow> size \<Rightarrow> unit M" where
  "dt_stf F addr f n = seqM [
     ch_in_data addr n,
     ch_wordaligned addr,
     put_bytes (dt_put SH_FLOAT) (take (nat (c_int n)) (fl_bytes F f n)) addr]"

definition st_stf :: "fpu \<Rightarrow> ptr \<Rightarrow> double \<Rightarrow> size \<Rightarrow> unit M" where
  "st_stf F addr f n = seqM [
     ch_in_stack addr n,
     ch_wordaligned addr,
     put_bytes (st_put SH_FLOAT) (take (nat (c_int n)) (fl_bytes F f n)) addr]"

definition st_ldf :: "fpu \<Rightarrow> ptr \<Rightarrow> size \<Rightarrow> double M" where
  "st_ldf F addr n = thenM (seqM [
     ch_in_stack addr n,
     ch_wordaligned addr,
     expect rd_stack_sh addr n SH_FLOAT WLFEXP])
     (bindM (get_bytes rd_stack (nat (c_int n)) addr) (\<lambda>bs. returnM (fl_val F bs n)))"

definition fpop :: "fpu \<Rightarrow> size \<Rightarrow> double M" where
  "fpop F n = withM (\<lambda>s. bindM (st_ldf F (SP s) n) (\<lambda>d. thenM (decSP n) (returnM d)))"

definition fpush :: "fpu \<Rightarrow> double \<Rightarrow> size \<Rightarrow> unit M" where
  "fpush F f n = seqM [incSP n, withM (\<lambda>s. st_stf F (SP s) f n)]"

section \<open>Arithmetic (\<open>do_fpar.c\<close>)\<close>

abbreviation lit :: "fpu \<Rightarrow> long \<Rightarrow> double" where
  "lit F k \<equiv> f_of_long F k"

definition SMALL :: "fpu \<Rightarrow> double" where
  "SMALL F = f_div F (lit F 1) (MAXDOUBLE F)"

definition fabs :: "fpu \<Rightarrow> double \<Rightarrow> double" where
  "fabs F f = (if f_lt F f (lit F 0) then f_neg F f else f)"

definition adf :: "fpu \<Rightarrow> double \<Rightarrow> double \<Rightarrow> double M" where
  "adf F f1 f2 = withM (\<lambda>s. thenM (whenM (must_test s \<and> \<not> ignored EFOVFL s)
       (if f_lt F (lit F 0) f1 \<and> f_lt F (lit F 0) f2
        then whenM (f_lt F (f_sub F (MAXDOUBLE F) f1) f2) (trap EFOVFL)
        else if f_lt F f1 (lit F 0) \<and> f_lt F f2 (lit F 0)
        then whenM (f_lt F f2 (f_neg F (f_add F (MAXDOUBLE F) f1))) (trap EFOVFL)
        else returnM ()))
     (returnM (f_add F f1 f2)))"

definition sbf :: "fpu \<Rightarrow> double \<Rightarrow> double \<Rightarrow> double M" where
  "sbf F f1 f2 = withM (\<lambda>s. thenM (whenM (must_test s \<and> \<not> ignored EFOVFL s)
       (if f_lt F f2 (lit F 0) \<and> f_lt F (lit F 0) f1
        then whenM (f_lt F (f_sub F (MAXDOUBLE F) f1) (f_neg F f2)) (trap EFOVFL)
        else if f_lt F (lit F 0) f2 \<and> f_lt F f1 (lit F 0)
        then whenM (f_lt F f1 (f_sub F f2 (MAXDOUBLE F))) (trap EFOVFL)
        else returnM ()))
     (returnM (f_sub F f1 f2)))"

definition mlf :: "fpu \<Rightarrow> double \<Rightarrow> double \<Rightarrow> double M" where
  "mlf F f1 f2 = withM (\<lambda>s. let ff1 = fabs F f1; ff2 = fabs F f2; one = lit F 1 in
     if f_eq F f1 (lit F 0) \<or> f_eq F f2 (lit F 0) then returnM (lit F 0)
     else if f_le F one ff1 \<and> f_le F ff2 one \<or> f_le F one ff2 \<and> f_le F ff1 one then returnM (f_mul F f1 f2)
     else if (must_test s \<and> \<not> ignored EFUNFL s) \<and> f_lt F ff1 one \<and> f_lt F ff2 one
     then if f_lt F ff2 (f_div F (SMALL F) ff1) then trap EFUNFL else returnM (f_mul F f1 f2)
     else thenM (whenM (must_test s \<and> \<not> ignored EFOVFL s)
         (whenM (f_lt F (f_div F (MAXDOUBLE F) ff1) ff2) (trap EFOVFL)))
       (returnM (f_mul F f1 f2)))"

definition dvf :: "fpu \<Rightarrow> double \<Rightarrow> double \<Rightarrow> double M" where
  "dvf F f1 f2 = withM (\<lambda>s. let ff1 = fabs F f1; ff2 = fabs F f2; one = lit F 1 in
     if f_eq F f2 (lit F 0) then (if \<not> ignored EFDIVZ s then trap EFDIVZ else returnM (lit F 0))
     else if f_eq F f1 (lit F 0) then returnM (lit F 0)
     else if f_le F one ff2 \<and> f_le F one ff1 \<or> f_le F ff1 one \<and> f_le F ff2 one then returnM (f_div F f1 f2)
     else if (must_test s \<and> \<not> ignored EFUNFL s) \<and> f_lt F one ff2 \<and> f_lt F ff1 one
     then if f_lt F ff1 (f_div F (SMALL F) ff2) then trap EFUNFL else returnM (f_div F f1 f2)
     else thenM (whenM (must_test s \<and> \<not> ignored EFOVFL s)
         (whenM (f_lt F (f_mul F (MAXDOUBLE F) ff2) ff1) (trap EFOVFL)))
       (returnM (f_div F f1 f2)))"

text \<open>A loop over values of the host; on an infinity some never end.\<close>

definition loopM :: "('a \<Rightarrow> bool) \<Rightarrow> ('a \<Rightarrow> 'a) \<Rightarrow> 'a \<Rightarrow> 'a M" where
  "loopM b f x = (\<lambda>s. case while_option b f x of Some y \<Rightarrow> Ok y s | None \<Rightarrow> Diverge)"

definition floor_fl :: "fpu \<Rightarrow> double \<Rightarrow> double M" where
  "floor_fl F f0 =
     (let neg = f_lt F f0 (lit F 0); f = (if neg then f_neg F f0 else f0) in
      bindM (loopM (\<lambda>d. f_le F d (f_sub F f d)) (\<lambda>d. f_mul F d (lit F 2)) (lit F 1)) (\<lambda>d.
      bindM (loopM (\<lambda>(res, d). f_le F (lit F 1) d)
          (\<lambda>(res, d). (if f_le F (f_add F res d) f then f_add F res d else res, f_div F d (lit F 2)))
          (lit F 0, d)) (\<lambda>(res, d).
      if neg then (let res = f_neg F res; f = f_neg F f in
        returnM (if f_lt F f res then f_sub F res (lit F 1) else res))
      else returnM res)))"

definition fif :: "fpu \<Rightarrow> double \<Rightarrow> double \<Rightarrow> size \<Rightarrow> unit M" where
  "fif F f1 f2 n = bindM (mlf F f1 f2) (\<lambda>f. bindM (floor_fl F (fabs F f)) (\<lambda>fl. seqM [
     fpush F (f_sub F (fabs F f) fl) n,
     fpush F (if f_lt F f (lit F 0) then f_neg F fl else fl) n]))"

definition fef :: "fpu \<Rightarrow> double \<Rightarrow> size \<Rightarrow> unit M" where
  "fef F f n =
     (let sg = f_lt F f (lit F 0) in
      if f_eq F f (lit F 0) then seqM [fpush F f n, wpush 0]
      else bindM (loopM (\<lambda>(f, e). f_le F (lit F 1) f) (\<lambda>(f, e). (f_div F f (lit F 2), e + 1)) (fabs F f, 0))
        (\<lambda>fe. bindM (loopM (\<lambda>(f, e). f_lt F f (f_div F (lit F 1) (lit F 2)))
            (\<lambda>(f, e). (f_mul F f (lit F 2), e - 1)) fe) (\<lambda>(f, e). seqM [
          fpush F (if sg then f_neg F f else f) n,
          wpush e])))"

definition DoADF :: "fpu \<Rightarrow> size \<Rightarrow> unit M" where
  "DoADF F l = bindM (arg_wf l) (\<lambda>l. bindM (fpop F l) (\<lambda>t. seqM [spoilFRA,
     bindM (fpop F l) (\<lambda>w. bindM (adf F w t) (\<lambda>r. fpush F r l))]))"

definition DoSBF :: "fpu \<Rightarrow> size \<Rightarrow> unit M" where
  "DoSBF F l = bindM (arg_wf l) (\<lambda>l. bindM (fpop F l) (\<lambda>t. seqM [spoilFRA,
     bindM (fpop F l) (\<lambda>w. bindM (sbf F w t) (\<lambda>r. fpush F r l))]))"

definition DoMLF :: "fpu \<Rightarrow> size \<Rightarrow> unit M" where
  "DoMLF F l = bindM (arg_wf l) (\<lambda>l. bindM (fpop F l) (\<lambda>t. seqM [spoilFRA,
     bindM (fpop F l) (\<lambda>w. bindM (mlf F w t) (\<lambda>r. fpush F r l))]))"

definition DoDVF :: "fpu \<Rightarrow> size \<Rightarrow> unit M" where
  "DoDVF F l = bindM (arg_wf l) (\<lambda>l. bindM (fpop F l) (\<lambda>t. seqM [spoilFRA,
     bindM (fpop F l) (\<lambda>w. bindM (dvf F w t) (\<lambda>r. fpush F r l))]))"

definition DoNGF :: "fpu \<Rightarrow> size \<Rightarrow> unit M" where
  "DoNGF F l = bindM (arg_wf l) (\<lambda>l. bindM (fpop F l) (\<lambda>t. seqM [spoilFRA, fpush F (f_neg F t) l]))"

definition DoFIF :: "fpu \<Rightarrow> size \<Rightarrow> unit M" where
  "DoFIF F l = bindM (arg_wf l) (\<lambda>l. bindM (fpop F l) (\<lambda>t. seqM [spoilFRA,
     bindM (fpop F l) (\<lambda>w. fif F w t l)]))"

definition DoFEF :: "fpu \<Rightarrow> size \<Rightarrow> unit M" where
  "DoFEF F l = seqM [spoilFRA, bindM (arg_wf l) (\<lambda>l. bindM (fpop F l) (\<lambda>t. fef F t l))]"

definition DoCMF :: "fpu \<Rightarrow> size \<Rightarrow> unit M" where
  "DoCMF F l = bindM (arg_wf l) (\<lambda>l. bindM (fpop F l) (\<lambda>t. bindM (fpop F l) (\<lambda>s. seqM [spoilFRA,
     wpush (if f_lt F t s then 1 else if f_lt F s t then - 1 else 0)])))"

definition DoZRF :: "fpu \<Rightarrow> size \<Rightarrow> unit M" where
  "DoZRF F l = seqM [spoilFRA, bindM (arg_wf l) (fpush F (lit F 0))]"

section \<open>Reading a floating number (\<open>str2double\<close>)\<close>

text \<open>\<open>while (n > 0) f = mlf(f, 10.0)\<close>, and likewise with \<open>dvf\<close> for negative \<open>n\<close>.\<close>

primrec ttttp_loop :: "(double \<Rightarrow> double M) \<Rightarrow> nat \<Rightarrow> double \<Rightarrow> double M" where
  "ttttp_loop op 0 f = returnM f"
| "ttttp_loop op (Suc n) f = bindM (op f) (ttttp_loop op n)"

definition ttttp :: "fpu \<Rightarrow> double \<Rightarrow> int \<Rightarrow> double M" where
  "ttttp F f n = (if n > 0 then ttttp_loop (\<lambda>f. mlf F f (lit F 10)) (nat n) f
     else ttttp_loop (\<lambda>f. dvf F f (lit F 10)) (nat (- n)) f)"

definition bad_float :: "'a M" where
  "bad_float = fatalM (F_load ''Float garbled in loadfile'')"

definition digit_val :: "byte \<Rightarrow> int option" where
  "digit_val b = (if 48 \<le> uint b \<and> uint b \<le> 57 then Some (uint b - 48) else None)"

text \<open>The loop over the mantissa; the value is the rest of the string after an \<open>e\<close>.\<close>

fun mantissa_loop :: "fpu \<Rightarrow> byte list \<Rightarrow> int \<Rightarrow> double \<Rightarrow> (double \<times> byte list option) M" where
  "mantissa_loop F [] frac m = returnM (m, None)"
| "mantissa_loop F (b # bs) frac m =
     (if b = 101 \<or> b = 69 then returnM (m, Some bs)
      else if b = 46 then (if frac = 0 then mantissa_loop F bs 1 m else bad_float)
      else case digit_val b of
        None \<Rightarrow> bad_float
      | Some d \<Rightarrow>
          if frac \<noteq> 0
          then bindM (ttttp F (lit F d) (- frac)) (\<lambda>v. bindM (adf F m v) (\<lambda>m.
            mantissa_loop F bs (frac + 1) m))
          else bindM (mlf F m (lit F 10)) (\<lambda>v. bindM (adf F v (lit F d)) (\<lambda>m.
            mantissa_loop F bs 0 m)))"

fun exponent_loop :: "byte list \<Rightarrow> int \<Rightarrow> int M" where
  "exponent_loop [] ex = returnM ex"
| "exponent_loop (b # bs) ex = (case digit_val b of
     None \<Rightarrow> bad_float
   | Some d \<Rightarrow> let ex' = 10 * ex + d in if ex' \<ge> 2 ^ 31 then undefM else exponent_loop bs ex')"

definition split_sign :: "byte list \<Rightarrow> int \<times> byte list" where
  "split_sign bs = (case bs of
     b # bs' \<Rightarrow> if b = 45 then (- 1, bs') else if b = 43 then (1, bs') else (1, bs)
   | [] \<Rightarrow> (1, []))"

definition str2double :: "fpu \<Rightarrow> byte list \<Rightarrow> double M" where
  "str2double F str = (case split_sign str of (sg, str) \<Rightarrow>
     (case str of
        [] \<Rightarrow> bad_float
      | b # bs \<Rightarrow>
          bindM (case digit_val b of
              Some d \<Rightarrow> mantissa_loop F bs 0 (lit F d)
            | None \<Rightarrow> if b = 46 then thenM (warn WBADFLOAT) (mantissa_loop F bs 1 (lit F 0)) else bad_float)
          (\<lambda>(m, rest). let m = f_mul F (lit F sg) m in
            case rest of
              None \<Rightarrow> returnM m
            | Some r \<Rightarrow> (case split_sign r of (sg, r) \<Rightarrow>
                if r = [] then bad_float
                else bindM (exponent_loop r 0) (\<lambda>ex. ttttp F m (sg * ex))))))"

section \<open>Conversions (\<open>do_conv.c\<close>)\<close>

definition to_long :: "fpu \<Rightarrow> double \<Rightarrow> long M" where
  "to_long F f = (case f_to_long F f of Some v \<Rightarrow> returnM v | None \<Rightarrow> undefM)"

definition to_ulong :: "fpu \<Rightarrow> double \<Rightarrow> int M" where
  "to_ulong F f = (case f_to_ulong F f of Some v \<Rightarrow> returnM v | None \<Rightarrow> undefM)"

text \<open>A case of \<open>DoCFI\<close>: pop \<open>n\<close> bytes, check against the range of the target, push \<open>m\<close> bytes.\<close>

definition cfi_case :: "fpu \<Rightarrow> size \<Rightarrow> long \<Rightarrow> long \<Rightarrow> size \<Rightarrow> unit M" where
  "cfi_case F n lo hi m = bindM (fpop F n) (\<lambda>f. seqM [
     withM (\<lambda>s. whenM (must_test s \<and> \<not> ignored ECONV s)
       (whenM (f_le F f (f_sub F (lit F lo) (lit F 1)) \<or> f_lt F (lit F hi) f) (trap ECONV))),
     bindM (to_long F f) (\<lambda>v. npush v m)])"

definition DoCFI :: "fpu \<Rightarrow> unit M" where
  "DoCFI F = bindM conv_sizes (\<lambda>k.
     if k = 42 then seqM [no_wsize4, cfi_case F 4 (- 32768) 32767 2]
     else if k = 44 then cfi_case F 4 (- 2147483648) 2147483647 4
     else if k = 82 then seqM [no_wsize4, cfi_case F 8 (- 32768) 32767 2]
     else if k = 84 then cfi_case F 8 (- 2147483648) 2147483647 4
     else wtrap WILLCONV EILLINS)"

definition DoCIF :: "fpu \<Rightarrow> unit M" where
  "DoCIF F = bindM conv_sizes (\<lambda>k.
     if k = 24 then seqM [no_wsize4, bindM (spop 2) (\<lambda>v. fpush F (f_of_long F v) 4)]
     else if k = 28 then seqM [no_wsize4, bindM (spop 2) (\<lambda>v. fpush F (f_of_long F v) 8)]
     else if k = 44 then bindM (spop 4) (\<lambda>v. fpush F (f_of_long F v) 4)
     else if k = 48 then bindM (spop 4) (\<lambda>v. fpush F (f_of_long F v) 8)
     else wtrap WILLCONV EILLINS)"

text \<open>The value pushed by the cases 44 and 48 of \<open>DoCUF\<close>.\<close>

definition cuf_val :: "fpu \<Rightarrow> int \<Rightarrow> double" where
  "cuf_val F u = (if u > 2147483647
     then f_sub F (f_of_long F (u - 2147483647 - 1)) (f_of_long F (- 2147483647 - 1))
     else f_of_long F u)"

definition DoCUF :: "fpu \<Rightarrow> unit M" where
  "DoCUF F = bindM conv_sizes (\<lambda>k.
     if k = 24 then seqM [no_wsize4, bindM (upop 2) (\<lambda>u. fpush F (f_of_long F u) 4)]
     else if k = 28 then seqM [no_wsize4, bindM (upop 2) (\<lambda>u. fpush F (f_of_long F u) 8)]
     else if k = 44 then bindM (upop 4) (\<lambda>u. fpush F (cuf_val F u) 4)
     else if k = 48 then bindM (upop 4) (\<lambda>u. fpush F (cuf_val F u) 8)
     else wtrap WILLCONV EILLINS)"

definition DoCFF :: "fpu \<Rightarrow> unit M" where
  "DoCFF F = bindM conv_sizes (\<lambda>k.
     if k = 44 then returnM ()
     else if k = 48 then bindM (fpop F 4) (\<lambda>f. fpush F f 8)
     else if k = 88 then returnM ()
     else if k = 84 then bindM (fpop F 8) (\<lambda>f. fpush F f 4)
     else wtrap WILLCONV EILLINS)"

definition cfu_case :: "fpu \<Rightarrow> size \<Rightarrow> size \<Rightarrow> unit M" where
  "cfu_case F n m = bindM (fpop F n) (\<lambda>f. bindM (to_ulong F f) (\<lambda>v. npush (slong v) m))"

definition DoCFU :: "fpu \<Rightarrow> unit M" where
  "DoCFU F = bindM conv_sizes (\<lambda>k.
     if k = 42 then seqM [no_wsize4, cfu_case F 4 2]
     else if k = 44 then cfu_case F 4 4
     else if k = 82 then seqM [no_wsize4, cfu_case F 8 2]
     else if k = 84 then cfu_case F 8 4
     else wtrap WILLCONV EILLINS)"

section \<open>The invariant\<close>

lemma keeps_put_bytes [keeps_rules]:
  "(\<And>a b. keeps I (put a b) anyR) \<Longrightarrow> keeps I (put_bytes put bs a) anyR"
  by (induction bs arbitrary: a) (auto intro: keeps_return keeps_then)

lemma keeps_get_bytes:
  assumes "\<And>a. keeps I (rd a) anyR"
  shows "keeps I (get_bytes rd k a) anyR"
proof (induction k arbitrary: a)
  case (Suc k)
  show ?case unfolding get_bytes.simps by (intro keeps_bind [OF assms] keeps_bind [OF Suc] keeps_return TrueI)
qed (simp only: get_bytes.simps keeps_return)

lemma keeps_fl_stores [keeps_rules]:
  "keeps (minv c) (dt_stf F a f n) anyR" "keeps (minv c) (st_stf F a f n) anyR"
  unfolding dt_stf_def st_stf_def by (rule keeps_rules)+

lemma keeps_st_ldf: "wst_free I \<Longrightarrow> keeps I (st_ldf F a n) anyR"
  unfolding st_ldf_def
  by (intro keeps_then keeps_seq_Cons keeps_seq_Nil keeps_checks keeps_expect keeps_rd
      keeps_bind [OF keeps_get_bytes] keeps_return TrueI)

lemma keeps_float_stack:
  assumes "wmult c n"
  shows "keeps (minv c) (fpop F n) anyR" "keeps (minv c) (fpush F f n) anyR"
  unfolding fpop_def fpush_def
  by (intro keeps_with keeps_bind [OF keeps_st_ldf] keeps_then keeps_decSP keeps_return assms
      keeps_seq_Cons keeps_seq_Nil keeps_incSP keeps_fl_stores wst_free_minv TrueI)+

lemma wmult_wf:
  assumes "minv c s"
  shows "wmult c 4" "wmult c 8"
proof -
  have "wsize c dvd 4" "wsize c dvd 8" using minv_caps(1) [OF assms] by auto
  then show "wmult c 4" "wmult c 8" by (simp_all add: wmult_def)
qed

lemma keeps_wf [keeps_rules]: "keeps (minv c) (arg_wf n) (\<lambda>x. x = n \<and> wmult c n)"
  unfolding keeps_def
proof (intro allI impI)
  fix s assume "minv c s"
  then show "case arg_wf n s of Ok x s' \<Rightarrow> minv c s' \<and> x = n \<and> wmult c n | Trap m s' \<Rightarrow> minv c s'
      | Fatal e s' \<Rightarrow> True | Undef \<Rightarrow> True | Diverge \<Rightarrow> True"
    using wmult_wf by (auto simp: arg_wf_def)
qed

lemma keeps_fpop48 [keeps_rules]: "keeps (minv c) (fpop F 4) anyR" "keeps (minv c) (fpop F 8) anyR"
    "keeps (minv c) (fpush F f 4) anyR" "keeps (minv c) (fpush F f 8) anyR"
  using keeps_float_stack wmult_wf unfolding keeps_def by meson+

lemma keeps_loopM [keeps_rules]: "keeps I (loopM b f x) anyR"
  by (simp add: keeps_def loopM_def split: option.split)

lemma keeps_fl_arith [keeps_rules]:
  "keeps I (adf F a b) anyR" "keeps I (sbf F a b) anyR" "keeps I (mlf F a b) anyR" "keeps I (dvf F a b) anyR"
  unfolding adf_def sbf_def mlf_def dvf_def Let_def by (rule keeps_rules TrueI)+

lemma keeps_floor_fl [keeps_rules]: "keeps I (floor_fl F f) anyR"
  unfolding floor_fl_def Let_def
  by (intro keeps_bind [OF keeps_loopM] keeps_case_prod keeps_if keeps_return TrueI)

lemma keeps_fif_fef:
  assumes "wmult c n"
  shows "keeps (minv c) (fif F a b n) anyR" "keeps (minv c) (fef F a n) anyR"
  unfolding fif_def fef_def Let_def
  by (rule keeps_bind [OF keeps_fl_arith(3)] keeps_bind [OF keeps_floor_fl] keeps_bind [OF keeps_loopM]
      keeps_case_prod keeps_if keeps_seq_Cons keeps_seq_Nil keeps_float_stack keeps_pushes assms)+

lemma keeps_fl_ops [keeps_rules]:
  "keeps (minv c) (DoADF F l) anyR" "keeps (minv c) (DoSBF F l) anyR" "keeps (minv c) (DoMLF F l) anyR"
  "keeps (minv c) (DoDVF F l) anyR" "keeps (minv c) (DoNGF F l) anyR" "keeps (minv c) (DoFIF F l) anyR"
  "keeps (minv c) (DoFEF F l) anyR" "keeps (minv c) (DoCMF F l) anyR" "keeps (minv c) (DoZRF F l) anyR"
  unfolding DoADF_def DoSBF_def DoMLF_def DoDVF_def DoNGF_def DoFIF_def DoFEF_def DoCMF_def DoZRF_def
  by (rule keeps_bind [OF keeps_wf] keeps_float_stack keeps_fif_fef keeps_fl_arith keeps_rules | simp)+

lemma keeps_to_long [keeps_rules]: "keeps I (to_long F f) anyR" "keeps I (to_ulong F f) anyR"
  by (simp_all add: keeps_def to_long_def to_ulong_def split: option.split)

lemma keeps_fl_conv [keeps_rules]:
  "keeps (minv c) (DoCFI F) anyR" "keeps (minv c) (DoCIF F) anyR" "keeps (minv c) (DoCUF F) anyR"
  "keeps (minv c) (DoCFF F) anyR" "keeps (minv c) (DoCFU F) anyR"
  unfolding DoCFI_def DoCIF_def DoCUF_def DoCFF_def DoCFU_def cfi_case_def cfu_case_def
  by (rule keeps_size_ops keeps_fpop48 keeps_rules TrueI)+

lemma keeps_ttttp [keeps_rules]: "keeps I (ttttp F f n) anyR"
proof -
  have "keeps I (ttttp_loop op k f) anyR" if "\<And>f. keeps I (op f) anyR" for op k f
  proof (induction k arbitrary: f)
    case (Suc k)
    show ?case unfolding ttttp_loop.simps by (rule keeps_bind [OF that Suc])
  qed (simp only: ttttp_loop.simps keeps_return)
  then show ?thesis unfolding ttttp_def by (intro keeps_if) (simp_all add: keeps_fl_arith)
qed

lemma keeps_bad_float [keeps_rules]: "keeps I bad_float R"
  unfolding bad_float_def by (rule keeps_fatal)

lemma keeps_case_option:
  "keeps I m R \<Longrightarrow> (\<And>d. keeps I (f d) R) \<Longrightarrow> keeps I (case x of None \<Rightarrow> m | Some d \<Rightarrow> f d) R"
  by (cases x) simp_all

lemma keeps_mantissa: "keeps I (mantissa_loop F bs frac m) anyR"
proof (induction bs arbitrary: frac m)
  case (Cons b bs)
  show ?case
    unfolding mantissa_loop.simps
    by (intro keeps_if keeps_return keeps_bad_float keeps_case_option keeps_bind [OF keeps_ttttp]
        keeps_bind [OF keeps_fl_arith(1)] keeps_bind [OF keeps_fl_arith(3)] Cons TrueI)
qed (simp only: mantissa_loop.simps keeps_return)

lemma keeps_exponent: "keeps I (exponent_loop bs ex) anyR"
proof (induction bs ex rule: exponent_loop.induct)
  case (2 b bs ex)
  then show ?case
    unfolding exponent_loop.simps
    by (cases "digit_val b") (simp_all add: keeps_bad_float keeps_undef Let_def)
qed (simp only: exponent_loop.simps keeps_return)

lemma keeps_str2double [keeps_rules]: "wst_free I \<Longrightarrow> keeps I (str2double F bs) anyR"
proof -
  assume I: "wst_free I"
  have m: "keeps I (case digit_val b of Some d \<Rightarrow> mantissa_loop F bs 0 (lit F d)
      | None \<Rightarrow> if b = 46 then thenM (warn WBADFLOAT) (mantissa_loop F bs 1 (lit F 0)) else bad_float) anyR"
    for b and bs :: "byte list"
    by (intro keeps_case_option keeps_if keeps_then keeps_warn I keeps_mantissa keeps_bad_float)
  have "keeps I (case str of [] \<Rightarrow> bad_float | b # bs \<Rightarrow>
      bindM (case digit_val b of Some d \<Rightarrow> mantissa_loop F bs 0 (lit F d)
            | None \<Rightarrow> if b = 46 then thenM (warn WBADFLOAT) (mantissa_loop F bs 1 (lit F 0)) else bad_float)
        (\<lambda>(m, rest). let m = f_mul F (lit F sg) m in
            case rest of None \<Rightarrow> returnM m
            | Some r \<Rightarrow> (case split_sign r of (sg, r) \<Rightarrow>
                if r = [] then bad_float
                else bindM (exponent_loop r 0) (\<lambda>ex. ttttp F m (sg * ex))))) anyR" for str sg
  proof (cases str)
    case (Cons b bs)
    show ?thesis
      unfolding Cons list.case Let_def
      by (intro keeps_bind [OF m] keeps_case_prod keeps_case_option keeps_return keeps_if keeps_bad_float
          keeps_bind [OF keeps_exponent] keeps_ttttp TrueI)
  qed (simp add: keeps_bad_float)
  then show ?thesis unfolding str2double_def by (intro keeps_case_prod)
qed

end
