(* ===== verification/Fra_Rsb.thy ===== *)
theory Fra_Rsb
  imports Segment
begin

text \<open>
  The function return area (\<open>util/int/fra.c\<close>), the line number and file name registers
  (\<open>putLIN\<close> and \<open>putFIL\<close> of \<open>do_misc.c\<close>) and the return status block
  (\<open>rsb.c\<close>).
\<close>

section \<open>Function return area\<close>

definition init_FRA :: "unit M" where
  "init_FRA = seqM [
     withM (\<lambda>s. bindM (Malloc (FRALimit s) ''Function Return Area'') (\<lambda>n.
       modifyM (\<lambda>s. s\<lparr>FRA := replicate (nat n) 0\<rparr>))),
     withM (\<lambda>s. bindM (Malloc (FRALimit s) ''shadowspace for Function Return Area'') (\<lambda>n.
       modifyM (\<lambda>s. s\<lparr>FRA_sh := replicate (nat n) 0\<rparr>))),
     modifyM (\<lambda>s. s\<lparr>FRA_def := UNDEFINED\<rparr>)]"

definition rd_FRA :: "int \<Rightarrow> byte M" where
  "rd_FRA i = (\<lambda>s. if 0 \<le> i \<and> i < int (length (FRA s)) then Ok (FRA s ! nat i) s else Undef)"

definition rd_FRA_sh :: "int \<Rightarrow> byte M" where
  "rd_FRA_sh i = (\<lambda>s. if 0 \<le> i \<and> i < int (length (FRA_sh s)) then Ok (FRA_sh s ! nat i) s else Undef)"

definition wr_FRA :: "int \<Rightarrow> byte \<Rightarrow> byte \<Rightarrow> unit M" where
  "wr_FRA i b f = (\<lambda>s. if 0 \<le> i \<and> i < int (length (FRA s)) \<and> i < int (length (FRA_sh s))
     then Ok () (s\<lparr>FRA := (FRA s)[nat i := b], FRA_sh := (FRA_sh s)[nat i := f]\<rparr>) else Undef)"

definition pushFRA_byte :: "int \<Rightarrow> unit M" where
  "pushFRA_byte i = seqM [
     withM (\<lambda>s. bindM (rd_FRA i) (poke_stack (ulong (SP s + i)))),
     withM (\<lambda>s. bindM (if i < FRASize s then rd_FRA_sh i else returnM SH_UNDEF) (\<lambda>f.
       wr_stack_sh f (ulong (SP s + i))))]"

definition pushFRA :: "size \<Rightarrow> unit M" where
  "pushFRA sz = (if sz = 0 then returnM () else seqM [
     withM (\<lambda>s. st_inc (max sz (wsize s))),
     forM (nat sz) 0 pushFRA_byte])"

definition popFRA_byte :: "int \<Rightarrow> unit M" where
  "popFRA_byte i = withM (\<lambda>s. bindM (rd_stack (ulong (SP s + i))) (\<lambda>b.
     bindM (rd_stack_sh (ulong (SP s + i))) (\<lambda>f. wr_FRA i b f)))"

definition popFRA :: "size \<Rightarrow> unit M" where
  "popFRA sz = (if sz = 0 then returnM () else seqM [
     forM (nat sz) 0 popFRA_byte,
     withM (\<lambda>s. st_dec (max sz (wsize s)))])"

section \<open>Line number and file name\<close>

definition LINO_AD :: ptr where "LINO_AD = 0"
definition FILN_AD :: ptr where "FILN_AD = 4"

definition putLIN :: "long \<Rightarrow> unit M" where
  "putLIN lin = seqM [
     dt_unprot LINO_AD LINSIZE,
     dt_stn LINO_AD lin LINSIZE,
     modifyM (\<lambda>s. s\<lparr>LIN := lin\<rparr>),
     dt_prot LINO_AD LINSIZE]"

definition putFIL :: "ptr \<Rightarrow> unit M" where
  "putFIL fil = seqM [
     withM (\<lambda>s. dt_unprot FILN_AD (psize s)),
     dt_stdp FILN_AD fil,
     modifyM (\<lambda>s. s\<lparr>FIL := fil\<rparr>),
     withM (\<lambda>s. dt_prot FILN_AD (psize s))]"

section \<open>Return status block\<close>

definition pushrsb :: "int \<Rightarrow> unit M" where
  "pushrsb rsbcode = seqM [
     withM (\<lambda>s. incSP (rsbsize s)),
     withM (\<lambda>s. st_stdp (ulong (SP s + rsb_FIL s)) (FIL s)),
     withM (\<lambda>s. st_prot (ulong (SP s + rsb_FIL s)) (psize s)),
     withM (\<lambda>s. st_stn (ulong (SP s + rsb_LIN s)) (LIN s) LINSIZE),
     withM (\<lambda>s. st_prot (ulong (SP s + rsb_LIN s)) LINSIZE),
     withM (\<lambda>s. st_stdp (ulong (SP s + rsb_LB s)) (LB s)),
     withM (\<lambda>s. st_prot (ulong (SP s + rsb_LB s)) (psize s)),
     withM (\<lambda>s. st_stip (ulong (SP s + rsb_PC s)) (PC s)),
     withM (\<lambda>s. st_prot (ulong (SP s + rsb_PC s)) (psize s)),
     withM (\<lambda>s. st_stn (ulong (SP s + rsb_PI s)) (PI s) (psize s)),
     withM (\<lambda>s. st_prot (ulong (SP s + rsb_PI s)) (psize s)),
     withM (\<lambda>s. st_stw (ulong (SP s + rsb_rsbcode s)) rsbcode),
     withM (\<lambda>s. st_prot (ulong (SP s + rsb_rsbcode s)) (wsize s)),
     withM (\<lambda>s. newLB (SP s))]"

text \<open>The part of \<open>poprsb\<close> that restores the registers.\<close>

definition restore_rsb :: "unit M" where
  "restore_rsb = seqM [
     withM (\<lambda>s. bindM (st_lds (ulong (SP s + rsb_PI s)) (psize s)) (\<lambda>v. modifyM (\<lambda>s. s\<lparr>PI := v\<rparr>))),
     withM (\<lambda>s. bindM (st_ldip (ulong (SP s + rsb_PC s))) newPC),
     withM (\<lambda>s. bindM (st_lddp (ulong (SP s + rsb_LB s))) newLB),
     withM (\<lambda>s. bindM (st_ldu (ulong (SP s + rsb_LIN s)) LINSIZE) (\<lambda>v. putLIN (slong v))),
     withM (\<lambda>s. bindM (st_lddp (ulong (SP s + rsb_FIL s))) putFIL),
     withM (\<lambda>s. st_dec (rsbsize s)),
     pop_frames]"

definition poprsb :: "bool \<Rightarrow> int M" where
  "poprsb rtt = thenM (seqM [
     withM (\<lambda>s. bindM (proctab_at (PI s)) (\<lambda>pr.
       let properSP = ulong (LB s - pr_nloc pr) in seqM [
         whenM (SP s < properSP) (warn (if rtt then WRTTSTL else WRETSTL)),
         whenM (SP s > properSP) (warn (if rtt then WRTTSTS else WRETSTS))])),
     withM (\<lambda>s. newSP (LB s))])
   (withM (\<lambda>s. bindM (st_lduw (ulong (SP s + rsb_rsbcode s))) (\<lambda>v. let rsbcode = c_int v in
     if rsbcode AND RSBMASK \<noteq> RSBCODE then returnM rsbcode
     else thenM (whenM (rsbcode \<noteq> RSB_STP) restore_rsb) (returnM rsbcode))))"

section \<open>The invariant\<close>

lemma keeps_FRA [keeps_rules]: "keeps I (rd_FRA i) anyR" "keeps I (rd_FRA_sh i) anyR"
    "keeps (minv c) (wr_FRA i b f) anyR"
  by (simp_all add: keeps_def rd_FRA_def rd_FRA_sh_def wr_FRA_def minv_def regs_ok_def)

lemma keeps_pushFRA [keeps_rules]: "keeps (minv c) (pushFRA sz) anyR"
  unfolding pushFRA_def pushFRA_byte_def
  by (rule keeps_bind [where R = anyR] keeps_rules TrueI)+

lemma keeps_popFRA [keeps_rules]: "keeps (minv c) (popFRA sz) anyR"
  unfolding popFRA_def popFRA_byte_def by (rule keeps_rules TrueI)+

lemma keeps_putLIN [keeps_rules]: "keeps (minv c) (putLIN l) anyR" "keeps (minv c) (putFIL p) anyR"
  unfolding putLIN_def putFIL_def by (rule keeps_rules | simp)+

lemma keeps_pushrsb [keeps_rules]: "keeps (minv c) (pushrsb code) anyR"
  unfolding pushrsb_def by (rule keeps_rules | simp add: minv_fields wmult_sizes)+

lemma keeps_restore_rsb [keeps_rules]: "keeps (minv c) restore_rsb anyR"
  unfolding restore_rsb_def by (rule keeps_rules | simp)+

lemma keeps_poprsb [keeps_rules]: "keeps (minv c) (poprsb rtt) anyR"
  unfolding poprsb_def Let_def by (rule keeps_rules | simp)+

end
