(* ===== verification/Proc.thy ===== *)
theory Proc
  imports Fra_Rsb
begin

text \<open>
  Procedure call and return: \<open>util/int/do_proc.c\<close>.
\<close>

section \<open>Operations\<close>

definition call :: "long \<Rightarrow> int \<Rightarrow> unit M" where
  "call new_PI rsbcode = bindM (proctab_at new_PI) (\<lambda>pr. seqM [
     withM (\<lambda>s. push_frame (SP s)),
     pushrsb rsbcode,
     modifyM (\<lambda>s. s\<lparr>PI := new_PI\<rparr>),
     st_inc (pr_nloc pr),
     newPC (pr_ep pr),
     spoilFRA])"

definition lfr :: "size \<Rightarrow> unit M" where
  "lfr sz = seqM [
     withM (\<lambda>s. whenM (sz > FRALimit s) (wtrap WILLLFR EILLINS)),
     withM (\<lambda>s. whenM (FRA_def s = 0) (warn WRFUNGAR)),
     withM (\<lambda>s. whenM (sz \<noteq> FRASize s) (warn (if FRASize s < sz then WRFUNSML else WRFUNLAR))),
     pushFRA sz,
     spoilFRA]"

text \<open>The \<open>switch\<close> of \<open>ret\<close> on the code of the return status block.\<close>

definition ret_switch :: "size \<Rightarrow> int \<Rightarrow> unit M" where
  "ret_switch sz code =
     (if code = RSB_STP then seqM [
        withM (\<lambda>s. whenM (sz = wsize s) (seqM [
          modifyM (\<lambda>s. s\<lparr>ES_def := DEFINED\<rparr>),
          bindM (rd_FRA (sz - 1)) (\<lambda>b. modifyM (\<lambda>s. s\<lparr>ES := btol b\<rparr>))])),
        modifyM (\<lambda>s. s\<lparr>running := False\<rparr>)]
      else if code = RSB_CAL then returnM ()
      else if code = RSB_RTT \<or> code = RSB_NRT then seqM [
        warn WRETTRAP,
        modifyM (\<lambda>s. s\<lparr>running := False\<rparr>)]
      else warn WRETBAD)"

definition ret :: "size \<Rightarrow> unit M" where
  "ret sz = seqM [
     withM (\<lambda>s. whenM (sz > FRALimit s) (wtrap WILLRET EILLINS)),
     modifyM (\<lambda>s. s\<lparr>FRA_def := DEFINED\<rparr>),
     modifyM (\<lambda>s. s\<lparr>FRASize := sz\<rparr>),
     withM (\<lambda>s. popFRA (FRASize s)),
     bindM (poprsb False) (ret_switch sz)]"

definition DoCAI :: "unit M" where
  "DoCAI = withM (\<lambda>s. bindM (spop (psize s)) (\<lambda>pi. bindM (arg_p pi) (\<lambda>pi. call pi RSB_CAL)))"

definition DoCAL :: "long \<Rightarrow> unit M" where
  "DoCAL pi = bindM (arg_p pi) (\<lambda>pi. call pi RSB_CAL)"

definition DoLFR :: "size \<Rightarrow> unit M" where
  "DoLFR l = bindM (arg_s l) lfr"

definition DoRET :: "size \<Rightarrow> unit M" where
  "DoRET l = bindM (arg_z l) ret"

section \<open>The invariant\<close>

lemma keeps_call [keeps_rules]: "keeps (minv c) (call pi code) anyR"
  unfolding call_def by (rule keeps_rules | simp)+

lemma keeps_lfr [keeps_rules]: "keeps (minv c) (lfr n) anyR"
  unfolding lfr_def by (rule keeps_rules | simp)+

text \<open>The size register is written before the area: the test of \<open>ret\<close> comes first.\<close>

lemma keeps_test_then:
  assumes "\<And>s. I s \<Longrightarrow> \<not> P s \<Longrightarrow> keeps I m R" and "wst_free I"
  shows "keeps I (thenM (withM (\<lambda>s. whenM (P s) (wtrap w t))) m) R"
  unfolding keeps_def
proof (intro allI impI)
  fix s assume s: "I s"
  show "case thenM (withM (\<lambda>s. whenM (P s) (wtrap w t))) m s of Ok x s' \<Rightarrow> I s' \<and> R x | Trap n s' \<Rightarrow> I s'
      | Fatal e s' \<Rightarrow> True | Undef \<Rightarrow> True | Diverge \<Rightarrow> True"
  proof (cases "P s")
    case True
    obtain w' where "(wtrap w t :: unit M) s = Trap t (s\<lparr>wst := w'\<rparr>)"
      using wtrap_frame [where 'a = unit] by blast
    then show ?thesis using True s assms(2) by (simp add: wst_free_def)
  next
    case False
    then show ?thesis using keepsD [OF assms(1) [OF s False] s] by simp
  qed
qed

lemma keeps_ret_switch [keeps_rules]: "keeps (minv c) (ret_switch sz code) anyR"
  unfolding ret_switch_def by (rule keeps_rules | simp)+

lemma minv_upd_FRASize:
  assumes "minv c s" and "n \<le> FRALimit c"
  shows "minv c (s\<lparr>FRASize := n\<rparr>)"
  using assms minv_fields(21) [OF assms(1)] by (simp add: minv_def regs_ok_def)

lemma keeps_ret [keeps_rules]: "keeps (minv c) (ret n) anyR"
  unfolding ret_def seqM.simps
proof (rule keeps_test_then)
  fix s assume "minv c s" "\<not> n > FRALimit s"
  then have le: "n \<le> FRALimit c" using minv_fields(21) by (metis linorder_not_less)
  show "keeps (minv c) (thenM (modifyM (\<lambda>s. s\<lparr>FRA_def := DEFINED\<rparr>)) (thenM (modifyM (\<lambda>s. s\<lparr>FRASize := n\<rparr>))
      (thenM (withM (\<lambda>s. popFRA (FRASize s)))
        (thenM (bindM (poprsb False) (ret_switch n)) (returnM ()))))) anyR"
    by (intro keeps_then keeps_modify keeps_with keeps_popFRA keeps_bind [OF keeps_poprsb]
        keeps_ret_switch keeps_return TrueI) (simp_all add: minv_upd_FRASize le)
qed simp

lemma keeps_proc_ops [keeps_rules]:
  "keeps (minv c) DoCAI anyR" "keeps (minv c) (DoCAL p) anyR" "keeps (minv c) (DoLFR n) anyR"
  "keeps (minv c) (DoRET n) anyR"
  unfolding DoCAI_def DoCAL_def DoLFR_def DoRET_def
  by (rule keeps_rules | simp add: pop_size_def minv_fields wmult_sizes)+

end
