(* ===== verification/Misc.thy ===== *)
theory Misc
  imports Proc Load_Store
begin

text \<open>
  The miscellaneous group: \<open>util/int/do_misc.c\<close>.  Only \<open>MON\<close>, which calls the
  monitor call emulation of \<open>moncalls.c\<close>, is left out here.
\<close>

section \<open>Stack pointer, block moves\<close>

definition asp :: "long \<Rightarrow> unit M" where
  "asp l = bindM (arg_f l) (\<lambda>f. withM (\<lambda>s. newSP (ulong (SP s + f))))"

definition DoASP :: "long \<Rightarrow> unit M" where
  "DoASP l = asp l"

definition DoASS :: "size \<Rightarrow> unit M" where
  "DoASS l = seqM [spoilFRA, bindM (arg_wi l) (\<lambda>l. bindM (spop l) asp)]"

definition block_move :: "ptr \<Rightarrow> ptr \<Rightarrow> size \<Rightarrow> unit M" where
  "block_move a1 a2 n = withM (\<lambda>s.
     if in_stack s a1 then (if in_stack s a2 then st_mvs a1 a2 n else st_mvd a1 a2 n)
     else (if in_stack s a2 then dt_mvs a1 a2 n else dt_mvd a1 a2 n))"

definition DoBLM :: "size \<Rightarrow> unit M" where
  "DoBLM l = seqM [spoilFRA, bindM dppop (\<lambda>dp1. bindM dppop (\<lambda>dp2.
     bindM (arg_z l) (block_move dp1 dp2)))]"

definition DoBLS :: "size \<Rightarrow> unit M" where
  "DoBLS l = seqM [spoilFRA, bindM (arg_wi l) (\<lambda>l. bindM (upop l) (\<lambda>l.
     bindM dppop (\<lambda>dp1. bindM dppop (\<lambda>dp2. bindM (arg_z (slong l)) (block_move dp1 dp2)))))]"

definition DoDUP :: "size \<Rightarrow> unit M" where
  "DoDUP arg = withM (\<lambda>s. let oldSP = SP s in seqM [
     spoilFRA,
     bindM (arg_s arg) st_inc,
     withM (\<lambda>s. st_mvs (SP s) oldSP arg)])"

definition DoDUS :: "size \<Rightarrow> unit M" where
  "DoDUS l = seqM [spoilFRA, bindM (arg_wi l) (\<lambda>l. bindM (upop l) (\<lambda>l. let l = slong l in
     withM (\<lambda>s. let oldSP = SP s in seqM [
       bindM (arg_s l) st_inc,
       withM (\<lambda>s. st_mvs (SP s) oldSP l)])))]"

definition DoEXG :: "size \<Rightarrow> unit M" where
  "DoEXG l = withM (\<lambda>s. let oldSP = SP s in seqM [
     spoilFRA,
     bindM (arg_w l) st_inc,
     withM (\<lambda>s. st_mvs (SP s) oldSP l),
     st_mvs oldSP (ulong (oldSP + l)) l,
     withM (\<lambda>s. st_mvs (ulong (oldSP + l)) (SP s) l),
     st_dec l])"

section \<open>Case jumps and range checks\<close>

definition index_jump :: "size \<Rightarrow> unit M" where
  "index_jump nbytes =
     bindM dppop (\<lambda>cdp. bindM (spop nbytes) (\<lambda>v. withM (\<lambda>s.
     bindM (mem_lds (ulong (cdp + psize s)) nbytes) (\<lambda>low. let t_index = slong (v - low) in
     bindM (if t_index \<ge> 0
       then bindM (mem_lds (ulong (cdp + nbytes + psize s)) nbytes) (\<lambda>cnt.
         if t_index \<le> cnt
         then mem_ldip (ulong (cdp + 2 * nbytes + slong (slong (t_index + 1) * psize s)))
         else returnM 0)
       else returnM 0) (\<lambda>nPC.
     bindM (if nPC = 0 then mem_ldip cdp else returnM nPC) (\<lambda>nPC.
     if nPC = 0 then trap ECASE else newPC nPC))))))"

text \<open>\<open>while (--nt >= 0) { if (sv == \<dots>) { \<dots> return; } }\<close>; the value is the address of the
  entry that matches.\<close>

primrec search_loop :: "nat \<Rightarrow> ptr \<Rightarrow> long \<Rightarrow> size \<Rightarrow> nat option M" where
  "search_loop 0 cdp sv nbytes = returnM None"
| "search_loop (Suc nt) cdp sv nbytes = withM (\<lambda>s.
     bindM (mem_lds (ulong (cdp + (int nt + 1) * (nbytes + psize s))) nbytes) (\<lambda>v.
       if sv = v then returnM (Some nt) else search_loop nt cdp sv nbytes))"

definition search_jump :: "size \<Rightarrow> unit M" where
  "search_jump nbytes =
     bindM dppop (\<lambda>cdp. bindM (spop nbytes) (\<lambda>sv. withM (\<lambda>s.
     bindM (mem_lds (ulong (cdp + psize s)) nbytes) (\<lambda>nt.
     bindM (search_loop (nat nt) cdp sv nbytes) (\<lambda>found.
     bindM (case found of
         Some nt \<Rightarrow> mem_ldip (ulong (cdp + nbytes + (int nt + 1) * (nbytes + psize s)))
       | None \<Rightarrow> mem_ldip cdp) (\<lambda>nPC.
     if nPC = 0 then trap ECASE else newPC nPC))))))"

definition range_check :: "size \<Rightarrow> unit M" where
  "range_check nbytes =
     bindM dppop (\<lambda>rdp. withM (\<lambda>s. bindM (st_lds (SP s) nbytes) (\<lambda>cv.
       whenM (must_test s \<and> \<not> ignored ERANGE s)
         (bindM (mem_lds rdp nbytes) (\<lambda>low.
            if cv < low then trap ERANGE
            else bindM (mem_lds (ulong (rdp + nbytes)) nbytes) (\<lambda>high.
              whenM (cv > high) (trap ERANGE)))))))"

definition DoCSA :: "size \<Rightarrow> unit M" where
  "DoCSA l = seqM [spoilFRA, bindM (arg_wi l) index_jump]"

definition DoCSB :: "size \<Rightarrow> unit M" where
  "DoCSB l = seqM [spoilFRA, bindM (arg_wi l) search_jump]"

definition DoRCK :: "size \<Rightarrow> unit M" where
  "DoRCK l = seqM [spoilFRA, bindM (arg_wi l) range_check]"

section \<open>Registers\<close>

definition DoDCH :: "unit M" where
  "DoDCH = seqM [spoilFRA, bindM dppop (\<lambda>lb. seqM [
     bindM (is_LB lb) (\<lambda>b. whenM (\<not> b) (wtrap WDCHBADLB ESTACK)),
     withM (\<lambda>s. bindM (st_lddp (ulong (lb + rsb_LB s))) dppush)])]"

definition DoLPB :: "unit M" where
  "DoLPB = seqM [spoilFRA, bindM dppop (\<lambda>lb. seqM [
     bindM (is_LB lb) (\<lambda>b. whenM (\<not> b) (wtrap WLPBBADLB ESTACK)),
     withM (\<lambda>s. dppush (ulong (lb + rsbsize s)))])]"

definition DoFIL :: "int \<Rightarrow> unit M" where
  "DoFIL arg = seqM [spoilFRA,
     withM (\<lambda>s. whenM (i2p arg > HB s) (wtrap WILLFIL EILLINS)),
     bindM (arg_g (i2p arg)) putFIL]"

definition DoLIM :: "unit M" where
  "DoLIM = seqM [spoilFRA, withM (\<lambda>s. wpush (IgnMask s))]"

definition DoLIN :: "int \<Rightarrow> unit M" where
  "DoLIN l = seqM [spoilFRA, bindM (arg_lin l) (\<lambda>l. putLIN (slong l))]"

definition DoLNI :: "unit M" where
  "DoLNI = seqM [spoilFRA, withM (\<lambda>s. putLIN (slong (LIN s + 1)))]"

definition DoLOR :: "long \<Rightarrow> unit M" where
  "DoLOR l = seqM [spoilFRA, bindM (arg_r l) (\<lambda>r. withM (\<lambda>s.
     if r = 0 then dppush (LB s)
     else if r = 1 then dppush (SP s)
     else if r = 2 then dppush (HP s)
     else returnM ()))]"

definition DoSTR :: "long \<Rightarrow> unit M" where
  "DoSTR l = seqM [spoilFRA, bindM (arg_r l) (\<lambda>r.
     if r = 0 then seqM [bindM dppop newLB, pop_frames]
     else if r = 1 then bindM dppop newSP
     else if r = 2 then bindM dppop newHP
     else returnM ())]"

definition message :: "string \<Rightarrow> unit M" where
  "message m = modifyM (\<lambda>s. s\<lparr>wst := print_mess (Message m (FIL s) (LIN s)) (wst s)\<rparr>)"

definition DoNOP :: "unit M" where
  "DoNOP = seqM [spoilFRA, message ''NOP instruction'']"

section \<open>Traps\<close>

definition DoRTT :: "unit M" where
  "DoRTT = bindM (poprsb True) (\<lambda>code.
     if code = RSB_STP then seqM [warn WRTTEMPTY, modifyM (\<lambda>s. s\<lparr>running := False\<rparr>)]
     else if code = RSB_CAL then warn WRTTCALL
     else if code = RSB_RTT then seqM [
       bindM uwpop (\<lambda>_. returnM ()),
       bindM uwpop (\<lambda>v. modifyM (\<lambda>s. s\<lparr>FRA_def := c_int v\<rparr>)),
       bindM uwpop (\<lambda>v. seqM [modifyM (\<lambda>s. s\<lparr>FRASize := slong v\<rparr>), popFRA (slong v)])]
     else if code = RSB_NRT then seqM [warn WRTTNRTT, modifyM (\<lambda>s. s\<lparr>running := False\<rparr>)]
     else warn WRTTBAD)"

definition DoSIG :: "unit M" where
  "DoSIG = withM (\<lambda>s. bindM (spop (psize s)) (\<lambda>tpi. seqM [
     spoilFRA,
     withM (\<lambda>s. if OnTrap s = TR_HALT then npush (- 2) (psize s) else npush (TrapPI s) (psize s)),
     (if tpi = - 2 then modifyM (\<lambda>s. s\<lparr>OnTrap := TR_HALT, TrapPI := 0\<rparr>)
      else bindM (arg_p tpi) (\<lambda>tpi. modifyM (\<lambda>s. s\<lparr>OnTrap := TR_TRAP, TrapPI := tpi\<rparr>)))]))"

definition DoSIM :: "unit M" where
  "DoSIM = seqM [spoilFRA, bindM uwpop (\<lambda>u. modifyM (\<lambda>s. s\<lparr>IgnMask := (u OR PreIgnMask s) AND 0xFFFF\<rparr>))]"

definition DoTRP :: "unit M" where
  "DoTRP = bindM uwpop (\<lambda>u. let tr = c_uint u in seqM [spoilFRA,
     withM (\<lambda>s. whenM (tr > 15 \<or> \<not> ignored tr s) (wtrap WTRP (c_int tr)))])"

section \<open>Non-local goto\<close>

text \<open>One turn of \<open>while (old_LB < new_LB) \<dots>\<close>.\<close>

definition gto_step :: "ptr \<Rightarrow> ptr M" where
  "gto_step old_LB = thenM
     (withM (\<lambda>s. bindM (st_lds (ulong (old_LB + rsb_PI s)) (psize s)) (\<lambda>v. modifyM (\<lambda>s. s\<lparr>PI := v\<rparr>))))
     (withM (\<lambda>s. st_lddp (ulong (old_LB + rsb_LB s))))"

text \<open>The loop runs forever on a cyclic dynamic chain.\<close>

definition gto_loop :: "ptr \<Rightarrow> ptr \<Rightarrow> ptr M" where
  "gto_loop new_LB old_LB = whileM (\<lambda>lb. lb < new_LB) gto_step old_LB"

definition gto :: "ptr \<Rightarrow> unit M" where
  "gto p = withM (\<lambda>s. let old_LB = LB s in
     bindM (dt_ldip p) (\<lambda>new_PC.
     bindM (dt_lddp (ulong (p + psize s))) (\<lambda>new_SP.
     bindM (dt_lddp (ulong (p + 2 * psize s))) (\<lambda>new_LB.
     bindM (gto_loop new_LB old_LB) (\<lambda>old_LB. seqM [
       whenM (old_LB \<noteq> new_LB) (wtrap WGTORSB EBADGTO),
       newLB new_LB,
       pop_frames,
       newSP new_SP,
       newPC new_PC])))))"

definition DoGTO :: "int \<Rightarrow> unit M" where
  "DoGTO arg = bindM (arg_gto (i2p arg)) gto"

section \<open>The invariant\<close>

lemma keeps_asp [keeps_rules]: "keeps (minv c) (asp l) anyR"
  unfolding asp_def by (rule keeps_rules | simp)+

lemma keeps_block_move [keeps_rules]: "keeps (minv c) (block_move a b n) anyR"
  unfolding block_move_def by (rule keeps_rules)+

lemma keeps_moves [keeps_rules]:
  "keeps (minv c) (DoASP l) anyR" "keeps (minv c) (DoASS l) anyR" "keeps (minv c) (DoBLM l) anyR"
  "keeps (minv c) (DoBLS l) anyR" "keeps (minv c) (DoDUP l) anyR" "keeps (minv c) (DoDUS l) anyR"
  "keeps (minv c) (DoEXG l) anyR"
  unfolding DoASP_def DoASS_def DoBLM_def DoBLS_def DoDUP_def DoDUS_def DoEXG_def Let_def
  by (rule keeps_rules | simp)+

lemma keeps_any: "keeps I m R \<Longrightarrow> keeps I m anyR"
  by (rule keeps_weaken) simp_all

lemma keeps_mem_ldip_any: "keeps (minv c) (mem_ldip a) anyR"
  by (rule keeps_any [OF keeps_mem(3)])

lemma keeps_search_loop: "keeps (minv c) (search_loop nt cdp sv n) anyR"
proof (induction nt)
  case (Suc nt)
  show ?case unfolding search_loop.simps by (rule keeps_rules Suc TrueI)+
qed (simp only: search_loop.simps keeps_return)

lemma keeps_index_entry: "keeps (minv c) (if P then bindM (mem_lds a n) (\<lambda>cnt.
    if Q cnt then mem_ldip b else returnM 0) else returnM 0) anyR"
  by (rule keeps_mem_ldip_any keeps_rules TrueI)+

lemma keeps_default: "keeps (minv c) (if P then mem_ldip b else returnM x) anyR"
  by (rule keeps_mem_ldip_any keeps_rules TrueI)+

lemma keeps_search_entry:
  "keeps (minv c) (case x of Some nt \<Rightarrow> mem_ldip (f nt) | None \<Rightarrow> mem_ldip b) anyR"
  by (cases x) (simp_all add: keeps_mem_ldip_any)

lemma keeps_index_jump [keeps_rules]: "pop_size c n \<Longrightarrow> keeps (minv c) (index_jump n) anyR"
  unfolding index_jump_def Let_def
  by (rule keeps_bind [OF keeps_index_entry] keeps_bind [OF keeps_default] keeps_rules | simp)+

lemma keeps_search_jump [keeps_rules]: "pop_size c n \<Longrightarrow> keeps (minv c) (search_jump n) anyR"
  unfolding search_jump_def
  by (rule keeps_bind [OF keeps_search_loop] keeps_bind [OF keeps_search_entry] keeps_rules | simp)+

lemma keeps_range_check [keeps_rules]: "keeps (minv c) (range_check n) anyR"
  unfolding range_check_def by (rule keeps_rules | simp)+

lemma keeps_message [keeps_rules]: "keeps (minv c) (message m) anyR"
  unfolding message_def by (rule keeps_modify) simp

lemma keeps_registers [keeps_rules]:
  "keeps (minv c) (DoCSA l) anyR" "keeps (minv c) (DoCSB l) anyR" "keeps (minv c) (DoRCK l) anyR"
  "keeps (minv c) DoDCH anyR" "keeps (minv c) DoLPB anyR" "keeps (minv c) (DoFIL p) anyR"
  "keeps (minv c) DoLIM anyR" "keeps (minv c) (DoLIN l) anyR" "keeps (minv c) DoLNI anyR"
  "keeps (minv c) (DoLOR l) anyR" "keeps (minv c) (DoSTR l) anyR" "keeps (minv c) DoNOP anyR"
  unfolding DoCSA_def DoCSB_def DoRCK_def DoDCH_def DoLPB_def DoFIL_def DoLIM_def DoLIN_def DoLNI_def
    DoLOR_def DoSTR_def DoNOP_def
  by (rule keeps_rules | simp)+

lemma keeps_masks [keeps_rules]: "keeps (minv c) DoSIM anyR" "keeps (minv c) DoTRP anyR"
  unfolding DoSIM_def DoTRP_def Let_def by (rule keeps_rules | simp)+

lemma minv_OnTrap: "minv c (s\<lparr>OnTrap := t, TrapPI := p\<rparr>) = minv c s"
proof -
  have "s\<lparr>OnTrap := t, TrapPI := p\<rparr> = s\<lparr>TrapPI := p\<rparr>\<lparr>OnTrap := t\<rparr>" by simp
  then show ?thesis by (simp only: minv_update)
qed

lemma keeps_SIG [keeps_rules]: "keeps (minv c) DoSIG anyR"
  unfolding DoSIG_def
  by (rule keeps_rules | simp add: pop_size_caps minv_OnTrap)+

subsection \<open>Returning from a trap\<close>

lemma popFRA_byte_cases:
  "popFRA_byte i s = Undef \<or> i < int (length (FRA s)) \<and>
    (\<exists>f g. popFRA_byte i s = Ok () (s\<lparr>FRA := f, FRA_sh := g\<rparr>) \<and> length f = length (FRA s))"
proof (cases "stack_ok s (ulong (SP s + i)) \<and> 0 \<le> i \<and> i < int (length (FRA s)) \<and> i < int (length (FRA_sh s))")
  case True
  then have "popFRA_byte i s = Ok () (s\<lparr>FRA := (FRA s)[nat i := stack s (ulong (SP s + i))],
      FRA_sh := (FRA_sh s)[nat i := stack_sh s (ulong (SP s + i))]\<rparr>)"
    by (simp add: popFRA_byte_def rd_stack_def rd_stack_sh_def wr_FRA_def)
  then show ?thesis using True by (metis length_list_update)
next
  case False
  then show ?thesis by (auto simp: popFRA_byte_def rd_stack_def rd_stack_sh_def wr_FRA_def)
qed

lemma popFRA_loop_undef:
  assumes "0 < k" and "int (length (FRA s)) < i + int k"
  shows "forM k i popFRA_byte s = Undef"
  using assms
proof (induction k arbitrary: i s)
  case (Suc k)
  from popFRA_byte_cases [of i s] show ?case
  proof (elim disjE conjE exE)
    fix f g assume i: "i < int (length (FRA s))"
      and e: "popFRA_byte i s = Ok () (s\<lparr>FRA := f, FRA_sh := g\<rparr>)" "length f = length (FRA s)"
    have "0 < k" using Suc.prems(2) i by (cases k) simp_all
    then show ?thesis using Suc.IH [of "s\<lparr>FRA := f, FRA_sh := g\<rparr>" "i + 1"] Suc.prems e by simp
  qed simp
qed simp

lemma keeps_restore_FRA:
  "keeps (minv c) (seqM [modifyM (\<lambda>s. s\<lparr>FRASize := n\<rparr>), popFRA n]) anyR"
  unfolding keeps_def
proof (intro allI impI)
  fix s assume s: "minv c s"
  let ?t = "s\<lparr>FRASize := n\<rparr>"
  have e: "seqM [modifyM (\<lambda>s. s\<lparr>FRASize := n\<rparr>), popFRA n] s = popFRA n ?t"
    by (simp split: outcome.split)
  have l: "int (length (FRA s)) = FRALimit c" by (rule minv_regs(13) [OF s])
  show "case seqM [modifyM (\<lambda>s. s\<lparr>FRASize := n\<rparr>), popFRA n] s of Ok x s' \<Rightarrow> minv c s' \<and> True
      | Trap n s' \<Rightarrow> minv c s' | Fatal e s' \<Rightarrow> True | Undef \<Rightarrow> True | Diverge \<Rightarrow> True"
  proof (cases "n \<le> FRALimit c")
    case True
    then show ?thesis unfolding e using keepsD [OF keeps_popFRA minv_upd_FRASize [OF s True]] by simp
  next
    case False
    then have "0 < n" using l by linarith
    then have "forM (nat n) 0 popFRA_byte ?t = Undef"
      using False l by (intro popFRA_loop_undef) simp_all
    then show ?thesis unfolding e using \<open>0 < n\<close> by (simp add: popFRA_def)
  qed
qed

lemma keeps_RTT [keeps_rules]: "keeps (minv c) DoRTT anyR"
  unfolding DoRTT_def
  by (rule keeps_bind [OF keeps_poprsb], (rule keeps_if keeps_restore_FRA keeps_rules | simp only: minv_update)+)

subsection \<open>Non-local goto\<close>

lemma keeps_gto_step: "keeps (minv c) (gto_step lb) anyR"
  unfolding gto_step_def by (rule keeps_any [OF keeps_st_loads(1)] keeps_rules | simp)+

lemma keeps_gto_loop [keeps_rules]: "keeps (minv c) (gto_loop new old) anyR"
  unfolding gto_loop_def by (rule keeps_while) (rule keeps_gto_step)

lemma keeps_gto [keeps_rules]: "keeps (minv c) (gto p) anyR"
  unfolding gto_def Let_def
  by (rule keeps_bind [OF keeps_dt_loads(1)] keeps_bind [OF keeps_dt_loads(2)] keeps_rules | simp)+

lemma keeps_GTO [keeps_rules]: "keeps (minv c) (DoGTO p) anyR"
  unfolding DoGTO_def by (rule keeps_rules | simp)+

end
