(* ===== verification/Signals.thy ===== *)
theory Signals
  imports Misc
begin

text \<open>
  The host: requests to its operating system, the message file (\<open>util/int/io.c\<close>) and signals
  (\<open>m_sigtrp.c\<close>).  The operating system is the field \<open>host_os\<close> of the machine: it answers a
  request, knowing all earlier ones.  Every request and its answer is recorded in \<open>os_trace\<close>.
  The signal numbers are those of a Linux host.
\<close>

section \<open>Requests\<close>

definition os_call :: "sysreq \<Rightarrow> sysres M" where
  "os_call q = (\<lambda>s. let u = unix s; r = host_os s (os_trace u) q in
     Ok r (s\<lparr>unix := u\<lparr>os_trace := os_trace u @ [(q, r)],
       errno := (if sr_ret r = - 1 then sr_errno r else errno u)\<rparr>\<rparr>))"

definition set_errno :: "int \<Rightarrow> unit M" where
  "set_errno e = modifyM (\<lambda>s. s\<lparr>unix := (unix s)\<lparr>errno := e\<rparr>\<rparr>)"

definition efault :: "int \<Rightarrow> unit M" where
  "efault wrn = thenM (warn wrn) (set_errno 14)"

definition einval :: "int \<Rightarrow> unit M" where
  "einval wrn = thenM (warn wrn) (set_errno 22)"

section \<open>The message file\<close>

text \<open>\<open>highestfd\<close> calls itself as long as \<open>dup()\<close> yields a new descriptor of at most 99; the
  descriptors obtained so far are still open, so there are at most 100 such calls.\<close>

primrec highestfd :: "nat \<Rightarrow> int \<Rightarrow> int M" where
  "highestfd 0 fd = (\<lambda>s. Diverge)"
| "highestfd (Suc k) fd =
     bindM (os_call (Sys ''dup'' [fd] [])) (\<lambda>r. let newfd = sr_ret r in
       if newfd < 0 then returnM fd
       else if newfd > 99 then bindM (os_call (Sys ''close'' [newfd] [])) (\<lambda>_. returnM fd)
       else bindM (highestfd k newfd) (\<lambda>higherfd.
         bindM (os_call (Sys ''close'' [fd] [])) (\<lambda>_. returnM higherfd)))"

text \<open>The value says whether the file could be created.\<close>

definition fcreat_high :: "bool M" where
  "fcreat_high =
     bindM (os_call (Sys ''creat'' [420] [])) (\<lambda>r.
       if sr_ret r = - 1 then returnM False
       else bindM (highestfd 101 (sr_ret r)) (\<lambda>fd.
         bindM (os_call (Sys ''fdopen'' [fd] [])) (\<lambda>r.
           if sr_ret r = - 1 then returnM False
           else thenM (modifyM (\<lambda>s. s\<lparr>unix := (unix s)\<lparr>fd_limit := fd\<rparr>\<rparr>)) (returnM True))))"

definition init_ofiles :: "bool \<Rightarrow> unit M" where
  "init_ofiles firsttime =
     thenM (whenM (\<not> firsttime) (bindM (os_call (Sys ''fclose'' [] [])) (\<lambda>_. returnM ())))
       (bindM fcreat_high (\<lambda>ok. if ok then returnM () else fatalM (F_load ''Cannot create messagefile'')))"

section \<open>Signals\<close>

definition SIGILL :: int where "SIGILL = 4"
definition SIGSYS :: int where "SIGSYS = 31"
definition SIGCHLD :: int where "SIGCHLD = 17"
definition SIGIO :: int where "SIGIO = 29"
definition SIGWINCH :: int where "SIGWINCH = 28"
definition NSIG :: int where "NSIG = 65"

definition UNIX_trap :: "int \<Rightarrow> bool" where
  "UNIX_trap sn \<longleftrightarrow> SIGILL \<le> sn \<and> sn \<le> SIGSYS"

text \<open>\<open>signal(sn, act)\<close>: the host may refuse (\<open>None\<close>, the value \<open>SIG_ERR\<close>); otherwise the
  action is installed and the old one returned.\<close>

definition set_act :: "int \<Rightarrow> sig_action \<Rightarrow> mach \<Rightarrow> mach" where
  "set_act sn act s = s\<lparr>unix := (unix s)\<lparr>sig_act := (sig_act (unix s))(sn := act)\<rparr>\<rparr>"

definition signal :: "int \<Rightarrow> sig_action \<Rightarrow> sig_action option M" where
  "signal sn act = bindM (os_call (Sys ''signal'' [sn] [])) (\<lambda>r.
     if sr_ret r = - 1 then returnM None
     else withM (\<lambda>s. thenM (modifyM (set_act sn act)) (returnM (Some (sig_act (unix s) sn)))))"

definition set_map :: "int \<Rightarrow> int \<Rightarrow> unit M" where
  "set_map sn tn = modifyM (\<lambda>s. s\<lparr>unix := (unix s)\<lparr>sig_map := (sig_map (unix s))(sn := tn)\<rparr>\<rparr>)"

definition init_signal :: "int \<Rightarrow> unit M" where
  "init_signal sn =
     (if UNIX_trap sn \<or> sn = SIGCHLD \<or> sn = SIGIO \<or> sn = SIGWINCH then returnM ()
      else bindM (signal sn SIG_IGN) (\<lambda>old.
        if old = Some SIG_IGN then returnM ()
        else bindM (signal sn HndlIntSig) (\<lambda>_. returnM ())))"

definition init_signals :: "unit M" where
  "init_signals = seqM [
     forM (nat (NSIG + 1)) 0 (\<lambda>sn. set_map sn (- 2)),
     forM (nat (NSIG + 1)) 0 init_signal]"

definition do_sigtrp :: "int \<Rightarrow> int \<Rightarrow> int M" where
  "do_sigtrp tn sn =
     (if sn \<le> 0 \<or> sn > NSIG then thenM (einval WILLSN) (returnM (- 1))
      else if UNIX_trap sn then thenM (einval WUNIXTR) (returnM (- 1))
      else withM (\<lambda>s. let old_tn = sig_map (unix s) sn in
        thenM (set_map sn tn)
        (if tn = - 2 then bindM (signal sn SIG_DFL) (\<lambda>_. returnM old_tn)
         else if tn = - 3 then bindM (signal sn SIG_IGN) (\<lambda>_. returnM old_tn)
         else if 0 \<le> tn \<and> tn \<le> 252 then
           bindM (signal sn HndlEmSig) (\<lambda>r.
             if r = None then thenM (set_map sn old_tn) (returnM (- 1)) else returnM old_tn)
         else thenM (einval WILLTN) (thenM (set_map sn old_tn) (returnM (- 1))))))"

definition trap_signal :: "unit M" where
  "trap_signal = withM (\<lambda>s. let old_sig = signalled (unix s) in
     thenM (modifyM (\<lambda>s. s\<lparr>unix := (unix s)\<lparr>signalled := 0\<rparr>\<rparr>))
       (withM (\<lambda>s. if 0 \<le> old_sig \<and> old_sig \<le> NSIG then trap (sig_map (unix s) old_sig) else undefM)))"

text \<open>The two signal handlers.\<close>

definition hndl_int_sig :: "int \<Rightarrow> unit M" where
  "hndl_int_sig sn = thenM (bindM (signal sn SIG_IGN) (\<lambda>_. returnM ()))
     (thenM (message ''interpreter received signal'') (fatalM (F_signal sn)))"

definition hndl_em_sig :: "int \<Rightarrow> unit M" where
  "hndl_em_sig sn = thenM (bindM (signal sn HndlIntSig) (\<lambda>_. returnM ()))
     (modifyM (\<lambda>s. s\<lparr>unix := (unix s)\<lparr>signalled := sn\<rparr>\<rparr>))"

text \<open>The arrival of a signal, by the action installed for it.  The host's default action ends the
  process, but for the signals that are ignored by default and those that stop and continue it.\<close>

definition dfl_survives :: "int \<Rightarrow> bool" where
  "dfl_survives sn \<longleftrightarrow> 17 \<le> sn \<and> sn \<le> 23 \<or> sn = 28"

definition deliver :: "int \<Rightarrow> unit M" where
  "deliver sn = withM (\<lambda>s. case sig_act (unix s) sn of
       SIG_DFL \<Rightarrow> if dfl_survives sn then returnM () else fatalM (F_signal sn)
     | SIG_IGN \<Rightarrow> returnM ()
     | HndlIntSig \<Rightarrow> hndl_int_sig sn
     | HndlEmSig \<Rightarrow> hndl_em_sig sn)"

section \<open>What requests and signals leave alone\<close>

text \<open>Every predicate that ignores the state of the host and of the warnings survives.\<close>

definition unix_free :: "(mach \<Rightarrow> bool) \<Rightarrow> bool" where
  "unix_free I \<longleftrightarrow> wst_free I \<and> (\<forall>s u. I (s\<lparr>unix := u\<rparr>) = I s)"

lemma unix_free_minv [simp]: "unix_free (minv c)"
  by (simp add: unix_free_def)

lemma unix_freeD: "unix_free I \<Longrightarrow> wst_free I" "unix_free I \<Longrightarrow> I (s\<lparr>unix := u\<rparr>) = I s"
  by (simp_all add: unix_free_def)

lemma keeps_unix:
  assumes "unix_free I"
  shows "keeps I (modifyM (\<lambda>s. s\<lparr>unix := u s\<rparr>)) anyR"
  by (rule keeps_modify) (simp add: unix_freeD(2) [OF assms])

lemma keeps_os_call:
  assumes "unix_free I"
  shows "keeps I (os_call q) anyR"
  by (simp add: keeps_def os_call_def Let_def unix_freeD(2) [OF assms])

lemma keeps_host:
  assumes "unix_free I"
  shows "keeps I (set_errno e) anyR" "keeps I (efault w) anyR" "keeps I (einval w) anyR"
    "keeps I (signal sn act) anyR" "keeps I (set_map sn tn) anyR"
proof -
  have e: "keeps I (set_errno e) anyR" for e unfolding set_errno_def by (rule keeps_unix [OF assms])
  have w: "keeps I (warn w) anyR" for w by (rule keeps_warn [OF unix_freeD(1) [OF assms]])
  have a: "keeps I (modifyM (set_act sn act)) anyR"
    by (rule keeps_modify) (simp add: set_act_def unix_freeD(2) [OF assms])
  show "keeps I (set_errno e) anyR" "keeps I (efault w) anyR" "keeps I (einval w) anyR"
    unfolding efault_def einval_def by (rule e, rule keeps_then [OF w e], rule keeps_then [OF w e])
  show "keeps I (signal sn act) anyR"
    unfolding signal_def
    by (intro keeps_bind [OF keeps_os_call [OF assms]] keeps_if keeps_return keeps_with
        keeps_then [OF a] TrueI)
  show "keeps I (set_map sn tn) anyR" unfolding set_map_def by (rule keeps_unix [OF assms])
qed

lemma keeps_ofiles:
  assumes "unix_free I"
  shows "keeps I (init_ofiles b) anyR"
proof -
  note q = keeps_bind [OF keeps_os_call [OF assms]]
  have h: "keeps I (highestfd k fd) anyR" for k fd
  proof (induction k arbitrary: fd)
    case 0
    then show ?case by (simp add: keeps_def)
  next
    case (Suc k)
    show ?case
      unfolding highestfd.simps Let_def
      by (intro q keeps_if keeps_return TrueI keeps_bind [OF Suc.IH])
  qed
  have "keeps I fcreat_high anyR"
    unfolding fcreat_high_def
    by (intro q keeps_if keeps_return TrueI keeps_bind [OF h] keeps_then keeps_unix [OF assms])
  then show ?thesis
    unfolding init_ofiles_def
    by (intro keeps_then keeps_when q keeps_return TrueI keeps_bind [where R = anyR] keeps_if keeps_fatal)
qed

lemma keeps_init_signals:
  assumes "unix_free I"
  shows "keeps I init_signals anyR"
  unfolding init_signals_def init_signal_def
  by (intro keeps_seq_Cons keeps_seq_Nil keeps_for keeps_host [OF assms] keeps_if keeps_return TrueI
      keeps_bind [OF keeps_host(4) [OF assms]])

lemma keeps_do_sigtrp:
  assumes "unix_free I"
  shows "keeps I (do_sigtrp tn sn) anyR"
  unfolding do_sigtrp_def Let_def
  by (intro keeps_if keeps_with keeps_return TrueI keeps_then [OF keeps_host(5) [OF assms]]
      keeps_then [OF keeps_host(3) [OF assms]] keeps_bind [OF keeps_host(4) [OF assms]])

lemma keeps_trap_signal: "unix_free I \<Longrightarrow> keeps I trap_signal anyR"
  unfolding trap_signal_def Let_def
  by (intro keeps_with keeps_then keeps_unix keeps_if keeps_trap keeps_undef)

lemma keeps_deliver [keeps_rules]: "keeps (minv c) (deliver sn) anyR"
proof -
  note u = unix_free_minv [of c]
  have "keeps (minv c) (hndl_em_sig sn) anyR" "keeps (minv c) (hndl_int_sig sn) anyR"
    unfolding hndl_em_sig_def hndl_int_sig_def
    by (intro keeps_then keeps_bind [OF keeps_host(4) [OF u]] keeps_return TrueI keeps_unix [OF u]
        keeps_message keeps_fatal)+
  then show ?thesis
    unfolding deliver_def by (intro keeps_with) (simp add: keeps_fatal keeps_return split: sig_action.split)
qed

end
