(* ===== verification/Monitor.thy ===== *)
theory Monitor
  imports Signals Convert
begin

text \<open>
  Monitor calls: \<open>util/int/moncalls.c\<close>, \<open>monstruct.c\<close> and \<open>m_ioctl.c\<close>, in the
  configuration the build selects (\<open>SYS_V\<close>, \<open>V7IOCTL\<close>, without \<open>WANT_SGTTY\<close>,
  \<open>WANT_MOUNT_UMOUNT\<close> and \<open>WANT_STIME\<close>).  A system call is a request to \<open>host_os\<close>; its answer
  carries the value of the call, \<open>errno\<close>, the numbers of a structure the call fills and the bytes
  it delivers.  After \<open>fork()\<close> the model follows the process the answer belongs to.
\<close>

section \<open>Parameters and results\<close>

definition WBADIOCTL :: int where "WBADIOCTL = 11"
definition WMPXIMP :: int where "WMPXIMP = 14"
definition WPROFILIMP :: int where "WPROFILIMP = 15"
definition WPTRACEIMP :: int where "WPTRACEIMP = 16"
definition WMONFLT :: int where "WMONFLT = 21"
definition WRUMEM :: int where "WRUMEM = 23"
definition WRGDAH :: int where "WRGDAH = 24"
definition WWUMEM :: int where "WWUMEM = 25"
definition WWGDAH :: int where "WWGDAH = 26"
definition WWGUNDEF :: int where "WWGUNDEF = 27"
definition WWLUNDEF :: int where "WWLUNDEF = 28"

definition INT2SIZE :: "mach \<Rightarrow> size" where "INT2SIZE s = max (wsize s) 2"
definition INT4SIZE :: "mach \<Rightarrow> size" where "INT4SIZE s = max (wsize s) 4"

definition pop_int :: "int M" where "pop_int = bindM swpop (\<lambda>v. returnM (c_int v))"
definition pop_int2 :: "int M" where
  "pop_int2 = withM (\<lambda>s. bindM (spop (INT2SIZE s)) (\<lambda>v. returnM (c_int v)))"
definition pop_int4 :: "long M" where "pop_int4 = withM (\<lambda>s. spop (INT4SIZE s))"
definition pop_intp :: "int M" where
  "pop_intp = withM (\<lambda>s. bindM (spop (psize s)) (\<lambda>v. returnM (c_int v)))"
definition pop_uns2 :: "int M" where
  "pop_uns2 = withM (\<lambda>s. bindM (upop (INT2SIZE s)) (\<lambda>v. returnM (c_uint v)))"

definition push_int :: "int \<Rightarrow> unit M" where "push_int a = wpush a"
definition push_i2 :: "int \<Rightarrow> unit M" where "push_i2 a = withM (\<lambda>s. npush a (INT2SIZE s))"
definition push_i4 :: "long \<Rightarrow> unit M" where "push_i4 a = withM (\<lambda>s. npush a (INT4SIZE s))"
definition push_unsp :: "int \<Rightarrow> unit M" where "push_unsp a = withM (\<lambda>s. npush a (psize s))"

definition push_err :: "unit M" where
  "push_err = seqM [withM (\<lambda>s. push_int (errno (unix s))), withM (\<lambda>s. push_int (errno (unix s)))]"

definition good_fd :: "int \<Rightarrow> bool M" where
  "good_fd fd = withM (\<lambda>s. if fd < fd_limit (unix s) then returnM True
     else thenM (set_errno 9) (returnM False))"

text \<open>The numbers an answer carries; one that is missing counts as zero.\<close>

definition sr_val :: "sysres \<Rightarrow> nat \<Rightarrow> int" where
  "sr_val r i = (if i < length (sr_vals r) then sr_vals r ! i else 0)"

section \<open>Memory of the EM machine\<close>

definition is_in_mem :: "mach \<Rightarrow> ptr \<Rightarrow> size \<Rightarrow> bool" where
  "is_in_mem s a n \<longleftrightarrow> is_in_data s a n \<or> is_in_stack s a n"

definition memfault :: "ptr \<Rightarrow> size \<Rightarrow> bool M" where
  "memfault addr len = withM (\<lambda>s. if \<not> is_in_mem s addr len
     then thenM (efault WMONFLT) (returnM True) else returnM False)"

definition mem_loc :: "ptr \<Rightarrow> byte M" where
  "mem_loc a = withM (\<lambda>s. if in_stack s a then rd_stack a else rd_data a)"

definition mem_sh :: "ptr \<Rightarrow> byte M" where
  "mem_sh a = withM (\<lambda>s. if in_stack s a then rd_stack_sh a else rd_data_sh a)"

definition mem_put :: "ptr \<Rightarrow> byte \<Rightarrow> unit M" where
  "mem_put a b = withM (\<lambda>s. if in_stack s a then st_put SH_INT a b else dt_put SH_INT a b)"

definition check_buf :: "int \<Rightarrow> size \<Rightarrow> unit M" where
  "check_buf n sz = withM (\<lambda>s. let cnt = buf_cnt (unix s) n;
       set = (\<lambda>k. modifyM (\<lambda>s. s\<lparr>unix := (unix s)\<lparr>buf_cnt := (buf_cnt (unix s))(n := k)\<rparr>\<rparr>)) in
     if cnt = 0 then thenM (set (max 128 sz)) (bindM (Malloc (max 128 sz) ''moncall buffer'') (\<lambda>_. returnM ()))
     else if cnt < sz then thenM (set (allocfrac sz)) (bindM (Realloc (allocfrac sz) ''moncall buffer'') (\<lambda>_. returnM ()))
     else returnM ())"

text \<open>The first loop of \<open>savestr\<close>: the length with its final zero byte, unless a byte is out of
  reach.  The loop variable is the length and, once known, whether the end was found.\<close>

definition scan_step :: "ptr \<Rightarrow> size \<times> bool option \<Rightarrow> (size \<times> bool option) M" where
  "scan_step addr = (\<lambda>(len, _). bindM (memfault (ulong (addr + len)) 1) (\<lambda>f.
     if f then returnM (len, Some False)
     else bindM (mem_loc (ulong (addr + len))) (\<lambda>ch.
       returnM (len + 1, if ch = 0 then Some True else None))))"

definition scan :: "ptr \<Rightarrow> (size \<times> bool option) M" where
  "scan addr = whileM (\<lambda>(len, found). found = None) (scan_step addr) (0, None)"

text \<open>The second loop: copying up to the zero byte.\<close>

definition copy_step :: "byte list \<times> ptr \<times> bool \<Rightarrow> (byte list \<times> ptr \<times> bool) M" where
  "copy_step = (\<lambda>(cp, addr, _). bindM (mem_loc addr) (\<lambda>ch.
     returnM (cp @ [ch], ulong (addr + 1), ch \<noteq> 0)))"

definition savestr :: "int \<Rightarrow> ptr \<Rightarrow> byte list option M" where
  "savestr n addr = bindM (scan addr) (\<lambda>(len, found).
     if found \<noteq> Some True then returnM None
     else thenM (check_buf n len)
       (bindM (whileM (\<lambda>(cp, addr, more). more) copy_step ([], addr, True)) (\<lambda>(cp, _).
         returnM (Some cp))))"

text \<open>\<open>vec\<close> copies a vector of strings.  Its first loop counts the entries and adds up their
  lengths, the second copies them.  The test for a fault is always on \<open>addr\<close>, the start of the
  vector.\<close>

definition vec_count :: "int \<Rightarrow> ptr \<Rightarrow> ptr \<times> size \<times> int \<times> bool option \<Rightarrow> (ptr \<times> size \<times> int \<times> bool option) M" where
  "vec_count n2 addr = (\<lambda>(p, str, n_ent, _). withM (\<lambda>s.
     bindM (memfault addr (psize s)) (\<lambda>f. if f then returnM (p, str, n_ent, Some False)
     else bindM (mem_lddp p) (\<lambda>ldp. bindM (savestr n2 ldp) (\<lambda>r. case r of
         None \<Rightarrow> returnM (p, str, n_ent, Some False)
       | Some cp \<Rightarrow> returnM (ulong (p + psize s), str + int (length cp), n_ent + 1,
           if ldp = 0 then Some True else None))))))"

definition vec_copy :: "int \<Rightarrow> ptr \<times> byte list list \<times> bool option \<Rightarrow> (ptr \<times> byte list list \<times> bool option) M" where
  "vec_copy n2 = (\<lambda>(p, vecvec, _). withM (\<lambda>s. bindM (mem_lddp p) (\<lambda>ldp.
     if ldp = 0 then returnM (p, vecvec, Some True)
     else bindM (savestr n2 ldp) (\<lambda>r. case r of
         None \<Rightarrow> returnM (p, vecvec, Some False)
       | Some cp \<Rightarrow> returnM (ulong (p + psize s), vecvec @ [cp], None)))))"

definition vec :: "int \<Rightarrow> int \<Rightarrow> ptr \<Rightarrow> byte list list option M" where
  "vec n1 n2 addr =
     bindM (whileM (\<lambda>(p, str, n_ent, st). st = None) (vec_count n2 addr) (addr, 0, 0, None))
       (\<lambda>(p, str, n_ent, st). if st \<noteq> Some True then returnM None
       else bindM (Malloc ((n_ent + 1) * 8) ''argvec or envvec in exec()'') (\<lambda>_.
         thenM (check_buf n1 str)
           (bindM (whileM (\<lambda>(p, vecvec, st). st = None) (vec_copy n2) (addr, [], None))
             (\<lambda>(p, vecvec, st). returnM (if st = Some True then Some vecvec else None)))))"

section \<open>Structures (\<open>monstruct.c\<close>)\<close>

definition mem_stfld :: "ptr \<Rightarrow> size \<times> size \<Rightarrow> long \<Rightarrow> unit M" where
  "mem_stfld addr = (\<lambda>(offset, len) val. mem_stn (ulong (addr + offset)) val len)"

primrec put_fields :: "ptr \<Rightarrow> (size \<times> size) list \<Rightarrow> (nat \<Rightarrow> long) \<Rightarrow> unit M" where
  "put_fields addr [] v = returnM ()"
| "put_fields addr (fld # flds) v = thenM (mem_stfld addr fld (v 0)) (put_fields addr flds (\<lambda>i. v (Suc i)))"

definition V7st_align1 :: "mach \<Rightarrow> size" where
  "V7st_align1 s = (14 + wsize s - 1) sdiv wsize s * wsize s"

definition V7st_fields :: "mach \<Rightarrow> (size \<times> size) list" where
  "V7st_fields s = [(0, 2), (2, 2), (4, 2), (6, 2), (8, 2), (10, 2), (12, 2),
     (V7st_align1 s, 4), (V7st_align1 s + 4, 4), (V7st_align1 s + 8, 4), (V7st_align1 s + 12, 4)]"

definition V7tb_fields :: "(size \<times> size) list" where
  "V7tb_fields = [(0, 4), (4, 2), (6, 2), (8, 2)]"

definition V7tms_fields :: "(size \<times> size) list" where
  "V7tms_fields = [(0, 4), (4, 4), (8, 4), (12, 4)]"

definition stat2mem :: "ptr \<Rightarrow> sysres \<Rightarrow> bool M" where
  "stat2mem addr r = withM (\<lambda>s. bindM (memfault addr (V7st_align1 s + 16)) (\<lambda>f.
     if f then returnM False
     else thenM (put_fields addr (V7st_fields s) (sr_val r)) (returnM True)))"

definition timeb2mem :: "ptr \<Rightarrow> (nat \<Rightarrow> long) \<Rightarrow> bool M" where
  "timeb2mem addr v = bindM (memfault addr 10) (\<lambda>f.
     if f then returnM False else thenM (put_fields addr V7tb_fields v) (returnM True))"

definition tms2mem :: "ptr \<Rightarrow> sysres \<Rightarrow> bool M" where
  "tms2mem addr r = bindM (memfault addr 16) (\<lambda>f.
     if f then returnM False else thenM (put_fields addr V7tms_fields (sr_val r)) (returnM True))"

text \<open>\<open>m_ioctl.c\<close> translates no request in this configuration.\<close>

definition do_ioctl :: "int \<Rightarrow> int \<Rightarrow> ptr \<Rightarrow> int M" where
  "do_ioctl fd req addr = thenM (einval WBADIOCTL) (returnM (- 1))"

section \<open>The calls\<close>

text \<open>The shapes most calls share: a result code, or the error pushed twice.\<close>

definition unless_err :: "sysreq \<Rightarrow> (sysres \<Rightarrow> unit M) \<Rightarrow> unit M" where
  "unless_err q k = bindM (os_call q) (\<lambda>r. if sr_ret r = - 1 then push_err else k r)"

definition with_str :: "int \<Rightarrow> ptr \<Rightarrow> (byte list \<Rightarrow> unit M) \<Rightarrow> unit M" where
  "with_str n dsp k = bindM (savestr n dsp) (\<lambda>r. case r of None \<Rightarrow> push_err | Some cp \<Rightarrow> k cp)"

definition with_fd :: "int \<Rightarrow> unit M \<Rightarrow> unit M" where
  "with_fd fd k = bindM (good_fd fd) (\<lambda>ok. if ok then k else push_err)"

definition done_int :: "int list \<Rightarrow> sysres \<Rightarrow> unit M" where
  "done_int vs r = thenM (seqM (map push_int vs)) (push_int 0)"

definition path_call :: "string \<Rightarrow> int list \<Rightarrow> ptr \<Rightarrow> unit M" where
  "path_call name args dsp = with_str 0 dsp (\<lambda>cp. unless_err (Sys name args [cp]) (done_int []))"

definition mon_exit :: "unit M" where
  "mon_exit = withM (\<lambda>s. bindM
     (bindM (rd_stack_sh (SP s)) (\<lambda>f. if f = SH_UNDEF then returnM UNDEFINED
        else bindM (rd_stack_sh (ulong (SP s + wsize s - 1))) (\<lambda>f.
          returnM (if f = SH_UNDEF then UNDEFINED else DEFINED))))
     (\<lambda>d. seqM [
       modifyM (\<lambda>s. s\<lparr>ES_def := d\<rparr>),
       bindM pop_int (\<lambda>v. modifyM (\<lambda>s. s\<lparr>ES := v\<rparr>)),
       modifyM (\<lambda>s. s\<lparr>running := False\<rparr>)]))"

definition mon_fork :: "unit M" where
  "mon_fork = bindM (os_call (Sys ''getpid'' [] [])) (\<lambda>p. bindM (os_call (Sys ''fork'' [] [])) (\<lambda>r.
     let pid = sr_ret r in
     if pid = 0 then seqM [init_ofiles False, push_int (sr_ret p), push_int 1, push_int 0]
     else if pid > 0 then seqM [push_int pid, push_int 0, push_int 0]
     else push_err))"

text \<open>\<open>for (nr = n, \<dots>; nr; nr--, addr++, cp++)\<close> of the call \<open>Read\<close>.\<close>

primrec read_loop :: "byte list \<Rightarrow> ptr \<Rightarrow> unit M" where
  "read_loop [] addr = returnM ()"
| "read_loop (b # bs) addr = thenM (mem_put addr b) (read_loop bs (ulong (addr + 1)))"

definition first_bytes :: "nat \<Rightarrow> sysres \<Rightarrow> byte list" where
  "first_bytes n r = take n (sr_data r @ replicate n 0)"

definition across_gda :: "mach \<Rightarrow> ptr \<Rightarrow> int \<Rightarrow> bool" where
  "across_gda s dsp n \<longleftrightarrow> in_gda s dsp \<and> \<not> in_gda s (ulong (dsp + (n - 1)))"

definition mon_read :: "unit M" where
  "mon_read = bindM pop_int (\<lambda>fd. bindM dppop (\<lambda>dsp1. bindM pop_intp (\<lambda>nbytes.
     with_fd fd (if nbytes < 0 then thenM (set_errno 22) push_err else
     thenM (check_buf 0 nbytes) (unless_err (Sys ''read'' [fd, nbytes] []) (\<lambda>r. let n = sr_ret r in
       withM (\<lambda>s. if across_gda s dsp1 n then thenM (efault WRGDAH) push_err
         else if \<not> is_in_mem s dsp1 n then thenM (efault WRUMEM) push_err
         else if n < 0 then undefM
         else seqM [read_loop (first_bytes (nat n) r) dsp1, push_unsp n, push_int 0])))))))"

primrec mem_bytes :: "nat \<Rightarrow> ptr \<Rightarrow> byte list M" where
  "mem_bytes 0 addr = returnM []"
| "mem_bytes (Suc n) addr = bindM (mem_loc addr) (\<lambda>b. bindM (mem_bytes n (ulong (addr + 1))) (\<lambda>bs.
     returnM (b # bs)))"

primrec warn_undef :: "nat \<Rightarrow> ptr \<Rightarrow> unit M" where
  "warn_undef 0 addr = returnM ()"
| "warn_undef (Suc n) addr = thenM
     (bindM (mem_sh addr) (\<lambda>f. withM (\<lambda>s. whenM (f = SH_UNDEF)
        (warn (if in_stack s addr then WWLUNDEF else WWGUNDEF)))))
     (warn_undef n (ulong (addr + 1)))"

definition mon_write :: "unit M" where
  "mon_write = bindM pop_int (\<lambda>fd. bindM dppop (\<lambda>dsp1. bindM pop_intp (\<lambda>nbytes.
     with_fd fd (if nbytes < 0 then thenM (set_errno 22) push_err else
     withM (\<lambda>s. if across_gda s dsp1 nbytes then thenM (efault WWGDAH) push_err
       else if \<not> is_in_mem s dsp1 nbytes then thenM (efault WWUMEM) push_err
       else thenM (warn_undef (nat (ulong (dsp1 + nbytes) - dsp1)) dsp1)
         (thenM (check_buf 0 nbytes)
         (bindM (mem_bytes (nat nbytes) dsp1) (\<lambda>bs.
           unless_err (Sys ''write'' [fd, nbytes] [bs]) (\<lambda>r.
             seqM [push_unsp (sr_ret r), push_int 0])))))))))"

definition mon_open :: "string \<Rightarrow> unit M" where
  "mon_open name = bindM dppop (\<lambda>dsp1. bindM pop_int (\<lambda>flag.
     with_str 0 dsp1 (\<lambda>cp. unless_err (Sys name [flag] [cp]) (\<lambda>r. done_int [sr_ret r] r))))"

definition mon_close :: "unit M" where
  "mon_close = bindM pop_int (\<lambda>fd. with_fd fd (unless_err (Sys ''close'' [fd] []) (done_int [])))"

definition mon_wait :: "unit M" where
  "mon_wait = unless_err (Sys ''wait'' [] []) (\<lambda>r. seqM [push_i2 (sr_ret r), push_i2 (sr_val r 0), push_int 0])"

definition mon_link :: "unit M" where
  "mon_link = bindM dppop (\<lambda>dsp1. bindM dppop (\<lambda>dsp2.
     with_str 0 dsp1 (\<lambda>cp1. with_str 1 dsp2 (\<lambda>cp2. unless_err (Sys ''link'' [] [cp1, cp2]) (done_int [])))))"

definition mon_path :: "string \<Rightarrow> unit M" where
  "mon_path name = bindM dppop (path_call name [])"

definition mon_mknod :: "unit M" where
  "mon_mknod = bindM dppop (\<lambda>dsp1. bindM pop_int (\<lambda>mode. bindM pop_int2 (\<lambda>address.
     path_call ''mknod'' [mode, address] dsp1)))"

definition mon_chmod :: "unit M" where
  "mon_chmod = bindM dppop (\<lambda>dsp1. bindM pop_int2 (\<lambda>mode. path_call ''chmod'' [mode] dsp1))"

definition mon_chown :: "unit M" where
  "mon_chown = bindM dppop (\<lambda>dsp1. bindM pop_int2 (\<lambda>owner. bindM pop_int2 (\<lambda>group.
     path_call ''chown'' [owner, group] dsp1)))"

definition mon_stat :: "unit M" where
  "mon_stat = bindM dppop (\<lambda>dsp1. bindM dppop (\<lambda>dsp2.
     with_str 0 dsp1 (\<lambda>cp. unless_err (Sys ''stat'' [] [cp]) (\<lambda>r.
       bindM (stat2mem dsp2 r) (\<lambda>ok. if ok then push_int 0 else push_err)))))"

definition mon_lseek :: "unit M" where
  "mon_lseek = bindM pop_int (\<lambda>fd. bindM pop_int4 (\<lambda>off. bindM pop_int (\<lambda>whence.
     with_fd fd (unless_err (Sys ''lseek'' [fd, off, whence] []) (\<lambda>r.
       seqM [push_i4 (sr_ret r), push_int 0])))))"

definition mon_getpid :: "unit M" where
  "mon_getpid = bindM (os_call (Sys ''getpid'' [] [])) (\<lambda>r. push_i2 (sr_ret r))"

definition mon_setid :: "string \<Rightarrow> unit M" where
  "mon_setid name = bindM pop_int2 (\<lambda>i. unless_err (Sys name [i] []) (done_int []))"

definition mon_getid :: "string \<Rightarrow> string \<Rightarrow> unit M" where
  "mon_getid real eff = bindM (os_call (Sys real [] [])) (\<lambda>r. thenM (push_i2 (sr_ret r))
     (bindM (os_call (Sys eff [] [])) (\<lambda>r. push_i2 (sr_ret r))))"

definition mon_ptrace :: "unit M" where
  "mon_ptrace = bindM pop_int (\<lambda>request. bindM pop_int2 (\<lambda>pid. bindM dppop (\<lambda>dsp3. bindM pop_int (\<lambda>n.
     thenM (einval WPTRACEIMP) push_err))))"

definition mon_alarm :: "unit M" where
  "mon_alarm = bindM pop_uns2 (\<lambda>seconds. bindM (os_call (Sys ''alarm'' [seconds] [])) (\<lambda>r.
     push_i2 (c_uint (sr_ret r))))"

definition mon_fstat :: "unit M" where
  "mon_fstat = bindM pop_int (\<lambda>fd. bindM dppop (\<lambda>dsp2.
     with_fd fd (unless_err (Sys ''fstat'' [fd] []) (\<lambda>r.
       bindM (stat2mem dsp2 r) (\<lambda>ok. if ok then push_int 0 else push_err)))))"

definition mon_plain :: "string \<Rightarrow> unit M" where
  "mon_plain name = bindM (os_call (Sys name [] [])) (\<lambda>_. returnM ())"

definition mon_utime :: "unit M" where
  "mon_utime = bindM dppop (\<lambda>dsp1. bindM dppop (\<lambda>dsp2. withM (\<lambda>s. let i4 = INT4SIZE s in
     bindM (memfault dsp2 (2 * i4)) (\<lambda>f. if f then push_err
       else bindM (mem_ldu dsp2 i4) (\<lambda>actime. bindM (mem_ldu (ulong (dsp2 + i4)) i4) (\<lambda>modtime.
         path_call ''utime'' [slong actime, slong modtime] dsp1))))))"

definition mon_access :: "unit M" where
  "mon_access = bindM dppop (\<lambda>dsp1. bindM pop_int (\<lambda>mode. path_call ''access'' [mode] dsp1))"

definition mon_nice :: "unit M" where
  "mon_nice = bindM pop_int (\<lambda>incr. bindM (os_call (Sys ''nice'' [incr] [])) (\<lambda>_. returnM ()))"

definition mon_ftime :: "unit M" where
  "mon_ftime = bindM dppop (\<lambda>dsp2. bindM (os_call (Sys ''time'' [] [])) (\<lambda>r.
     bindM (timeb2mem dsp2 ((\<lambda>_. 0)(0 := sr_ret r, 2 := sr_val r 0 sdiv 60, 3 := sr_val r 1))) (\<lambda>ok.
       if ok then push_int 0 else push_err)))"

definition mon_kill :: "unit M" where
  "mon_kill = bindM pop_int2 (\<lambda>pid. bindM pop_int (\<lambda>sg.
     unless_err (Sys ''kill'' [pid, sg] []) (done_int [])))"

text \<open>\<open>dup2()\<close> as simulated on System V; \<open>EMFILE\<close> is 24, \<open>DUPMASK\<close> is 0x40.\<close>

definition dup2_sysv :: "int \<Rightarrow> int \<Rightarrow> int M" where
  "dup2_sysv fd1 fdnew = bindM (os_call (Sys ''dup'' [fd1] [])) (\<lambda>r. let dupped = sr_ret r in
     withM (\<lambda>s. if dupped < 0 \<and> errno (unix s) \<noteq> 24 then returnM dupped
       else bindM (os_call (Sys ''close'' [dupped] [])) (\<lambda>_. bindM (os_call (Sys ''close'' [fdnew] [])) (\<lambda>_.
         bindM (os_call (Sys ''fcntl'' [fd1, 0, fdnew] [])) (\<lambda>r. returnM (sr_ret r))))))"

definition mon_dup :: "unit M" where
  "mon_dup = bindM pop_int (\<lambda>fd. bindM pop_int (\<lambda>fdnew.
     bindM (if fd AND 0x40 \<noteq> 0
       then let fd1 = fd AND NOT 0x40 in
         bindM (good_fd fd1) (\<lambda>ok. if ok then dup2_sysv fd1 fdnew else returnM (- 1))
       else bindM (good_fd fd) (\<lambda>ok. if ok then bindM (os_call (Sys ''dup'' [fd] [])) (\<lambda>r. returnM (sr_ret r))
         else returnM (- 1)))
     (\<lambda>fdnew. if fdnew = - 1 then push_err else seqM [push_int fdnew, push_int 0])))"

definition mon_pipe :: "unit M" where
  "mon_pipe = unless_err (Sys ''pipe'' [] []) (\<lambda>r. done_int [sr_val r 0, sr_val r 1] r)"

definition mon_times :: "unit M" where
  "mon_times = bindM dppop (\<lambda>dsp2. bindM (os_call (Sys ''times'' [] [])) (\<lambda>r.
     bindM (tms2mem dsp2 r) (\<lambda>ok. if ok then returnM () else push_err)))"

definition mon_profil :: "unit M" where
  "mon_profil = bindM dppop (\<lambda>dsp1. bindM pop_intp (\<lambda>nbytes. bindM pop_intp (\<lambda>off. bindM pop_intp (\<lambda>n.
     thenM (einval WPROFILIMP) push_err))))"

definition mon_sigtrp :: "unit M" where
  "mon_sigtrp = bindM pop_int (\<lambda>trap_no. bindM pop_int (\<lambda>sig_no.
     bindM (do_sigtrp trap_no sig_no) (\<lambda>old_trap_no.
       if old_trap_no = - 1 then push_err else seqM [push_int old_trap_no, push_int 0])))"

definition mon_ioctl :: "unit M" where
  "mon_ioctl = bindM pop_int (\<lambda>fd. bindM pop_int (\<lambda>request. bindM dppop (\<lambda>dsp2.
     with_fd fd (bindM (do_ioctl fd request dsp2) (\<lambda>e. if e \<noteq> 0 then push_err else push_int 0)))))"

definition mon_mpxcall :: "unit M" where
  "mon_mpxcall = bindM pop_int (\<lambda>request. bindM dppop (\<lambda>dsp1. thenM (einval WMPXIMP) push_err))"

text \<open>A successful \<open>execve()\<close> does not return.\<close>

definition with_vec :: "int \<Rightarrow> int \<Rightarrow> ptr \<Rightarrow> (byte list list \<Rightarrow> unit M) \<Rightarrow> unit M" where
  "with_vec n1 n2 dsp k = bindM (vec n1 n2 dsp) (\<lambda>v. case v of None \<Rightarrow> push_err | Some vs \<Rightarrow> k vs)"

definition mon_exec :: "unit M" where
  "mon_exec = bindM dppop (\<lambda>dsp1. bindM dppop (\<lambda>dsp2. bindM dppop (\<lambda>dsp3.
     with_str 0 dsp1 (\<lambda>cp. with_vec 1 2 dsp2 (\<lambda>argvec. with_vec 3 4 dsp3 (\<lambda>envvec.
       bindM (os_call (Sys ''execve'' [int (length argvec)] (cp # argvec @ envvec))) (\<lambda>r.
         if sr_ret r = - 1 then push_err else fatalM F_exec)))))))"

definition mon_umask :: "unit M" where
  "mon_umask = bindM pop_int2 (\<lambda>mode. bindM (os_call (Sys ''umask'' [mode] [])) (\<lambda>r. push_int (sr_ret r)))"

definition moncalls :: "(int \<times> unit M) list" where
  "moncalls = [(1, mon_exit), (2, mon_fork), (3, mon_read), (4, mon_write), (5, mon_open ''open''),
     (6, mon_close), (7, mon_wait), (8, mon_open ''creat''), (9, mon_link), (10, mon_path ''unlink''),
     (12, mon_path ''chdir''), (14, mon_mknod), (15, mon_chmod), (16, mon_chown), (18, mon_stat),
     (19, mon_lseek), (20, mon_getpid), (23, mon_setid ''setuid''), (24, mon_getid ''getuid'' ''geteuid''),
     (26, mon_ptrace), (27, mon_alarm), (28, mon_fstat), (29, mon_plain ''pause''), (30, mon_utime),
     (33, mon_access), (34, mon_nice), (35, mon_ftime), (36, mon_plain ''sync''), (37, mon_kill),
     (41, mon_dup), (42, mon_pipe), (43, mon_times), (44, mon_profil), (46, mon_setid ''setgid''),
     (47, mon_getid ''getgid'' ''getegid''), (48, mon_sigtrp), (51, mon_path ''acct''), (54, mon_ioctl),
     (56, mon_mpxcall), (59, mon_exec), (60, mon_umask), (61, mon_path ''chroot'')]"

definition moncall :: "unit M" where
  "moncall = bindM pop_int (\<lambda>nr. case map_of moncalls nr of Some m \<Rightarrow> m | None \<Rightarrow> trap EBADMON)"

definition DoMON :: "unit M" where
  "DoMON = thenM spoilFRA moncall"

section \<open>The invariant\<close>

lemma pop_size_mon:
  assumes "minv c s"
  shows "pop_size c (INT2SIZE s)" "pop_size c (INT4SIZE s)"
proof -
  have w: "wsize s = wsize c" "wsize c = 2 \<or> wsize c = 4"
    using minv_fields(1) [OF assms] minv_caps(1) [OF assms] by simp_all
  show "pop_size c (INT2SIZE s)" using w by (auto simp: INT2SIZE_def pop_size_def)
  show "pop_size c (INT4SIZE s)"
    using w pop_size_124(3) [OF assms] by (auto simp: INT4SIZE_def)
qed

lemma keeps_os [keeps_rules]: "keeps (minv c) (os_call q) anyR"
  by (rule keeps_os_call) simp

lemma keeps_minv_host [keeps_rules]:
  "keeps (minv c) (set_errno e) anyR" "keeps (minv c) (efault w) anyR" "keeps (minv c) (einval w) anyR"
  "keeps (minv c) (init_ofiles b) anyR" "keeps (minv c) (do_sigtrp tn sn) anyR"
  by (rule keeps_host keeps_ofiles keeps_do_sigtrp, simp)+

lemma keeps_mon_stack [keeps_rules]:
  "keeps (minv c) pop_int anyR" "keeps (minv c) pop_int2 anyR" "keeps (minv c) pop_int4 anyR"
  "keeps (minv c) pop_intp anyR" "keeps (minv c) pop_uns2 anyR" "keeps (minv c) (push_int a) anyR"
  "keeps (minv c) (push_i2 a) anyR" "keeps (minv c) (push_i4 a) anyR" "keeps (minv c) (push_unsp a) anyR"
  unfolding pop_int_def pop_int2_def pop_int4_def pop_intp_def pop_uns2_def push_int_def push_i2_def
    push_i4_def push_unsp_def
  by (rule keeps_rules TrueI | erule pop_size_mon pop_size_caps)+

lemma keeps_mon_err [keeps_rules]: "keeps (minv c) push_err anyR" "keeps (minv c) (good_fd fd) anyR"
  unfolding push_err_def good_fd_def by (rule keeps_rules TrueI)+

lemma keeps_mon_mem [keeps_rules]:
  "keeps (minv c) (memfault a n) anyR" "keeps (minv c) (mem_loc a) anyR" "keeps (minv c) (mem_sh a) anyR"
  "keeps (minv c) (mem_put a b) anyR"
  unfolding memfault_def mem_loc_def mem_sh_def mem_put_def by (rule keeps_rules TrueI)+

lemma keeps_check_buf [keeps_rules]: "keeps (minv c) (check_buf n sz) anyR"
  unfolding check_buf_def Let_def
  by (intro keeps_with keeps_if keeps_then keeps_unix unix_free_minv keeps_bind [OF keeps_alloc(1)]
      keeps_bind [OF keeps_alloc(2)] keeps_return TrueI)

lemma keeps_scan [keeps_rules]: "keeps (minv c) (scan a) anyR"
  unfolding scan_def scan_step_def
  by (intro keeps_while keeps_case_prod keeps_bind [OF keeps_mon_mem(1)] keeps_bind [OF keeps_mon_mem(2)]
      keeps_if keeps_return TrueI)

lemma keeps_copy: "keeps (minv c) (whileM b copy_step x) anyR"
  unfolding copy_step_def
  by (intro keeps_while keeps_case_prod keeps_bind [OF keeps_mon_mem(2)] keeps_return TrueI)

lemma keeps_savestr [keeps_rules]: "keeps (minv c) (savestr n a) anyR"
  unfolding savestr_def
  by (intro keeps_bind [OF keeps_scan] keeps_case_prod keeps_if keeps_return TrueI
      keeps_then [OF keeps_check_buf] keeps_bind [OF keeps_copy])

lemma keeps_option:
  "keeps I m R \<Longrightarrow> (\<And>x. keeps I (f x) R) \<Longrightarrow> keeps I (case v of None \<Rightarrow> m | Some x \<Rightarrow> f x) R"
  by (cases v) simp_all

lemma keeps_mem_lddp_any: "keeps (minv c) (mem_lddp a) anyR"
  by (rule keeps_any) (rule keeps_mem)

lemma keeps_vec [keeps_rules]: "keeps (minv c) (vec n1 n2 a) anyR"
  unfolding vec_def vec_count_def vec_copy_def
  by (intro keeps_while keeps_case_prod keeps_bind [where R = anyR] keeps_with keeps_mon_mem(1)
      keeps_mem_lddp_any keeps_savestr keeps_option keeps_if keeps_return TrueI keeps_then
      keeps_check_buf keeps_any [OF keeps_alloc(1)])

lemma keeps_put_fields [keeps_rules]: "keeps (minv c) (put_fields a flds v) anyR"
proof (induction flds arbitrary: v)
  case (Cons fld flds)
  have "keeps (minv c) (mem_stfld a fld x) anyR" for x
    unfolding mem_stfld_def by (cases fld) (simp only: case_prod_conv keeps_mem(1))
  then show ?case unfolding put_fields.simps by (intro keeps_then Cons.IH)
qed (simp only: put_fields.simps keeps_return)

lemma keeps_structs [keeps_rules]:
  "keeps (minv c) (stat2mem a r) anyR" "keeps (minv c) (timeb2mem a v) anyR" "keeps (minv c) (tms2mem a r) anyR"
  "keeps (minv c) (do_ioctl fd req a) anyR"
  unfolding stat2mem_def timeb2mem_def tms2mem_def do_ioctl_def
  by (intro keeps_with keeps_bind [OF keeps_mon_mem(1)] keeps_if keeps_return TrueI
      keeps_then [OF keeps_put_fields] keeps_then [OF keeps_minv_host(3)])+

lemma keeps_shapes [keeps_rules]:
  "(\<And>r. keeps (minv c) (k1 r) anyR) \<Longrightarrow> keeps (minv c) (unless_err q k1) anyR"
  "(\<And>cp. keeps (minv c) (k2 cp) anyR) \<Longrightarrow> keeps (minv c) (with_str n a k2) anyR"
  "keeps (minv c) k3 anyR \<Longrightarrow> keeps (minv c) (with_fd fd k3) anyR"
  "(\<And>vs. keeps (minv c) (k4 vs) anyR) \<Longrightarrow> keeps (minv c) (with_vec n1 n2 a k4) anyR"
  unfolding unless_err_def with_str_def with_fd_def with_vec_def
  by (intro keeps_bind [OF keeps_os] keeps_bind [OF keeps_savestr] keeps_bind [OF keeps_mon_err(2)]
      keeps_bind [OF keeps_vec] keeps_if keeps_option keeps_mon_err(1), assumption?)+

lemma keeps_done_int [keeps_rules]: "keeps (minv c) (done_int vs r) anyR"
proof -
  have "keeps (minv c) (seqM (map push_int vs)) anyR"
    by (induction vs) (simp_all only: list.map seqM.simps keeps_return keeps_then keeps_mon_stack)
  then show ?thesis unfolding done_int_def by (intro keeps_then keeps_mon_stack)
qed

lemma keeps_path_call [keeps_rules]: "keeps (minv c) (path_call name args a) anyR"
  unfolding path_call_def by (intro keeps_shapes keeps_done_int)

lemma keeps_loops [keeps_rules]:
  "keeps (minv c) (read_loop bs a) anyR" "keeps (minv c) (mem_bytes n a) anyR"
  "keeps (minv c) (warn_undef n a) anyR"
proof -
  show "keeps (minv c) (read_loop bs a) anyR"
    by (induction bs arbitrary: a) (simp_all only: read_loop.simps keeps_return keeps_then keeps_mon_mem)
  show "keeps (minv c) (mem_bytes n a) anyR"
    by (induction n arbitrary: a)
      (simp only: mem_bytes.simps keeps_return, unfold mem_bytes.simps,
        intro keeps_bind [OF keeps_mon_mem(2)] keeps_bind [where R = anyR] keeps_return TrueI)
  show "keeps (minv c) (warn_undef n a) anyR"
    by (induction n arbitrary: a)
      (simp only: warn_undef.simps keeps_return, unfold warn_undef.simps,
        intro keeps_then keeps_bind [OF keeps_mon_mem(3)] keeps_with keeps_when keeps_warn wst_free_minv)
qed

lemmas keeps_mon = keeps_bind [OF keeps_mon_stack(1)] keeps_bind [OF keeps_mon_stack(2)]
  keeps_bind [OF keeps_mon_stack(3)] keeps_bind [OF keeps_mon_stack(4)] keeps_bind [OF keeps_mon_stack(5)]
  keeps_bind [OF keeps_pops(1)] keeps_bind [OF keeps_os] keeps_bind [OF keeps_structs(1)]
  keeps_bind [OF keeps_structs(2)] keeps_bind [OF keeps_structs(3)] keeps_bind [OF keeps_structs(4)]
  keeps_bind [OF keeps_mon_err(2)] keeps_bind [OF keeps_mon_mem(1)] keeps_bind [OF keeps_loops(2)]
  keeps_then [OF keeps_check_buf] keeps_then [OF keeps_minv_host(1)] keeps_then [OF keeps_minv_host(2)]
  keeps_then [OF keeps_minv_host(3)] keeps_then [OF keeps_loops(3)] keeps_then [OF keeps_mon_stack(7)]
  keeps_bind [OF keeps_minv_host(5)]
  keeps_shapes keeps_done_int keeps_path_call keeps_mon_err(1) keeps_mon_stack keeps_loops(1)
  keeps_if keeps_with keeps_return keeps_undef keeps_fatal keeps_seq_Cons keeps_seq_Nil TrueI

lemma keeps_mon_files:
  "keeps (minv c) mon_read anyR" "keeps (minv c) mon_write anyR" "keeps (minv c) (mon_open nm) anyR"
  "keeps (minv c) mon_close anyR" "keeps (minv c) mon_link anyR" "keeps (minv c) (mon_path nm) anyR"
  "keeps (minv c) mon_mknod anyR" "keeps (minv c) mon_chmod anyR" "keeps (minv c) mon_chown anyR"
  "keeps (minv c) mon_stat anyR" "keeps (minv c) mon_lseek anyR" "keeps (minv c) mon_fstat anyR"
  "keeps (minv c) mon_access anyR" "keeps (minv c) mon_pipe anyR" "keeps (minv c) mon_ioctl anyR"
  unfolding mon_read_def mon_write_def mon_open_def mon_close_def mon_link_def mon_path_def mon_mknod_def
    mon_chmod_def mon_chown_def mon_stat_def mon_lseek_def mon_fstat_def mon_access_def mon_pipe_def
    mon_ioctl_def Let_def
  by (intro keeps_mon)+

lemma keeps_mon_procs:
  "keeps (minv c) mon_fork anyR" "keeps (minv c) mon_wait anyR" "keeps (minv c) mon_getpid anyR"
  "keeps (minv c) (mon_setid nm) anyR" "keeps (minv c) (mon_getid nm nm') anyR"
  "keeps (minv c) mon_ptrace anyR" "keeps (minv c) mon_alarm anyR" "keeps (minv c) (mon_plain nm) anyR"
  "keeps (minv c) mon_nice anyR" "keeps (minv c) mon_ftime anyR" "keeps (minv c) mon_kill anyR"
  "keeps (minv c) mon_times anyR" "keeps (minv c) mon_profil anyR" "keeps (minv c) mon_sigtrp anyR"
  "keeps (minv c) mon_mpxcall anyR" "keeps (minv c) mon_exec anyR" "keeps (minv c) mon_umask anyR"
  unfolding mon_fork_def mon_wait_def mon_getpid_def mon_setid_def mon_getid_def mon_ptrace_def
    mon_alarm_def mon_plain_def mon_nice_def mon_ftime_def mon_kill_def mon_times_def mon_profil_def
    mon_sigtrp_def mon_mpxcall_def mon_exec_def mon_umask_def Let_def
  by (intro keeps_mon keeps_minv_host(4))+

lemma keeps_mon_exit: "keeps (minv c) mon_exit anyR"
  unfolding mon_exit_def
  by (intro keeps_with keeps_bind [where R = anyR] keeps_rd keeps_if keeps_return TrueI keeps_seq_Cons
      keeps_seq_Nil keeps_mon_stack keeps_modify) simp_all

lemma keeps_mon_utime: "keeps (minv c) mon_utime anyR"
  unfolding mon_utime_def Let_def
  by (intro keeps_bind [OF keeps_pops(1)] keeps_with keeps_bind [OF keeps_mon_mem(1)] keeps_if
      keeps_mon_err(1) keeps_path_call keeps_bind [where R = anyR] keeps_mem)

lemma keeps_mon_dup: "keeps (minv c) mon_dup anyR"
proof -
  have "keeps (minv c) (dup2_sysv a b) anyR" for a b
    unfolding dup2_sysv_def Let_def by (intro keeps_bind [OF keeps_os] keeps_with keeps_if keeps_return TrueI)
  then show ?thesis
    unfolding mon_dup_def Let_def
    by (intro keeps_bind [OF keeps_mon_stack(1)] keeps_bind [where R = anyR] keeps_if keeps_mon_err
        keeps_os keeps_return TrueI keeps_seq_Cons keeps_seq_Nil keeps_mon_stack)
qed

lemma keeps_moncalls: "list_all (\<lambda>(n, m). keeps (minv c) m anyR) moncalls"
  unfolding moncalls_def list.pred_inject case_prod_conv
  by (intro conjI TrueI keeps_mon_files keeps_mon_procs keeps_mon_exit keeps_mon_utime keeps_mon_dup) simp

lemma keeps_MON [keeps_rules]: "keeps (minv c) DoMON anyR"
proof -
  have "keeps (minv c) m anyR" if "map_of moncalls n = Some m" for n m
    using keeps_moncalls [of c] map_of_SomeD [OF that] by (auto simp: list_all_iff)
  then have "keeps (minv c) (case map_of moncalls n of Some m \<Rightarrow> m | None \<Rightarrow> trap EBADMON) anyR" for n
    by (cases "map_of moncalls n") (simp_all add: keeps_trap)
  then show ?thesis
    unfolding DoMON_def moncall_def
    by (intro keeps_then [OF keeps_spoilFRA] keeps_bind [OF keeps_mon_stack(1)])
qed

end
