(* ===== verification/Switch.thy ===== *)
theory Switch
  imports Opcodes Int_Arith Inc_Dec Ptr_Arith Branch Logic Compare Arrays Sets Floats Monitor
begin

text \<open>
  The big switch of \<open>switch.c\<close>: \<open>do_instr\<close> runs the case of an opcode, which evaluates the
  argument expression and calls the instruction.  The host's floating point unit \<open>F\<close> is a parameter.
\<close>

section \<open>The switch\<close>

text \<open>The instructions by mnemonic (\<open>switch.h\<close>): those with a parameter and those without.  An
  argument is converted to the type of the parameter.\<close>

datatype handler = H0 "unit M" | H1 "long \<Rightarrow> unit M"

definition handlers :: "fpu \<Rightarrow> (string \<times> handler) list" where
  "handlers F = [
    (''aar'', H1 DoAAR), (''adf'', H1 (DoADF F)), (''adi'', H1 DoADI), (''adp'', H1 DoADP),
    (''ads'', H1 DoADS), (''adu'', H1 DoADU), (''and'', H1 DoAND), (''asp'', H1 DoASP),
    (''ass'', H1 DoASS), (''beq'', H1 DoBEQ), (''bge'', H1 DoBGE), (''bgt'', H1 DoBGT),
    (''ble'', H1 DoBLE), (''blm'', H1 DoBLM), (''bls'', H1 DoBLS), (''blt'', H1 DoBLT),
    (''bne'', H1 DoBNE), (''bra'', H1 DoBRA), (''cai'', H0 DoCAI), (''cal'', H1 DoCAL),
    (''cff'', H0 (DoCFF F)), (''cfi'', H0 (DoCFI F)), (''cfu'', H0 (DoCFU F)),
    (''cif'', H0 (DoCIF F)), (''cii'', H0 DoCII), (''ciu'', H0 DoCIU), (''cmf'', H1 (DoCMF F)),
    (''cmi'', H1 DoCMI), (''cmp'', H0 DoCMP), (''cms'', H1 DoCMS), (''cmu'', H1 DoCMU),
    (''com'', H1 DoCOM), (''csa'', H1 DoCSA), (''csb'', H1 DoCSB), (''cuf'', H0 (DoCUF F)),
    (''cui'', H0 DoCUI), (''cuu'', H0 DoCUU), (''dch'', H0 DoDCH), (''dec'', H0 DoDEC),
    (''dee'', H1 DoDEE), (''del'', H1 DoDEL), (''dup'', H1 DoDUP), (''dus'', H1 DoDUS),
    (''dvf'', H1 (DoDVF F)), (''dvi'', H1 DoDVI), (''dvu'', H1 DoDVU), (''exg'', H1 DoEXG),
    (''fef'', H1 (DoFEF F)), (''fif'', H1 (DoFIF F)),
    (''fil'', H1 (\<lambda>l. DoFIL (ulong l))), (''gto'', H1 (\<lambda>l. DoGTO (ulong l))),
    (''inc'', H0 DoINC), (''ine'', H1 DoINE), (''inl'', H1 DoINL), (''inn'', H1 DoINN),
    (''ior'', H1 DoIOR), (''lae'', H1 (\<lambda>l. DoLAE (ulong l))), (''lal'', H1 DoLAL),
    (''lar'', H1 DoLAR), (''ldc'', H1 DoLDC), (''lde'', H1 DoLDE), (''ldf'', H1 DoLDF),
    (''ldl'', H1 DoLDL), (''lfr'', H1 DoLFR), (''lil'', H1 DoLIL), (''lim'', H0 DoLIM),
    (''lin'', H1 (\<lambda>l. DoLIN (ulong l))), (''lni'', H0 DoLNI), (''loc'', H1 DoLOC),
    (''loe'', H1 DoLOE), (''lof'', H1 DoLOF), (''loi'', H1 DoLOI), (''lol'', H1 DoLOL),
    (''lor'', H1 DoLOR), (''los'', H1 DoLOS), (''lpb'', H0 DoLPB), (''lpi'', H1 DoLPI),
    (''lxa'', H1 (\<lambda>l. DoLXA (ulong l))), (''lxl'', H1 (\<lambda>l. DoLXL (ulong l))),
    (''mlf'', H1 (DoMLF F)), (''mli'', H1 DoMLI), (''mlu'', H1 DoMLU), (''mon'', H0 DoMON),
    (''ngf'', H1 (DoNGF F)), (''ngi'', H1 DoNGI), (''nop'', H0 DoNOP), (''rck'', H1 DoRCK),
    (''ret'', H1 DoRET), (''rmi'', H1 DoRMI), (''rmu'', H1 DoRMU), (''rol'', H1 DoROL),
    (''ror'', H1 DoROR), (''rtt'', H0 DoRTT), (''sar'', H1 DoSAR), (''sbf'', H1 (DoSBF F)),
    (''sbi'', H1 DoSBI), (''sbs'', H1 DoSBS), (''sbu'', H1 DoSBU),
    (''sde'', H1 (\<lambda>l. DoSDE (ulong l))), (''sdf'', H1 DoSDF), (''sdl'', H1 DoSDL),
    (''set'', H1 DoSET), (''sig'', H0 DoSIG), (''sil'', H1 DoSIL), (''sim'', H0 DoSIM),
    (''sli'', H1 DoSLI), (''slu'', H1 DoSLU), (''sri'', H1 DoSRI), (''sru'', H1 DoSRU),
    (''ste'', H1 (\<lambda>l. DoSTE (ulong l))), (''stf'', H1 DoSTF), (''sti'', H1 DoSTI),
    (''stl'', H1 DoSTL), (''str'', H1 DoSTR), (''sts'', H1 DoSTS), (''teq'', H0 DoTEQ),
    (''tge'', H0 DoTGE), (''tgt'', H0 DoTGT), (''tle'', H0 DoTLE), (''tlt'', H0 DoTLT),
    (''tne'', H0 DoTNE), (''trp'', H0 DoTRP), (''xor'', H1 DoXOR), (''zeq'', H1 DoZEQ),
    (''zer'', H1 DoZER), (''zge'', H1 DoZGE), (''zgt'', H1 DoZGT), (''zle'', H1 DoZLE),
    (''zlt'', H1 DoZLT), (''zne'', H1 DoZNE), (''zre'', H1 DoZRE), (''zrf'', H1 (DoZRF F)),
    (''zrl'', H1 DoZRL)]"

definition times_wsize :: "bool \<Rightarrow> long \<Rightarrow> long M" where
  "times_wsize w l = withM (\<lambda>s. returnM (slong (l * (if w then wsize s else 1))))"

definition two_arg :: "direction \<Rightarrow> long M" where
  "two_arg d = (case d of Dir_P \<Rightarrow> P_arg_2 | Dir_N \<Rightarrow> N_arg_2 | Dir_L \<Rightarrow> L_arg_2)"

definition four_arg :: "direction \<Rightarrow> long M" where
  "four_arg d = (case d of Dir_P \<Rightarrow> P_arg_4 | Dir_N \<Rightarrow> N_arg_4 | Dir_L \<Rightarrow> L_arg_4)"

definition arg_val :: "argstr \<Rightarrow> long M" where
  "arg_val a = (case a of
       Arg_none \<Rightarrow> returnM 0
     | Arg_uwpop \<Rightarrow> bindM uwpop (\<lambda>u. returnM (slong u))
     | Arg_const n w \<Rightarrow> times_wsize w n
     | Arg_S h w \<Rightarrow> bindM (S_arg h) (times_wsize w)
     | Arg_two d w \<Rightarrow> bindM (two_arg d) (times_wsize w)
     | Arg_uns w \<Rightarrow> bindM U_arg (times_wsize w)
     | Arg_four d w \<Rightarrow> bindM (four_arg d) (times_wsize w))"

text \<open>A case that names no instruction, or passes the wrong number of arguments, does not compile;
  \<open>Undef\<close> stands for it here, and is excluded below.\<close>

definition run_case :: "fpu \<Rightarrow> string \<Rightarrow> argstr \<Rightarrow> unit M" where
  "run_case F mnem a = (case getmnem (handlers F) mnem of
       Some (H0 m) \<Rightarrow> if a = Arg_none then m else undefM
     | Some (H1 f) \<Rightarrow> if a = Arg_none then undefM else bindM (arg_val a) f
     | None \<Rightarrow> undefM)"

definition do_case :: "fpu \<Rightarrow> int \<Rightarrow> unit M" where
  "do_case F opcode = (case map_of DoCases opcode of
       Some (mnem, a) \<Rightarrow> run_case F mnem a
     | None \<Rightarrow> wtrap WBADOPC EILLINS)"

text \<open>The cases \<open>SECONDARY\<close> and \<open>TERTIARY\<close> call \<open>do_instr\<close> again with an opcode
  of at least 256, which is neither of the two: the recursion is one level deep.\<close>

definition do_instr :: "fpu \<Rightarrow> int \<Rightarrow> unit M" where
  "do_instr F opcode =
     (if opcode = SECONDARY then bindM nextPCbyte (\<lambda>b. do_case F (SEC_BASE + b))
      else if opcode = TERTIARY then bindM nextPCbyte (\<lambda>b. do_case F (TERT_BASE + b))
      else do_case F opcode)"

section \<open>The cases compile\<close>

definition takes_arg :: "handler \<Rightarrow> bool" where
  "takes_arg h = (case h of H0 _ \<Rightarrow> False | H1 _ \<Rightarrow> True)"

text \<open>The instructions declared in \<open>switch.h\<close> are the mnemonics of \<open>em_table\<close>, with a parameter
  exactly where the table has one.\<close>

lemma handlers_table:
  "map (\<lambda>(mnem, h). (mnem, takes_arg h)) (handlers F)
    = map (\<lambda>(mnem, par). (mnem, par \<noteq> CHR ''-'')) em_table"
  by (simp only: handlers_def em_table_def list.map case_prod_conv takes_arg_def handler.case
    flag_simps prod.inject)

lemma getmnem_map: "getmnem (map (\<lambda>(m, x). (m, f x)) ps) mnem = map_option f (getmnem ps mnem)"
  by (induction ps) auto

lemma handler_of:
  assumes "getmnem em_table mnem = Some par"
  shows "\<exists>h. getmnem (handlers F) mnem = Some h \<and> takes_arg h = (par \<noteq> CHR ''-'')"
  using arg_cong [OF handlers_table [of F], of "\<lambda>ps. getmnem ps mnem"] assms
  by (auto simp: getmnem_map)

text \<open>The case compiles: its instruction exists and is called with as many arguments as it has
  parameters.\<close>

definition compiles :: "fpu \<Rightarrow> switch_case \<Rightarrow> bool" where
  "compiles F = (\<lambda>(opcode, mnem, a). case getmnem (handlers F) mnem of
     None \<Rightarrow> False | Some h \<Rightarrow> takes_arg h = (a \<noteq> Arg_none))"

lemma arg_matches_compiles: "arg_matches k \<Longrightarrow> compiles F k"
  by (cases k) (auto simp: arg_matches_def compiles_def dest!: handler_of [of _ _ F])

text \<open>What the generator is to make of a line: the argument of its \<open>i\<close>th case.\<close>

definition line_arg :: "string \<Rightarrow> string \<Rightarrow> int \<Rightarrow> argstr" where
  "line_arg mnem flgs i =
     (if in_flgs flgs CHR ''-'' then (if getmnem em_table mnem = Some CHR ''w'' then Arg_uwpop else Arg_none)
      else if in_flgs flgs CHR ''m'' then Mini i flgs
      else if in_flgs flgs CHR ''s'' then Shortie i flgs
      else if in_flgs flgs CHR ''2'' then TwoSgn flgs
      else if in_flgs flgs CHR ''u'' then TwoUns flgs else FourSgn flgs)"

lemma one_flag:
  assumes "check_flags flgs"
  obtains x where "x \<in> set ''-ms2u4''" "\<forall>y \<in> set ''-ms2u4''. in_flgs flgs y = (x = y)"
  using assms unfolding check_flags_def one_of_def by (simp split: if_splits)

lemma line_cases_eq:
  assumes ok: "spec_ok (mnem, flgs, nums)"
  shows "line_cases (mnem, flgs, nums) = Some (map (\<lambda>i. (base_of flgs + last nums + i, mnem, line_arg mnem flgs i))
    [0..count_of (mnem, flgs, nums) - 1])"
proof -
  have f: "check_flags flgs" using ok by (simp add: spec_ok_def)
  obtain x where x: "x \<in> set ''-ms2u4''" "\<forall>y \<in> set ''-ms2u4''. in_flgs flgs y = (x = y)" using one_flag [OF f] .
  show ?thesis
    using x ok unfolding spec_ok_def
    by (auto simp: line_cases_def line_arg_def f count_of_def Let_def split: list.splits option.splits if_splits)
qed

text \<open>The switch that the table asks for.\<close>

definition table_cases :: "spec_line list \<Rightarrow> switch_case list" where
  "table_cases ls = concat (map (\<lambda>(mnem, flgs, nums).
     map (\<lambda>i. (base_of flgs + last nums + i, mnem, line_arg mnem flgs i)) [0..count_of (mnem, flgs, nums) - 1]) ls)"

lemma mkiswitch_eq: "list_all spec_ok ls \<Longrightarrow> mkiswitch ls = Some (table_cases ls)"
  by (induction ls) (auto simp: table_cases_def line_cases_eq)

lemma DoCases_eq: "DoCases = table_cases ip_spec"
  using mkiswitch_eq [OF spec_ok_all] DoCases_ok(1) by simp


section \<open>Decoding\<close>

lemma nextPCbyte_range: "nextPCbyte s = Ok b s' \<Longrightarrow> 0 \<le> b \<and> b < 256"
  by (auto simp: nextPCbyte_def bumpPC_def text_at_def rd_text_def split: if_splits)

lemma bindM_cong_result:
  assumes "\<And>s b s'. m s = Ok b s' \<Longrightarrow> f b = g b"
  shows "bindM m f = bindM m g"
proof
  fix s
  show "bindM m f s = bindM m g s" by (cases "m s") (simp_all add: assms)
qed

text \<open>The equation of the source: the two escapes call the switch again.\<close>

lemma do_instr_rec:
  "do_instr F opcode =
     (if opcode = SECONDARY then bindM nextPCbyte (\<lambda>b. do_instr F (SEC_BASE + b))
      else if opcode = TERTIARY then bindM nextPCbyte (\<lambda>b. do_instr F (TERT_BASE + b))
      else case map_of DoCases opcode of
          Some (mnem, a) \<Rightarrow> run_case F mnem a
        | None \<Rightarrow> wtrap WBADOPC EILLINS)"
proof -
  have "do_instr F (d + b) = do_case F (d + b)" if "nextPCbyte s = Ok b s'" "256 \<le> d" for s b s' d
    using nextPCbyte_range [OF that(1)] that(2)
    by (simp add: do_instr_def SECONDARY_def TERTIARY_def)
  then have "bindM nextPCbyte (\<lambda>b. do_case F (d + b)) = bindM nextPCbyte (\<lambda>b. do_instr F (d + b))"
    if "256 \<le> d" for d using that by (intro bindM_cong_result) simp
  then show ?thesis
    by (simp add: do_instr_def [of _ opcode] SEC_BASE_def TERT_BASE_def do_case_def)
qed

section \<open>Every instruction keeps the invariant\<close>

definition handler_keeps :: "em_prog \<Rightarrow> handler \<Rightarrow> bool" where
  "handler_keeps c h = (case h of H0 m \<Rightarrow> keeps (minv c) m anyR
     | H1 f \<Rightarrow> (\<forall>l. keeps (minv c) (f l) anyR))"

lemma handlers_keep:
  shows "list_all (\<lambda>(mnem, h). handler_keeps c h) (handlers F)"
  unfolding handlers_def list.pred_inject case_prod_conv handler_keeps_def handler.case
  by (intro conjI allI TrueI keeps_rules) simp

lemma keeps_handler:
  assumes "getmnem (handlers F) mnem = Some h"
  shows "handler_keeps c h"
proof -
  have "getmnem ps mnem = Some h \<Longrightarrow> list_all (\<lambda>(mnem, h). handler_keeps c h) ps \<Longrightarrow> handler_keeps c h" for ps
    by (induction ps) (auto split: if_splits)
  then show ?thesis using assms handlers_keep by blast
qed

lemma keeps_arg_val [keeps_rules]: "keeps (minv c) (arg_val a) anyR"
proof -
  have [keeps_rules]: "keeps (minv c) (times_wsize w l) anyR" for w l
    unfolding times_wsize_def by (rule keeps_rules TrueI)+
  have [keeps_rules]: "keeps (minv c) (two_arg d) anyR" "keeps (minv c) (four_arg d) anyR" for d
    by (cases d; simp add: two_arg_def four_arg_def keeps_operands)+
  show ?thesis
    by (cases a; simp only: arg_val_def argstr.case; (rule keeps_rules TrueI)+)
qed

lemma keeps_run_case:
  shows "keeps (minv c) (run_case F mnem a) anyR"
proof (cases "getmnem (handlers F) mnem")
  case None
  then show ?thesis by (simp add: run_case_def keeps_rules)
next
  case (Some h)
  note k = keeps_handler [OF Some]
  show ?thesis
  proof (cases h)
    case (H0 m)
    then show ?thesis using k Some by (simp add: run_case_def handler_keeps_def keeps_rules)
  next
    case (H1 f)
    then have "keeps (minv c) (f l) anyR" for l using k by (simp add: handler_keeps_def)
    then have "keeps (minv c) (bindM (arg_val a) f) anyR" by (intro keeps_bind [OF keeps_arg_val])
    then show ?thesis using H1 Some by (simp add: run_case_def keeps_rules)
  qed
qed

lemma keeps_do_case:
  shows "keeps (minv c) (do_case F opcode) anyR"
proof (cases "map_of DoCases opcode")
  case None
  then show ?thesis by (simp add: do_case_def keeps_rules)
next
  case (Some p)
  then show ?thesis by (cases p) (simp add: do_case_def keeps_run_case)
qed

lemma keeps_do_instr [keeps_rules]:
  shows "keeps (minv c) (do_instr F opcode) anyR"
proof -
  have "keeps (minv c) (bindM nextPCbyte (\<lambda>b. do_case F (d + b))) anyR" for d
    by (rule keeps_bind [OF keeps_operands(1)]) (rule keeps_do_case)
  then show ?thesis unfolding do_instr_def using keeps_do_case by simp
qed

section \<open>What the switch decodes\<close>

lemma sample_text: "PC (sample bs) = 0" "text_len (sample bs) = 64" "text_seg (sample bs) = (\<lambda>_. 0)"
  by (simp_all add: sample_defs)

text \<open>The label of a case, reached through the escape byte that its group needs.\<close>

lemma map_of_case:
  assumes "(opcode, mnem, a) \<in> set DoCases"
  shows "map_of DoCases opcode = Some (mnem, a)"
  using assms spec_ops(1) by (intro map_of_is_SomeI) (simp_all only: DoCases_ok(2))

lemma line_case:
  assumes "(mnem, flgs, nums) \<in> set ip_spec" and "0 \<le> i" "i < count_of (mnem, flgs, nums)"
  shows "(base_of flgs + last nums + i, mnem, line_arg mnem flgs i) \<in> set DoCases"
proof -
  let ?c = "\<lambda>i. (base_of flgs + last nums + i, mnem, line_arg mnem flgs i)"
  have "?c i \<in> set (map ?c [0..count_of (mnem, flgs, nums) - 1])" using assms(2,3) by (simp add: image_iff)
  then show ?thesis
    unfolding DoCases_eq table_cases_def set_concat set_map by (intro UN_I [OF imageI [OF assms(1)]]) simp
qed

lemma case_range:
  assumes "(opcode, mnem, a) \<in> set DoCases"
  shows "0 \<le> opcode \<and> opcode < 254 \<or> 256 \<le> opcode \<and> opcode < 569"
proof -
  have "opcode \<in> set (map fst DoCases)" using assms by force
  then show ?thesis using spec_ops(2) unfolding DoCases_ok(2) by auto
qed

lemma nextPCbyte_eq:
  assumes "0 \<le> PC s" and "PC s < text_len s" and "text_len s < 2 ^ 63"
  shows "nextPCbyte s = Ok (btol (text_seg s (PC s))) (s\<lparr>PC := PC s + 1\<rparr>)"
  using assms by (simp add: nextPCbyte_def bumpPC_def text_at_def rd_text_def ulong_small)

section \<open>Operands in the text\<close>

lemma text_at_ok:
  assumes "n \<le> PC s" and "PC s - n < text_len s" and "text_len s < 2 ^ 63"
  shows "text_at n s = Ok (text_seg s (PC s - n)) s"
  using assms by (simp add: text_at_def rd_text_def ulong_small)

lemma sval_pair: "sval [b0, b1] = btol b0 + 256 * btos b1"
  using sval_rd2 [of "\<lambda>x. if x = 0 then b0 else b1" 0] by (simp add: rd_bytes_def eval_nat_numeral)

lemma sval_four: "sval [b0, b1, b2, b3] = btol b0 + 256 * (btol b1 + 256 * (btol b2 + 256 * btos b3))"
  using sval_rd4 [of "\<lambda>x. if x = 0 then b0 else if x = 1 then b1 else if x = 2 then b2 else b3" 0]
  by (simp add: rd_bytes_def eval_nat_numeral)

lemma operand_args:
  assumes t: "0 \<le> PC s" "PC s + int (length bs) \<le> text_len s" "text_len s < 2 ^ 63"
    and b: "rd_bytes (text_seg s) (PC s) (length bs) = bs"
  shows "length bs = 1 \<Longrightarrow> S_arg h s = Ok (256 * h + uval bs) (s\<lparr>PC := PC s + 1\<rparr>)"
    and "length bs = 2 \<Longrightarrow> U_arg s = Ok (uval (rev bs)) (s\<lparr>PC := PC s + 2\<rparr>)"
    and "length bs = 2 \<Longrightarrow> two_arg d s = Ok (sval (rev bs)) (s\<lparr>PC := PC s + 2\<rparr>)"
    and "length bs = 4 \<Longrightarrow> four_arg d s = Ok (sval (rev bs)) (s\<lparr>PC := PC s + 4\<rparr>)"
proof -
  have u: "ulong (PC s + int (length bs)) = PC s + int (length bs)" using t by (intro ulong_id) simp_all
  have x: "text_at k (s\<lparr>PC := PC s + int (length bs)\<rparr>) = Ok (bs ! nat (int (length bs) - k)) (s\<lparr>PC := PC s + int (length bs)\<rparr>)"
    if "1 \<le> k" "k \<le> int (length bs)" for k
  proof -
    have "bs ! nat (int (length bs) - k) = text_seg s (PC s + int (length bs) - k)"
      using nth_rd_bytes [of "nat (int (length bs) - k)" "length bs" "text_seg s" "PC s"] that unfolding b by (simp add: add_diff_eq)
    then show ?thesis using that t by (subst text_at_ok) simp_all
  qed
  note d = bumpPC_def returnM_def or_bytes2 or_bytes4 two_arg_def four_arg_def L_arg_2_def P_arg_2_def N_arg_2_def
    L_arg_4_def P_arg_4_def N_arg_4_def U_arg_def S_arg_def push_bit_eq_mult
  { assume l: "length bs = 1"
    then obtain b0 where "bs = [b0]" by (auto simp: length_Suc_conv numeral_eq_Suc)
    then show "S_arg h s = Ok (256 * h + uval bs) (s\<lparr>PC := PC s + 1\<rparr>)"
      using u x [of 1] by (simp add: d btol_def) }
  { assume l: "length bs = 2"
    then obtain b0 b1 where bs: "bs = [b0, b1]" by (auto simp: length_Suc_conv numeral_eq_Suc)
    show "U_arg s = Ok (uval (rev bs)) (s\<lparr>PC := PC s + 2\<rparr>)" 
      using u x [of 1] x [of 2] unfolding bs by (simp add: d(1-3) U_arg_def flip: btol_def)
    show "two_arg d s = Ok (sval (rev bs)) (s\<lparr>PC := PC s + 2\<rparr>)"
      using u x [of 1] x [of 2] unfolding bs by (cases d) (simp_all add: d(1-11) sval_pair) }
  { assume l: "length bs = 4"
    then obtain b0 b1 b2 b3 where bs: "bs = [b0, b1, b2, b3]" by (auto simp: length_Suc_conv numeral_eq_Suc)
    show "four_arg d s = Ok (sval (rev bs)) (s\<lparr>PC := PC s + 4\<rparr>)"
      using u x [of 1] x [of 2] x [of 3] x [of 4] unfolding bs by (cases d) (simp_all add: d(1-12) sval_four) }
qed

section \<open>The operand of an instruction\<close>

text \<open>How an instruction of a line of the table is encoded: an escape byte for the second and third
  group, the opcode, and the bytes of the operand, the most significant one first.\<close>

definition escape :: "string \<Rightarrow> byte list" where
  "escape flgs = (if in_flgs flgs CHR ''e'' then [254] else if in_flgs flgs CHR ''4'' then [255] else [])"

definition operand_len :: "string \<Rightarrow> nat" where
  "operand_len flgs = (if in_flgs flgs CHR ''s'' then 1
     else if in_flgs flgs CHR ''2'' \<or> in_flgs flgs CHR ''u'' then 2
     else if in_flgs flgs CHR ''4'' then 4 else 0)"

text \<open>The operand that the \<open>i\<close>th opcode of a line has with the bytes \<open>bs\<close>.\<close>

definition operand :: "string \<Rightarrow> int \<Rightarrow> byte list \<Rightarrow> int" where
  "operand flgs i bs =
     (let j = (if in_flgs flgs CHR ''N'' then - i - 1 else if in_flgs flgs CHR ''o'' then i + 1 else i)
      in if in_flgs flgs CHR ''m'' then j
         else if in_flgs flgs CHR ''s'' then 256 * j + uval bs
         else if in_flgs flgs CHR ''u'' then uval (rev bs) else sval (rev bs))"

lemma operand_small:
  assumes f: "check_flags flgs" "\<not> in_flgs flgs CHR ''-''" and i: "0 \<le> i" "i < 1000"
    and l: "length bs = operand_len flgs" and w: "w = 1 \<or> w = 2 \<or> w = 4"
  shows "slong (operand flgs i bs * w) = operand flgs i bs * w"
proof -
  define j where "j = (if in_flgs flgs CHR ''N'' then - i - 1 else if in_flgs flgs CHR ''o'' then i + 1 else i)"
  have j: "- 1000 \<le> j" "j \<le> 1000" using i by (auto simp: j_def)
  have k: "operand_len flgs \<le> 4" by (simp add: operand_len_def)
  obtain x where x: "x \<in> set ''-ms2u4''" "\<forall>y \<in> set ''-ms2u4''. in_flgs flgs y = (x = y)" using one_flag [OF f(1)] .
  have pos: "0 < operand_len flgs" if "\<not> in_flgs flgs CHR ''m''" using that x f(2) by (auto simp: operand_len_def)
  have p: "(256::int) ^ length bs \<le> 256 ^ 4" unfolding l using k by (intro power_increasing) simp_all
  have u: "0 \<le> uval (rev bs)" "uval (rev bs) < 4294967296" "0 \<le> uval bs" "uval bs < 4294967296"
    using uval_range [of bs] uval_range [of "rev bs"] p by simp_all
  have s: "- 4294967296 \<le> sval (rev bs)" "sval (rev bs) < 4294967296" if "\<not> in_flgs flgs CHR ''m''"
  proof -
    have "bs \<noteq> []" using pos [OF that] l by auto
    moreover have "(2::int) ^ (8 * length bs - 1) \<le> 2 ^ 32" unfolding l using k by (intro power_increasing) simp_all
    ultimately show "- 4294967296 \<le> sval (rev bs)" "sval (rev bs) < 4294967296"
      using sval_range [of "rev bs"] by simp_all
  qed
  have "- 5000000000 \<le> operand flgs i bs" "operand flgs i bs \<le> 5000000000"
    unfolding operand_def Let_def j_def [symmetric] using j u s by auto
  then show ?thesis using w by (intro slong_id) auto
qed

lemma operand_newi: "operand flgs i bs = (if in_flgs flgs CHR ''m'' then newi i flgs
    else if in_flgs flgs CHR ''s'' then 256 * newi i flgs + uval bs
    else if in_flgs flgs CHR ''u'' then uval (rev bs) else sval (rev bs))"
  by (simp add: operand_def newi_def)

lemma arg_val_line:
  assumes s: "minv c s" and f: "check_flags flgs" "\<not> in_flgs flgs CHR ''-''" and i: "0 \<le> i" "i < 1000"
    and t: "0 \<le> PC s" "PC s + int (length bs) \<le> text_len s" "text_len s < 2 ^ 63"
    and b: "rd_bytes (text_seg s) (PC s) (length bs) = bs" "length bs = operand_len flgs"
  shows "arg_val (line_arg mnem flgs i) s = Ok (operand flgs i bs * (if in_flgs flgs CHR ''w'' then wsize c else 1))
    (s\<lparr>PC := PC s + int (length bs)\<rparr>)"
proof -
  obtain x where x: "x \<in> set ''-ms2u4''" "\<forall>y \<in> set ''-ms2u4''. in_flgs flgs y = (x = y)" using one_flag [OF f(1)] .
  have w: "wsize (s\<lparr>PC := p\<rparr>) = wsize c" "wsize s = wsize c" for p using minv_fields(1) [OF s] by simp_all
  have o: "slong (operand flgs i bs * wsize c) = operand flgs i bs * wsize c" "slong (operand flgs i bs) = operand flgs i bs"
    using operand_small [OF f i b(2), of "wsize c"] operand_small [OF f i b(2), of 1] minv_caps(1) [OF s] by auto
  note d = line_arg_def arg_val_def operand_newi operand_len_def times_wsize_def Mini_def Shortie_def
    TwoSgn_def TwoUns_def FourSgn_def returnM_def w
  note a = operand_args [OF t b(1)]
  consider "x = CHR ''m''" | "x = CHR ''s''" | "x = CHR ''2''" | "x = CHR ''u''" | "x = CHR ''4''"
    using x(1) bspec [OF x(2), of "CHR ''-''"] f(2) by auto
  then show ?thesis
  proof cases
    case 1
    then show ?thesis
      using x o b(2) by (cases "in_flgs flgs CHR ''w''"; cases "newi i flgs = 0") (simp_all add: d slong_id)
  next
    case 2
    then show ?thesis using x o b(2) a(1) by (cases "in_flgs flgs CHR ''w''") (simp_all add: d)
  next
    case 3
    then show ?thesis using x o b(2) a(3) by (cases "in_flgs flgs CHR ''w''") (simp_all add: d)
  next
    case 4
    then show ?thesis using x o b(2) a(2) by (cases "in_flgs flgs CHR ''w''") (simp_all add: d)
  next
    case 5
    then show ?thesis using x o b(2) a(4) by (cases "in_flgs flgs CHR ''w''") (simp_all add: d)
  qed
qed

section \<open>Decoding an instruction\<close>

lemma rd_bytes_split:
  assumes "rd_bytes f a (length (xs @ ys)) = xs @ ys"
  shows "rd_bytes f a (length xs) = xs" "rd_bytes f (a + int (length xs)) (length ys) = ys"
proof -
  have "rd_bytes f a (length xs) @ rd_bytes f (a + int (length xs)) (length ys) = xs @ ys"
    using assms by (simp add: rd_bytes_add)
  then show "rd_bytes f a (length xs) = xs" "rd_bytes f (a + int (length xs)) (length ys) = ys"
    by (simp_all only: append_eq_append_conv length_rd_bytes simp_thms)
qed

lemma fetch_case:
  assumes k: "(base_of flgs + uint op, mnem, a) \<in> set DoCases"
    and t: "0 \<le> PC s" "PC s + int (length (escape flgs)) < text_len s" "text_len s < 2 ^ 63"
    and b: "rd_bytes (text_seg s) (PC s) (length (escape flgs @ [op])) = escape flgs @ [op]"
  shows "bindM nextPCbyte (do_instr F) s = run_case F mnem a (s\<lparr>PC := PC s + int (length (escape flgs)) + 1\<rparr>)"
proof -
  have m: "map_of DoCases (base_of flgs + uint op) = Some (mnem, a)" by (rule map_of_case [OF k])
  have 1: "nextPCbyte s = Ok (btol (text_seg s (PC s))) (s\<lparr>PC := PC s + 1\<rparr>)"
    using t by (intro nextPCbyte_eq) simp_all
  consider (prim) "escape flgs = []" "base_of flgs = 0" | (sec) "escape flgs = [254]" "base_of flgs = 256"
    | (tert) "escape flgs = [255]" "base_of flgs = 512"
    by (cases "in_flgs flgs CHR ''e''"; cases "in_flgs flgs CHR ''4''")
      (simp_all add: escape_def base_of_def PRIM_BASE_def SEC_BASE_def TERT_BASE_def)
  then show ?thesis
  proof cases
    case prim
    then have "text_seg s (PC s) = op" using b by (simp add: rd_bytes_Suc)
    moreover have "uint op < 254" using case_range [OF k] prim uint_bounded [of op] by auto
    ultimately show ?thesis
      using m prim 1 by (simp add: do_instr_def do_case_def SECONDARY_def TERTIARY_def btol_def)
  next
    case sec
    then have "text_seg s (PC s) = 254" "text_seg s (PC s + 1) = op" using b by (simp_all add: rd_bytes_Suc)
    then show ?thesis
      using m sec 1 t nextPCbyte_eq [of "s\<lparr>PC := PC s + 1\<rparr>"]
      by (simp add: do_instr_def do_case_def SECONDARY_def TERTIARY_def SEC_BASE_def btol_def)
  next
    case tert
    then have "text_seg s (PC s) = 255" "text_seg s (PC s + 1) = op" using b by (simp_all add: rd_bytes_Suc)
    then show ?thesis
      using m tert 1 t nextPCbyte_eq [of "s\<lparr>PC := PC s + 1\<rparr>"]
      by (simp add: do_instr_def do_case_def SECONDARY_def TERTIARY_def TERT_BASE_def btol_def)
  qed
qed

lemma line_small:
  assumes "(mnem, flgs, nums) \<in> set ip_spec" and "0 \<le> i" "i < count_of (mnem, flgs, nums)"
  shows "i < 1000"
  using case_range [OF line_case [OF assms]] case_range [OF line_case [OF assms(1), of 0]] assms(2,3) by auto

lemma line_handler:
  assumes l: "(mnem, flgs, nums) \<in> set ip_spec"
  shows "\<exists>h. getmnem (handlers F) mnem = Some h
    \<and> (\<not> in_flgs flgs CHR ''-'' \<longrightarrow> takes_arg h)
    \<and> (in_flgs flgs CHR ''-'' \<longrightarrow> takes_arg h = (getmnem em_table mnem = Some CHR ''w''))"
proof -
  have "spec_ok (mnem, flgs, nums)" using l spec_ok_all by (simp add: list_all_iff)
  then obtain par where p: "getmnem em_table mnem = Some par" "operand_ok par flgs"
    by (auto simp: spec_ok_def split: option.splits)
  then show ?thesis using handler_of [OF p(1), of F] by (auto simp: operand_ok_def split: if_splits)
qed


text \<open>
  (C12) A byte that is neither an escape nor an opcode of the first group, and an escape followed
  by a byte that is no opcode of its group, raise the illegal instruction trap.
\<close>

theorem decode_illegal:
  assumes t: "0 \<le> PC s" "PC s + int (length esc) < text_len s" "text_len s < 2 ^ 63"
    and esc: "(esc, base) \<in> {([], 0), ([254], 256), ([255], 512)}"
    and b: "rd_bytes (text_seg s) (PC s) (length (esc @ [op])) = esc @ [op]" "esc = [] \<longrightarrow> uint op < 254"
    and n: "\<forall>(mnem, flgs, nums) \<in> set ip_spec. \<forall>i. 0 \<le> i \<and> i < count_of (mnem, flgs, nums)
      \<longrightarrow> base + uint op \<noteq> base_of flgs + last nums + i"
  shows "\<exists>w. bindM nextPCbyte (do_instr F) s
    = Trap EILLINS (s\<lparr>PC := PC s + int (length esc) + 1, wst := w\<rparr>)"
proof -
  have "base + uint op \<notin> set (concat (map line_ops ip_spec))"
  proof
    assume "base + uint op \<in> set (concat (map line_ops ip_spec))"
    then obtain mnem flgs nums where l: "(mnem, flgs, nums) \<in> set ip_spec" "base + uint op \<in> set (line_ops (mnem, flgs, nums))"
      by auto
    have "spec_ok (mnem, flgs, nums)" using l(1) spec_ok_all by (simp add: list_all_iff)
    then have "first_of (mnem, flgs, nums) = base_of flgs + last nums"
      by (auto simp: spec_ok_def first_of_def split: list.splits)
    then have "base + uint op = base_of flgs + last nums + (base + uint op - first_of (mnem, flgs, nums))"
      "0 \<le> base + uint op - first_of (mnem, flgs, nums)"
      "base + uint op - first_of (mnem, flgs, nums) < count_of (mnem, flgs, nums)"
      using l(2) by (auto simp: line_ops_set)
    then show False using bspec [OF n l(1)] by fast
  qed
  then have m: "map_of DoCases (base + uint op) = None"
    by (simp only: map_of_eq_None_iff DoCases_ok(2) [symmetric] set_map not_False_eq_True)
  have 1: "nextPCbyte s = Ok (btol (text_seg s (PC s))) (s\<lparr>PC := PC s + 1\<rparr>)"
    using t by (intro nextPCbyte_eq) simp_all
  obtain w where w: "wtrap WBADOPC EILLINS (s\<lparr>PC := PC s + int (length esc) + 1\<rparr>)
      = (Trap EILLINS (s\<lparr>PC := PC s + int (length esc) + 1, wst := w\<rparr>) :: unit outcome)"
    using wtrap_frame by fastforce
  have "bindM nextPCbyte (do_instr F) s = wtrap WBADOPC EILLINS (s\<lparr>PC := PC s + int (length esc) + 1\<rparr>)"
    using esc m b 1 t nextPCbyte_eq [of "s\<lparr>PC := PC s + 1\<rparr>"]
    by (auto simp: do_instr_def do_case_def SECONDARY_def TERTIARY_def SEC_BASE_def TERT_BASE_def btol_def rd_bytes_Suc)
  then show ?thesis using w by metis
qed

section \<open>An example\<close>

text \<open>The sample machine with the code \<open>bs\<close> at the start of its text.\<close>

definition sample_code :: "byte list \<Rightarrow> mach" where
  "sample_code bs = sample []\<lparr>text_seg := upd_bytes (\<lambda>_. 0) 0 bs\<rparr>"

lemma minv_text:
  assumes "minv c s"
  shows "minv (c\<lparr>text_seg := f\<rparr>) (s\<lparr>text_seg := f\<rparr>)"
proof -
  have c: "prog_of s = c" "prog_ok c" "regs_ok s" using assms by (simp_all add: minv_def)
  have "prog_of (s\<lparr>text_seg := f\<rparr>) = (prog_of s)\<lparr>text_seg := f\<rparr>"
    by (simp add: prog_of_def em_prog.truncate_def)
  moreover have "init_sizes (c\<lparr>text_seg := f\<rparr>) = (init_sizes c)\<lparr>text_seg := f\<rparr>"
    by (simp add: init_sizes_def init_rsb_def Let_def)
  then have "prog_ok (c\<lparr>text_seg := f\<rparr>)" using c(2) by (simp add: prog_ok_def cap_ok_def sizes_ok_def)
  moreover have "regs_ok (s\<lparr>text_seg := f\<rparr>)" using c(3) by (simp add: regs_ok_def)
  ultimately show ?thesis using c(1) by (simp add: minv_def)
qed

lemma sample_code [simp]:
  "minv (sample_prog\<lparr>text_seg := upd_bytes (\<lambda>_. 0) 0 bs\<rparr>) (sample_code bs)"
  "PC (sample_code bs) = 0" "text_len (sample_code bs) = 64" "text_seg (sample_code bs) = upd_bytes (\<lambda>_. 0) 0 bs"
  by (simp_all add: sample_code_def minv_text sample_text)


theorem decode_illegal_witness:
  "\<forall>F. \<exists>w. bindM nextPCbyte (do_instr F) (sample_code [255, 57])
     = Trap EILLINS (sample_code [255, 57]\<lparr>PC := 2, wst := w\<rparr>)"
proof (intro allI)
  fix F
  have "\<forall>(mnem, flgs, nums) \<in> set ip_spec. \<forall>i. 0 \<le> i \<and> i < count_of (mnem, flgs, nums)
      \<longrightarrow> 512 + uint (57 :: byte) \<noteq> base_of flgs + last nums + i"
    using case_range [OF line_case] by fastforce
  then show "\<exists>w. bindM nextPCbyte (do_instr F) (sample_code [255, 57])
     = Trap EILLINS (sample_code [255, 57]\<lparr>PC := 2, wst := w\<rparr>)"
    using decode_illegal [of "sample_code [255, 57]" "[255]" 512 57 F] by simp
qed

end
