(* ===== verification/Proctab.thy ===== *)
theory Proctab
  imports Sample
begin

text \<open>
  The procedure table: \<open>util/int/proctab.c\<close>.  The list \<open>proctab\<close> holds the entries added so
  far, so its length is \<open>pr_cnt\<close>; the C array has room for \<open>NProc\<close> of them.
\<close>

section \<open>Operations\<close>

text \<open>\<open>sizeof (struct proc)\<close> is 24.\<close>

definition init_proctab :: "unit M" where
  "init_proctab = seqM [
     withM (\<lambda>s. bindM (Malloc (NProc s * 24) ''proctable'') (\<lambda>n. returnM ())),
     modifyM (\<lambda>s. s\<lparr>proctab := []\<rparr>)]"

text \<open>The loop over the old descriptors: each may lose its tail to the new procedure, and the
  limit \<open>ff\<close> of the new one comes down to the nearest later entry point.\<close>

fun add_loop :: "ptr \<Rightarrow> ptr \<Rightarrow> proc list \<Rightarrow> proc list \<times> ptr" where
  "add_loop ep ff [] = ([], ff)"
| "add_loop ep ff (p # ps) =
     (let p' = (if pr_ep p < ep \<and> pr_ff p > ep then p\<lparr>pr_ff := ep\<rparr> else p);
          ff' = (if pr_ep p > ep \<and> ff > pr_ep p then pr_ep p else ff);
          (ps', ff'') = add_loop ep ff' ps
      in (p' # ps', ff''))"

definition add_proc :: "size \<Rightarrow> ptr \<Rightarrow> unit M" where
  "add_proc nloc ep = withM (\<lambda>s.
     if ep > DB s then fatalM (F_load ''procedure entry point outside text segment'')
     else if 24 * (int (length (proctab s)) + 1) > c_uint (NProc s * 24) then undefM
     else let (ps, ff) = add_loop ep (DB s) (proctab s) in
       modifyM (\<lambda>s. s\<lparr>proctab := ps @ [\<lparr>pr_nloc = nloc, pr_ep = ep, pr_ff = ff\<rparr>]\<rparr>))"

section \<open>The limits\<close>

text \<open>The first entry point of the table after \<open>ep\<close>, or the end of the text.\<close>

definition next_ep :: "ptr \<Rightarrow> ptr set \<Rightarrow> ptr \<Rightarrow> ptr" where
  "next_ep db E ep = Min (insert db {e \<in> E. ep < e})"

definition limits_ok :: "ptr \<Rightarrow> proc list \<Rightarrow> bool" where
  "limits_ok db ps \<longleftrightarrow> (\<forall>p\<in>set ps. pr_ep p \<le> db \<and> pr_ff p = next_ep db (pr_ep ` set ps) (pr_ep p))"

lemma Min_insert_min:
  assumes "finite (A :: ptr set)"
  shows "Min (insert a (insert b A)) = Min (insert (min a b) A)"
    and "Min (insert a (insert b A)) = min b (Min (insert a A))"
  using assms by (cases "A = {}"; simp add: Min_insert min.assoc min.left_commute min.commute)+

lemma add_loop_ff: "snd (add_loop ep ff ps) = Min (insert ff {e \<in> pr_ep ` set ps. ep < e})"
proof (induction ps arbitrary: ff)
  case (Cons p ps)
  let ?E = "{e \<in> pr_ep ` set ps. ep < e}"
  have s: "snd (add_loop ep ff (p # ps))
      = snd (add_loop ep (if ep < pr_ep p then min ff (pr_ep p) else ff) ps)"
    by (auto simp: Let_def split_beta min_def)
  show ?case
  proof (cases "ep < pr_ep p")
    case True
    then have "{e \<in> pr_ep ` set (p # ps). ep < e} = insert (pr_ep p) ?E" by auto
    moreover have "finite ?E" by simp
    ultimately show ?thesis unfolding s Cons.IH using True by (simp only: if_True Min_insert_min(1))
  next
    case False
    then have "{e \<in> pr_ep ` set (p # ps). ep < e} = ?E" by auto
    then show ?thesis using False Cons.IH unfolding s by simp
  qed
qed simp

lemma add_loop_fst: "fst (add_loop ep ff ps)
    = map (\<lambda>p. if pr_ep p < ep \<and> pr_ff p > ep then p\<lparr>pr_ff := ep\<rparr> else p) ps"
  by (induction ps arbitrary: ff) (simp_all add: Let_def split_beta)

lemma next_ep_insert:
  assumes "finite E"
  shows "next_ep db (insert x E) ep = (if ep < x \<and> x < next_ep db E ep then x else next_ep db E ep)"
proof (cases "ep < x")
  case True
  then have "{e \<in> insert x E. ep < e} = insert x {e \<in> E. ep < e}" by auto
  then have "next_ep db (insert x E) ep = min x (next_ep db E ep)"
    using Min_insert_min(2) [of "{e \<in> E. ep < e}" db x] assms by (simp only: next_ep_def) simp
  then show ?thesis using True by (simp add: min_def)
next
  case False
  then have "{e \<in> insert x E. ep < e} = {e \<in> E. ep < e}" by auto
  then show ?thesis using False by (simp only: next_ep_def if_False simp_thms)
qed

lemma add_limits:
  assumes "limits_ok db ps" and "ep \<le> db"
  shows "limits_ok db (fst (add_loop ep db ps) @ [\<lparr>pr_nloc = n, pr_ep = ep, pr_ff = snd (add_loop ep db ps)\<rparr>])"
proof -
  let ?f = "\<lambda>p. if pr_ep p < ep \<and> pr_ff p > ep then p\<lparr>pr_ff := ep\<rparr> else p"
  let ?E = "pr_ep ` set ps"
  have f: "pr_ep (?f p) = pr_ep p" for p by simp
  have E: "pr_ep ` set (map ?f ps @ [\<lparr>pr_nloc = n, pr_ep = ep, pr_ff = x\<rparr>]) = insert ep ?E" for x
    unfolding set_append set_map image_Un image_image f by auto
  have old: "pr_ff (?f p) = next_ep db (insert ep ?E) (pr_ep (?f p))" if "p \<in> set ps" for p
    using assms(1) that by (auto simp: limits_ok_def next_ep_insert)
  have new: "snd (add_loop ep db ps) = next_ep db (insert ep ?E) ep"
    by (simp add: add_loop_ff next_ep_insert) (simp add: next_ep_def)
  have "pr_ep q \<le> db \<and> pr_ff q = next_ep db (insert ep ?E) (pr_ep q)" if q: "q \<in> set (map ?f ps)" for q
  proof -
    obtain p where p: "p \<in> set ps" "q = ?f p" using q by (auto simp only: set_map)
    then show ?thesis using old [OF p(1)] f [of p] assms(1) by (simp only: limits_ok_def)
  qed
  moreover have "pr_ff \<lparr>pr_nloc = n, pr_ep = ep, pr_ff = snd (add_loop ep db ps)\<rparr> = next_ep db (insert ep ?E) ep"
    using new by simp
  ultimately show ?thesis
    unfolding limits_ok_def E add_loop_fst using assms(2) by (simp del: set_map)
qed

text \<open>Adding procedures one after the other.\<close>

primrec add_procs :: "(size \<times> ptr) list \<Rightarrow> unit M" where
  "add_procs [] = returnM ()"
| "add_procs (p # ps) = thenM (add_proc (fst p) (snd p)) (add_procs ps)"

lemma add_proc_Ok:
  assumes "add_proc nloc ep s = Ok x t" and "limits_ok (DB s) (proctab s)"
  shows "\<exists>ps. t = s\<lparr>proctab := ps\<rparr> \<and> limits_ok (DB s) ps \<and> map pr_ep ps = map pr_ep (proctab s) @ [ep]
    \<and> map pr_nloc ps = map pr_nloc (proctab s) @ [nloc]"
proof -
  let ?ps = "fst (add_loop ep (DB s) (proctab s)) @ [\<lparr>pr_nloc = nloc, pr_ep = ep,
    pr_ff = snd (add_loop ep (DB s) (proctab s))\<rparr>]"
  have "t = s\<lparr>proctab := ?ps\<rparr>" "ep \<le> DB s"
    using assms(1) by (auto simp: add_proc_def Let_def split_beta split: if_splits)
  moreover have "map pr_ep ?ps = map pr_ep (proctab s) @ [ep]" "map pr_nloc ?ps = map pr_nloc (proctab s) @ [nloc]"
    by (auto simp: add_loop_fst)
  ultimately show ?thesis using add_limits [OF assms(2)] by blast
qed

lemma add_procs_Ok:
  assumes "add_procs qs s = Ok x t" and "limits_ok (DB s) (proctab s)"
  shows "\<exists>ps. t = s\<lparr>proctab := ps\<rparr> \<and> limits_ok (DB s) ps
    \<and> map pr_ep ps = map pr_ep (proctab s) @ map snd qs \<and> map pr_nloc ps = map pr_nloc (proctab s) @ map fst qs"
  using assms
proof (induction qs arbitrary: s)
  case Nil
  then have "t = s\<lparr>proctab := proctab s\<rparr>" by simp
  then show ?case using Nil.prems(2) by (intro exI [of _ "proctab s"]) simp
next
  case (Cons q qs)
  from Cons.prems(1) obtain y u where u: "add_proc (fst q) (snd q) s = Ok y u" "add_procs qs u = Ok x t"
    unfolding add_procs.simps thenM_eq_Ok by blast
  from add_proc_Ok [OF u(1) Cons.prems(2)] obtain ps where ps: "u = s\<lparr>proctab := ps\<rparr>" "limits_ok (DB s) ps"
    "map pr_ep ps = map pr_ep (proctab s) @ [snd q]" "map pr_nloc ps = map pr_nloc (proctab s) @ [fst q]" by blast
  with Cons.IH [OF u(2)] obtain ps' where "t = u\<lparr>proctab := ps'\<rparr>" "limits_ok (DB u) ps'"
    "map pr_ep ps' = map pr_ep ps @ map snd qs" "map pr_nloc ps' = map pr_nloc ps @ map fst qs" by auto
  then show ?case using ps by (intro exI [of _ ps']) simp
qed

text \<open>
  (C30) Loading the procedure descriptors into an empty table: if it succeeds, the table holds the
  descriptors in order, every entry point lies in the text, and the limit \<open>pr_ff\<close> of each
  procedure is the nearest later entry point of any procedure, or the end of the text if there is
  none, whatever the order in which they were added.
\<close>

theorem add_procs_limits:
  assumes "proctab s = []" and "add_procs qs s = Ok () t"
  shows "length (proctab t) = length qs \<and> map pr_ep (proctab t) = map snd qs
    \<and> map pr_nloc (proctab t) = map fst qs
    \<and> (\<forall>p\<in>set (proctab t). pr_ep p \<le> DB s
         \<and> pr_ff p = Min (insert (DB s) {e \<in> snd ` set qs. pr_ep p < e}))"
proof -
  obtain ps where ps: "t = s\<lparr>proctab := ps\<rparr>" "limits_ok (DB s) ps" "map pr_ep ps = map snd qs"
    "map pr_nloc ps = map fst qs"
    using add_procs_Ok [OF assms(2)] assms(1) by (auto simp: limits_ok_def)
  have "pr_ep ` set ps = snd ` set qs" using arg_cong [OF ps(3), of set] by simp
  moreover have "length ps = length qs" using arg_cong [OF ps(3), of length] by simp
  ultimately show ?thesis using ps by (simp add: limits_ok_def next_ep_def)
qed

text \<open>Three procedures, added out of order, in a text of 64 bytes.\<close>

theorem add_procs_witness:
  "\<exists>t. add_procs [(0, 40), (2, 0), (4, 20)] (sample []\<lparr>NProc := 3, proctab := []\<rparr>) = Ok () t
     \<and> map pr_ff (proctab t) = [64, 20, 40]"
proof -
  let ?s = "sample []\<lparr>NProc := 3, proctab := []\<rparr>"
  let ?t = "?s\<lparr>proctab := [\<lparr>pr_nloc = 0, pr_ep = 40, pr_ff = 64\<rparr>, \<lparr>pr_nloc = 2, pr_ep = 0, pr_ff = 20\<rparr>,
      \<lparr>pr_nloc = 4, pr_ep = 20, pr_ff = 40\<rparr>]\<rparr>"
  have DB: "DB (sample []) = 64" by (simp add: sample_defs)
  have e: "add_procs [(0, 40), (2, 0), (4, 20)] ?s = Ok () ?t"
    by (simp add: add_proc_def Let_def c_uint_id DB)
  have "proctab ?s = []" by simp
  from add_procs_limits [OF this e] have "map pr_ep (proctab ?t) = [40, 0, 20]" by simp
  then show ?thesis using e by (intro exI [of _ ?t]) simp
qed

end
