(* ===== verification/Loader.thy ===== *)
theory Loader
  imports Proctab Fra_Rsb Floats
begin

text \<open>
  Reading the load file: \<open>util/int/read.c\<close>, and \<open>init_text\<close> of \<open>text.c\<close>.  The open file
  is the list of the bytes not read yet; every reading routine returns the rest of it.  The header
  variables of \<open>read.c\<close> form the record \<open>eout\<close>, except those that are EM parameters.
\<close>

type_synonym load_file = "byte list"

record eout =
  FLAGS :: int
  NTEXT :: size
  NDATA :: size
  NPROC :: long
  ENTRY :: long
  SZDATA :: size

section \<open>Basic reading\<close>

definition loader_error :: "string \<Rightarrow> 'a M" where
  "loader_error m = fatalM (F_load m)"

fun rd_byte :: "load_file \<Rightarrow> (int \<times> load_file) M" where
  "rd_byte [] = loader_error ''EOF reached during initialization''"
| "rd_byte (b # f) = returnM (uint b, f)"

text \<open>\<open>for (i = 1; i < n; i++) l |= (btol(rd_byte()) << (i * 8));\<close>\<close>

primrec rd_int_loop :: "nat \<Rightarrow> nat \<Rightarrow> long \<Rightarrow> load_file \<Rightarrow> (long \<times> load_file) M" where
  "rd_int_loop 0 i l f = returnM (l, f)"
| "rd_int_loop (Suc k) i l f = bindM (rd_byte f) (\<lambda>(b, f).
     rd_int_loop k (Suc i) (l OR push_bit (8 * i) (b AND 0xFF)) f)"

definition rd_int :: "size \<Rightarrow> load_file \<Rightarrow> (long \<times> load_file) M" where
  "rd_int n f = bindM (rd_byte f) (\<lambda>(b, f). rd_int_loop (nat (n - 1)) 1 (b AND 0xFF) f)"

section \<open>Header\<close>

definition sp_magic :: long where "sp_magic = 173"
definition as_magic :: long where "as_magic = sp_magic OR push_bit 8 14"
definition VERSION :: long where "VERSION = 3"

definition rd_sizes :: "load_file \<Rightarrow> (int \<times> load_file) M" where
  "rd_sizes f =
     bindM (rd_int 2 f) (\<lambda>(v, f). if v \<noteq> as_magic then loader_error ''Bad magic number in loadfile'' else
     bindM (rd_int 2 f) (\<lambda>(flags, f).
     bindM (rd_int 2 f) (\<lambda>(v, f). if v \<noteq> 0 then loader_error ''Unresolved references in loadfile'' else
     bindM (rd_int 2 f) (\<lambda>(v, f). if v \<noteq> VERSION then loader_error ''Incorrect version number in loadfile'' else
     bindM (rd_int 2 f) (\<lambda>(w, f). thenM (modifyM (\<lambda>s. s\<lparr>wsize := w\<rparr>))
       (if \<not> (w = 2 \<or> w = 4) then loader_error ''Bad wordsize in loadfile'' else
     thenM (modifyM (\<lambda>s. s\<lparr>dwsize := 2 * wsize s, wsizem1 := wsize s - 1\<rparr>))
     (bindM (rd_int 2 f) (\<lambda>(p, f). thenM (modifyM (\<lambda>s. s\<lparr>psize := p\<rparr>))
       (if \<not> (p = 2 \<or> p = 4) \<or> p < w then loader_error ''Bad pointersize in loadfile'' else
     withM (\<lambda>s. if 2 * p > FRALimit s then loader_error ''FRA maximum size too small'' else
     bindM (rd_int 2 f) (\<lambda>(_, f). bindM (rd_int 2 f) (\<lambda>(_, f). returnM (c_int flags, f)))))))))))))"

definition rd_header :: "load_file \<Rightarrow> (eout \<times> load_file) M" where
  "rd_header f = bindM (rd_sizes f) (\<lambda>(flags, f). withM (\<lambda>s.
     bindM (rd_int (psize s) f) (\<lambda>(ntext, f).
     bindM (rd_int (psize s) f) (\<lambda>(ndata, f).
     bindM (rd_int (psize s) f) (\<lambda>(nproc, f).
     bindM (rd_int (psize s) f) (\<lambda>(entry, f).
       if entry < 0 \<or> entry \<ge> nproc then loader_error ''Bad entry point'' else
     bindM (rd_int (psize s) f) (\<lambda>(nline, f).
     thenM (if nline = 0 then seqM [warn WNLINEZR, modifyM (\<lambda>s. s\<lparr>NLINE := 2147483647\<rparr>)]
       else modifyM (\<lambda>s. s\<lparr>NLINE := nline\<rparr>))
     (bindM (rd_int (psize s) f) (\<lambda>(szdata, f).
     bindM (rd_int (psize s) f) (\<lambda>(_, f).
     bindM (rd_int (psize s) f) (\<lambda>(_, f).
       returnM (\<lparr>FLAGS = flags, NTEXT = ntext, NDATA = ndata, NPROC = nproc, ENTRY = entry,
         SZDATA = szdata\<rparr>, f))))))))))))"

section \<open>Text\<close>

definition init_text :: "eout \<Rightarrow> unit M" where
  "init_text h = seqM [
     modifyM (\<lambda>s. s\<lparr>DB := ulong (NTEXT h)\<rparr>),
     modifyM (\<lambda>s. s\<lparr>NProc := NPROC h\<rparr>),
     modifyM (\<lambda>s. s\<lparr>PI := - 1\<rparr>),
     modifyM (\<lambda>s. s\<lparr>PC := 0\<rparr>),
     withM (\<lambda>s. bindM (Malloc (slong (DB s)) ''text space'') (\<lambda>n. modifyM (\<lambda>s. s\<lparr>text_len := n\<rparr>)))]"

text \<open>\<open>fread(text, 1, (int) DB, load_fp)\<close>: the count is converted to \<open>size_t\<close>, and a short
  read is not noticed.\<close>

definition load_text :: "load_file \<Rightarrow> load_file M" where
  "load_text f = withM (\<lambda>s.
     let k = min (nat (ulong (c_int (DB s)))) (length f) in
     if int k > text_len s then undefM
     else thenM (modifyM (\<lambda>s. s\<lparr>text_seg := upd_bytes (text_seg s) 0 (take k f)\<rparr>)) (returnM (drop k f)))"

section \<open>Global data\<close>

primrec repeat_bytes :: "nat \<Rightarrow> size \<Rightarrow> ptr \<Rightarrow> ptr M" where
  "repeat_bytes 0 diff pos = returnM pos"
| "repeat_bytes (Suc k) diff pos =
     bindM (rd_data (ulong (pos - diff))) (\<lambda>b. bindM (rd_data_sh (ulong (pos - diff))) (\<lambda>f.
       thenM (wr_data f pos b) (repeat_bytes k diff (ulong (pos + 1)))))"

primrec repeat_loop :: "nat \<Rightarrow> size \<Rightarrow> ptr \<Rightarrow> ptr M" where
  "repeat_loop 0 diff pos = returnM pos"
| "repeat_loop (Suc j) diff pos = bindM (repeat_bytes (nat diff) diff pos) (repeat_loop j diff)"

definition rd_repeat :: "ptr \<Rightarrow> size \<Rightarrow> ptr \<Rightarrow> ptr M" where
  "rd_repeat pos count prev_pos = (let diff = slong (ulong (pos - prev_pos)) in
     repeat_loop (nat count) diff pos)"

text \<open>The loops of \<open>rd_descr\<close>: \<open>item\<close> reads and stores one element of \<open>sz\<close> bytes.\<close>

primrec descr_loop :: "(ptr \<Rightarrow> load_file \<Rightarrow> load_file M) \<Rightarrow> size \<Rightarrow> nat \<Rightarrow> ptr \<Rightarrow> load_file \<Rightarrow> (ptr \<times> load_file) M" where
  "descr_loop item sz 0 pos f = returnM (pos, f)"
| "descr_loop item sz (Suc j) pos f =
     bindM (item pos f) (\<lambda>f. descr_loop item sz j (ulong (pos + sz)) f)"

definition item1 :: "ptr \<Rightarrow> load_file \<Rightarrow> load_file M" where
  "item1 pos f = thenM (dt_stw pos 0) (returnM f)"

definition item2 :: "ptr \<Rightarrow> load_file \<Rightarrow> load_file M" where
  "item2 pos f = bindM (rd_byte f) (\<lambda>(b, f). thenM (dt_stn pos (b AND 0xFF) 1) (returnM f))"

definition item3 :: "ptr \<Rightarrow> load_file \<Rightarrow> load_file M" where
  "item3 pos f = withM (\<lambda>s. bindM (rd_int (wsize s) f) (\<lambda>(v, f). thenM (dt_stw pos v) (returnM f)))"

definition item4 :: "ptr \<Rightarrow> load_file \<Rightarrow> load_file M" where
  "item4 pos f = withM (\<lambda>s. bindM (rd_int (psize s) f) (\<lambda>(v, f). thenM (dt_stdp pos (ulong v)) (returnM f)))"

definition item5 :: "ptr \<Rightarrow> load_file \<Rightarrow> load_file M" where
  "item5 pos f = withM (\<lambda>s. bindM (rd_int (psize s) f) (\<lambda>(v, f). thenM (dt_stip pos (ulong v)) (returnM f)))"

text \<open>The representation of a float: up to 127 characters and a null byte.\<close>

primrec float_rep :: "nat \<Rightarrow> load_file \<Rightarrow> (byte list \<times> load_file) M" where
  "float_rep 0 f = loader_error ''Initialized float longer than 128 chars''"
| "float_rep (Suc k) f = bindM (rd_byte f) (\<lambda>(b, f).
     if word_of_int b = (0 :: byte) then returnM ([], f)
     else bindM (float_rep k f) (\<lambda>(r, f). returnM (word_of_int b # r, f)))"

definition rd_descr ::
  "fpu \<Rightarrow> int \<Rightarrow> size \<Rightarrow> ptr \<Rightarrow> load_file \<Rightarrow> (ptr \<times> load_file) M" where
  "rd_descr F type count pos f = withM (\<lambda>s.
     if type = 1 then descr_loop item1 (wsize s) (nat count) pos f
     else if type = 2 then descr_loop item2 1 (nat count) pos f
     else if type = 3 then descr_loop item3 (wsize s) (nat count) pos f
     else if type = 4 then descr_loop item4 (psize s) (nat count) pos f
     else if type = 5 then descr_loop item5 (psize s) (nat count) pos f
     else if type = 6 \<or> type = 7 then
       (if count \<noteq> 1 \<and> count \<noteq> 2 \<and> count \<noteq> 4 then loader_error ''Bad integersize during initialisation''
        else bindM (rd_int count f) (\<lambda>(v, f).
          thenM (dt_stn pos v count) (returnM (ulong (pos + count), f))))
     else if type = 8 then
       (if count \<noteq> 4 \<and> count \<noteq> 8 then loader_error ''Bad floatsize during initialisation''
        else bindM (float_rep 128 f) (\<lambda>(r, f).
          thenM (bindM (str2double F r) (\<lambda>d. dt_stf F pos d count)) (returnM (ulong (pos + count), f))))
     else loader_error ''Unknown initializer type in global data.'')"

primrec gda_loop :: "fpu \<Rightarrow> nat \<Rightarrow> int \<Rightarrow> ptr \<Rightarrow> ptr \<Rightarrow> load_file \<Rightarrow> load_file M" where
  "gda_loop F 0 prev_type pos prev_pos f = returnM f"
| "gda_loop F (Suc k) prev_type pos prev_pos f = bindM (rd_byte f) (\<lambda>(b, f).
     let type = b AND 0xFF in
     if type = 0 then withM (\<lambda>s. bindM (rd_int (psize s) f) (\<lambda>(count, f).
       if prev_type = 0 then loader_error ''Type 0 initialisation on type 0''
       else bindM (rd_repeat pos count prev_pos) (\<lambda>pos. gda_loop F k 0 pos prev_pos f)))
     else bindM (rd_byte f) (\<lambda>(b, f).
       bindM (rd_descr F type (b AND 0xFF) pos f) (\<lambda>(pos', f). gda_loop F k type pos' pos f)))"

definition rd_gda :: "fpu \<Rightarrow> eout \<Rightarrow> load_file \<Rightarrow> load_file M" where
  "rd_gda F h f = bindM (gda_loop F (nat (NDATA h)) 0 0 0 f) (\<lambda>f.
     thenM (seqM [dt_prot 0 LINSIZE, withM (\<lambda>s. dt_prot 4 (psize s))]) (returnM f))"

section \<open>Procedure descriptors\<close>

primrec proctab_loop :: "nat \<Rightarrow> load_file \<Rightarrow> load_file M" where
  "proctab_loop 0 f = returnM f"
| "proctab_loop (Suc k) f = withM (\<lambda>s. bindM (rd_int (psize s) f) (\<lambda>(nloc, f).
     bindM (rd_int (psize s) f) (\<lambda>(ep, f). thenM (add_proc nloc (ulong ep)) (proctab_loop k f))))"

definition rd_proctab :: "eout \<Rightarrow> load_file \<Rightarrow> load_file M" where
  "rd_proctab h f = thenM init_proctab (proctab_loop (nat (NPROC h)) f)"

section \<open>What reading returns\<close>

lemma or_shift_byte:
  assumes "0 \<le> (l :: int)" and "l < 2 ^ k"
  shows "l OR push_bit k x = l + 2 ^ k * x"
proof -
  have l: "take_bit k l = l" using assms by (rule take_bit_int_eq_self)
  have "l AND push_bit k x = 0"
  proof (rule bit_eqI)
    fix n
    have "bit l n \<Longrightarrow> n < k" using l by (metis bit_take_bit_iff)
    then show "bit (l AND push_bit k x) n = bit 0 n" by (auto simp: bit_simps)
  qed
  then have "l OR push_bit k x = l + push_bit k x" by (simp add: disjunctive_add_eq_or)
  then show ?thesis by (simp add: push_bit_eq_mult)
qed

lemma byte_mask: "uint (b :: byte) AND 255 = uint b"
proof -
  have "uint b AND 255 = take_bit 8 (uint b)" by (simp add: take_bit_eq_mask mask_eq_exp_minus_1)
  then show ?thesis using uint_bounded [of b] by (simp add: take_bit_int_eq_self)
qed

lemma uval_bound: "uval bs < 2 ^ (8 * length bs)"
proof -
  have "(256 :: int) ^ length bs = 2 ^ (8 * length bs)" by (simp add: power_mult)
  then show ?thesis using uval_range(2) [of bs] by simp
qed

lemma uval_snoc: "uval (bs @ [b]) = uval bs + 2 ^ (8 * length bs) * uint b"
  by (induction bs) (simp_all add: power_add algebra_simps)

lemma rd_int_loop_eq:
  "rd_int_loop k (length bs) (uval bs) f =
    (if k \<le> length f then returnM (uval (bs @ take k f), drop k f)
     else loader_error ''EOF reached during initialization'')"
proof (induction k arbitrary: bs f)
  case 0
  show ?case by (simp only: rd_int_loop.simps) simp
next
  case (Suc k)
  show ?case
  proof (cases f)
    case Nil
    have "bindM (loader_error m) g = loader_error m" for m and g :: "int \<times> load_file \<Rightarrow> (long \<times> load_file) M"
      by (rule ext) (simp add: loader_error_def)
    then show ?thesis using Nil by (simp only: rd_int_loop.simps rd_byte.simps) simp
  next
    case (Cons b f')
    have "uval bs OR push_bit (8 * length bs) (uint b AND 255) = uval (bs @ [b])"
      unfolding byte_mask uval_snoc by (rule or_shift_byte [OF uval_range(1) uval_bound])
    then have "rd_int_loop (Suc k) (length bs) (uval bs) f = rd_int_loop k (length (bs @ [b])) (uval (bs @ [b])) f'"
      unfolding Cons rd_int_loop.simps rd_byte.simps bindM_returnM by simp
    then show ?thesis using Suc.IH [of "bs @ [b]" f'] Cons by simp
  qed
qed

lemma rd_int_eq:
  assumes "0 < n"
  shows "rd_int n f = (if nat n \<le> length f then returnM (uval (take (nat n) f), drop (nat n) f)
    else loader_error ''EOF reached during initialization'')"
proof (cases f)
  case Nil
  have "bindM (loader_error m) g = loader_error m" for m and g :: "int \<times> load_file \<Rightarrow> (long \<times> load_file) M"
    by (rule ext) (simp add: loader_error_def)
  then show ?thesis using Nil assms by (simp only: rd_int_def rd_byte.simps) simp
next
  case (Cons b f')
  have e: "nat n = Suc (nat (n - 1))" using assms by simp
  have "uval [b] = uint b AND 255" by (simp add: byte_mask)
  then have "rd_int n f = rd_int_loop (nat (n - 1)) (length [b]) (uval [b]) f'"
    by (simp add: rd_int_def Cons)
  then show ?thesis unfolding rd_int_loop_eq using Cons by (simp add: e)
qed

section \<open>The invariant\<close>

lemma keeps_loader_error [keeps_rules]: "keeps I (loader_error m) R"
  unfolding loader_error_def by (rule keeps_fatal)

lemma keeps_rd_byte [keeps_rules]: "keeps I (rd_byte f) anyR"
  by (cases f) (simp_all only: rd_byte.simps keeps_loader_error keeps_return)

lemma keeps_rd_int [keeps_rules]: "keeps I (rd_int n f) anyR"
proof -
  have "keeps I (rd_int_loop k i l f) anyR" for k i l f
  proof (induction k arbitrary: i l f)
    case (Suc k)
    show ?case unfolding rd_int_loop.simps by (rule keeps_bind [OF keeps_rd_byte]) (rule keeps_case_prod Suc)+
  qed (simp only: rd_int_loop.simps keeps_return)
  then show ?thesis
    unfolding rd_int_def by (intro keeps_bind [OF keeps_rd_byte] keeps_case_prod)
qed

lemma keeps_rd_repeat [keeps_rules]: "keeps (minv c) (rd_repeat pos count prev) anyR"
proof -
  have b: "keeps (minv c) (repeat_bytes k diff pos) anyR" for k diff pos
  proof (induction k arbitrary: pos)
    case (Suc k)
    show ?case unfolding repeat_bytes.simps by (rule keeps_rules Suc TrueI)+
  qed (simp only: repeat_bytes.simps keeps_return)
  have "keeps (minv c) (repeat_loop j diff pos) anyR" for j diff pos
  proof (induction j arbitrary: pos)
    case (Suc j)
    show ?case unfolding repeat_loop.simps by (rule keeps_bind [OF b Suc])
  qed (simp only: repeat_loop.simps keeps_return)
  then show ?thesis by (simp add: rd_repeat_def Let_def)
qed

lemma keeps_items:
  "keeps (minv c) (item1 pos f) anyR" "keeps (minv c) (item2 pos f) anyR" "keeps (minv c) (item3 pos f) anyR"
  "keeps (minv c) (item4 pos f) anyR" "keeps (minv c) (item5 pos f) anyR"
  unfolding item1_def item2_def item3_def item4_def item5_def
  by (intro keeps_with keeps_bind [OF keeps_rd_int] keeps_bind [OF keeps_rd_byte] keeps_case_prod
      keeps_then keeps_dt_stores keeps_return TrueI)+

lemma keeps_descr_loop:
  assumes "\<And>pos f. keeps I (item pos f) anyR"
  shows "keeps I (descr_loop item sz j pos f) anyR"
proof (induction j arbitrary: pos f)
  case (Suc j)
  show ?case unfolding descr_loop.simps by (rule keeps_bind [OF assms Suc])
qed (simp only: descr_loop.simps keeps_return)

lemma keeps_float_rep: "keeps I (float_rep k f) anyR"
proof (induction k arbitrary: f)
  case (Suc k)
  show ?case
    unfolding float_rep.simps
    by (intro keeps_bind [OF keeps_rd_byte] keeps_bind [OF Suc] keeps_case_prod keeps_if keeps_return TrueI)
qed (simp only: float_rep.simps keeps_loader_error)

lemma keeps_rd_descr: "keeps (minv c) (rd_descr F type count pos f) anyR"
  unfolding rd_descr_def
  by (intro keeps_with keeps_if keeps_descr_loop keeps_items keeps_loader_error
      keeps_bind [OF keeps_rd_int] keeps_bind [OF keeps_float_rep] keeps_case_prod keeps_then
      keeps_dt_stores keeps_bind [OF keeps_str2double] wst_free_minv keeps_fl_stores keeps_return TrueI)

lemma keeps_rd_gda [keeps_rules]:
  "keeps (minv c) (rd_gda F h f) anyR"
proof -
  have l: "keeps (minv c) (gda_loop F k pt pos pp f) anyR" for k pt pos pp f
  proof (induction k arbitrary: pt pos pp f)
    case (Suc k)
    show ?case
      unfolding gda_loop.simps Let_def
      by (intro keeps_bind [OF keeps_rd_byte] keeps_case_prod keeps_if keeps_with
          keeps_bind [OF keeps_rd_int] keeps_loader_error keeps_bind [OF keeps_rd_repeat]
          keeps_bind [OF keeps_rd_descr] Suc)
  qed (simp only: gda_loop.simps keeps_return)
  show ?thesis
    unfolding rd_gda_def by (rule keeps_bind [OF l]) (rule keeps_rules TrueI)+
qed

end
