(* ===== verification/Calls.thy ===== *)
theory Calls
  imports Proc Int_Arith
begin

text \<open>
  What a procedure call does to the stack: the return status block that \<open>pushrsb\<close> (\<open>rsb.c\<close>)
  writes slot by slot, and the machine after \<open>call\<close> (\<open>do_proc.c\<close>).
\<close>

section \<open>Shadow bytes\<close>

text \<open>A segment whose shadow bytes can be written alone.\<close>

locale shadow_segment = byte_segment +
  fixes wrsh :: "byte \<Rightarrow> ptr \<Rightarrow> unit M"
  assumes wrsh_ok: "ok s a \<Longrightarrow> wrsh f a s = Ok () (upd (loc s) ((sh s)(a := f)) (wst s) s)"
begin

lemma wst_of_upd: "wst (upd d h w s) = w"
proof -
  have "(upd d h w s)\<lparr>wst := w\<rparr> = upd d h w s" by (simp add: wst_upd loc_upd sh_upd upd_upd)
  from arg_cong [OF this, of wst] show ?thesis by simp
qed

lemma or_sh2_ok:
  assumes "run_ok s a 2"
  shows "\<exists>h. or_sh2 rdsh wrsh g a s = Ok () (upd (loc s) h (wst s) s)"
proof -
  have a: "ok s a" "ok s (a + 1)" "ulong (a + 1) = a + 1"
    using assms by (auto simp: run_ok_def numeral_2_eq_2 All_less_Suc ulong_id)
  then show ?thesis
    by (simp add: or_sh2_def rdsh_ok wrsh_ok loc_upd sh_upd ok_upd upd_upd wst_of_upd) blast
qed

lemma or_run_ok:
  assumes "run_ok s a (nat n)" and "n = 2 \<or> n = 4"
  shows "\<exists>h. thenM (or_sh2 rdsh wrsh g a) (whenM (n = 4) (or_sh2 rdsh wrsh g (ulong (a + 2)))) s
    = Ok () (upd (loc s) h (wst s) s)"
proof -
  have r: "run_ok s a 2" using assms by (auto simp: run_ok_def)
  then obtain h where h: "or_sh2 rdsh wrsh g a s = Ok () (upd (loc s) h (wst s) s)" using or_sh2_ok by blast
  show ?thesis
  proof (cases "n = 4")
    case True
    have "\<forall>i<4. ok s (a + int i)" "0 \<le> a" "a + 4 \<le> 2 ^ 63" using assms(1) True by (simp_all add: run_ok_def)
    moreover have "ok s (a + 2 + int i)" if "i < 2" for i
      using calculation(1) [rule_format, of "i + 2"] that by (simp add: add.assoc)
    ultimately have "run_ok s (a + 2) 2" and u: "ulong (a + 2) = a + 2"
      by (simp_all add: run_ok_def ulong_id)
    then obtain h' where "or_sh2 rdsh wrsh g (a + 2) (upd (loc s) h (wst s) s)
        = Ok () (upd (loc s) h' (wst s) s)"
      using or_sh2_ok [of "upd (loc s) h (wst s) s" "a + 2" g] by (auto simp: loc_upd upd_upd wst_of_upd)
    then show ?thesis using True h u by (intro exI [of _ h']) simp
  next
    case False
    then show ?thesis using h by (intro exI [of _ h]) simp
  qed
qed

end

interpretation dsh: shadow_segment data_ok data data_sh rd_data rd_data_sh dt_put upd_data wr_data_sh
  by unfold_locales (simp add: wr_data_sh_def)

interpretation ssh: shadow_segment stack_ok stack stack_sh rd_stack rd_stack_sh st_put upd_stack wr_stack_sh
  by unfold_locales (simp add: wr_stack_sh_def)

section \<open>Filling a block from its top\<close>

text \<open>The stack from \<open>a\<close> to the memory limit holds \<open>bs\<close>; the slots below it are still to be
  filled.\<close>

definition filled :: "em_prog \<Rightarrow> mach \<Rightarrow> ptr \<Rightarrow> ptr \<Rightarrow> byte list \<Rightarrow> mach \<Rightarrow> bool" where
  "filled c s p a bs t \<longleftrightarrow> minv c t \<and> stk_frame s t \<and> SP t = p \<and> p \<le> a \<and> wsize c dvd a
     \<and> a + int (length bs) = MLim c + 1 \<and> rd_bytes (stack t) a (length bs) = bs"

lemma st_prot_ok:
  assumes t: "minv c t" and a: "SP t \<le> a" "a + n \<le> MLim c + 1" and n: "n = 2 \<or> n = 4"
  shows "\<exists>h. st_prot a n t = Ok () (t\<lparr>stack_sh := h\<rparr>)"
  using ssh.or_run_ok [OF stack_run_ok [OF t a(1) _ a(2)] n] n by (auto simp: st_prot_def)

lemma dt_prot_ok:
  assumes t: "minv c t" and a: "0 \<le> a" "a + n \<le> HP t" and n: "n = 2 \<or> n = 4"
  shows "\<exists>h. dt_prot a n t = Ok () (t\<lparr>data_sh := h\<rparr>)" "\<exists>h. dt_unprot a n t = Ok () (t\<lparr>data_sh := h\<rparr>)"
  using dsh.or_run_ok [OF data_run_ok [OF t a(1) _ a(2)] n] n by (auto simp: dt_prot_def dt_unprot_def)

lemma stk_frame_upd:
  assumes "stk_frame s t"
  shows "stk_frame s (upd_stack d h w t)"
proof (rule stk_frame_trans [OF assms])
  show "stk_frame t (upd_stack d h w t)"
    by (rule stk_frameI [where p = "SP t" and d = d and h = h and l = "SL t" and k = "stack_len t" and w = w])
      simp
qed

lemma fill_slot:
  assumes t: "filled c s p (a + n) bs t" and a: "p \<le> a" "wsize c dvd a" and n: "n = 2 \<or> n = 4"
    and m: "\<exists>h w. m t = Ok () (upd_stack (upd_bytes (stack t) a (le_bytes (nat n) v)) h w t)"
  shows "\<exists>t'. m t = Ok () t' \<and> filled c s p a (le_bytes (nat n) v @ bs) t'
    \<and> (\<exists>t''. st_prot a n t' = Ok () t'' \<and> filled c s p a (le_bytes (nat n) v @ bs) t'')"
proof -
  have f: "minv c t" "stk_frame s t" "SP t = p" "a + n + int (length bs) = MLim c + 1"
    "rd_bytes (stack t) (a + n) (length bs) = bs"
    using t by (auto simp: filled_def)
  obtain h w where m: "m t = Ok () (upd_stack (upd_bytes (stack t) a (le_bytes (nat n) v)) h w t)"
    using m by blast
  let ?t = "\<lambda>h. upd_stack (upd_bytes (stack t) a (le_bytes (nat n) v)) h w t"
  have r: "rd_bytes (upd_bytes (stack t) a (le_bytes (nat n) v)) a (nat n + length bs)
      = le_bytes (nat n) v @ bs"
    unfolding rd_bytes_add using f(5) n by (subst (2) rd_upd_disjoint) auto
  have fl: "filled c s p a (le_bytes (nat n) v @ bs) (?t h)" for h
    unfolding filled_def
  proof (intro conjI)
    show "minv c (?t h)" using f(1) by simp
    show "stk_frame s (?t h)" by (rule stk_frame_upd [OF f(2)])
    show "a + int (length (le_bytes (nat n) v @ bs)) = MLim c + 1" using f(4) n by auto
    show "rd_bytes (stack (?t h)) a (length (le_bytes (nat n) v @ bs)) = le_bytes (nat n) v @ bs"
      using r by simp
  qed (use a f(3) in simp_all)
  have "minv c (?t h)" using f(1) by simp
  moreover have "SP (?t h) \<le> a" "a + n \<le> MLim c + 1" using a f(3,4) by simp_all
  ultimately obtain h' where "st_prot a n (?t h) = Ok () (?t h\<lparr>stack_sh := h'\<rparr>)" using st_prot_ok n by blast
  moreover have "?t h\<lparr>stack_sh := h'\<rparr> = ?t h'" by simp
  ultimately show ?thesis using m fl by metis
qed

lemma fill_step:
  assumes t: "filled c s p (a + n) bs t" and a: "p \<le> a" "wsize c dvd a" and n: "n = 2 \<or> n = 4"
    and off: "\<And>u. minv c u \<Longrightarrow> off u = a - p" "\<And>u. minv c u \<Longrightarrow> sz u = n"
    and m: "\<exists>h w. st a t t = Ok () (upd_stack (upd_bytes (stack t) a (le_bytes (nat n) v)) h w t)"
  shows "\<exists>t'. filled c s p a (le_bytes (nat n) v @ bs) t'
    \<and> (\<forall>k. thenM (withM (\<lambda>s. st (ulong (SP s + off s)) s))
      (thenM (withM (\<lambda>s. st_prot (ulong (SP s + off s)) (sz s))) k) t = (k :: unit M) t')"
proof -
  obtain t' t'' where e: "st a t t = Ok () t'" "filled c s p a (le_bytes (nat n) v @ bs) t'"
    "st_prot a n t' = Ok () t''" "filled c s p a (le_bytes (nat n) v @ bs) t''"
    using fill_slot [OF t a n, where m = "st a t" and v = v] m by blast
  have u: "ulong (SP u + off u) = a" if "filled c s p b bs' u" for b bs' u
  proof -
    have u: "minv c u" "SP u = p" using that by (simp_all add: filled_def)
    have "a \<le> MLim c + 1" using e(2) n by (auto simp: filled_def)
    then show ?thesis
      using u a(1) off(1) [OF u(1)] minv_regs(5) [OF u(1)] minv_MLim(2) [OF u(1)] by (simp add: ulong_id)
  qed
  have "minv c t'" using e(2) by (simp add: filled_def)
  then show ?thesis
    using e off(2) [of t'] u [OF t] u [OF e(2)] by (intro exI [of _ t'']) simp
qed

text \<open>The bytes of a return status block.\<close>

definition rsb_bytes :: "em_prog \<Rightarrow> int \<Rightarrow> mach \<Rightarrow> byte list" where
  "rsb_bytes c rsbcode s = le_bytes (nat (wsize c)) rsbcode @ le_bytes (nat (psize c)) (PI s)
     @ le_bytes (nat (psize c)) (slong (PC s)) @ le_bytes (nat (psize c)) (slong (LB s))
     @ le_bytes 4 (LIN s) @ le_bytes (nat (psize c)) (slong (FIL s))"

lemma length_rsb_bytes:
  assumes "minv c s"
  shows "int (length (rsb_bytes c rsbcode u)) = rsbsize c"
  using minv_caps(1,2,12) [OF assms] by (auto simp: rsb_bytes_def)

text \<open>The slots of the block, from the top.\<close>

lemma rsb_slots:
  assumes s: "minv c s" and p: "wsize c dvd p"
  shows "wsize c dvd p + rsb_FIL c" "wsize c dvd p + rsb_LIN c" "wsize c dvd p + rsb_LB c"
    "wsize c dvd p + rsb_PC c" "wsize c dvd p + rsb_PI c" "wsize c dvd p + rsb_rsbcode c"
    and "rsb_FIL c + psize c = rsbsize c" "rsb_LIN c + 4 = rsb_FIL c" "rsb_LB c + psize c = rsb_LIN c"
    "rsb_PC c + psize c = rsb_LB c" "rsb_PI c + psize c = rsb_PC c" "rsb_rsbcode c + wsize c = rsb_PI c"
    "rsb_rsbcode c = 0" "0 < wsize c" "0 < psize c"
proof -
  note caps = minv_caps [OF s]
  have d: "wsize c dvd psize c" "wsize c dvd 4" using caps(1-3) by auto
  then have "wsize c dvd p + wsize c" "wsize c dvd p + (wsize c + psize c)"
    "wsize c dvd p + (wsize c + 2 * psize c)" "wsize c dvd p + (wsize c + 3 * psize c)"
    "wsize c dvd p + (wsize c + 3 * psize c + 4)"
    using p by (intro dvd_add dvd_mult; simp)+
  then show "wsize c dvd p + rsb_FIL c" "wsize c dvd p + rsb_LIN c" "wsize c dvd p + rsb_LB c"
    "wsize c dvd p + rsb_PC c" "wsize c dvd p + rsb_PI c" "wsize c dvd p + rsb_rsbcode c"
    unfolding caps(6-11) using p by simp_all
  show "rsb_FIL c + psize c = rsbsize c" "rsb_LIN c + 4 = rsb_FIL c" "rsb_LB c + psize c = rsb_LIN c"
    "rsb_PC c + psize c = rsb_LB c" "rsb_PI c + psize c = rsb_PC c" "rsb_rsbcode c + wsize c = rsb_PI c"
    "rsb_rsbcode c = 0"
    unfolding caps(6-12) by simp_all
  show "0 < wsize c" "0 < psize c" using caps(1,2) by auto
qed

lemma filled_stores:
  assumes u: "filled c s p b bs u" and a: "p \<le> a" "wsize c dvd a"
  shows "a + psize c \<le> b \<Longrightarrow>
      \<exists>h w. st_stdp a v u = Ok () (upd_stack (upd_bytes (stack u) a (le_bytes (nat (psize c)) (slong v))) h w u)"
    and "a + psize c \<le> b \<Longrightarrow>
      \<exists>h w. st_stip a v u = Ok () (upd_stack (upd_bytes (stack u) a (le_bytes (nat (psize c)) (slong v))) h w u)"
    and "a + wsize c \<le> b \<Longrightarrow>
      \<exists>h w. st_stw a v u = Ok () (upd_stack (upd_bytes (stack u) a (le_bytes (nat (wsize c)) v)) h w u)"
    and "a + n \<le> b \<Longrightarrow> n = 2 \<or> n = 4 \<Longrightarrow> wsize c \<le> n \<Longrightarrow>
      \<exists>h w. st_stn a v n u = Ok () (upd_stack (upd_bytes (stack u) a (le_bytes (nat n) v)) h w u)"
proof -
  have f: "minv c u" "SP u \<le> a" and b: "b \<le> MLim c + 1" using u a by (auto simp: filled_def)
  show "\<exists>h w. st_stdp a v u = Ok () (upd_stack (upd_bytes (stack u) a (le_bytes (nat (psize c)) (slong v))) h w u)"
    "\<exists>h w. st_stip a v u = Ok () (upd_stack (upd_bytes (stack u) a (le_bytes (nat (psize c)) (slong v))) h w u)"
    if "a + psize c \<le> b"
    using st_stp_ok [OF f _ a(2), of v] that b by (meson order_trans)+
  show "\<exists>h w. st_stw a v u = Ok () (upd_stack (upd_bytes (stack u) a (le_bytes (nat (wsize c)) v)) h w u)"
    if "a + wsize c \<le> b"
    using st_stw_ok [OF f _ a(2), of v] that b by (meson order_trans)
  show "\<exists>h w. st_stn a v n u = Ok () (upd_stack (upd_bytes (stack u) a (le_bytes (nat n) v)) h w u)"
    if "a + n \<le> b" "n = 2 \<or> n = 4" "wsize c \<le> n"
  proof -
    have "min n (wsize c) dvd a" "0 < n" "n \<le> 8" "a + n \<le> MLim c + 1" using that a(2) b by (auto simp: min_def)
    then show ?thesis using st_stn_ok [OF f, of n v] by meson
  qed
qed

lemma incSP_filled:
  assumes s: "minv c s" and f: "fits s (length (opstack s) + nat (rsbsize c))"
  shows "\<exists>t. incSP (rsbsize c) s = Ok () t \<and> filled c s (SP s - rsbsize c) (SP s) (opstack s) t"
proof -
  let ?p = "SP s - rsbsize c"
  obtain h l k where i: "incSP (rsbsize c) s = Ok () (s\<lparr>SP := ?p, stack_sh := h, SL := l, stack_len := k\<rparr>)"
    and t0: "minv c (s\<lparr>SP := ?p, stack_sh := h, SL := l, stack_len := k\<rparr>)"
    using incSP_ok [OF s wmult_sizes(3) [OF s] f] by blast
  let ?t = "s\<lparr>SP := ?p, stack_sh := h, SL := l, stack_len := k\<rparr>"
  have "filled c s ?p (SP s) (opstack s) ?t"
    unfolding filled_def
  proof (intro conjI)
    show "stk_frame s ?t"
      by (rule stk_frameI [where p = ?p and d = "stack s" and h = h and l = l and k = k and w = "wst s"]) simp
    show "minv c ?t" by (rule t0)
    show "SP ?t = ?p" by simp
    show "?p \<le> SP s" using wmult_sizes(3) [OF s] by (simp add: wmult_def)
    show "wsize c dvd SP s" by (rule minv_regs(8) [OF s])
    show "SP s + int (length (opstack s)) = MLim c + 1" using opstack_SP [OF s] by simp
    show "rd_bytes (stack ?t) (SP s) (length (opstack s)) = opstack s" by (simp add: opstack_def)
  qed
  then show ?thesis using i by blast
qed

lemma filled_opstack:
  assumes "filled c s p p bs t"
  shows "opstack t = bs"
proof -
  have t: "minv c t" "SP t = p" "p + int (length bs) = MLim c + 1" "rd_bytes (stack t) p (length bs) = bs"
    using assms by (simp_all add: filled_def)
  then have "nat (MLim t + 1 - SP t) = length bs" using minv_fields(17) [OF t(1)] by simp
  then show ?thesis using t by (simp add: opstack_def)
qed

lemma then_step: "m s = Ok x t \<Longrightarrow> thenM m k s = k t"
  by simp

text \<open>One slot of the block: a store followed by its protection.\<close>

lemma slot:
  assumes t: "filled c s p (a + n) bs t" and a: "p \<le> a" "wsize c dvd a"
    and off: "\<And>u. minv c u \<Longrightarrow> off u = a - p" "\<And>u. minv c u \<Longrightarrow> sz u = n"
    and v: "v t = x" and n: "n = 2 \<or> n = 4"
    and st: "st = st_stdp \<and> n = psize c \<and> y = slong x \<or> st = st_stip \<and> n = psize c \<and> y = slong x
      \<or> st = st_stw \<and> n = wsize c \<and> y = x \<or> st = (\<lambda>a x. st_stn a x n) \<and> wsize c \<le> n \<and> y = x"
  shows "\<exists>t'. filled c s p a (le_bytes (nat n) y @ bs) t'
    \<and> (\<forall>k. thenM (withM (\<lambda>s. st (ulong (SP s + off s)) (v s)))
      (thenM (withM (\<lambda>s. st_prot (ulong (SP s + off s)) (sz s))) k) t = (k :: unit M) t')"
proof (rule fill_step [OF t a n, where st = "\<lambda>a u. st a (v u)"])
  show "\<exists>h w. st a (v t) t = Ok () (upd_stack (upd_bytes (stack t) a (le_bytes (nat n) y)) h w t)"
    using st filled_stores(1-3) [OF t a] filled_stores(4) [OF t a, of n x] n unfolding v
    by (elim disjE [of _ "_ \<or> _"] disjE conjE) simp_all
qed (use off in simp_all)

lemma pushrsb_fills:
  assumes s: "minv c s" and f: "fits s (length (opstack s) + nat (rsbsize c))"
  shows "\<exists>t. pushrsb rsbcode s = newLB (SP t) t \<and> minv c t \<and> stk_frame s t
    \<and> opstack t = rsb_bytes c rsbcode s @ opstack s"
proof -
  let ?p = "SP s - rsbsize c"
  obtain t0 where i: "incSP (rsbsize c) s = Ok () t0" and t0: "filled c s ?p (SP s) (opstack s) t0"
    using incSP_filled [OF s f] by blast
  have "minv c t0" "SP t0 = ?p" using t0 by (simp_all add: filled_def)
  then have al: "wsize c dvd ?p" using minv_regs(8) [of c t0] by simp
  note sl = rsb_slots(1-6) [OF s al] and g = rsb_slots(7-15) [OF s al]
  have n: "psize c = 2 \<or> psize c = 4" "wsize c = 2 \<or> wsize c = 4" "wsize c \<le> psize c" "wsize c \<le> 4"
    using minv_caps(1-3) [OF s] by auto
  have nn: "?p \<le> ?p + rsb_FIL c" "?p \<le> ?p + rsb_LIN c" "?p \<le> ?p + rsb_LB c" "?p \<le> ?p + rsb_PC c"
    "?p \<le> ?p + rsb_PI c" "?p \<le> ?p + rsb_rsbcode c"
    using g by linarith+
  have fr: "FIL u = FIL s" "LIN u = LIN s" "LB u = LB s" "PC u = PC s" "PI u = PI s"
    if "filled c s ?p b bs u" for b bs u
    using that stk_frame_fields [of s u] unfolding filled_def by simp_all
  note mf = minv_fields(1,2,10-15)
  obtain t1 where t1: "filled c s ?p (?p + rsb_FIL c) (le_bytes (nat (psize c)) (slong (FIL s)) @ opstack s) t1"
    and e1: "\<And>k :: unit M. thenM (withM (\<lambda>s. (st_stdp) (ulong (SP s + rsb_FIL s)) ((FIL) s)))
      (thenM (withM (\<lambda>s. st_prot (ulong (SP s + rsb_FIL s)) (psize s))) k) t0 = k t1"
    using slot [of c s ?p "?p + rsb_FIL c" "psize c" "opstack s" t0 rsb_FIL "psize" "FIL" "(FIL) s" "st_stdp" "slong (FIL s)"]
      t0 nn(1) sl(1) g(1) n fr mf by (simp add: add.assoc) blast
  obtain t2 where t2: "filled c s ?p (?p + rsb_LIN c) (le_bytes (nat 4) (LIN s) @ le_bytes (nat (psize c)) (slong (FIL s)) @ opstack s) t2"
    and e2: "\<And>k :: unit M. thenM (withM (\<lambda>s. (\<lambda>a x. st_stn a x 4) (ulong (SP s + rsb_LIN s)) ((LIN) s)))
      (thenM (withM (\<lambda>s. st_prot (ulong (SP s + rsb_LIN s)) 4)) k) t1 = k t2"
    using slot [of c s ?p "?p + rsb_LIN c" "4" "le_bytes (nat (psize c)) (slong (FIL s)) @ opstack s" t1 rsb_LIN "\<lambda>_. 4" "LIN" "(LIN) s" "\<lambda>a x. st_stn a x 4" "LIN s"]
      t1 nn(2) sl(2) g(2) n fr mf by (simp add: add.assoc) blast
  obtain t3 where t3: "filled c s ?p (?p + rsb_LB c) (le_bytes (nat (psize c)) (slong (LB s)) @ le_bytes (nat 4) (LIN s) @ le_bytes (nat (psize c)) (slong (FIL s)) @ opstack s) t3"
    and e3: "\<And>k :: unit M. thenM (withM (\<lambda>s. (st_stdp) (ulong (SP s + rsb_LB s)) ((LB) s)))
      (thenM (withM (\<lambda>s. st_prot (ulong (SP s + rsb_LB s)) (psize s))) k) t2 = k t3"
    using slot [of c s ?p "?p + rsb_LB c" "psize c" "le_bytes (nat 4) (LIN s) @ le_bytes (nat (psize c)) (slong (FIL s)) @ opstack s" t2 rsb_LB "psize" "LB" "(LB) s" "st_stdp" "slong (LB s)"]
      t2 nn(3) sl(3) g(3) n fr mf by (simp add: add.assoc) blast
  obtain t4 where t4: "filled c s ?p (?p + rsb_PC c) (le_bytes (nat (psize c)) (slong (PC s)) @ le_bytes (nat (psize c)) (slong (LB s)) @ le_bytes (nat 4) (LIN s) @ le_bytes (nat (psize c)) (slong (FIL s)) @ opstack s) t4"
    and e4: "\<And>k :: unit M. thenM (withM (\<lambda>s. (st_stip) (ulong (SP s + rsb_PC s)) ((PC) s)))
      (thenM (withM (\<lambda>s. st_prot (ulong (SP s + rsb_PC s)) (psize s))) k) t3 = k t4"
    using slot [of c s ?p "?p + rsb_PC c" "psize c" "le_bytes (nat (psize c)) (slong (LB s)) @ le_bytes (nat 4) (LIN s) @ le_bytes (nat (psize c)) (slong (FIL s)) @ opstack s" t3 rsb_PC "psize" "PC" "(PC) s" "st_stip" "slong (PC s)"]
      t3 nn(4) sl(4) g(4) n fr mf by (simp add: add.assoc) blast
  obtain t5 where t5: "filled c s ?p (?p + rsb_PI c) (le_bytes (nat (psize c)) (PI s) @ le_bytes (nat (psize c)) (slong (PC s)) @ le_bytes (nat (psize c)) (slong (LB s)) @ le_bytes (nat 4) (LIN s) @ le_bytes (nat (psize c)) (slong (FIL s)) @ opstack s) t5"
    and e5: "\<And>k :: unit M. thenM (withM (\<lambda>s. (\<lambda>a x. st_stn a x (psize c)) (ulong (SP s + rsb_PI s)) ((PI) s)))
      (thenM (withM (\<lambda>s. st_prot (ulong (SP s + rsb_PI s)) (psize s))) k) t4 = k t5"
    using slot [of c s ?p "?p + rsb_PI c" "psize c" "le_bytes (nat (psize c)) (slong (PC s)) @ le_bytes (nat (psize c)) (slong (LB s)) @ le_bytes (nat 4) (LIN s) @ le_bytes (nat (psize c)) (slong (FIL s)) @ opstack s" t4 rsb_PI "psize" "PI" "(PI) s" "\<lambda>a x. st_stn a x (psize c)" "PI s"]
      t4 nn(5) sl(5) g(5) n fr mf by (simp add: add.assoc) blast
  obtain t6 where t6: "filled c s ?p (?p + rsb_rsbcode c) (le_bytes (nat (wsize c)) rsbcode @ le_bytes (nat (psize c)) (PI s) @ le_bytes (nat (psize c)) (slong (PC s)) @ le_bytes (nat (psize c)) (slong (LB s)) @ le_bytes (nat 4) (LIN s) @ le_bytes (nat (psize c)) (slong (FIL s)) @ opstack s) t6"
    and e6: "\<And>k :: unit M. thenM (withM (\<lambda>s. (st_stw) (ulong (SP s + rsb_rsbcode s)) ((\<lambda>_. rsbcode) s)))
      (thenM (withM (\<lambda>s. st_prot (ulong (SP s + rsb_rsbcode s)) (wsize s))) k) t5 = k t6"
    using slot [of c s ?p "?p + rsb_rsbcode c" "wsize c" "le_bytes (nat (psize c)) (PI s) @ le_bytes (nat (psize c)) (slong (PC s)) @ le_bytes (nat (psize c)) (slong (LB s)) @ le_bytes (nat 4) (LIN s) @ le_bytes (nat (psize c)) (slong (FIL s)) @ opstack s" t5 rsb_rsbcode "wsize" "\<lambda>_. rsbcode" "(\<lambda>_. rsbcode) s" "st_stw" "rsbcode"]
      t5 nn(6) sl(6) g(6) n fr mf by (simp add: add.assoc) blast
  have t6': "SP t6 = ?p" "minv c t6" "stk_frame s t6" using t6 by (simp_all add: filled_def)
  have o: "opstack t6 = rsb_bytes c rsbcode s @ opstack s"
  proof (rule filled_opstack)
    show "filled c s ?p ?p (rsb_bytes c rsbcode s @ opstack s) t6" using t6 g(7) by (simp add: rsb_bytes_def)
  qed
  have "withM (\<lambda>s. incSP (rsbsize s)) s = Ok () t0" using i minv_fields(16) [OF s] by simp
  moreover have "psize t4 = psize c" using t4 mf(2) [of c t4] unfolding filled_def by simp
  then have "thenM (withM (\<lambda>s. st_stn (ulong (SP s + rsb_PI s)) (PI s) (psize s))) k t4
      = thenM (withM (\<lambda>s. st_stn (ulong (SP s + rsb_PI s)) (PI s) (psize c))) k t4" for k :: "unit M"
    by (simp only: thenM_apply withM_apply)
  ultimately have "pushrsb rsbcode s = newLB (SP t6) t6"
    unfolding pushrsb_def seqM.simps thenM_returnM LINSIZE_def
    by (simp only: then_step e1 e2 e3 e4 e5 e6 withM_apply)
  then show ?thesis using t6' o by blast
qed

section \<open>A call\<close>

text \<open>The word at \<open>p\<close> is the code of a return status block.\<close>

definition at_rsb :: "em_prog \<Rightarrow> mach \<Rightarrow> ptr \<Rightarrow> bool" where
  "at_rsb c s p \<longleftrightarrow> sval (rd_bytes (stack s) p (nat (wsize c))) AND RSBMASK = RSBCODE"

lemma newLB_ok:
  assumes t: "minv c t" and p: "SP t \<le> p" "p + wsize c \<le> MLim c + 1" "wsize c dvd p" and r: "at_rsb c t p"
  shows "\<exists>w. newLB p t = Ok () (t\<lparr>wst := w, LB := p, AB := ulong (p + rsbsize c)\<rparr>)"
    and "\<And>v a. minv c (t\<lparr>wst := v, LB := p, AB := a\<rparr>)"
proof -
  have w: "0 < wsize c" "min (wsize c) (wsize c) dvd p" "wsize c \<le> 8"
    using minv_caps(1) [OF t] p(3) by auto
  obtain w where "st_lds p (wsize c) t = Ok (sval (rd_bytes (stack t) p (nat (wsize c)))) (t\<lparr>wst := w\<rparr>)"
    using st_lds_ok [OF t p(1) w(1,3) p(2) w(2)] by blast
  moreover have "ulong p = p" using p w(1) minv_regs(5) [OF t] minv_MLim(2) [OF t] by (simp add: ulong_id)
  ultimately have "is_LB p t = Ok True (t\<lparr>wst := w\<rparr>)"
    using r minv_fields(1,10) [OF t] minv_caps(6) [OF t] by (simp add: is_LB_def at_rsb_def)
  moreover have "in_stack t p" "is_wordaligned t p"
    using p w(1) by (simp_all add: in_stack_def minv_fields(17) [OF t] aligned_iff [OF t])
  ultimately show "\<exists>w. newLB p t = Ok () (t\<lparr>wst := w, LB := p, AB := ulong (p + rsbsize c)\<rparr>)"
    using minv_fields(16) [OF t] by (intro exI [of _ w]) (simp add: newLB_def)
  fix v a
  have "minv c (t\<lparr>wst := v\<rparr>)" using t by simp
  then have "minv c (t\<lparr>wst := v, LB := p\<rparr>)" by (rule minv_upd_LB) (use p w(1) in simp_all)
  then show "minv c (t\<lparr>wst := v, LB := p, AB := a\<rparr>)" by simp
qed

lemma sval_rsb:
  assumes "minv c s" and "rsbcode \<in> {RSB_STP, RSB_CAL, RSB_RTT, RSB_NRT}"
  shows "sval (le_bytes (nat (wsize c)) rsbcode) = rsbcode" "uval (le_bytes (nat (wsize c)) rsbcode) = rsbcode"
    "rsbcode AND RSBMASK = RSBCODE" "c_int rsbcode = rsbcode"
proof -
  have "rsbcode AND RSBMASK = RSBCODE \<and> 0 \<le> rsbcode \<and> rsbcode < 2 ^ 15"
    using assms(2) by (auto simp: RSB_STP_def RSB_CAL_def RSB_RTT_def RSB_NRT_def RSBMASK_def RSBCODE_def)
  then show "rsbcode AND RSBMASK = RSBCODE" "c_int rsbcode = rsbcode"
    "sval (le_bytes (nat (wsize c)) rsbcode) = rsbcode" "uval (le_bytes (nat (wsize c)) rsbcode) = rsbcode"
    using minv_caps(1) [OF assms(1)]
    by (auto simp: c_int_id sval_le_bytes uval_le_bytes signed_take_bit_int_eq_self take_bit_int_eq_self)
qed

lemma pushrsb_ok:
  assumes s: "minv c s" and f: "fits s (length (opstack s) + nat (rsbsize c))"
    and r: "rsbcode \<in> {RSB_STP, RSB_CAL, RSB_RTT, RSB_NRT}"
  shows "\<exists>t w. pushrsb rsbcode s = Ok () (t\<lparr>wst := w, LB := SP t, AB := SP s\<rparr>)
    \<and> minv c (t\<lparr>wst := w, LB := SP t, AB := SP s\<rparr>) \<and> stk_frame s t
    \<and> opstack t = rsb_bytes c rsbcode s @ opstack s"
proof -
  obtain t where t: "pushrsb rsbcode s = newLB (SP t) t" "minv c t" "stk_frame s t"
    and o: "opstack t = rsb_bytes c rsbcode s @ opstack s"
    using pushrsb_fills [OF s f] by blast
  have l: "SP t = SP s - rsbsize c" "wsize c \<le> rsbsize c" "0 < wsize c"
    using opstack_SP [OF t(2)] opstack_SP [OF s] o length_rsb_bytes [OF s, of rsbcode s] minv_caps(1,2,12) [OF s]
    by auto
  have u: "ulong (SP t + rsbsize c) = SP s"
    using l(1) minv_SP [OF s] by (simp add: ulong_id)
  have "opstack t = le_bytes (nat (wsize c)) rsbcode @ drop (nat (wsize c)) (opstack t)"
    unfolding o rsb_bytes_def by simp
  from opstack_split(1) [OF t(2) this] have "at_rsb c t (SP t)"
    using sval_rsb [OF s r] by (simp add: at_rsb_def)
  note lb = newLB_ok [OF t(2) order_refl _ minv_regs(8) [OF t(2)] this]
  have "SP t + wsize c \<le> MLim c + 1" using l minv_SP(2) [OF s] by linarith
  then show ?thesis using lb t o u by metis
qed

lemma push_frame_ok:
  assumes f: "frames_ok s" "frame_limit s < 2 ^ 27" "2 \<le> frame_limit s" and m: "\<And>n. mem_avail s n"
  shows "\<exists>l. push_frame p s = Ok ()
      (s\<lparr>curr_frame := curr_frame s + 1, frame_limit := l, AB_list := (AB_list s)(curr_frame s + 1 := p)\<rparr>)
    \<and> curr_frame s + 1 < l \<and> l < 2 ^ 28"
proof -
  let ?s = "s\<lparr>curr_frame := curr_frame s + 1\<rparr>"
  have c: "0 \<le> curr_frame s" "curr_frame s < frame_limit s" using f by (simp_all add: frames_ok_def)
  show ?thesis
  proof (cases "curr_frame s + 1 = frame_limit s")
    case True
    have a: "allocfrac (frame_limit s) = frame_limit s * 3 div 2" "c_uint (frame_limit s * 3 div 2 * 8) = frame_limit s * 3 div 2 * 8"
      using c f(2) by (simp_all add: allocfrac_def slong_id c_uint_id signed_divide_int_def sgn_if)
    have g: "frame_limit s + 1 \<le> frame_limit s * 3 div 2" using f(3) by presburger
    then have "(frame_limit s + 1) * 8 \<le> frame_limit s * 3 div 2 * 8" by (rule mult_right_mono) simp
    then have "AB_ok (?s\<lparr>frame_limit := frame_limit s * 3 div 2\<rparr>) (curr_frame s + 1)"
      using c True a(2) by (simp add: AB_ok_def)
    then show ?thesis
      using True a c f(2) m g
      by (intro exI [of _ "frame_limit s * 3 div 2"]) (simp add: push_frame_def Realloc_def wr_AB_def)
  next
    case False
    then have "AB_ok ?s (curr_frame s + 1)" using c f(2) by (simp add: AB_ok_def c_uint_id)
    then show ?thesis
      using False c f(2) by (intro exI [of _ "frame_limit s"]) (simp add: push_frame_def wr_AB_def)
  qed
qed

text \<open>The descriptor \<open>pi\<close> exists, its procedure lies in the text, and the stack has room for a block
  and the locals.\<close>

definition callable :: "em_prog \<Rightarrow> mach \<Rightarrow> long \<Rightarrow> bool" where
  "callable c s pi \<longleftrightarrow> 0 \<le> pi \<and> pi < int (length (proctab s)) \<and> (let pr = proctab s ! nat pi in
     wmult c (pr_nloc pr) \<and> pr_ep pr < DB s \<and> pr_ep pr < pr_ff pr
     \<and> fits s (length (opstack s) + nat (rsbsize c) + nat (pr_nloc pr)))
     \<and> frames_ok s \<and> frame_limit s < 2 ^ 27 \<and> 2 \<le> frame_limit s"

definition callee :: "mach \<Rightarrow> long \<Rightarrow> (int \<Rightarrow> byte) \<Rightarrow> (int \<Rightarrow> byte) \<Rightarrow> ptr \<Rightarrow> int \<Rightarrow> int \<Rightarrow> warn_state \<Rightarrow> mach" where
  "callee s pi d h l k fl w = s\<lparr>PI := pi, PC := pr_ep (proctab s ! nat pi),
     SP := SP s - rsbsize s - pr_nloc (proctab s ! nat pi), LB := SP s - rsbsize s, AB := SP s,
     stack := d, stack_sh := h, SL := l, stack_len := k, wst := w, FRA_def := UNDEFINED,
     curr_frame := curr_frame s + 1, frame_limit := fl, AB_list := (AB_list s)(curr_frame s + 1 := SP s)\<rparr>"

text \<open>After \<open>push_frame\<close>.\<close>

definition framed :: "mach \<Rightarrow> int \<Rightarrow> mach" where
  "framed s fl = s\<lparr>curr_frame := curr_frame s + 1, frame_limit := fl,
     AB_list := (AB_list s)(curr_frame s + 1 := SP s)\<rparr>"

lemma framed_fields:
  "minv c s \<Longrightarrow> minv c (framed s fl)" "opstack (framed s fl) = opstack s"
  "rsb_bytes c rsbcode (framed s fl) = rsb_bytes c rsbcode s" "fits (framed s fl) = fits s"
  "SP (framed s fl) = SP s"
  by (simp_all add: framed_def opstack_def rsb_bytes_def fits_def fun_eq_iff)

text \<open>Reserving the locals.\<close>

lemma locals_ok:
  assumes u: "minv c u" and n: "wmult c n" and f: "fits u (length (opstack u) + nat n)"
  shows "\<exists>h l k. st_inc n u = Ok () (u\<lparr>SP := SP u - n, stack_sh := h, SL := l, stack_len := k\<rparr>)
    \<and> minv c (u\<lparr>SP := SP u - n, stack_sh := h, SL := l, stack_len := k\<rparr>)"
proof -
  have g: "nat (MLim c + 1 - (SP u - n)) = length (opstack u) + nat n"
    using n opstack_SP [OF u] by (simp add: wmult_def nat_add_distrib)
  have p: "SP u - n \<le> LB u" "wsize c dvd SP u - n"
    using n minv_regs(6,8) [OF u] by (simp_all add: wmult_def)
  have "0 < SP u - n" using f opstack_SP [OF u] n by (simp add: fits_def minv_fields(17) [OF u] wmult_def)
  moreover from this have "ulong (SP u - n) = SP u - n"
    using minv_SP [OF u] n by (simp add: ulong_id wmult_def)
  ultimately show ?thesis using newSP_ok [OF u _ p] f g by (simp add: st_inc_def)
qed

lemma callableD:
  assumes "callable c s pi" and "pr = proctab s ! nat pi"
  shows "proctab_at pi s = Ok pr s" "wmult c (pr_nloc pr)" "pr_ep pr < DB s" "pr_ep pr < pr_ff pr"
    "fits s (length (opstack s) + nat (rsbsize c) + nat (pr_nloc pr))" "frames_ok s"
    "frame_limit s < 2 ^ 27" "2 \<le> frame_limit s" "mem_avail s n" "0 \<le> pi" "pi < int (length (proctab s))"
proof -
  show *: "proctab_at pi s = Ok pr s" "wmult c (pr_nloc pr)" "pr_ep pr < DB s" "pr_ep pr < pr_ff pr"
    "fits s (length (opstack s) + nat (rsbsize c) + nat (pr_nloc pr))" "frames_ok s"
    "frame_limit s < 2 ^ 27" "2 \<le> frame_limit s" "0 \<le> pi" "pi < int (length (proctab s))"
    using assms unfolding callable_def Let_def proctab_at_def by simp_all
  show "mem_avail s n" using *(5) by (simp add: fits_def)
qed

lemma newPC_ok:
  assumes "0 \<le> PI s" and "PI s < int (length (proctab s))" and "p < DB s"
    and "pr_ep (proctab s ! nat (PI s)) \<le> p" and "p < pr_ff (proctab s ! nat (PI s))"
  shows "newPC p s = Ok () (s\<lparr>PC := p\<rparr>)"
  using assms by (simp add: newPC_def proctab_at_def)

lemma call_steps:
  assumes "proctab_at pi s = Ok pr s" and "push_frame (SP s) s = Ok () s1" and "pushrsb rsbcode s1 = Ok () s2"
    and "st_inc (pr_nloc pr) (s2\<lparr>PI := pi\<rparr>) = Ok () s3" and "newPC (pr_ep pr) s3 = Ok () s4"
  shows "call pi rsbcode s = Ok () (s4\<lparr>FRA_def := UNDEFINED\<rparr>)"
  using assms by (simp add: call_def spoilFRA_def)

lemma call_ok:
  assumes s: "minv c s" and p: "callable c s pi" and r: "rsbcode \<in> {RSB_STP, RSB_CAL, RSB_RTT, RSB_NRT}"
  shows "\<exists>d h l k fl w. call pi rsbcode s = Ok () (callee s pi d h l k fl w) \<and> minv c (callee s pi d h l k fl w)
    \<and> rd_bytes d (SP s - rsbsize c) (nat (MLim c + 1 - (SP s - rsbsize c))) = rsb_bytes c rsbcode s @ opstack s
    \<and> curr_frame s + 1 < fl \<and> fl < 2 ^ 28"
proof -
  define pr where "pr = proctab s ! nat pi"
  note D = callableD [OF p pr_def]
  obtain fl where fl: "push_frame (SP s) s = Ok () (framed s fl)" "curr_frame s + 1 < fl" "fl < 2 ^ 28"
    using push_frame_ok [OF D(6-9), of "SP s"] unfolding framed_def by blast
  note s1 = framed_fields(1) [OF s, of fl]
  have "fits (framed s fl) (length (opstack (framed s fl)) + nat (rsbsize c))"
    unfolding framed_fields(2,4) by (rule fits_mono [OF D(5)]) simp
  from pushrsb_ok [OF s1 this r] obtain t w where
    t: "pushrsb rsbcode (framed s fl) = Ok () (t\<lparr>wst := w, LB := SP t, AB := SP s\<rparr>)"
    "minv c (t\<lparr>wst := w, LB := SP t, AB := SP s\<rparr>)" "stk_frame (framed s fl) t"
    "opstack t = rsb_bytes c rsbcode s @ opstack s"
    unfolding framed_fields by blast
  let ?u = "t\<lparr>wst := w, LB := SP t, AB := SP s\<rparr>\<lparr>PI := pi\<rparr>"
  have u: "minv c ?u" using t(2) by simp
  have o: "opstack ?u = rsb_bytes c rsbcode s @ opstack s" using t(4) by (simp add: opstack_def)
  have "fits ?u = fits s" using stk_frame_fields(2) [OF t(3)] framed_fields(4) [of s fl] by (simp add: fits_def fun_eq_iff)
  moreover have "length (opstack ?u) + nat (pr_nloc pr) = length (opstack s) + nat (rsbsize c) + nat (pr_nloc pr)"
    using length_rsb_bytes [OF s, of rsbcode s] unfolding o by simp
  ultimately have "fits ?u (length (opstack ?u) + nat (pr_nloc pr))" using D(5) by simp
  from locals_ok [OF u D(2) this] obtain h l k where
    v: "st_inc (pr_nloc pr) ?u = Ok () (?u\<lparr>SP := SP ?u - pr_nloc pr, stack_sh := h, SL := l, stack_len := k\<rparr>)"
    "minv c (?u\<lparr>SP := SP ?u - pr_nloc pr, stack_sh := h, SL := l, stack_len := k\<rparr>)" by blast
  obtain p d h' l' k' w' f where tt: "t = framed s fl\<lparr>SP := p, stack := d, stack_sh := h', SL := l',
      stack_len := k', wst := w', FRA_def := f\<rparr>"
    using t(3) unfolding stk_frame_def by blast
  have p: "p = SP s - rsbsize c"
  proof -
    have "SP t = SP s - rsbsize c"
      using opstack_SP [OF u] opstack_SP [OF s] length_rsb_bytes [OF s, of rsbcode s] unfolding o by simp
    then show ?thesis unfolding tt by simp
  qed
  have e: "?u\<lparr>SP := SP ?u - pr_nloc pr, stack_sh := h, SL := l, stack_len := k\<rparr>\<lparr>PC := pr_ep pr\<rparr>
      \<lparr>FRA_def := UNDEFINED\<rparr> = callee s pi d h l k fl w"
    by (rule mach.equality) (simp_all add: callee_def tt framed_def p pr_def minv_fields(16) [OF s])
  have "newPC (pr_ep pr) (?u\<lparr>SP := SP ?u - pr_nloc pr, stack_sh := h, SL := l, stack_len := k\<rparr>)
      = Ok () (?u\<lparr>SP := SP ?u - pr_nloc pr, stack_sh := h, SL := l, stack_len := k\<rparr>\<lparr>PC := pr_ep pr\<rparr>)"
  proof (rule newPC_ok)
    have "proctab t = proctab s" "DB t = DB s" unfolding tt framed_def by simp_all
    then show "pr_ep pr < DB (?u\<lparr>SP := SP ?u - pr_nloc pr, stack_sh := h, SL := l, stack_len := k\<rparr>)"
      using D(3) by simp
  qed (use D(3,4,10,11) in \<open>simp_all add: tt framed_def pr_def\<close>)
  from call_steps [OF D(1) fl(1) t(1) v(1) this] have "call pi rsbcode s = Ok () (callee s pi d h l k fl w)"
    unfolding e .
  moreover have "minv c (callee s pi d h l k fl w)" unfolding e [symmetric] using v(2) by simp
  moreover have "rd_bytes d (SP s - rsbsize c) (nat (MLim c + 1 - (SP s - rsbsize c))) = rsb_bytes c rsbcode s @ opstack s"
    using o tt p minv_fields(17) [OF s] by (simp add: opstack_def framed_def)
  ultimately show ?thesis using fl(2,3) by blast
qed

end
