(* ===== verification/Returns.thy ===== *)
theory Returns
  imports Calls
begin

text \<open>
  Returns and the function return area, and calls and returns together: what \<open>ret\<close> finds in the
  return status block that \<open>call\<close> pushed brings the caller back.
\<close>

section \<open>A return\<close>

lemma popFRA_loop:
  assumes "minv c t" and "i + k \<le> nat (FRALimit c)" and "SP t + int (i + k) \<le> MLim c + 1"
  shows "\<exists>g. forM k (int i) popFRA_byte t
    = Ok () (t\<lparr>FRA := take i (FRA t) @ rd_bytes (stack t) (SP t + int i) k @ drop (i + k) (FRA t), FRA_sh := g\<rparr>)
    \<and> length g = length (FRA_sh t)"
  using assms
proof (induction k arbitrary: i t)
  case 0
  then show ?case by (intro exI [of _ "FRA_sh t"]) (simp add: rd_bytes_def)
next
  case (Suc k)
  have l: "i < length (FRA t)" "i < length (FRA_sh t)"
    using Suc.prems(2) minv_regs(13,14) [OF Suc.prems(1)] by auto
  have a: "ulong (SP t + int i) = SP t + int i" "stack_ok t (SP t + int i)"
    using Suc.prems(3) minv_SP [OF Suc.prems(1)] minv_regs(10) [OF Suc.prems(1)] minv_fields(17) [OF Suc.prems(1)]
    by (simp_all add: ulong_id stack_ok_def)
  let ?t = "t\<lparr>FRA := (FRA t)[i := stack t (SP t + int i)], FRA_sh := (FRA_sh t)[i := stack_sh t (SP t + int i)]\<rparr>"
  have b: "popFRA_byte (int i) t = Ok () ?t"
    using a l by (simp add: popFRA_byte_def rd_stack_def rd_stack_sh_def wr_FRA_def)
  have "minv c ?t" using Suc.prems(1) by (simp add: minv_def regs_ok_def)
  then obtain g where g: "forM k (int (Suc i)) popFRA_byte ?t = Ok () (?t\<lparr>FRA := take (Suc i) (FRA ?t)
      @ rd_bytes (stack ?t) (SP ?t + int (Suc i)) k @ drop (Suc i + k) (FRA ?t), FRA_sh := g\<rparr>)"
    "length g = length (FRA_sh ?t)"
    using Suc.IH [of ?t "Suc i"] Suc.prems(2,3) by auto
  have "take (Suc i) ((FRA t)[i := x]) = take i (FRA t) @ [x]" for x using l(1) by (simp add: take_Suc_conv_app_nth)
  then have "?t\<lparr>FRA := take (Suc i) (FRA ?t) @ rd_bytes (stack ?t) (SP ?t + int (Suc i)) k
      @ drop (Suc i + k) (FRA ?t), FRA_sh := g\<rparr>
    = t\<lparr>FRA := take i (FRA t) @ rd_bytes (stack t) (SP t + int i) (Suc k) @ drop (i + Suc k) (FRA t), FRA_sh := g\<rparr>"
    by (simp add: rd_bytes_Suc algebra_simps)
  then show ?case using b g by (intro exI [of _ g]) (simp add: add.commute)
qed

lemma popFRA_ok:
  assumes t: "minv c t" and n: "wmult c n" "n \<le> FRALimit c" "SP t + n \<le> LB t"
  shows "\<exists>g. popFRA n t = Ok () (t\<lparr>FRA := rd_bytes (stack t) (SP t) (nat n) @ drop (nat n) (FRA t), FRA_sh := g,
      SP := SP t + n\<rparr>)
    \<and> minv c (t\<lparr>FRA := rd_bytes (stack t) (SP t) (nat n) @ drop (nat n) (FRA t), FRA_sh := g, SP := SP t + n\<rparr>)"
proof (cases "n = 0")
  case True
  have "t = t\<lparr>FRA := FRA t, FRA_sh := FRA_sh t, SP := SP t\<rparr>" by simp
  then show ?thesis using True t by (intro exI [of _ "FRA_sh t"]) (simp add: popFRA_def rd_bytes_def)
next
  case False
  have k: "0 \<le> n" "wsize c dvd n" using n(1) by (simp_all add: wmult_def)
  then have m: "max n (wsize c) = n" using False zdvd_imp_le [of "wsize c" n] by simp
  obtain g where g: "forM (nat n) 0 popFRA_byte t
      = Ok () (t\<lparr>FRA := rd_bytes (stack t) (SP t) (nat n) @ drop (nat n) (FRA t), FRA_sh := g\<rparr>)"
    "length g = length (FRA_sh t)"
    using popFRA_loop [OF t, of 0 "nat n"] n k minv_regs(7) [OF t] nat_mono [OF n(2)] by auto
  let ?t = "t\<lparr>FRA := rd_bytes (stack t) (SP t) (nat n) @ drop (nat n) (FRA t), FRA_sh := g\<rparr>"
  have i: "minv c ?t"
    using t g(2) k n(2) minv_regs(13) [OF t] minv_fields(21) [OF t] by (simp add: minv_def regs_ok_def)
  have "newSP (SP t + n) ?t = Ok () (?t\<lparr>SP := SP t + n\<rparr>)" "minv c (?t\<lparr>SP := SP t + n\<rparr>)"
    using newSP_up [OF i, of "SP t + n"] n(3) k minv_regs(8) [OF t] by simp_all
  moreover have "ulong (SP t + n) = SP t + n" by (rule SP_plus [OF t n(1)])
  ultimately show ?thesis
    using False g minv_fields(1) [OF t] m by (intro exI [of _ g]) (simp add: popFRA_def st_dec_def)
qed

lemma rd_bytes_append:
  "rd_bytes d a (length (xs @ ys)) = xs @ ys \<longleftrightarrow>
    rd_bytes d a (length xs) = xs \<and> rd_bytes d (a + int (length xs)) (length ys) = ys"
  unfolding length_append rd_bytes_add by (simp add: append_eq_append_conv)

lemma rsb_fields:
  assumes s: "minv c s" and b: "rd_bytes d b (length (rsb_bytes c rsbcode u @ rest)) = rsb_bytes c rsbcode u @ rest"
  shows "rd_bytes d b (nat (wsize c)) = le_bytes (nat (wsize c)) rsbcode"
    "rd_bytes d (b + rsb_PI c) (nat (psize c)) = le_bytes (nat (psize c)) (PI u)"
    "rd_bytes d (b + rsb_PC c) (nat (psize c)) = le_bytes (nat (psize c)) (slong (PC u))"
    "rd_bytes d (b + rsb_LB c) (nat (psize c)) = le_bytes (nat (psize c)) (slong (LB u))"
    "rd_bytes d (b + rsb_LIN c) 4 = le_bytes 4 (LIN u)"
    "rd_bytes d (b + rsb_FIL c) (nat (psize c)) = le_bytes (nat (psize c)) (slong (FIL u))"
    "rd_bytes d (b + rsbsize c) (length rest) = rest"
proof -
  have g: "0 < wsize c" "0 < psize c" using rsb_slots(14,15) [OF s, of 0] by simp_all
  note caps = minv_caps(7-12) [OF s]
  from b show "rd_bytes d b (nat (wsize c)) = le_bytes (nat (wsize c)) rsbcode"
    "rd_bytes d (b + rsb_PI c) (nat (psize c)) = le_bytes (nat (psize c)) (PI u)"
    "rd_bytes d (b + rsb_PC c) (nat (psize c)) = le_bytes (nat (psize c)) (slong (PC u))"
    "rd_bytes d (b + rsb_LB c) (nat (psize c)) = le_bytes (nat (psize c)) (slong (LB u))"
    "rd_bytes d (b + rsb_LIN c) 4 = le_bytes 4 (LIN u)"
    "rd_bytes d (b + rsb_FIL c) (nat (psize c)) = le_bytes (nat (psize c)) (slong (FIL u))"
    "rd_bytes d (b + rsbsize c) (length rest) = rest"
    unfolding rsb_bytes_def append_assoc rd_bytes_append length_le_bytes caps using g
    by (simp_all add: algebra_simps)
qed

text \<open>The registers of a procedure that can be resumed: they fit their slots, the program counter is in
  the procedure, and the local base points to a return status block.\<close>

definition resumable :: "em_prog \<Rightarrow> mach \<Rightarrow> bool" where
  "resumable c s \<longleftrightarrow> 0 \<le> PI s \<and> PI s < int (length (proctab s)) \<and> PI s < 2 ^ 15
     \<and> 0 \<le> PC s \<and> PC s < 2 ^ (8 * nat (psize c)) \<and> PC s < DB s
     \<and> pr_ep (proctab s ! nat (PI s)) \<le> PC s \<and> PC s < pr_ff (proctab s ! nat (PI s))
     \<and> LB s + wsize c \<le> MLim c + 1 \<and> AB s = LB s + rsbsize c \<and> at_rsb c s (LB s)
     \<and> 0 \<le> LIN s \<and> LIN s < 2 ^ 32 \<and> 0 \<le> FIL s \<and> FIL s < 2 ^ (8 * nat (psize c))
     \<and> 8 \<le> HP s \<and> AB s \<le> AB_list s (curr_frame s)"

lemma uval_slot:
  assumes "minv c s" and "0 \<le> v" and "v < 2 ^ (8 * nat (psize c))"
  shows "uval (le_bytes (nat (psize c)) (slong v)) = v"
proof -
  have "nat (psize c) \<le> 7" using minv_caps(2) [OF assms(1)] by auto
  then show ?thesis using assms(2,3) by (simp add: le_bytes_slong uval_le_bytes take_bit_int_eq_self)
qed

lemma sval_slot:
  assumes "minv c s" and "0 \<le> v" and "v < 2 ^ 15"
  shows "sval (le_bytes (nat (psize c)) v) = v"
  using minv_caps(2) [OF assms(1)] assms(2,3) by (auto simp: sval_le_bytes signed_take_bit_int_eq_self)

lemma LB_slot:
  assumes "minv c s"
  shows "0 \<le> LB s" "LB s < 2 ^ (8 * nat (psize c))"
  using minv_regs(5-7) [OF assms] minv_MLim(2) [OF assms] minvD(2) [OF assms] minv_caps(2,16) [OF assms]
  by (auto simp: prog_ok_def split: if_splits)

lemma dt_stdp_ok:
  assumes s: "minv c s" and "0 \<le> a" and "a + psize c \<le> HP s" and "wsize c dvd a"
  shows "\<exists>w. dt_stdp a p s = Ok () (upd_data (upd_bytes (data s) a (le_bytes (nat (psize c)) (slong p)))
      (upd_bytes (data_sh s) a (replicate (nat (psize c)) SH_DATAP)) w s)"
  using dseg.store_loop_ok [OF data_run_ok [OF s, of a "psize s"], of "SH_DATAP" "slong p"] assms
    minv_regs(2-4) [OF s] minv_caps(2) [OF s]
  by (auto simp: dt_stdp_def ch_in_data_ok ch_wordaligned_ok [OF s] minv_fields(2) [OF s])

lemma withM_const: "withM (\<lambda>_. m) = m"
  by (simp add: withM_def)

text \<open>A store between lifting and restoring the protection.\<close>

lemma protected_store:
  assumes t: "minv c t" and a: "0 \<le> a" "a + n \<le> HP t" and n: "n = 2 \<or> n = 4"
    and m: "\<And>u. minv c u \<Longrightarrow> HP u = HP t \<Longrightarrow> \<exists>d h w. m u = Ok () (upd_data d h w u)"
    and f: "\<And>u. minv c u \<Longrightarrow> minv c (f u)" "\<And>u. HP (f u) = HP u"
    and g: "\<And>d h w u h'. f (upd_data d h w u)\<lparr>data_sh := h'\<rparr> = f (upd_data d h' w u)"
    and g': "\<And>d h w h'. upd_data d h w (t\<lparr>data_sh := h'\<rparr>) = upd_data d h w t"
    and z: "\<And>u. minv c u \<Longrightarrow> sz u = n"
  shows "\<exists>d h w. seqM [withM (\<lambda>s. dt_unprot a (sz s)), m, modifyM f, withM (\<lambda>s. dt_prot a (sz s))] t
    = Ok () (f (upd_data d h w t))"
proof -
  obtain h1 where h1: "dt_unprot a n t = Ok () (t\<lparr>data_sh := h1\<rparr>)" using dt_prot_ok(2) [OF t a n] by blast
  have "minv c (t\<lparr>data_sh := h1\<rparr>)" "HP (t\<lparr>data_sh := h1\<rparr>) = HP t" using t by simp_all
  from m [OF this] obtain d h2 w where "m (t\<lparr>data_sh := h1\<rparr>) = Ok () (upd_data d h2 w (t\<lparr>data_sh := h1\<rparr>))" by blast
  then have h2: "m (t\<lparr>data_sh := h1\<rparr>) = Ok () (upd_data d h2 w t)" unfolding g' .
  have "minv c (upd_data d h2 w t)" using t by simp
  then have i: "minv c (f (upd_data d h2 w t))" by (rule f(1))
  have "a + n \<le> HP (f (upd_data d h2 w t))" using a(2) unfolding f(2) by simp
  from dt_prot_ok(1) [OF i a(1) this n] obtain h3 where
    h3: "dt_prot a n (f (upd_data d h2 w t)) = Ok () (f (upd_data d h3 w t))"
    unfolding g by blast
  have "modifyM f (upd_data d h2 w t) = Ok () (f (upd_data d h2 w t))" by (simp only: apply_M)
  then have "seqM [withM (\<lambda>s. dt_unprot a (sz s)), m, modifyM f, withM (\<lambda>s. dt_prot a (sz s))] t
      = Ok () (f (upd_data d h3 w t))"
    unfolding seqM.simps thenM_returnM using h1 h2 h3 by (simp only: then_step withM_apply z [OF t] z [OF i])
  then show ?thesis by blast
qed

lemma putLIN_ok:
  assumes t: "minv c t" and h: "8 \<le> HP t"
  shows "\<exists>d g w. putLIN l t = Ok () (t\<lparr>data := d, data_sh := g, wst := w, LIN := l\<rparr>)"
    "\<exists>d g w. putFIL p t = Ok () (t\<lparr>data := d, data_sh := g, wst := w, FIL := p\<rparr>)"
proof -
  have w: "wsize c dvd 4" "min 4 (wsize c) dvd 0" "psize c = 2 \<or> psize c = 4" "4 + psize c \<le> HP t"
    using minv_caps(1,2) [OF t] h by auto
  have ln: "\<exists>d h w. dt_stn 0 l 4 u = Ok () (upd_data d h w u)" if u: "minv c u" "HP u = HP t" for u
  proof -
    have "(0 :: int) \<le> 0" "(0 :: int) < 4" "(4 :: int) \<le> 8" "0 + 4 \<le> HP u" using u(2) h by simp_all
    from dt_stn_ok [OF u(1) this w(2), of l] show ?thesis by blast
  qed
  have "\<exists>d h w. seqM [withM (\<lambda>s. dt_unprot 0 4), dt_stn 0 l 4, modifyM (\<lambda>s. s\<lparr>LIN := l\<rparr>), withM (\<lambda>s. dt_prot 0 4)] t
      = Ok () ((\<lambda>s. s\<lparr>LIN := l\<rparr>) (upd_data d h w t))"
    by (rule protected_store [OF t, of 0 4 "dt_stn 0 l 4" "\<lambda>s. s\<lparr>LIN := l\<rparr>", OF _ _ _ ln]) (use h in simp_all)
  then show "\<exists>d g w. putLIN l t = Ok () (t\<lparr>data := d, data_sh := g, wst := w, LIN := l\<rparr>)"
    unfolding putLIN_def LINO_AD_def LINSIZE_def withM_const .
  have fl: "\<exists>d h w. dt_stdp 4 p u = Ok () (upd_data d h w u)" if u: "minv c u" "HP u = HP t" for u
  proof -
    have "(0 :: int) \<le> 4" "4 + psize c \<le> HP u" using u(2) w(4) by simp_all
    from dt_stdp_ok [OF u(1) this w(1), of p] show ?thesis by blast
  qed
  have "\<exists>d h w. seqM [withM (\<lambda>s. dt_unprot 4 (psize s)), dt_stdp 4 p, modifyM (\<lambda>s. s\<lparr>FIL := p\<rparr>),
      withM (\<lambda>s. dt_prot 4 (psize s))] t = Ok () ((\<lambda>s. s\<lparr>FIL := p\<rparr>) (upd_data d h w t))"
    by (rule protected_store [OF t, of 4 "psize c" "dt_stdp 4 p" "\<lambda>s. s\<lparr>FIL := p\<rparr>", OF _ w(4,3) fl])
      (simp_all add: minv_fields(2))
  then show "\<exists>d g w. putFIL p t = Ok () (t\<lparr>data := d, data_sh := g, wst := w, FIL := p\<rparr>)"
    unfolding putFIL_def FILN_AD_def .
qed

text \<open>Loading the slots of the block at the stack pointer.\<close>

definition rsb_on_top :: "em_prog \<Rightarrow> int \<Rightarrow> mach \<Rightarrow> byte list \<Rightarrow> mach \<Rightarrow> bool" where
  "rsb_on_top c rsbcode s rest u \<longleftrightarrow> minv c u \<and> opstack u = rsb_bytes c rsbcode s @ rest"

lemma st_lduw_top:
  assumes s: "minv c s" and "SP s + wsize c \<le> MLim c + 1"
  shows "\<exists>w. st_lduw (SP s) s = Ok (uval (rd_bytes (stack s) (SP s) (nat (wsize c)))) (s\<lparr>wst := w\<rparr>)"
proof -
  have t: "wsize c dvd SP s" "0 < wsize c" "wsize c \<le> 4" using minv_regs(8) [OF s] minv_caps(1) [OF s] by auto
  have "w_is_in_stack s (SP s)"
    using assms(2) t minv_regs(5) [OF s] minv_caps(5) [OF s] minv_MLim(2) [OF s]
    by (simp add: w_is_in_stack_def ulong_id minv_fields(4,17) [OF s])
  then have chk: "ch_w_in_stack (SP s) s = Ok () s" "ch_wordaligned (SP s) s = Ok () s"
    using t by (simp_all add: ch_w_in_stack_def ensure_def ch_wordaligned_ok [OF s])
  have r: "sseg.run_ok s (SP s) (nat (wsize c))" using t assms(2) by (intro stack_run_ok [OF s]) simp_all
  show ?thesis
    using sseg.expect_load_u [OF r] t by (simp add: st_lduw_def chk minv_fields(1) [OF s])
qed

lemma rsb_loads:
  assumes r: "resumable c s" "minv c s" and u: "rsb_on_top c RSB_CAL s rest u"
  shows "\<exists>w. st_lduw (ulong (SP u + rsb_rsbcode u)) u = Ok RSB_CAL (u\<lparr>wst := w\<rparr>)"
    "\<exists>w. st_lds (ulong (SP u + rsb_PI u)) (psize u) u = Ok (PI s) (u\<lparr>wst := w\<rparr>)"
    "\<exists>w. st_ldip (ulong (SP u + rsb_PC u)) u = Ok (PC s) (u\<lparr>wst := w\<rparr>)"
    "\<exists>w. st_lddp (ulong (SP u + rsb_LB u)) u = Ok (LB s) (u\<lparr>wst := w\<rparr>)"
    "\<exists>w. st_ldu (ulong (SP u + rsb_LIN u)) LINSIZE u = Ok (LIN s) (u\<lparr>wst := w\<rparr>)"
    "\<exists>w. st_lddp (ulong (SP u + rsb_FIL u)) u = Ok (FIL s) (u\<lparr>wst := w\<rparr>)"
proof -
  have i: "minv c u" and o: "opstack u = rsb_bytes c RSB_CAL s @ rest" using u by (simp_all add: rsb_on_top_def)
  have p: "SP u + rsbsize c \<le> MLim c + 1"
    using opstack_SP [OF i] o length_rsb_bytes [OF i, of RSB_CAL s] by simp
  have "rd_bytes (stack u) (SP u) (length (rsb_bytes c RSB_CAL s @ rest)) = rsb_bytes c RSB_CAL s @ rest"
    using opstack_split [OF i, of "rsb_bytes c RSB_CAL s @ rest" "[]"] o by simp
  note b = rsb_fields [OF i this]
  note sl = rsb_slots [OF i minv_regs(8) [OF i]]
  have n: "psize c = 2 \<or> psize c = 4" "wsize c = 2 \<or> wsize c = 4" "wsize c \<le> psize c"
    using minv_caps(1-3) [OF i] by simp_all
  have ul: "ulong (SP u + off) = SP u + off" if "0 \<le> off" "off \<le> rsbsize c" for off
    using that p minv_SP [OF i] by (simp add: ulong_id)
  have off: "0 \<le> rsb_FIL c" "0 \<le> rsb_LIN c" "0 \<le> rsb_LB c" "0 \<le> rsb_PC c" "0 \<le> rsb_PI c"
    "rsb_FIL c + psize c \<le> rsbsize c" "rsb_LIN c + 4 \<le> rsbsize c" "rsb_LB c + psize c \<le> rsbsize c"
    "rsb_PC c + psize c \<le> rsbsize c" "rsb_PI c + psize c \<le> rsbsize c" "wsize c \<le> rsbsize c"
    using sl(7-15) by linarith+
  note f = minv_fields(1,2,10-15) [OF i]
  have al: "min (psize c) (wsize c) = wsize c" "min 4 (wsize c) = wsize c" "0 < psize c" "psize c \<le> 8"
    using n by auto
  have q: "0 \<le> x \<Longrightarrow> SP u \<le> SP u + x" "x + k \<le> rsbsize c \<Longrightarrow> SP u + x + k \<le> MLim c + 1" for x k
    using p by linarith+
  have "\<exists>w. st_lduw (SP u) u = Ok (uval (rd_bytes (stack u) (SP u) (nat (wsize c)))) (u\<lparr>wst := w\<rparr>)"
    using p off(11) by (intro st_lduw_top [OF i]) simp
  then show "\<exists>w. st_lduw (ulong (SP u + rsb_rsbcode u)) u = Ok RSB_CAL (u\<lparr>wst := w\<rparr>)"
    using ul [of 0] b(1) sval_rsb(2) [OF i, of RSB_CAL] f sl(13) off by simp
  have "\<exists>w. st_lds (SP u + rsb_PI c) (psize c) u = Ok (sval (rd_bytes (stack u) (SP u + rsb_PI c) (nat (psize c)))) (u\<lparr>wst := w\<rparr>)"
    by (rule st_lds_ok [OF i q(1) al(3,4) q(2)]) (simp_all only: al off sl(1-6))
  then show "\<exists>w. st_lds (ulong (SP u + rsb_PI u)) (psize u) u = Ok (PI s) (u\<lparr>wst := w\<rparr>)"
    using ul [OF off(5)] b(2) sval_slot [OF i, of "PI s"] f sl(15) off r(1) by (simp add: resumable_def)
  have "\<exists>w. st_ldip (SP u + rsb_PC c) u = Ok (uval (rd_bytes (stack u) (SP u + rsb_PC c) (nat (psize c)))) (u\<lparr>wst := w\<rparr>)"
    by (rule st_ldip_ok [OF i q]) (simp_all only: off sl(1-6))
  then show "\<exists>w. st_ldip (ulong (SP u + rsb_PC u)) u = Ok (PC s) (u\<lparr>wst := w\<rparr>)"
    using ul [OF off(4)] b(3) uval_slot [OF i, of "PC s"] f sl(15) off r(1) by (simp add: resumable_def)
  have "\<exists>w. st_lddp (SP u + rsb_LB c) u = Ok (uval (rd_bytes (stack u) (SP u + rsb_LB c) (nat (psize c)))) (u\<lparr>wst := w\<rparr>)"
    by (rule st_lddp_ok [OF i q]) (simp_all only: off sl(1-6))
  then show "\<exists>w. st_lddp (ulong (SP u + rsb_LB u)) u = Ok (LB s) (u\<lparr>wst := w\<rparr>)"
    using ul [OF off(3)] b(4) uval_slot [OF i LB_slot [OF r(2)]] f sl(15) off by simp
  have "\<exists>w. st_ldu (SP u + rsb_LIN c) 4 u = Ok (uval (rd_bytes (stack u) (SP u + rsb_LIN c) (nat 4))) (u\<lparr>wst := w\<rparr>)"
    by (rule st_ldu_ok [OF i q(1) _ _ q(2)]) (simp_all only: off sl(1-6) al order_refl zero_less_numeral)
  then show "\<exists>w. st_ldu (ulong (SP u + rsb_LIN u)) LINSIZE u = Ok (LIN s) (u\<lparr>wst := w\<rparr>)"
    using ul [OF off(2)] b(5) f off r(1) by (simp add: resumable_def LINSIZE_def uval_le_bytes take_bit_int_eq_self)
  have "\<exists>w. st_lddp (SP u + rsb_FIL c) u = Ok (uval (rd_bytes (stack u) (SP u + rsb_FIL c) (nat (psize c)))) (u\<lparr>wst := w\<rparr>)"
    by (rule st_lddp_ok [OF i q]) (simp_all only: off sl(1-6))
  then show "\<exists>w. st_lddp (ulong (SP u + rsb_FIL u)) u = Ok (FIL s) (u\<lparr>wst := w\<rparr>)"
    using ul [OF off(1)] b(6) uval_slot [OF i, of "FIL s"] f sl(15) off r(1) by (simp add: resumable_def)
qed

lemma rsb_on_top_upd:
  assumes "rsb_on_top c rsbcode s rest u" and "minv c v" and "SP v = SP u" and "stack v = stack u"
  shows "rsb_on_top c rsbcode s rest v"
proof -
  have "minv c u" using assms(1) by (simp add: rsb_on_top_def)
  then have "MLim v = MLim u" using minv_fields(17) assms(2) by metis
  then show ?thesis using assms by (simp add: rsb_on_top_def opstack_def)
qed

text \<open>What the return finds in the machine besides the block.\<close>

definition return_ok :: "em_prog \<Rightarrow> mach \<Rightarrow> mach \<Rightarrow> bool" where
  "return_ok c s u \<longleftrightarrow> 8 \<le> HP u \<and> at_rsb c u (LB s) \<and> 0 \<le> curr_frame s \<and> curr_frame s \<le> curr_frame u
     \<and> (\<forall>i. 0 \<le> i \<longrightarrow> i \<le> curr_frame u \<longrightarrow> AB_ok u i) \<and> AB s \<le> AB_list u (curr_frame s)
     \<and> (\<forall>i. curr_frame s < i \<longrightarrow> i \<le> curr_frame u \<longrightarrow> AB_list u i < AB s)"

lemma bind_step: "m s = Ok x t \<Longrightarrow> bindM m f s = f x t"
  by simp

lemma restore_registers:
  assumes r: "resumable c s" "minv c s" and u: "rsb_on_top c RSB_CAL s rest u" and k: "return_ok c s u"
    and l: "SP u + rsbsize c \<le> LB s"
  shows "\<exists>w. withM (\<lambda>s. bindM (st_lds (ulong (SP s + rsb_PI s)) (psize s)) (\<lambda>v. modifyM (\<lambda>s. s\<lparr>PI := v\<rparr>))) u
      = Ok () (u\<lparr>wst := w, PI := PI s\<rparr>)"
    "PI u = PI s \<Longrightarrow> \<exists>w. withM (\<lambda>s. bindM (st_ldip (ulong (SP s + rsb_PC s))) newPC) u = Ok () (u\<lparr>wst := w, PC := PC s\<rparr>)"
    "\<exists>w. withM (\<lambda>s. bindM (st_lddp (ulong (SP s + rsb_LB s))) newLB) u
      = Ok () (u\<lparr>wst := w, LB := LB s, AB := AB s\<rparr>) \<and> minv c (u\<lparr>wst := w, LB := LB s, AB := AB s\<rparr>)"
    "\<exists>d g w. withM (\<lambda>s. bindM (st_ldu (ulong (SP s + rsb_LIN s)) LINSIZE) (\<lambda>v. putLIN (slong v))) u
      = Ok () (u\<lparr>data := d, data_sh := g, wst := w, LIN := LIN s\<rparr>)"
    "\<exists>d g w. withM (\<lambda>s. bindM (st_lddp (ulong (SP s + rsb_FIL s))) putFIL) u
      = Ok () (u\<lparr>data := d, data_sh := g, wst := w, FIL := FIL s\<rparr>)"
proof -
  have i: "minv c u" using u by (simp add: rsb_on_top_def)
  note L = rsb_loads [OF r u]
  have h: "8 \<le> HP u" "at_rsb c u (LB s)" using k by (simp_all add: return_ok_def)
  show "\<exists>w. withM (\<lambda>s. bindM (st_lds (ulong (SP s + rsb_PI s)) (psize s)) (\<lambda>v. modifyM (\<lambda>s. s\<lparr>PI := v\<rparr>))) u
      = Ok () (u\<lparr>wst := w, PI := PI s\<rparr>)"
    using L(2) by auto
  obtain w3 where w3: "st_ldip (ulong (SP u + rsb_PC u)) u = Ok (PC s) (u\<lparr>wst := w3\<rparr>)" using L(3) by blast
  have pt: "proctab u = proctab s" "DB u = DB s"
    using minv_fields(19,22) [OF i] minv_fields(19,22) [OF r(2)] by simp_all
  show "\<exists>w. withM (\<lambda>s. bindM (st_ldip (ulong (SP s + rsb_PC s))) newPC) u = Ok () (u\<lparr>wst := w, PC := PC s\<rparr>)"
    if "PI u = PI s"
  proof -
    have "newPC (PC s) (u\<lparr>wst := w3\<rparr>) = Ok () (u\<lparr>wst := w3\<rparr>\<lparr>PC := PC s\<rparr>)"
      using r(1) pt that by (intro newPC_ok) (simp_all add: resumable_def)
    then show ?thesis using w3 by (intro exI [of _ w3]) simp
  qed
  obtain w4 where w4: "st_lddp (ulong (SP u + rsb_LB u)) u = Ok (LB s) (u\<lparr>wst := w4\<rparr>)" using L(4) by blast
  show "\<exists>w. withM (\<lambda>s. bindM (st_lddp (ulong (SP s + rsb_LB s))) newLB) u
      = Ok () (u\<lparr>wst := w, LB := LB s, AB := AB s\<rparr>) \<and> minv c (u\<lparr>wst := w, LB := LB s, AB := AB s\<rparr>)"
  proof -
    let ?v = "u\<lparr>wst := w4\<rparr>"
    have v: "minv c ?v" "SP ?v \<le> LB s" "at_rsb c ?v (LB s)"
      using i l h(2) wmult_sizes(3) [OF i] by (simp_all add: at_rsb_def wmult_def)
    have b: "LB s + wsize c \<le> MLim c + 1" "AB s = LB s + rsbsize c" using r(1) by (simp_all add: resumable_def)
    note nl = newLB_ok [OF v(1,2) b(1) minv_regs(9) [OF r(2)] v(3)]
    obtain w where "newLB (LB s) ?v = Ok () (?v\<lparr>wst := w, LB := LB s, AB := ulong (LB s + rsbsize c)\<rparr>)" using nl(1) by blast
    moreover have "?v\<lparr>wst := w, LB := LB s, AB := a\<rparr> = u\<lparr>wst := w, LB := LB s, AB := a\<rparr>" for w a by simp
    moreover have "0 \<le> rsbsize c" "rsbsize c \<le> 24" "0 < wsize c" using minv_caps(1,2,12) [OF i] by auto
    then have "ulong (LB s + rsbsize c) = AB s"
      using b minv_MLim(2) [OF i] LB_slot(1) [OF r(2)] by (simp add: ulong_id)
    ultimately show ?thesis using w4 nl(2) [of "AB s" w] by (intro exI [of _ w]) (simp only: withM_apply bind_step)
  qed
  obtain w5 where w5: "st_ldu (ulong (SP u + rsb_LIN u)) LINSIZE u = Ok (LIN s) (u\<lparr>wst := w5\<rparr>)" using L(5) by blast
  have "slong (LIN s) = LIN s" using r(1) by (simp add: resumable_def slong_id)
  moreover obtain d g w where "putLIN (LIN s) (u\<lparr>wst := w5\<rparr>) = Ok () (u\<lparr>wst := w5\<rparr>\<lparr>data := d, data_sh := g, wst := w, LIN := LIN s\<rparr>)"
    using putLIN_ok(1) [of c "u\<lparr>wst := w5\<rparr>" "LIN s"] i h(1) by auto
  ultimately show "\<exists>d g w. withM (\<lambda>s. bindM (st_ldu (ulong (SP s + rsb_LIN s)) LINSIZE) (\<lambda>v. putLIN (slong v))) u
      = Ok () (u\<lparr>data := d, data_sh := g, wst := w, LIN := LIN s\<rparr>)"
    using w5 by (intro exI [of _ d] exI [of _ g] exI [of _ w]) simp
  obtain w6 where w6: "st_lddp (ulong (SP u + rsb_FIL u)) u = Ok (FIL s) (u\<lparr>wst := w6\<rparr>)" using L(6) by blast
  obtain d g w where "putFIL (FIL s) (u\<lparr>wst := w6\<rparr>) = Ok () (u\<lparr>wst := w6\<rparr>\<lparr>data := d, data_sh := g, wst := w, FIL := FIL s\<rparr>)"
    using putLIN_ok(2) [of c "u\<lparr>wst := w6\<rparr>" "FIL s"] i h(1) by auto
  then show "\<exists>d g w. withM (\<lambda>s. bindM (st_lddp (ulong (SP s + rsb_FIL s))) putFIL) u
      = Ok () (u\<lparr>data := d, data_sh := g, wst := w, FIL := FIL s\<rparr>)"
    using w6 by (intro exI [of _ d] exI [of _ g] exI [of _ w]) simp
qed

text \<open>The caller's registers back in place.\<close>

definition resumed :: "mach \<Rightarrow> (int \<Rightarrow> byte) \<Rightarrow> (int \<Rightarrow> byte) \<Rightarrow> warn_state \<Rightarrow> mach \<Rightarrow> mach" where
  "resumed s d g w u = u\<lparr>PI := PI s, PC := PC s, LB := LB s, AB := AB s, LIN := LIN s, FIL := FIL s,
     SP := SP u + rsbsize u, curr_frame := curr_frame s, data := d, data_sh := g, wst := w\<rparr>"

lemma pop_frames_ok:
  assumes "return_ok c s u" and "AB u = AB s"
  shows "pop_frames u = Ok () (u\<lparr>curr_frame := curr_frame s\<rparr>)"
proof -
  have k: "\<And>i. 0 \<le> i \<Longrightarrow> i \<le> curr_frame u \<Longrightarrow> AB_ok u i" "0 \<le> curr_frame s" "curr_frame s \<le> curr_frame u"
    "AB u \<le> AB_list u (curr_frame s)" "\<And>i. curr_frame s < i \<Longrightarrow> i \<le> curr_frame u \<Longrightarrow> AB_list u i < AB u"
    using assms by (simp_all add: return_ok_def)
  have "nat (curr_frame u + 1) = Suc (nat (curr_frame s) + nat (curr_frame u - curr_frame s))"
    using k(2,3) by (simp add: nat_add_distrib [symmetric] nat_eq_iff)
  then show ?thesis
    using pop_loop_ok [OF k, of "nat (curr_frame u - curr_frame s)" "nat (curr_frame s)"] k(3)
    by (simp add: pop_frames_def)
qed

lemma return_ok_upd:
  assumes "return_ok c s u" and "HP v = HP u" "stack v = stack u" "curr_frame v = curr_frame u"
    "frame_limit v = frame_limit u" "AB_list v = AB_list u"
  shows "return_ok c s v"
  using assms by (simp add: return_ok_def at_rsb_def AB_ok_def)

lemma restore_rsb_ok:
  assumes r: "resumable c s" "minv c s" and u: "rsb_on_top c RSB_CAL s rest u" and k: "return_ok c s u"
    and l: "SP u + rsbsize c \<le> LB s"
  shows "\<exists>d g w. restore_rsb u = Ok () (resumed s d g w u) \<and> minv c (resumed s d g w u)"
proof -
  have i: "minv c u" using u by (simp add: rsb_on_top_def)
  obtain w1 where e1: "withM (\<lambda>s. bindM (st_lds (ulong (SP s + rsb_PI s)) (psize s)) (\<lambda>v. modifyM (\<lambda>s. s\<lparr>PI := v\<rparr>))) u
      = Ok () (u\<lparr>wst := w1, PI := PI s\<rparr>)"
    using restore_registers(1) [OF r u k l] by blast
  let ?u1 = "u\<lparr>wst := w1, PI := PI s\<rparr>"
  have i1: "minv c ?u1" using i by simp
  note u1 = rsb_on_top_upd [OF u i1] return_ok_upd [OF k, of ?u1]
  obtain w2 where e2: "withM (\<lambda>s. bindM (st_ldip (ulong (SP s + rsb_PC s))) newPC) ?u1 = Ok () (?u1\<lparr>wst := w2, PC := PC s\<rparr>)"
    using restore_registers(2) [OF r, of rest ?u1] u1 l by auto
  let ?u2 = "?u1\<lparr>wst := w2, PC := PC s\<rparr>"
  have i2: "minv c ?u2" using i by simp
  note u2 = rsb_on_top_upd [OF u i2] return_ok_upd [OF k, of ?u2]
  obtain w3 where e3: "withM (\<lambda>s. bindM (st_lddp (ulong (SP s + rsb_LB s))) newLB) ?u2
      = Ok () (?u2\<lparr>wst := w3, LB := LB s, AB := AB s\<rparr>)" and i3: "minv c (?u2\<lparr>wst := w3, LB := LB s, AB := AB s\<rparr>)"
    using restore_registers(3) [OF r, of rest ?u2] u2 l by auto
  let ?u3 = "?u2\<lparr>wst := w3, LB := LB s, AB := AB s\<rparr>"
  note u3 = rsb_on_top_upd [OF u i3] return_ok_upd [OF k, of ?u3]
  obtain d4 g4 w4 where e4: "withM (\<lambda>s. bindM (st_ldu (ulong (SP s + rsb_LIN s)) LINSIZE) (\<lambda>v. putLIN (slong v))) ?u3
      = Ok () (?u3\<lparr>data := d4, data_sh := g4, wst := w4, LIN := LIN s\<rparr>)"
    using restore_registers(4) [OF r, of rest ?u3] u3 l by auto
  let ?u4 = "?u3\<lparr>data := d4, data_sh := g4, wst := w4, LIN := LIN s\<rparr>"
  have i4: "minv c ?u4" using i3 by (simp only: minv_update)
  note u4 = rsb_on_top_upd [OF u i4] return_ok_upd [OF k, of ?u4]
  obtain d g w where e5: "withM (\<lambda>s. bindM (st_lddp (ulong (SP s + rsb_FIL s))) putFIL) ?u4
      = Ok () (?u4\<lparr>data := d, data_sh := g, wst := w, FIL := FIL s\<rparr>)"
    using restore_registers(5) [OF r, of rest ?u4] u4 l by auto
  let ?u5 = "?u4\<lparr>data := d, data_sh := g, wst := w, FIL := FIL s\<rparr>"
  have i5: "minv c ?u5" using i4 by (simp only: minv_update)
  have f: "SP ?u5 = SP u" "LB ?u5 = LB s" "rsbsize ?u5 = rsbsize c" "AB ?u5 = AB s"
    using minv_fields(16) [OF i] by simp_all
  have p: "SP ?u5 \<le> SP u + rsbsize c" "SP u + rsbsize c \<le> LB ?u5" "wsize c dvd SP u + rsbsize c"
    using f l wmult_sizes(3) [OF i] minv_regs(8) [OF i] by (simp_all add: wmult_def)
  have "ulong (SP u + rsbsize c) = SP u + rsbsize c" by (rule SP_plus [OF i wmult_sizes(3) [OF i]])
  then have e6: "withM (\<lambda>s. st_dec (rsbsize s)) ?u5 = Ok () (?u5\<lparr>SP := SP u + rsbsize c\<rparr>)"
    using newSP_up(1) [OF i5 p] f by (simp only: withM_apply st_dec_def)
  let ?u6 = "?u5\<lparr>SP := SP u + rsbsize c\<rparr>"
  have e7: "pop_frames ?u6 = Ok () (?u6\<lparr>curr_frame := curr_frame s\<rparr>)"
    by (rule pop_frames_ok [OF return_ok_upd [OF k]]) simp_all
  have "restore_rsb u = Ok () (?u6\<lparr>curr_frame := curr_frame s\<rparr>)"
    unfolding restore_rsb_def seqM.simps thenM_returnM using e1 e2 e3 e4 e5 e6 e7 by (simp only: then_step)
  moreover have "?u6\<lparr>curr_frame := curr_frame s\<rparr> = resumed s d g w u"
    by (rule mach.equality) (simp_all add: resumed_def minv_fields(16) [OF i])
  moreover have "minv c (?u6\<lparr>curr_frame := curr_frame s\<rparr>)"
    using newSP_up(2) [OF i5 p] by (simp only: minv_update)
  ultimately show ?thesis by metis
qed

lemma when_warn: "\<exists>w. whenM b (warn n) s = Ok () (s\<lparr>wst := w\<rparr>)"
proof (cases b)
  case False
  then show ?thesis by (intro exI [of _ "wst s"]) simp
qed (use warn_Ok in simp)

lemma thenM_assoc: "thenM (thenM m k) j = thenM m (thenM k j)"
  unfolding thenM_def by (rule bindM_assoc)

lemma poprsb_ok:
  assumes r: "resumable c s" "minv c s" and i: "minv c u" and p: "0 \<le> PI u" "PI u < int (length (proctab u))"
    and b: "rsb_on_top c RSB_CAL s rest (u\<lparr>SP := LB u\<rparr>)" and k: "return_ok c s u"
    and l: "LB u + rsbsize c \<le> LB s"
  shows "\<exists>d g w. poprsb False u = Ok RSB_CAL (resumed s d g w (u\<lparr>SP := LB u\<rparr>))
    \<and> minv c (resumed s d g w (u\<lparr>SP := LB u\<rparr>))"
proof -
  let ?chk = "withM (\<lambda>s. bindM (proctab_at (PI s)) (\<lambda>pr. let properSP = ulong (LB s - pr_nloc pr) in seqM [
         whenM (SP s < properSP) (warn WRETSTL), whenM (SP s > properSP) (warn WRETSTS)]))"
  obtain w1 where w1: "?chk u = Ok () (u\<lparr>wst := w1\<rparr>)"
  proof -
    let ?q = "ulong (LB u - pr_nloc (proctab u ! nat (PI u)))"
    have pr: "proctab_at (PI u) u = Ok (proctab u ! nat (PI u)) u" using p by (simp add: proctab_at_def)
    obtain w where w: "whenM (SP u < ?q) (warn WRETSTL) u = Ok () (u\<lparr>wst := w\<rparr>)" using when_warn by blast
    obtain w' where w': "whenM (?q < SP u) (warn WRETSTS) (u\<lparr>wst := w\<rparr>) = Ok () (u\<lparr>wst := w\<rparr>\<lparr>wst := w'\<rparr>)"
      using when_warn by blast
    have "u\<lparr>wst := w\<rparr>\<lparr>wst := w'\<rparr> = u\<lparr>wst := w'\<rparr>" by simp
    then have "?chk u = Ok () (u\<lparr>wst := w'\<rparr>)"
      using pr w w' by (simp only: withM_apply bind_step Let_def seqM.simps thenM_returnM then_step)
    then show thesis by (rule that)
  qed
  let ?v = "u\<lparr>wst := w1, SP := LB u\<rparr>"
  have n: "newSP (LB u) (u\<lparr>wst := w1\<rparr>) = Ok () ?v" "minv c ?v"
    using newSP_up [of c "u\<lparr>wst := w1\<rparr>" "LB u"] i minv_regs(6,9) [OF i] by simp_all
  have b': "rsb_on_top c RSB_CAL s rest ?v" by (rule rsb_on_top_upd [OF b n(2)]) simp_all
  obtain w2 where w2: "st_lduw (ulong (SP ?v + rsb_rsbcode ?v)) ?v = Ok RSB_CAL (?v\<lparr>wst := w2\<rparr>)"
    using rsb_loads(1) [OF r b'] by blast
  let ?x = "?v\<lparr>wst := w2\<rparr>"
  have i2: "minv c ?x" using n(2) by (simp only: minv_update)
  obtain d g w where re: "restore_rsb ?x = Ok () (resumed s d g w ?x)" "minv c (resumed s d g w ?x)"
    using restore_rsb_ok [OF r rsb_on_top_upd [OF b' i2] return_ok_upd [OF k]] l by auto
  have e: "resumed s d g w ?x = resumed s d g w (u\<lparr>SP := LB u\<rparr>)" by (simp add: resumed_def)
  have c: "c_int RSB_CAL = RSB_CAL" "RSB_CAL AND RSBMASK = RSBCODE" "RSB_CAL \<noteq> RSB_STP"
    using sval_rsb(3,4) [OF i, of RSB_CAL] by (simp_all add: RSB_CAL_def RSB_STP_def)
  have "withM (\<lambda>s. newSP (LB s)) (u\<lparr>wst := w1\<rparr>) = Ok () ?v" using n(1) by simp
  moreover have "whenM (RSB_CAL \<noteq> RSB_STP) restore_rsb ?x = Ok () (resumed s d g w ?x)"
    unfolding whenM_def using re(1) c(3) by (simp only: not_False_eq_True if_True)
  ultimately have "poprsb False u = Ok RSB_CAL (resumed s d g w ?x)"
    unfolding poprsb_def if_False seqM.simps thenM_returnM using w1 w2
    by (simp only: thenM_assoc then_step withM_apply bind_step Let_def c(1,2) not_True_eq_False if_False apply_M
        simp_thms seqM.simps thenM_returnM)
  then show ?thesis using re(2) unfolding e by blast
qed

lemma ret_steps:
  assumes "\<not> n > FRALimit s" and "popFRA n (s\<lparr>FRA_def := DEFINED, FRASize := n\<rparr>) = Ok () s1"
    and "poprsb False s1 = Ok RSB_CAL s2"
  shows "ret n s = Ok () s2"
  using assms by (simp add: ret_def ret_switch_def RSB_CAL_def RSB_STP_def)

text \<open>A procedure \<open>u\<close>, called from \<open>s\<close>, with \<open>n\<close> bytes of result on its stack.\<close>

definition returning :: "em_prog \<Rightarrow> mach \<Rightarrow> byte list \<Rightarrow> size \<Rightarrow> mach \<Rightarrow> bool" where
  "returning c s rest n u \<longleftrightarrow> minv c u \<and> 0 \<le> PI u \<and> PI u < int (length (proctab u))
     \<and> opstack (u\<lparr>SP := LB u\<rparr>) = rsb_bytes c RSB_CAL s @ rest \<and> return_ok c s u
     \<and> LB u + rsbsize c \<le> LB s \<and> wmult c n \<and> n \<le> FRALimit c \<and> SP u + n \<le> LB u"

lemma ret_ok:
  assumes r: "resumable c s" "minv c s" and u: "returning c s rest n u"
  shows "\<exists>t. ret n u = Ok () t \<and> minv c t \<and> PI t = PI s \<and> PC t = PC s \<and> LB t = LB s \<and> AB t = AB s
    \<and> LIN t = LIN s \<and> FIL t = FIL s \<and> curr_frame t = curr_frame s \<and> opstack t = rest
    \<and> FRA_def t = DEFINED \<and> FRASize t = n \<and> take (nat n) (FRA t) = rd_bytes (stack u) (SP u) (nat n)"
proof -
  have i: "minv c u" and p: "0 \<le> PI u" "PI u < int (length (proctab u))"
    and o: "opstack (u\<lparr>SP := LB u\<rparr>) = rsb_bytes c RSB_CAL s @ rest" and k: "return_ok c s u"
    and l: "LB u + rsbsize c \<le> LB s" and n: "wmult c n" "n \<le> FRALimit c" "SP u + n \<le> LB u"
    using u by (simp_all add: returning_def)
  let ?u = "u\<lparr>FRA_def := DEFINED, FRASize := n\<rparr>"
  have i1: "minv c ?u" using minv_upd_FRASize [OF _ n(2), of "u\<lparr>FRA_def := DEFINED\<rparr>"] i by simp
  obtain h where f: "popFRA n ?u = Ok () (?u\<lparr>FRA := rd_bytes (stack u) (SP u) (nat n) @ drop (nat n) (FRA u),
      FRA_sh := h, SP := SP u + n\<rparr>)"
    and i2: "minv c (?u\<lparr>FRA := rd_bytes (stack u) (SP u) (nat n) @ drop (nat n) (FRA u), FRA_sh := h, SP := SP u + n\<rparr>)"
    using popFRA_ok [OF i1 n(1,2)] n(3) by auto
  let ?v = "?u\<lparr>FRA := rd_bytes (stack u) (SP u) (nat n) @ drop (nat n) (FRA u), FRA_sh := h, SP := SP u + n\<rparr>"
  have i3: "minv c (?v\<lparr>SP := LB ?v\<rparr>)" using newSP_up(2) [OF i2, of "LB ?v"] n(3) minv_regs(9) [OF i2] by simp
  have b: "rsb_on_top c RSB_CAL s rest (?v\<lparr>SP := LB ?v\<rparr>)"
    unfolding rsb_on_top_def using i3 o by (simp add: opstack_def)
  obtain d g w where e: "poprsb False ?v = Ok RSB_CAL (resumed s d g w (?v\<lparr>SP := LB ?v\<rparr>))"
    and i4: "minv c (resumed s d g w (?v\<lparr>SP := LB ?v\<rparr>))"
    using poprsb_ok [OF r i2 _ _ b return_ok_upd [OF k]] p l by auto
  let ?t = "resumed s d g w (?v\<lparr>SP := LB ?v\<rparr>)"
  have "ret n u = Ok () ?t" using ret_steps [OF _ f e] n(2) minv_fields(21) [OF i] by simp
  moreover have "opstack ?t = rest"
  proof -
    have "minv c (u\<lparr>SP := LB u\<rparr>)" using newSP_up(2) [OF i minv_regs(6) [OF i] order_refl minv_regs(9) [OF i]] .
    from opstack_pop [OF this o, of "wst u"] show ?thesis
      using length_rsb_bytes [OF i, of RSB_CAL s] minv_fields(16) [OF i] by (simp add: opstack_def resumed_def)
  qed
  ultimately show ?thesis using i4 by (intro exI [of _ ?t]) (simp add: resumed_def)
qed

lemma callee_returning:
  assumes s: "minv c s" and r: "resumable c s" and p: "callable c s pi" and i: "minv c (callee s pi d h l k fl w)"
    and b: "rd_bytes d (SP s - rsbsize c) (nat (MLim c + 1 - (SP s - rsbsize c))) = rsb_bytes c RSB_CAL s @ opstack s"
    and fl: "curr_frame s + 1 < fl" "fl < 2 ^ 28"
  shows "returning c s (opstack s) 0 (callee s pi d h l k fl w)" (is "returning c s _ 0 ?u")
  unfolding returning_def return_ok_def
proof (intro conjI allI impI)
  note f = minv_fields(16,17) [OF s]
  have z: "0 \<le> rsbsize c" "0 < rsbsize c" using minv_caps(1,2,12) [OF s] by auto
  have o: "opstack (?u\<lparr>SP := LB ?u\<rparr>) = rsb_bytes c RSB_CAL s @ opstack s"
    using b f by (simp add: opstack_def callee_def)
  then show "opstack (?u\<lparr>SP := LB ?u\<rparr>) = rsb_bytes c RSB_CAL s @ opstack s" .
  show "0 \<le> PI ?u" "PI ?u < int (length (proctab ?u))"
    using callableD(10,11) [OF p refl] by (simp_all add: callee_def)
  show "minv c ?u" by (rule i)
  show "8 \<le> HP ?u" "AB s \<le> AB_list ?u (curr_frame s)" using r by (simp_all add: callee_def resumable_def)
  show "0 \<le> curr_frame s" "curr_frame s \<le> curr_frame ?u"
    using callableD(6) [OF p refl] by (simp_all add: callee_def frames_ok_def)
  show "AB_ok ?u j" if "0 \<le> j" "j \<le> curr_frame ?u" for j
    using that fl by (simp add: AB_ok_def callee_def c_uint_id)
  show "AB_list ?u j < AB s" if "curr_frame s < j" "j \<le> curr_frame ?u" for j
  proof -
    have "j = curr_frame s + 1" using that by (simp add: callee_def)
    then show ?thesis using r z(2) minv_regs(6) [OF s] by (simp add: callee_def resumable_def)
  qed
  show "LB ?u + rsbsize c \<le> LB s" using minv_regs(6) [OF s] f by (simp add: callee_def)
  show "wmult c 0" "0 \<le> FRALimit c" using wmult_sizes(4) [OF s] minvD(2) [OF s] by (simp_all add: prog_ok_def)
  show "SP ?u + 0 \<le> LB ?u" using minv_regs(6) [OF i] by simp
  have d: "rd_bytes d (SP s) (length (opstack s)) = opstack s"
  proof -
    have "nat (MLim c + 1 - (SP s - rsbsize c)) = length (rsb_bytes c RSB_CAL s @ opstack s)"
      using opstack_SP [OF s] length_rsb_bytes [OF s, of RSB_CAL s] by (simp add: nat_eq_iff)
    then have "rd_bytes d (SP s - rsbsize c) (length (rsb_bytes c RSB_CAL s @ opstack s))
        = rsb_bytes c RSB_CAL s @ opstack s" using b by simp
    from rsb_fields(7) [OF s this] show ?thesis by simp
  qed
  have q: "0 \<le> LB s - SP s" "nat (LB s - SP s) + nat (wsize c) \<le> length (opstack s)"
  proof -
    have w: "0 < wsize c" "LB s + wsize c \<le> MLim c + 1" "0 \<le> LB s - SP s"
      using r minv_caps(1) [OF s] minv_regs(6) [OF s] by (auto simp: resumable_def)
    then show "0 \<le> LB s - SP s" "nat (LB s - SP s) + nat (wsize c) \<le> length (opstack s)"
      using opstack_SP [OF s] by linarith+
  qed
  have "rd_bytes d (LB s) (nat (wsize c)) = rd_bytes (stack s) (LB s) (nat (wsize c))"
  proof (rule rd_bytes_cong)
    fix j assume j: "j < nat (wsize c)"
    have "d (SP s + int (nat (LB s - SP s) + j)) = opstack s ! (nat (LB s - SP s) + j)"
      using q j d by (metis add_less_cancel_left nth_rd_bytes order_less_le_trans)
    also have "\<dots> = stack s (SP s + int (nat (LB s - SP s) + j))"
      using q j by (simp add: opstack_def)
    finally show "d (LB s + int j) = stack s (LB s + int j)" using q(1) by simp
  qed
  then show "at_rsb c ?u (LB s)" using r by (simp add: at_rsb_def resumable_def callee_def)
qed

lemma call_effect:
  assumes "minv c s" and "callable c s pi" and "rsbcode \<in> {RSB_STP, RSB_CAL, RSB_RTT, RSB_NRT}"
  shows "\<exists>t ls. call pi rsbcode s = Ok () t \<and> minv c t \<and> PI t = pi \<and> PC t = pr_ep (proctab s ! nat pi)
    \<and> LB t = SP s - rsbsize c \<and> AB t = SP s \<and> int (length ls) = pr_nloc (proctab s ! nat pi)
    \<and> opstack t = ls @ rsb_bytes c rsbcode s @ opstack s \<and> data t = data s \<and> OnTrap t = OnTrap s
    \<and> TrapPI t = TrapPI s"
proof -
  define n where "n = pr_nloc (proctab s ! nat pi)"
  have n: "0 \<le> n" using callableD(2) [OF assms(2) refl] by (simp add: n_def wmult_def)
  obtain d h l k fl w where e: "call pi rsbcode s = Ok () (callee s pi d h l k fl w)"
    and i: "minv c (callee s pi d h l k fl w)"
    and b: "rd_bytes d (SP s - rsbsize c) (nat (MLim c + 1 - (SP s - rsbsize c))) = rsb_bytes c rsbcode s @ opstack s"
    using call_ok [OF assms] by blast
  let ?t = "callee s pi d h l k fl w"
  note f = minv_fields(16,17) [OF assms(1)]
  have "0 \<le> MLim c + 1 - (SP s - rsbsize c)"
    using minv_SP(2) [OF assms(1)] wmult_sizes(3) [OF assms(1)] by (simp add: wmult_def)
  then have m: "nat (MLim c + 1 - (SP s - rsbsize c - n)) = nat n + nat (MLim c + 1 - (SP s - rsbsize c))"
    using n by (simp add: nat_add_distrib [symmetric])
  have "opstack ?t = rd_bytes d (SP s - rsbsize c - n) (nat (MLim c + 1 - (SP s - rsbsize c - n)))"
    using f by (simp add: opstack_def callee_def n_def)
  also have "\<dots> = rd_bytes d (SP s - rsbsize c - n) (nat n) @ rsb_bytes c rsbcode s @ opstack s"
    unfolding m rd_bytes_add using n b by simp
  finally show ?thesis
    using e i n f by (intro exI [of _ ?t] exI [of _ "rd_bytes d (SP s - rsbsize c - n) (nat n)"])
      (simp add: callee_def n_def)
qed

text \<open>
  (C3) Calling a procedure: \<open>call\<close> pushes a return status block holding the caller's registers,
  reserves the locals, and starts at the entry point of the procedure with the local base at the block
  and the actual base at the caller's stack pointer.
\<close>

theorem call_spec:
  assumes "minv c s" and "callable c s pi" and "rsbcode \<in> {RSB_STP, RSB_CAL, RSB_RTT, RSB_NRT}"
  shows "\<exists>t ls. call pi rsbcode s = Ok () t \<and> minv c t \<and> PI t = pi \<and> PC t = pr_ep (proctab s ! nat pi)
    \<and> LB t = SP s - rsbsize c \<and> AB t = SP s \<and> int (length ls) = pr_nloc (proctab s ! nat pi)
    \<and> opstack t = ls @ rsb_bytes c rsbcode s @ opstack s \<and> data t = data s \<and> OnTrap t = OnTrap s"
  using call_effect [OF assms] by blast

text \<open>
  (C2) A procedure that returns right after it was called leaves the caller as it was: the same
  procedure, program counter, bases, line number, file name, live frames and operand stack.
\<close>

theorem call_return:
  assumes s: "minv c s" and r: "resumable c s" and p: "callable c s pi"
  shows "\<exists>t. thenM (call pi RSB_CAL) (ret 0) s = Ok () t \<and> minv c t \<and> PI t = PI s \<and> PC t = PC s
    \<and> LB t = LB s \<and> AB t = AB s \<and> SP t = SP s \<and> LIN t = LIN s \<and> FIL t = FIL s
    \<and> curr_frame t = curr_frame s \<and> opstack t = opstack s"
proof -
  obtain d h l k fl w where e: "call pi RSB_CAL s = Ok () (callee s pi d h l k fl w)"
    and i: "minv c (callee s pi d h l k fl w)"
    and b: "rd_bytes d (SP s - rsbsize c) (nat (MLim c + 1 - (SP s - rsbsize c))) = rsb_bytes c RSB_CAL s @ opstack s"
    and fl: "curr_frame s + 1 < fl" "fl < 2 ^ 28"
    using call_ok [OF s p, of RSB_CAL] by auto
  let ?u = "callee s pi d h l k fl w"
  have "returning c s (opstack s) 0 ?u" by (rule callee_returning [OF s r p i b fl])
  from ret_ok [OF r s this] obtain t where "ret 0 ?u = Ok () t" "minv c t" "PI t = PI s" "PC t = PC s" "LB t = LB s"
    "AB t = AB s" "LIN t = LIN s" "FIL t = FIL s" "curr_frame t = curr_frame s" "opstack t = opstack s" by blast
  moreover from this have "SP t = SP s" using opstack_SP [OF s] opstack_SP [of c t] by simp
  ultimately show ?thesis using e by (intro exI [of _ t]) (simp only: then_step)
qed

section \<open>The function return area\<close>

lemma pushFRA_loop:
  assumes "minv c t" and "i + k \<le> length (FRA t)" and "SP t + int (i + k) \<le> MLim c + 1"
  shows "\<exists>h. forM k (int i) pushFRA_byte t
    = Ok () (t\<lparr>stack := upd_bytes (stack t) (SP t + int i) (take k (drop i (FRA t))), stack_sh := h\<rparr>)"
  using assms
proof (induction k arbitrary: i t)
  case 0
  then show ?case by (intro exI [of _ "stack_sh t"]) simp
next
  case (Suc k)
  have l: "i < length (FRA t)" "i < length (FRA_sh t)"
    using Suc.prems(2) minv_regs(13,14) [OF Suc.prems(1)] by auto
  have a: "ulong (SP t + int i) = SP t + int i" "stack_ok t (SP t + int i)"
    using Suc.prems(3) minv_SP [OF Suc.prems(1)] minv_regs(10) [OF Suc.prems(1)] minv_fields(17) [OF Suc.prems(1)]
    by (simp_all add: ulong_id stack_ok_def)
  define f where "f = (if int i < FRASize t then FRA_sh t ! i else SH_UNDEF)"
  let ?t = "t\<lparr>stack := (stack t)(SP t + int i := FRA t ! i), stack_sh := (stack_sh t)(SP t + int i := f)\<rparr>"
  have b: "pushFRA_byte (int i) t = Ok () ?t"
    using a l by (simp add: pushFRA_byte_def rd_FRA_def rd_FRA_sh_def poke_stack_def wr_stack_sh_def stack_ok_def f_def)
  have "minv c ?t" "Suc i + k \<le> length (FRA ?t)" "SP ?t + int (Suc i + k) \<le> MLim c + 1" using Suc.prems by simp_all
  from Suc.IH [OF this] obtain h where h: "forM k (int (Suc i)) pushFRA_byte ?t = Ok () (?t\<lparr>stack := upd_bytes (stack ?t)
      (SP ?t + int (Suc i)) (take k (drop (Suc i) (FRA ?t))), stack_sh := h\<rparr>)"
    by blast
  have "take (Suc k) (drop i (FRA t)) = FRA t ! i # take k (drop (Suc i) (FRA t))"
    using l(1) by (simp add: Cons_nth_drop_Suc [symmetric])
  then show ?case using b h by (intro exI [of _ h]) (simp add: add.commute add.left_commute upd_bytes_Cons)
qed

lemma runs_pushFRA:
  assumes t: "minv c t" and n: "wmult c n" "n \<le> FRALimit c" and f: "fits t (nat n + length (opstack t))"
  shows "runs c (pushFRA n) t () (take (nat n) (FRA t) @ opstack t)"
proof (cases "n = 0")
  case True
  then show ?thesis using runs_return [OF t refl, of "()"] by (simp add: pushFRA_def)
next
  case False
  have k: "0 \<le> n" "wsize c dvd n" using n(1) by (simp_all add: wmult_def)
  then have m: "max n (wsize t) = n" using False zdvd_imp_le [of "wsize c" n] minv_fields(1) [OF t] by simp
  have "fits t (length (opstack t) + nat n)" using f by (simp add: add.commute)
  from locals_ok [OF t n(1) this] obtain h l e where
    u: "st_inc n t = Ok () (t\<lparr>SP := SP t - n, stack_sh := h, SL := l, stack_len := e\<rparr>)"
    "minv c (t\<lparr>SP := SP t - n, stack_sh := h, SL := l, stack_len := e\<rparr>)" by blast
  let ?u = "t\<lparr>SP := SP t - n, stack_sh := h, SL := l, stack_len := e\<rparr>"
  have ln: "nat n \<le> length (FRA t)" using n(2) minv_regs(13) [OF t] by simp
  obtain h' where p: "forM (nat n) 0 pushFRA_byte ?u
      = Ok () (?u\<lparr>stack := upd_bytes (stack t) (SP t - n) (take (nat n) (FRA t)), stack_sh := h'\<rparr>)"
    using pushFRA_loop [OF u(2), of 0 "nat n"] ln k minv_SP(2) [OF t] by auto
  let ?v = "?u\<lparr>stack := upd_bytes (stack t) (SP t - n) (take (nat n) (FRA t)), stack_sh := h'\<rparr>"
  show ?thesis
  proof (rule runsI [where s' = ?v])
    show "pushFRA n t = Ok () ?v" using False u(1) p m by (simp add: pushFRA_def)
    show "minv c ?v" using u(2) by (simp only: minv_update)
    show "stk_frame t ?v"
      by (rule stk_frameI [where p = "SP t - n" and d = "upd_bytes (stack t) (SP t - n) (take (nat n) (FRA t))"
          and h = h' and l = l and k = e and w = "wst t"]) simp
    show "opstack ?v = take (nat n) (FRA t) @ opstack t"
      by (rule opstack_push [OF t]) (use ln k in simp_all)
  qed
qed

text \<open>Steps that only warn.\<close>

lemma runs_when_warn:
  assumes "minv c s"
  shows "runs c (whenM b (warn n)) s () (opstack s)"
proof -
  obtain w where w: "whenM b (warn n) s = Ok () (s\<lparr>wst := w\<rparr>)" using when_warn by blast
  show ?thesis
    using w stk_frame_pop [of s "SP s" w] assms
    by (intro runsI [where s' = "s\<lparr>wst := w\<rparr>"]) (simp_all add: opstack_def)
qed

lemma raises_wtrap:
  assumes "minv c s"
  shows "raises c (wtrap n t) s t (opstack s)"
proof -
  obtain w where w: "(wtrap n t :: 'a M) s = Trap t (s\<lparr>wst := w\<rparr>)" using wtrap_frame by blast
  show ?thesis
    unfolding raises_def using w stk_frame_pop [of s "SP s" w] assms
    by (intro exI [of _ "s\<lparr>wst := w\<rparr>"]) (simp add: opstack_def)
qed

lemma raises_then: "raises c m s n bs \<Longrightarrow> raises c (thenM m k) s n bs"
  unfolding thenM_def by (rule raises_bind)

lemma lfr_body:
  assumes t: "minv c t" and n: "wmult c n" "n \<le> FRALimit c" and f: "fits t (nat n + length (opstack t))"
  shows "runs c (thenM (withM (\<lambda>s. whenM (b1 s) (warn (w1 s)))) (thenM (withM (\<lambda>s. whenM (b2 s) (warn (w2 s))))
      (thenM (pushFRA n) spoilFRA))) t () (take (nat n) (FRA t) @ opstack t)"
proof (rule runs_then [OF runs_with [OF runs_when_warn [OF t]]])
  fix u assume u: "minv c u" "stk_frame t u" "opstack u = opstack t"
  show "runs c (thenM (withM (\<lambda>s. whenM (b2 s) (warn (w2 s)))) (thenM (pushFRA n) spoilFRA)) u ()
      (take (nat n) (FRA t) @ opstack t)"
  proof (rule runs_then [OF runs_with [OF runs_when_warn [OF u(1)]]])
    fix v assume v: "minv c v" "stk_frame u v" "opstack v = opstack u"
    note tv = stk_frame_fields(2,19) [OF stk_frame_trans [OF u(2) v(2)]]
    have "fits v (nat n + length (opstack v))" using f u(3) v(3) tv(1) by simp
    from runs_pushFRA [OF v(1) n this] have "runs c (pushFRA n) v () (take (nat n) (FRA t) @ opstack t)"
      using u(3) v(3) tv(2) by simp
    then show "runs c (thenM (pushFRA n) spoilFRA) v () (take (nat n) (FRA t) @ opstack t)"
    proof (rule runs_then)
      fix x assume "minv c x" "opstack x = take (nat n) (FRA t) @ opstack t"
      then show "runs c spoilFRA x () (take (nat n) (FRA t) @ opstack t)" using runs_spoilFRA by metis
    qed
  qed
qed

text \<open>
  (C5) LFR \<open>n\<close> pushes the first \<open>n\<close> bytes of the function return area.  A size that is not a
  positive multiple of the word size raises EODDZ, one beyond the area EILLINS, both without touching
  the stack.
\<close>

theorem lfr_spec:
  assumes s: "minv c s" and f: "fits s (nat n + length (opstack s))"
  shows "if n \<le> 0 \<or> n > max_off c \<or> \<not> wsize c dvd n then raises c (DoLFR n) s EODDZ (opstack s)
    else if n > FRALimit c then raises c (DoLFR n) s EILLINS (opstack s)
    else runs c (DoLFR n) s () (take (nat n) (FRA s) @ opstack s)"
proof -
  have a: "arg_s n s = (if n \<le> 0 \<or> n > max_off c \<or> \<not> wsize c dvd n then Trap EODDZ s else Ok n s)"
    using and_wsizem1_c [OF s, of n] minv_fields(9) [OF s] by (simp add: arg_s_def)
  show ?thesis
  proof (cases "n \<le> 0 \<or> n > max_off c \<or> \<not> wsize c dvd n")
    case True
    then show ?thesis
      using a s by (auto simp: DoLFR_def raises_def stk_frame_refl)
  next
    case False
    then have n: "wmult c n" using minv_caps(18) [OF s] by (auto simp: wmult_def split: if_splits)
    have g: "gives c (DoLFR n) s r bs = gives c (lfr n) s r bs" for r bs
      using a False by (simp add: gives_def DoLFR_def)
    show ?thesis
    proof (cases "n > FRALimit c")
      case True
      have "raises c (withM (\<lambda>s. whenM (n > FRALimit s) (wtrap WILLLFR EILLINS))) s EILLINS (opstack s)"
        using True minv_fields(21) [OF s] raises_wtrap [OF s, where 'a = unit] by (intro runs_with) simp
      then show ?thesis using False True by (simp add: g lfr_def raises_then)
    next
      case le: False
      have "runs c (lfr n) s () (take (nat n) (FRA s) @ opstack s)"
        unfolding lfr_def seqM.simps thenM_returnM
      proof (rule runs_then)
        show "runs c (withM (\<lambda>s. whenM (n > FRALimit s) (wtrap WILLLFR EILLINS))) s () (opstack s)"
          using le minv_fields(21) [OF s] runs_return [OF s refl] by (intro runs_with) simp
      next
        fix t assume t: "minv c t" "stk_frame s t" "opstack t = opstack s"
        have "fits t (nat n + length (opstack t))" using f t(3) stk_frame_fields(2) [OF t(2)] by simp
        from lfr_body [OF t(1) n _ this] show "runs c (thenM (withM (\<lambda>s. whenM (FRA_def s = 0) (warn WRFUNGAR)))
            (thenM (withM (\<lambda>s. whenM (n \<noteq> FRASize s) (warn (if FRASize s < n then WRFUNSML else WRFUNLAR))))
              (thenM (pushFRA n) spoilFRA))) t () (take (nat n) (FRA s) @ opstack s)"
          using le t(3) stk_frame_fields(19) [OF t(2)] by simp
      qed
      then show ?thesis using False le by (simp add: g)
    qed
  qed
qed

lemma minv_upd_FRA: "minv c s \<Longrightarrow> length xs = length (FRA s) \<Longrightarrow> minv c (s\<lparr>FRA := xs\<rparr>)"
  by (simp add: minv_def regs_ok_def)

theorem lfr_witness:
  "runs sample_prog (DoLFR 4) (sample [9, 9]\<lparr>FRA := [1, 2, 3, 4, 5, 6, 7, 8]\<rparr>) () [1, 2, 3, 4, 9, 9]"
proof -
  let ?s = "sample [9, 9]\<lparr>FRA := [1, 2, 3, 4, 5, 6, 7, 8]\<rparr>"
  have "minv sample_prog ?s" by (rule minv_upd_FRA) (simp, simp add: sample_def em_prog.extend_def)
  moreover have "opstack ?s = [9, 9]" using opstack_sample [of "[9, 9]"] by (simp add: opstack_def)
  moreover have "fits ?s 6" using sample_ready(2) [of "[9, 9]" 6] by (simp add: fits_def)
  moreover have "max_off sample_prog = 32767" "FRALimit sample_prog = 8" by (simp_all add: sample_defs)
  ultimately show ?thesis using lfr_spec [of sample_prog ?s 4] by simp
qed

section \<open>On the sample machine\<close>

text \<open>Inside the first procedure, whose block is at the bottom of the stack.\<close>

definition main_frame :: "byte list" where
  "main_frame = [0x91, 0x2b, 0, 0, 0, 0, 0xFE, 0xFF, 1, 0, 0, 0, 0, 0]"

definition in_main :: "byte list \<Rightarrow> mach" where
  "in_main bs = sample (bs @ main_frame)\<lparr>LB := 65520, AB := 65534\<rparr>"

lemma in_main_fields [simp]:
  "PI (in_main bs) = 0" "PC (in_main bs) = 0" "LB (in_main bs) = 65520" "AB (in_main bs) = 65534"
  "LIN (in_main bs) = 1" "FIL (in_main bs) = 0" "HP (in_main bs) = 100" "curr_frame (in_main bs) = 0"
  "frame_limit (in_main bs) = 100" "proctab (in_main bs) = [\<lparr>pr_nloc = 0, pr_ep = 0, pr_ff = 64\<rparr>]"
  "DB (in_main bs) = 64" "AB_list (in_main bs) = (\<lambda>_. 65534)" "OnTrap (in_main bs) = TR_HALT"
  "SP (in_main bs) = 65520 - int (length bs)"
  by (simp_all add: in_main_def sample_defs main_frame_def)

lemma in_main_opstack: "length bs \<le> 900 \<Longrightarrow> opstack (in_main bs) = bs @ main_frame"
  using opstack_sample [of "bs @ main_frame"] by (simp add: in_main_def opstack_def main_frame_def)

lemma in_main_minv:
  assumes "even (length bs)" and "length bs \<le> 900"
  shows "minv sample_prog (in_main bs)"
proof -
  have "minv sample_prog (sample (bs @ main_frame)\<lparr>LB := 65520\<rparr>)"
    using assms by (intro minv_upd_LB) (simp_all add: main_frame_def)
  then show ?thesis by (simp add: in_main_def)
qed

lemma in_main_fits: "fits (in_main bs) k \<longleftrightarrow> k \<le> 65434"
  using sample_ready(2) [of "bs @ main_frame" k] by (simp add: in_main_def fits_def)

lemma rsbsize_sample: "rsbsize sample_prog = 14" "FRALimit sample_prog = 8"
  by (simp_all add: sample_defs LINSIZE_def)

lemma in_main_callable: "length bs \<le> 900 \<Longrightarrow> callable sample_prog (in_main bs) 0"
  by (simp add: callable_def in_main_opstack in_main_fits rsbsize_sample main_frame_def wmult_def frames_ok_def)

lemma at_rsb_main:
  assumes "rd_bytes (stack s) 65520 (length main_frame) = main_frame"
  shows "at_rsb sample_prog s 65520"
proof -
  have "length main_frame = 2 + 12" "main_frame = [0x91, 0x2b] @ drop 2 main_frame"
    by (simp_all add: main_frame_def)
  then have "rd_bytes (stack s) 65520 (2 + 12) = [0x91, 0x2b] @ drop 2 main_frame" using assms by metis
  then have "rd_bytes (stack s) 65520 2 = [0x91, 0x2b]"
    unfolding rd_bytes_add by (simp add: main_frame_def append_eq_append_conv del: append_Cons)
  moreover have "sval [0x91, 0x2b] = 0x2b91" by code_simp
  ultimately show ?thesis by (simp add: at_rsb_def RSBMASK_def RSBCODE_def)
qed

lemma in_main_resumable:
  assumes "even (length bs)" and "length bs \<le> 900"
  shows "resumable sample_prog (in_main bs)"
proof -
  have "at_rsb sample_prog (in_main bs) 65520"
    using opstack_split(2) [OF in_main_minv [OF assms] in_main_opstack [OF assms(2)]]
    by (intro at_rsb_main) simp
  then show ?thesis by (simp add: resumable_def rsbsize_sample)
qed

theorem call_return_witness:
  "\<exists>t. thenM (call 0 RSB_CAL) (ret 0) (in_main [7, 0]) = Ok () t \<and> PC t = 0 \<and> LB t = 65520
    \<and> opstack t = [7, 0] @ main_frame"
  using call_return [OF in_main_minv in_main_resumable in_main_callable, of "[7, 0]"]
  by (auto simp: in_main_opstack)

theorem call_spec_witness:
  "\<exists>t ls. call 0 RSB_CAL (in_main [7, 0]) = Ok () t \<and> PC t = 0 \<and> LB t = 65504 \<and> AB t = 65518
    \<and> opstack t = ls @ rsb_bytes sample_prog RSB_CAL (in_main [7, 0]) @ [7, 0] @ main_frame"
  using call_spec [OF in_main_minv in_main_callable, of "[7, 0]" RSB_CAL]
  by (auto simp: in_main_opstack rsbsize_sample)

text \<open>
  (C4) RET \<open>n\<close> in a procedure called from \<open>s\<close>: the \<open>n\<close> bytes on top of the stack become the
  function return area, the frame of the procedure disappears, and the caller's procedure, program
  counter, bases, line number, file name and operand stack are back.
\<close>

theorem ret_spec:
  assumes "resumable c s" and "minv c s" and "returning c s rest n u"
  shows "\<exists>t. ret n u = Ok () t \<and> minv c t \<and> PI t = PI s \<and> PC t = PC s \<and> LB t = LB s \<and> AB t = AB s
    \<and> LIN t = LIN s \<and> FIL t = FIL s \<and> curr_frame t = curr_frame s \<and> opstack t = rest
    \<and> FRA_def t = DEFINED \<and> FRASize t = n \<and> take (nat n) (FRA t) = rd_bytes (stack u) (SP u) (nat n)"
  using assms by (rule ret_ok)

text \<open>The procedure called from \<open>in_main []\<close> at program counter 0, with the result 7 on its stack.\<close>

definition in_callee :: mach where
  "in_callee = sample ([7, 0] @ [0x92, 0x2b, 0, 0, 0, 0, 0xF0, 0xFF, 1, 0, 0, 0, 0, 0] @ main_frame)
     \<lparr>LB := 65506, AB := 65520, curr_frame := 1, AB_list := (\<lambda>i. if i = 1 then 65520 else 65534)\<rparr>"

lemma rsb_bytes_in_main:
  "rsb_bytes sample_prog RSB_CAL (in_main []) = [0x92, 0x2b, 0, 0, 0, 0, 0xF0, 0xFF, 1, 0, 0, 0, 0, 0]"
proof -
  have "le_bytes 2 11154 = [0x92, 0x2b]" "le_bytes 2 0 = [0, 0]" "le_bytes 2 65520 = [0xF0, 0xFF]"
    "le_bytes 4 1 = [1, 0, 0, 0]" by code_simp+
  then show ?thesis by (simp add: rsb_bytes_def RSB_CAL_def RSBCODE_def slong_id)
qed

lemma in_callee_fields [simp]:
  "PI in_callee = 0" "LB in_callee = 65506" "HP in_callee = 100" "curr_frame in_callee = 1"
  "frame_limit in_callee = 100" "proctab in_callee = [\<lparr>pr_nloc = 0, pr_ep = 0, pr_ff = 64\<rparr>]"
  "AB_list in_callee = (\<lambda>i. if i = 1 then 65520 else 65534)" "SP in_callee = 65504"
  by (simp_all add: in_callee_def sample_defs main_frame_def)

lemma in_callee_stack:
  "minv sample_prog in_callee"
  "opstack in_callee = [7, 0] @ rsb_bytes sample_prog RSB_CAL (in_main []) @ main_frame"
proof -
  let ?bs = "[7, 0] @ [0x92, 0x2b, 0, 0, 0, 0, 0xF0, 0xFF, 1, 0, 0, 0, 0, 0] @ main_frame"
  have "minv sample_prog (sample ?bs\<lparr>LB := 65506\<rparr>)" by (rule minv_upd_LB) (simp_all add: main_frame_def)
  then show "minv sample_prog in_callee" unfolding in_callee_def by (simp only: minv_update)
  have "opstack in_callee = opstack (sample ?bs)" by (simp add: in_callee_def opstack_def)
  also have "\<dots> = ?bs" by (rule opstack_sample) (simp add: main_frame_def)
  finally show "opstack in_callee = [7, 0] @ rsb_bytes sample_prog RSB_CAL (in_main []) @ main_frame"
    unfolding rsb_bytes_in_main .
qed

lemma in_callee_returning: "returning sample_prog (in_main []) main_frame 2 in_callee"
proof -
  let ?r = "rsb_bytes sample_prog RSB_CAL (in_main [])"
  have l: "length ?r = 14" unfolding rsb_bytes_in_main by simp
  have "opstack (in_callee\<lparr>wst := wst in_callee, SP := SP in_callee + int (length [7, 0 :: byte])\<rparr>) = ?r @ main_frame"
    by (rule opstack_pop [OF in_callee_stack])
  then have "opstack (in_callee\<lparr>SP := LB in_callee\<rparr>) = ?r @ main_frame" by simp
  moreover have "opstack in_callee = ([7, 0] @ ?r) @ main_frame" using in_callee_stack(2) by simp
  from opstack_split(2) [OF in_callee_stack(1) this] have "at_rsb sample_prog in_callee 65520"
    using l by (intro at_rsb_main) simp
  ultimately show ?thesis
    unfolding returning_def return_ok_def
    using in_callee_stack(1) by (simp add: rsbsize_sample wmult_def AB_ok_def c_uint_id)
qed

theorem ret_witness:
  "\<exists>t. ret 2 in_callee = Ok () t \<and> PC t = 0 \<and> LB t = 65520 \<and> opstack t = main_frame
    \<and> FRASize t = 2 \<and> take 2 (FRA t) = [7, 0]"
proof -
  have "rd_bytes (stack in_callee) 65504 2 = [7, 0]"
    using opstack_split(1) [OF in_callee_stack] by (simp add: numeral_2_eq_2)
  then show ?thesis
    using ret_spec [OF in_main_resumable in_main_minv in_callee_returning] by auto
qed

end
