(* ===== verification/Traps.thy ===== *)
theory Traps
  imports Misc Returns
begin

text \<open>
  Trap handling: \<open>util/int/trap.c\<close>.  A routine that calls \<open>trap()\<close> ends in the outcome
  \<open>Trap nr s\<close>; \<open>do_trap nr\<close> is what the call does from there, in the state \<open>s\<close>.  It either
  ends the process or starts the trap procedure and jumps back to the main loop.  A trap raised
  inside \<open>do_trap\<close> itself calls \<open>do_trap\<close> again with \<open>rec_trap\<close> set, which always ends
  in \<open>fatal()\<close>.
\<close>

section \<open>Operations\<close>

definition nonreturnable :: "int \<Rightarrow> bool" where
  "nonreturnable nr \<longleftrightarrow> nr \<in> {ESTACK, EILLINS, EODDZ, ECASE, EMEMFLT, EBADPTR, EBADPC, EBADLAE, EBADGTO}"

text \<open>From \<open>rec_trap = 1\<close> to \<open>rec_trap = 0\<close>.\<close>

definition start_trap :: "int \<Rightarrow> unit M" where
  "start_trap nr = seqM [
     withM (\<lambda>s. pushFRA (FRASize s)),
     withM (\<lambda>s. wpush (FRASize s)),
     withM (\<lambda>s. wpush (FRA_def s)),
     wpush nr,
     withM (\<lambda>s. let tpi = TrapPI s in seqM [
       modifyM (\<lambda>s. s\<lparr>TrapPI := 0\<rparr>),
       modifyM (\<lambda>s. s\<lparr>OnTrap := TR_HALT\<rparr>),
       call tpi (if nonreturnable nr then RSB_NRT else RSB_RTT)])]"

text \<open>A trap \<open>nr\<close> while the trap \<open>rec_nr\<close> is being started.\<close>

definition trap_in_trap :: "int \<Rightarrow> int \<Rightarrow> unit M" where
  "trap_in_trap rec_nr nr = seqM [
     warn (WMSG + nr),
     withM (\<lambda>s. case OnTrap s of
         TR_ABORT \<Rightarrow> fatalM (F_trap_before_start nr)
       | TR_HALT \<Rightarrow> fatalM (F_trap_not_caught nr)
       | TR_TRAP \<Rightarrow> fatalM (F_recursive_trap rec_nr))]"

definition do_trap :: "int \<Rightarrow> unit M" where
  "do_trap nr = seqM [
     warn (WMSG + nr),
     withM (\<lambda>s. case OnTrap s of
         TR_ABORT \<Rightarrow> fatalM (F_trap_before_start nr)
       | TR_HALT \<Rightarrow> fatalM (F_trap_not_caught nr)
       | TR_TRAP \<Rightarrow> (\<lambda>s. case start_trap nr s of
             Trap nr' s' \<Rightarrow> trap_in_trap nr nr' s'
           | r \<Rightarrow> r))]"

section \<open>The invariant\<close>

lemma keeps_start_trap: "keeps (minv c) (start_trap nr) anyR"
  unfolding start_trap_def Let_def by (rule keeps_rules | simp)+

lemma trap_in_trap_fatal: "\<exists>e t. trap_in_trap r n s = Fatal e t"
proof -
  obtain w where "warn (WMSG + n) s = Ok () (s\<lparr>wst := w\<rparr>)" using warn_Ok by blast
  then show ?thesis by (cases "OnTrap s") (simp_all add: trap_in_trap_def)
qed

lemma do_trap_no_trap: "do_trap nr s \<noteq> Trap n t"
proof -
  obtain w where w: "warn (WMSG + nr) s = Ok () (s\<lparr>wst := w\<rparr>)" using warn_Ok by blast
  show ?thesis
  proof (cases "start_trap nr (s\<lparr>wst := w\<rparr>)")
    case (Trap m u)
    obtain e v where "trap_in_trap nr m u = Fatal e v" using trap_in_trap_fatal by blast
    then show ?thesis using w Trap by (cases "OnTrap s") (simp_all add: do_trap_def)
  qed (use w in \<open>cases "OnTrap s"; simp add: do_trap_def\<close>)+
qed

lemma keeps_do_trap [keeps_rules]: "keeps (minv c) (do_trap nr) anyR"
proof (rule keepsI)
  fix s x t assume s: "minv c s" and e: "do_trap nr s = Ok x t"
  obtain w where w: "warn (WMSG + nr) s = Ok () (s\<lparr>wst := w\<rparr>)" using warn_Ok by blast
  show "minv c t \<and> True"
  proof (cases "start_trap nr (s\<lparr>wst := w\<rparr>)")
    case (Ok y u)
    then have "minv c u" using keeps_OkD [OF keeps_start_trap _ Ok] s by simp
    then show ?thesis using e w Ok by (cases "OnTrap s") (simp_all add: do_trap_def)
  next
    case (Trap m u)
    obtain e' v where "trap_in_trap nr m u = Fatal e' v" using trap_in_trap_fatal by blast
    then show ?thesis using e w Trap by (cases "OnTrap s") (simp_all add: do_trap_def)
  qed (use e w in \<open>cases "OnTrap s"; simp add: do_trap_def\<close>)+
next
  fix s n t assume "do_trap nr s = Trap n t"
  then show "minv c t" using do_trap_no_trap by blast
qed

section \<open>A caught trap\<close>

text \<open>The pushes leave the validity of the function return area alone.\<close>

definition fra_is :: "int \<Rightarrow> mach \<Rightarrow> bool" where
  "fra_is f s \<longleftrightarrow> FRA_def s = f"

lemma keeps_fra_is:
  "keeps (fra_is f) (wpush l) anyR" "keeps (fra_is f) (pushFRA n) anyR"
proof -
  have [simp]: "wst_free (fra_is f)" by (simp add: wst_free_def fra_is_def)
  have w [keeps_rules]: "keeps (fra_is f) (wr_stack g a b) anyR" "keeps (fra_is f) (wr_stack_sh g a) anyR"
    "keeps (fra_is f) (poke_stack a b) anyR" for g a b
    by (simp_all add: keeps_def wr_stack_def wr_stack_sh_def poke_stack_def fra_is_def)
  have [keeps_rules]: "keeps (fra_is f) (clear_down k a) anyR" for k a
    by (induction k arbitrary: a) (auto intro: keeps_return keeps_then w)
  have [simp]: "fra_is f (s\<lparr>SP := x1\<rparr>) = fra_is f s" "fra_is f (s\<lparr>SL := x2\<rparr>) = fra_is f s"
    "fra_is f (s\<lparr>stack_len := x3\<rparr>) = fra_is f s" for s x1 x2 x3
    by (simp_all add: fra_is_def)
  have n [keeps_rules]: "keeps (fra_is f) (newSP p) anyR" for p
    unfolding newSP_def extend_stack_def st_clear_area_def Let_def by (rule keeps_rules | simp)+
  have [keeps_rules]: "keeps (fra_is f) (incSP n) anyR" for n
    unfolding incSP_def Let_def by (rule keeps_rules | simp)+
  show "keeps (fra_is f) (wpush l) anyR"
    unfolding wpush_def st_stw_def st_put_def by (rule keeps_rules | simp)+
  show "keeps (fra_is f) (pushFRA n) anyR"
    unfolding pushFRA_def pushFRA_byte_def st_inc_def by (rule keeps_bind [where R = anyR] keeps_rules TrueI | simp)+
qed

lemma push_step:
  assumes "runs c m s () bs" and "keeps (fra_is (FRA_def s)) m anyR"
  shows "\<exists>t. m s = Ok () t \<and> minv c t \<and> stk_frame s t \<and> opstack t = bs \<and> FRA_def t = FRA_def s"
proof -
  obtain t where t: "m s = Ok () t" "minv c t" "stk_frame s t" "opstack t = bs"
    using assms(1) unfolding runs_def by blast
  have "fra_is (FRA_def s) t" using keeps_OkD [OF assms(2) _ t(1)] by (simp add: fra_is_def)
  then show ?thesis using t by (auto simp: fra_is_def)
qed

text \<open>The machine has a trap handler, and room on the stack for the saved function return area, the
  trap number, the block and the handler's locals.\<close>

definition catches :: "em_prog \<Rightarrow> mach \<Rightarrow> bool" where
  "catches c s \<longleftrightarrow> OnTrap s = TR_TRAP \<and> callable c s (TrapPI s) \<and> wmult c (FRASize s)
     \<and> fits s (length (opstack s) + nat (FRASize s) + 3 * nat (wsize c) + nat (rsbsize c)
       + nat (pr_nloc (proctab s ! nat (TrapPI s))))"

definition trap_frame :: "em_prog \<Rightarrow> int \<Rightarrow> mach \<Rightarrow> byte list" where
  "trap_frame c nr s = le_bytes (nat (wsize c)) nr @ le_bytes (nat (wsize c)) (FRA_def s)
     @ le_bytes (nat (wsize c)) (FRASize s) @ take (nat (FRASize s)) (FRA s)"

lemma trap_pushes:
  assumes s: "minv c s" and n: "wmult c (FRASize s)"
    and f: "fits s (length (opstack s) + nat (FRASize s) + 3 * nat (wsize c))"
  shows "\<exists>s1 s2 s3 u. pushFRA (FRASize s) s = Ok () s1 \<and> wpush (FRASize s1) s1 = Ok () s2
    \<and> wpush (FRA_def s2) s2 = Ok () s3 \<and> wpush nr s3 = Ok () u
    \<and> minv c u \<and> stk_frame s u \<and> opstack u = trap_frame c nr s @ opstack s"
proof -
  have fz: "FRASize t = FRASize s" if "stk_frame s t" for t using that by (auto simp: stk_frame_def)
  have l: "int (length (FRA s)) = FRALimit c" "FRASize s \<le> FRALimit c" using minv_regs(13,15) [OF s] .
  have lt: "length (take (nat (FRASize s)) (FRA s)) = nat (FRASize s)" using l by simp
  have ft: "fits t = fits s" if "stk_frame s t" for t by (rule stk_frame_fields(2) [OF that])
  have "fits s (nat (FRASize s) + length (opstack s))" by (rule fits_mono [OF f]) simp
  from push_step [OF runs_pushFRA [OF s n l(2) this] keeps_fra_is(2)] obtain s1 where
    s1: "pushFRA (FRASize s) s = Ok () s1" "minv c s1" "stk_frame s s1"
      "opstack s1 = take (nat (FRASize s)) (FRA s) @ opstack s" "FRA_def s1 = FRA_def s" by blast
  have "fits s1 (nat (wsize c) + length (opstack s1))"
    unfolding ft [OF s1(3)] by (rule fits_mono [OF f]) (use s1(4) lt in simp)
  from push_step [OF runs_wpush [OF s1(2) this] keeps_fra_is(1)] obtain s2 where
    s2: "wpush (FRASize s1) s1 = Ok () s2" "minv c s2" "stk_frame s1 s2"
      "opstack s2 = le_bytes (nat (wsize c)) (FRASize s1) @ opstack s1" "FRA_def s2 = FRA_def s1" by blast
  note f2 = stk_frame_trans [OF s1(3) s2(3)]
  have "fits s2 (nat (wsize c) + length (opstack s2))"
    unfolding ft [OF f2] by (rule fits_mono [OF f]) (use s1(4) s2(4) lt in simp)
  from push_step [OF runs_wpush [OF s2(2) this] keeps_fra_is(1)] obtain s3 where
    s3: "wpush (FRA_def s2) s2 = Ok () s3" "minv c s3" "stk_frame s2 s3"
      "opstack s3 = le_bytes (nat (wsize c)) (FRA_def s2) @ opstack s2" by blast
  note f3 = stk_frame_trans [OF f2 s3(3)]
  have "fits s3 (nat (wsize c) + length (opstack s3))"
    unfolding ft [OF f3] by (rule fits_mono [OF f]) (use s1(4) s2(4) s3(4) lt in simp)
  from runs_wpush [OF s3(2) this, of nr] obtain u where
    u: "wpush nr s3 = Ok () u" "minv c u" "stk_frame s3 u" "opstack u = le_bytes (nat (wsize c)) nr @ opstack s3"
    unfolding runs_def by blast
  have "opstack u = trap_frame c nr s @ opstack s"
    using u(4) s3(4) s2(4,5) s1(4,5) fz [OF s1(3)] by (simp add: trap_frame_def)
  then show ?thesis using s1(1) s2(1) s3(1) u stk_frame_trans [OF f3 u(3)] by blast
qed

lemma catches_callable:
  assumes k: "catches c s" and u: "stk_frame s u" "length (opstack u) = length (opstack s) + nat (FRASize s) + 3 * nat (wsize c)"
  shows "callable c (u\<lparr>TrapPI := 0, OnTrap := TR_HALT\<rparr>) (TrapPI s)"
proof -
  let ?v = "u\<lparr>TrapPI := 0, OnTrap := TR_HALT\<rparr>"
  have p: "callable c s (TrapPI s)" using k by (simp add: catches_def)
  note D = callableD [OF p refl]
  have "proctab ?v = proctab s" "DB ?v = DB s" "frames_ok ?v = frames_ok s" "frame_limit ?v = frame_limit s"
    "fits ?v = fits s" "opstack ?v = opstack u"
    using u(1) by (auto simp: stk_frame_def frames_ok_def fits_def opstack_def fun_eq_iff)
  then show ?thesis
    unfolding callable_def Let_def using D(2-4,6-8,10,11) k u(2) by (simp add: catches_def)
qed

text \<open>
  (C6) A trap in a program that has installed a handler: the function return area, its size and its
  validity are saved on the stack, the trap number is pushed as the only parameter, and the handler is
  called with traps fatal from then on; its block says whether a return from the trap is allowed.
\<close>

theorem trap_caught:
  assumes s: "minv c s" and k: "catches c s"
  shows "\<exists>t ls. do_trap nr s = Ok () t \<and> minv c t \<and> OnTrap t = TR_HALT \<and> TrapPI t = 0
    \<and> PI t = TrapPI s \<and> PC t = pr_ep (proctab s ! nat (TrapPI s))
    \<and> opstack t = ls @ rsb_bytes c (if nonreturnable nr then RSB_NRT else RSB_RTT) s @ trap_frame c nr s @ opstack s
    \<and> int (length ls) = pr_nloc (proctab s ! nat (TrapPI s))"
proof -
  obtain w where w: "warn (WMSG + nr) s = Ok () (s\<lparr>wst := w\<rparr>)" using warn_Ok by blast
  let ?s = "s\<lparr>wst := w\<rparr>" and ?code = "if nonreturnable nr then RSB_NRT else RSB_RTT"
  have e: "opstack ?s = opstack s" "fits ?s = fits s" "frames_ok ?s = frames_ok s"
    by (simp_all add: opstack_def fits_def frames_ok_def fun_eq_iff)
  have s': "minv c ?s" "opstack ?s = opstack s" "trap_frame c nr ?s = trap_frame c nr s" "catches c ?s"
    using s k by (simp_all add: e trap_frame_def catches_def callable_def)
  have n: "wmult c (FRASize ?s)" "fits ?s (length (opstack ?s) + nat (FRASize ?s) + 3 * nat (wsize c))"
    using s'(4) fits_mono [of ?s] unfolding catches_def by auto
  obtain s1 s2 s3 u where st: "pushFRA (FRASize ?s) ?s = Ok () s1" "wpush (FRASize s1) s1 = Ok () s2"
      "wpush (FRA_def s2) s2 = Ok () s3" "wpush nr s3 = Ok () u"
    and u: "minv c u" "stk_frame ?s u" "opstack u = trap_frame c nr s @ opstack s"
    using trap_pushes [OF s'(1) n, of nr] unfolding s'(2,3) by blast
  let ?v = "u\<lparr>TrapPI := 0\<rparr>\<lparr>OnTrap := TR_HALT\<rparr>"
  have v: "minv c ?v" "opstack ?v = opstack u" using u(1) by (simp_all add: opstack_def)
  have "length (trap_frame c nr s) = nat (FRASize s) + 3 * nat (wsize c)"
    using minv_regs(13,15) [OF s] by (simp add: trap_frame_def)
  then have p: "callable c ?v (TrapPI s)"
    using catches_callable [OF s'(4) u(2)] u(3) s'(2) by simp
  have code: "?code \<in> {RSB_STP, RSB_CAL, RSB_RTT, RSB_NRT}" by simp
  obtain t ls where t: "call (TrapPI s) ?code ?v = Ok () t" "minv c t" "PI t = TrapPI s"
      "PC t = pr_ep (proctab ?v ! nat (TrapPI s))" "int (length ls) = pr_nloc (proctab ?v ! nat (TrapPI s))"
      "opstack t = ls @ rsb_bytes c ?code ?v @ opstack ?v" "OnTrap t = OnTrap ?v" "TrapPI t = TrapPI ?v"
    using call_effect [OF v(1) p code] by blast
  have f: "TrapPI u = TrapPI s" "proctab u = proctab s" "rsb_bytes c ?code ?v = rsb_bytes c ?code s"
    using u(2) by (auto simp: stk_frame_def rsb_bytes_def)
  have "start_trap nr ?s = Ok () t"
    unfolding start_trap_def Let_def seqM.simps thenM_returnM using st t(1) f(1) by simp
  then have "do_trap nr s = Ok () t" using w k by (simp add: do_trap_def catches_def)
  then show ?thesis using t f u(3) v(2) by (intro exI [of _ t] exI [of _ ls]) simp
qed

text \<open>The handler is the first procedure itself.\<close>

theorem trap_caught_witness:
  "\<exists>t ls. do_trap EIOVFL (in_main [7, 0]\<lparr>OnTrap := TR_TRAP\<rparr>) = Ok () t \<and> OnTrap t = TR_HALT \<and> PC t = 0
    \<and> opstack t = ls @ rsb_bytes sample_prog RSB_RTT (in_main [7, 0])
      @ [3, 0, 0, 0, 0, 0] @ [7, 0] @ main_frame"
proof -
  let ?s = "in_main [7, 0]\<lparr>OnTrap := TR_TRAP\<rparr>"
  have e: "opstack ?s = opstack (in_main [7, 0])" "fits ?s = fits (in_main [7, 0])"
    "frames_ok ?s = frames_ok (in_main [7, 0])" "rsb_bytes c r ?s = rsb_bytes c r (in_main [7, 0])"
    for c r by (simp_all add: opstack_def fits_def frames_ok_def rsb_bytes_def fun_eq_iff)
  have f: "FRASize ?s = 0" "TrapPI ?s = 0" "FRA_def ?s = 0" by (simp_all add: in_main_def sample_defs UNDEFINED_def)
  have "callable sample_prog (in_main [7, 0]) 0" by (rule in_main_callable) simp
  then have "catches sample_prog ?s"
    by (simp add: catches_def callable_def e f in_main_fits in_main_opstack main_frame_def rsbsize_sample wmult_def)
  moreover have "minv sample_prog ?s" using in_main_minv [of "[7, 0]"] by simp
  moreover have "le_bytes 2 3 = [3, 0]" "le_bytes 2 0 = [0, 0]" by code_simp+
  then have "trap_frame sample_prog EIOVFL ?s = [3, 0, 0, 0, 0, 0]" by (simp add: trap_frame_def f EIOVFL_def)
  moreover have "\<not> nonreturnable EIOVFL" by (simp add: nonreturnable_def trap_nr_defs)
  ultimately obtain t ls where "do_trap EIOVFL ?s = Ok () t" "OnTrap t = TR_HALT"
      "PC t = pr_ep (proctab ?s ! nat (TrapPI ?s))"
      "opstack t = ls @ rsb_bytes sample_prog RSB_RTT ?s @ [3, 0, 0, 0, 0, 0] @ opstack ?s"
    using trap_caught [of sample_prog ?s EIOVFL] by (simp only: if_False) blast
  then show ?thesis by (intro exI [of _ t] exI [of _ ls]) (simp add: e f in_main_opstack)
qed

end
