(* ===== verification/Init.thy ===== *)
theory Init
  imports Loader Traps Signals
begin

text \<open>
  Startup: \<open>util/int/init.c\<close> and the part of \<open>main()\<close> (\<open>main.c\<close>) before its loop.  The
  file system is a function from names to contents.  The logging machine is left out, as is the
  disassembler: \<open>-d\<close> ends the process.
\<close>

section \<open>Arguments and environment (\<open>init.c\<close>)\<close>

definition alignedstrlen :: "mach \<Rightarrow> string \<Rightarrow> size" where
  "alignedstrlen s str = (let len = int (length str) + 1 in (len + wsize s - 1) sdiv wsize s * wsize s)"

text \<open>\<open>data_loc(a) = b; dt_int(a);\<close> for consecutive addresses.\<close>

primrec put_string :: "byte list \<Rightarrow> ptr \<Rightarrow> unit M" where
  "put_string [] a = returnM ()"
| "put_string (b # bs) a = thenM (wr_data SH_INT a b) (put_string bs (ulong (a + 1)))"

definition storestring :: "ptr \<Rightarrow> string \<Rightarrow> ptr M" where
  "storestring addr str = withM (\<lambda>s.
     let oldlen = int (length str) + 1; newlen = (oldlen + wsize s - 1) sdiv wsize s * wsize s in
     thenM (seqM [
       ch_in_data addr newlen,
       ch_aligned addr newlen,
       put_string (map of_char str @ 0 # replicate (nat (newlen - oldlen)) 0) addr])
     (returnM (ulong (addr + newlen))))"

fun store_vec :: "string list \<Rightarrow> ptr \<Rightarrow> ptr \<Rightarrow> (ptr \<times> ptr) M" where
  "store_vec [] vecp strp = returnM (vecp, strp)"
| "store_vec (p # ps) vecp strp = withM (\<lambda>s.
     thenM (dt_stdp vecp strp) (bindM (storestring strp p) (\<lambda>strp.
       store_vec ps (ulong (vecp + psize s)) strp)))"

definition vec_size :: "mach \<Rightarrow> string list \<Rightarrow> size" where
  "vec_size s strs = psize s * (int (length strs) + 1)"

definition string_size :: "mach \<Rightarrow> string list \<Rightarrow> size" where
  "string_size s strs = sum_list (map (alignedstrlen s) strs)"

definition init_registers :: "unit M" where
  "init_registers = seqM [
     modifyM (\<lambda>s. s\<lparr>TrapPI := 0\<rparr>),
     modifyM (\<lambda>s. s\<lparr>OnTrap := TR_ABORT\<rparr>),
     modifyM (\<lambda>s. s\<lparr>IgnMask := PreIgnMask s\<rparr>),
     modifyM (\<lambda>s. s\<lparr>ES_def := UNDEFINED\<rparr>)]"

definition init_segments :: "eout \<Rightarrow> string list \<Rightarrow> string list \<Rightarrow> unit M" where
  "init_segments h av environ = withM (\<lambda>s. seqM [
     init_text h,
     init_data (ulong (ulong (SZDATA h) + vec_size s av + vec_size s environ
       + (string_size s environ + string_size s av))),
     init_stack,
     init_FRA,
     init_AB_list])"

definition store_args :: "ptr \<Rightarrow> string list \<Rightarrow> string list \<Rightarrow> int \<Rightarrow> unit M" where
  "store_args ARGB av environ ac = withM (\<lambda>s.
     thenM (dppush ARGB)
     (bindM (store_vec environ ARGB (ulong (ARGB + vec_size s environ))) (\<lambda>(vecp, strp).
     thenM (dt_stdp vecp 0)
     (thenM (dppush strp)
     (bindM (store_vec av strp (ulong (strp + vec_size s av))) (\<lambda>(vecp, strp).
     thenM (dt_stdp vecp 0) (wpush ac)))))))"

definition init ::
  "fpu \<Rightarrow> (string \<Rightarrow> load_file option) \<Rightarrow> string list \<Rightarrow> string list \<Rightarrow> int \<Rightarrow> eout M" where
  "init F fs environ av ac =
     thenM (init_ofiles True) (thenM init_signals
     (case fs (hd av) of
        None \<Rightarrow> loader_error ''Cannot open loadfile''
      | Some f \<Rightarrow>
          bindM (rd_header f) (\<lambda>(h, f).
          thenM (modifyM init_sizes)
          (thenM (init_segments h av environ)
          (thenM init_registers
          (bindM (load_text f) (\<lambda>f.
          bindM (rd_gda F h f) (\<lambda>f.
          bindM (rd_proctab h f) (\<lambda>f.
          thenM (store_args (ulong (SZDATA h)) av environ ac) (returnM h))))))))))"

section \<open>Command line (\<open>main.c\<close>)\<close>

text \<open>\<open>atol\<close> and \<open>atoi\<close> of the C library: white space, a sign, digits; out of range saturates.\<close>

definition is_digit :: "char \<Rightarrow> bool" where
  "is_digit ch \<longleftrightarrow> (48 :: nat) \<le> of_char ch \<and> of_char ch \<le> (57 :: nat)"

definition is_blank :: "char \<Rightarrow> bool" where
  "is_blank ch \<longleftrightarrow> ch = CHR '' '' \<or> (9 :: nat) \<le> of_char ch \<and> of_char ch \<le> (13 :: nat)"

definition digits :: "string \<Rightarrow> int" where
  "digits str = foldl (\<lambda>n ch. 10 * n + (of_char ch - 48)) 0 (takeWhile is_digit str)"

definition atol :: "string \<Rightarrow> long" where
  "atol str = (let str = dropWhile is_blank str;
     v = (case str of
         ch # cs \<Rightarrow> if ch = CHR ''-'' then - digits cs else if ch = CHR ''+'' then digits cs else digits str
       | [] \<Rightarrow> 0)
     in max (- (2 ^ 63)) (min (2 ^ 63 - 1) v))"

definition atoi :: "string \<Rightarrow> int" where
  "atoi str = c_int (atol str)"

text \<open>One option; the value says whether it asks for a disassembly.\<close>

definition do_option :: "string \<Rightarrow> bool M" where
  "do_option a = (let ch = (if length a < 2 then CHR 0x00 else a ! 1); rest = drop 2 a in
     if ch = CHR ''d'' then returnM True
     else if ch = CHR ''h'' then thenM (modifyM (\<lambda>s. s\<lparr>maxheap := atol rest\<rparr>)) (returnM False)
     else if ch = CHR ''I'' then
       (if atoi rest < 16
        then if atoi rest < 0 then undefM
          else thenM (modifyM (\<lambda>s. s\<lparr>PreIgnMask := BIT (nat (atoi rest))\<rparr>)) (returnM False)
        else returnM False)
     else if ch = CHR ''m'' then (if length rest \<ge> 64 then undefM else returnM False)
     else if ch = CHR ''r'' then thenM (modifyM (\<lambda>s. s\<lparr>FRALimit := atoi rest\<rparr>)) (returnM False)
     else if ch = CHR ''s'' then thenM (modifyM (\<lambda>s. s\<lparr>maxstack := atol rest\<rparr>)) (returnM False)
     else if ch = CHR ''t'' then returnM False
     else if ch = CHR ''W'' then thenM (set_wmask (atoi rest)) (returnM False)
     else fatalM (F_usage a))"

text \<open>The loop over the options and the settings of the logging machine, of which at most 20 are
  kept; the value is the disassembly flag and the remaining arguments.\<close>

fun do_args :: "string list \<Rightarrow> bool \<Rightarrow> nat \<Rightarrow> (bool \<times> string list) M" where
  "do_args [] d n = returnM (d, [])"
| "do_args (a # as) d n =
     (if a \<noteq> [] \<and> hd a = CHR ''-'' then bindM (do_option a) (\<lambda>b. do_args as (d \<or> b) n)
      else if CHR ''='' \<in> set a
      then if n = 20 then loader_error ''too many logging arguments on command line''
        else do_args as d (Suc n)
      else returnM (d, a # as))"

definition FRALIMIT :: size where "FRALIMIT = 8"
definition FB_TEST :: int where "FB_TEST = 1"
definition FB_EXTRA :: int where "FB_EXTRA = 32"

definition main_init ::
  "fpu \<Rightarrow> (string \<Rightarrow> load_file option) \<Rightarrow> string list \<Rightarrow> string list \<Rightarrow> unit M" where
  "main_init F fs environ args =
     thenM (modifyM (\<lambda>s. s\<lparr>PreIgnMask := 0, FRALimit := FRALIMIT\<rparr>))
     (bindM (do_args args False 0) (\<lambda>(disassemble, args).
     bindM (if args \<noteq> [] then init F fs environ args (int (length args))
            else init F fs environ [''e.out''] 1) (\<lambda>h.
     if disassemble then fatalM (F_usage ''-d'') else seqM [
       whenM (FLAGS h AND FB_TEST \<noteq> 0) (modifyM (\<lambda>s. s\<lparr>must_test := True\<rparr>)),
       whenM (FLAGS h AND FB_EXTRA \<noteq> 0) (warn WEXTRIGN),
       modifyM (\<lambda>s. s\<lparr>running := True\<rparr>),
       modifyM (\<lambda>s. s\<lparr>OnTrap := TR_HALT\<rparr>),
       call (ENTRY h) RSB_STP])))"

section \<open>Startup establishes the invariant\<close>

text \<open>The invariant with respect to the program as loaded so far.\<close>

definition binv :: "mach \<Rightarrow> bool" where
  "binv s \<longleftrightarrow> minv (prog_of s) s"

lemma keeps_binv: "(\<And>c. keeps (minv c) m R) \<Longrightarrow> keeps binv m R"
proof (rule keepsI)
  fix s x t assume k: "\<And>c. keeps (minv c) m R" and s: "binv s" and e: "m s = Ok x t"
  have "minv (prog_of s) t \<and> R x" using keeps_OkD [OF k _ e] s by (simp add: binv_def)
  then show "binv t \<and> R x" using minvD(1) [of "prog_of s" t] by (simp add: binv_def)
next
  fix s n t assume k: "\<And>c. keeps (minv c) m R" and s: "binv s" and e: "m s = Trap n t"
  have "minv (prog_of s) t" using keeps_TrapD [OF k _ e] s by (simp add: binv_def)
  then show "binv t" using minvD(1) [of "prog_of s" t] by (simp add: binv_def)
qed

lemma cap_ok_iff: "cap_ok s \<longleftrightarrow> sizes_ok s \<and>
    rsb_rsbcode s = 0 \<and> rsb_PI s = wsize s \<and> rsb_PC s = wsize s + psize s
    \<and> rsb_LB s = wsize s + psize s + psize s \<and> rsb_LIN s = wsize s + psize s + psize s + psize s
    \<and> rsb_FIL s = wsize s + psize s + psize s + psize s + LINSIZE
    \<and> rsbsize s = wsize s + psize s + psize s + psize s + LINSIZE + psize s
    \<and> i_minsw s = (if wsize s = 2 then - 32768 else - 2147483648)
    \<and> i_maxsw s = (if wsize s = 2 then 32767 else 2147483647)
    \<and> i_maxuw s = (if wsize s = 2 then 65535 else 4294967295)
    \<and> max_addr s = ulong ((if psize s = 2 then 65535 else 2147483647) sdiv wsize s * wsize s - 1)
    \<and> min_off s = (if psize s = 2 then - 32767 - 1 else - 2147483647 - 1)
    \<and> max_off s = (if psize s = 2 then 32767 else 2147483647)"
  unfolding cap_ok_def by (cases s) (auto simp: init_sizes_def init_rsb_def Let_def)

lemma cap_ok_truncate: "cap_ok (em_prog.truncate s) \<longleftrightarrow> cap_ok (s :: mach)"
  by (simp add: cap_ok_iff sizes_ok_def em_prog.truncate_def)

lemma binv_iff: "binv s \<longleftrightarrow> cap_ok s \<and> MLim s = max_addr s \<and> 0 \<le> HB s \<and> 0 \<le> FRALimit s
    \<and> FRALimit s < 2 ^ 31 \<and> regs_ok s"
  by (auto simp: binv_def minv_def prog_ok_def prog_of_def cap_ok_truncate)
    (simp_all add: em_prog.truncate_def)

subsection \<open>The command line and the header\<close>

definition fra_ok :: "mach \<Rightarrow> bool" where
  "fra_ok s \<longleftrightarrow> FRALimit s < 2 ^ 31 \<and> FRASize s = 0"

lemma unix_free_fra: "unix_free fra_ok"
  by (simp add: unix_free_def wst_free_def fra_ok_def)

lemma atoi_bound: "atoi a < 2 ^ 31"
  unfolding atoi_def c_int_def by (rule signed_take_bit_int_less_exp)

lemma fra_ok_update [simp]:
  "fra_ok (s\<lparr>maxheap := x1\<rparr>) = fra_ok s" "fra_ok (s\<lparr>maxstack := x2\<rparr>) = fra_ok s"
  "fra_ok (s\<lparr>PreIgnMask := x3\<rparr>) = fra_ok s" "fra_ok (s\<lparr>wst := x4\<rparr>) = fra_ok s"
  "fra_ok s \<Longrightarrow> fra_ok (s\<lparr>FRALimit := atoi a\<rparr>)"
  using atoi_bound [of a] by (simp_all add: fra_ok_def)

lemma keeps_do_option: "keeps fra_ok (do_option a) anyR"
  unfolding do_option_def Let_def set_wmask_def by (rule keeps_basic | simp)+

text \<open>The strings of the arguments and the environment fit in 2 gigabytes.\<close>

definition args_small :: "string list \<Rightarrow> bool" where
  "args_small strs \<longleftrightarrow> (\<Sum>str\<leftarrow>strs. int (length str) + 10) < 2 ^ 31"

lemma args_small_Cons: "args_small (a # as) \<Longrightarrow> args_small as"
  by (simp add: args_small_def)

lemma keeps_do_args:
  "args_small as \<Longrightarrow> keeps fra_ok (do_args as d n) (\<lambda>(d, rest). args_small rest)"
proof (induction as arbitrary: d n)
  case (Cons a as)
  show ?case
    unfolding do_args.simps
    by (intro keeps_if keeps_bind [OF keeps_do_option] keeps_loader_error keeps_return
        Cons.IH [OF args_small_Cons [OF Cons.prems]]) (simp_all add: Cons.prems)
qed (simp only: do_args.simps keeps_return split)

text \<open>The sizes accepted by the header.\<close>

definition hdr_ok :: "mach \<Rightarrow> bool" where
  "hdr_ok s \<longleftrightarrow> sizes_ok s \<and> 0 \<le> FRALimit s \<and> FRALimit s < 2 ^ 31 \<and> FRASize s = 0"

lemma wst_free_hdr: "wst_free hdr_ok"
  by (simp add: wst_free_def hdr_ok_def sizes_ok_def)

lemma est_if: "(b \<Longrightarrow> est P m Q) \<Longrightarrow> (\<not> b \<Longrightarrow> est P k Q) \<Longrightarrow> est P (if b then m else k) Q"
  by simp

lemma est_error: "est P (loader_error e) Q"
  unfolding loader_error_def by (rule est_fatal)

lemma est_rd_int: "(\<And>v f'. est P (g v f') Q) \<Longrightarrow> est P (bindM (rd_int n f) (\<lambda>(v, f). g v f)) Q"
  by (rule est_bind [OF est_keeps [OF keeps_rd_int]]) (simp add: split_beta)

lemma est_rd_sizes: "est fra_ok (rd_sizes f) (\<lambda>_. hdr_ok)"
proof -
  define W where "W w s \<longleftrightarrow> fra_ok s \<and> wsize s = w" for w s
  define D where "D w s \<longleftrightarrow> W w s \<and> dwsize s = 2 * w \<and> wsizem1 s = w - 1" for w s
  define P where "P w p s \<longleftrightarrow> D w s \<and> psize s = p" for w p s
  have m: "est fra_ok (modifyM (\<lambda>s. s\<lparr>wsize := w\<rparr>)) (\<lambda>_. W w)"
    "est (W w) (modifyM (\<lambda>s. s\<lparr>dwsize := 2 * wsize s, wsizem1 := wsize s - 1\<rparr>)) (\<lambda>_. D w)"
    "est (D w) (modifyM (\<lambda>s. s\<lparr>psize := p\<rparr>)) (\<lambda>_. P w p)" for w p
    by (rule est_modify, simp add: W_def D_def P_def fra_ok_def)+
  have h: "hdr_ok t" if "P w p t" "\<not> \<not> (w = 2 \<or> w = 4)" "\<not> (\<not> (p = 2 \<or> p = 4) \<or> p < w)" "\<not> 2 * p > FRALimit t"
    for t w p
    using that by (auto simp: P_def D_def W_def hdr_ok_def sizes_ok_def fra_ok_def)
  show ?thesis
    unfolding rd_sizes_def
    by (intro est_rd_int est_if est_error est_then [OF m(1)] est_then [OF m(2)] est_then [OF m(3)]
        est_with est_return) (auto intro: h)
qed

lemma uval_take_bound: "nat n \<le> 4 \<Longrightarrow> 0 \<le> uval (take (nat n) f) \<and> uval (take (nat n) f) < 2 ^ 32"
proof -
  assume n: "nat n \<le> 4"
  have "uval (take (nat n) f) < 2 ^ (8 * length (take (nat n) f))" by (rule uval_bound)
  also have "\<dots> \<le> (2 :: int) ^ 32" using n by (intro power_increasing) auto
  finally show ?thesis using uval_range(1) by simp
qed

lemma est_rd_ptr:
  assumes "\<And>v f'. 0 \<le> v \<Longrightarrow> v < 2 ^ 32 \<Longrightarrow> est P (g v f') Q" and "0 < n" and "n \<le> 4"
  shows "est P (bindM (rd_int n f) (\<lambda>(v, f). g v f)) Q"
proof (rule est_bind)
  show "est P (rd_int n f) (\<lambda>(v, f') t. P t \<and> 0 \<le> v \<and> v < 2 ^ 32)"
    using uval_take_bound [of n f] assms(2,3) by (simp add: est_def rd_int_eq loader_error_def)
  show "est (case x of (v, f') \<Rightarrow> \<lambda>t. P t \<and> 0 \<le> v \<and> v < 2 ^ 32) (case x of (v, f) \<Rightarrow> g v f) Q" for x
  proof (rule estI)
    fix s y t assume a: "(case x of (v, f') \<Rightarrow> \<lambda>t. P t \<and> 0 \<le> v \<and> v < 2 ^ 32) s"
      "(case x of (v, f) \<Rightarrow> g v f) s = Ok y t"
    obtain v f' where x: "x = (v, f')" by (cases x)
    then show "Q y t" using a by (intro estD [OF assms(1), of v s f']) simp_all
  qed
qed

lemma hdr_psize: "hdr_ok s \<Longrightarrow> 0 < psize s \<and> psize s \<le> 4"
  by (auto simp: hdr_ok_def sizes_ok_def)

lemma est_case_prod: "(\<And>a b. est P (f a b) Q) \<Longrightarrow> est P (case x of (a, b) \<Rightarrow> f a b) Q"
  by (cases x) simp

lemma est_rd_header:
  "est fra_ok (rd_header f) (\<lambda>(h, _) s. hdr_ok s \<and> 0 \<le> SZDATA h \<and> SZDATA h < 2 ^ 32)"
proof -
  have l: "est hdr_ok (if nline = 0 then seqM [warn WNLINEZR, modifyM (\<lambda>s. s\<lparr>NLINE := 2147483647\<rparr>)]
       else modifyM (\<lambda>s. s\<lparr>NLINE := nline\<rparr>)) (\<lambda>_. hdr_ok)" for nline :: int
  proof (rule est_weaken [OF est_keeps])
    show "keeps hdr_ok (if nline = 0 then seqM [warn WNLINEZR, modifyM (\<lambda>s. s\<lparr>NLINE := 2147483647\<rparr>)]
       else modifyM (\<lambda>s. s\<lparr>NLINE := nline\<rparr>)) anyR"
      by (intro keeps_if keeps_seq_Cons keeps_seq_Nil keeps_warn wst_free_hdr keeps_modify)
        (simp_all add: hdr_ok_def sizes_ok_def)
  qed simp_all
  have e: "est (\<lambda>t. t = s) m Q" if "est hdr_ok m Q" "hdr_ok s" for s m and Q :: "'x \<Rightarrow> mach \<Rightarrow> bool"
    using that unfolding est_def by simp
  show ?thesis
    unfolding rd_header_def
  proof (rule est_bind [OF est_rd_sizes], rule est_case_prod, rule est_with, rule e)
    fix flags :: int and f :: load_file and s assume s: "hdr_ok s"
    note p = hdr_psize [OF s]
    show "est hdr_ok
     (bindM (rd_int (psize s) f) (\<lambda>(ntext, f).
     bindM (rd_int (psize s) f) (\<lambda>(ndata, f).
     bindM (rd_int (psize s) f) (\<lambda>(nproc, f).
     bindM (rd_int (psize s) f) (\<lambda>(entry, f).
       if entry < 0 \<or> entry \<ge> nproc then loader_error ''Bad entry point'' else
     bindM (rd_int (psize s) f) (\<lambda>(nline, f).
     thenM (if nline = 0 then seqM [warn WNLINEZR, modifyM (\<lambda>s. s\<lparr>NLINE := 2147483647\<rparr>)]
       else modifyM (\<lambda>s. s\<lparr>NLINE := nline\<rparr>))
     (bindM (rd_int (psize s) f) (\<lambda>(szdata, f).
     bindM (rd_int (psize s) f) (\<lambda>(_, f).
     bindM (rd_int (psize s) f) (\<lambda>(_, f).
       returnM (\<lparr>FLAGS = flags, NTEXT = ntext, NDATA = ndata, NPROC = nproc, ENTRY = entry,
         SZDATA = szdata\<rparr>, f)))))))))))
     (\<lambda>(h, _) s. hdr_ok s \<and> 0 \<le> SZDATA h \<and> SZDATA h < 2 ^ 32)"
      by (intro est_rd_ptr est_if est_error est_then [OF l] est_return) (use p in simp_all)
  qed simp
qed

subsection \<open>The segments\<close>

lemma init_text_Ok:
  "init_text h s = Ok x t \<Longrightarrow> \<exists>d n l. t = s\<lparr>DB := d, NProc := n, PI := - 1, PC := 0, text_len := l\<rparr>"
  by (simp add: init_text_def Malloc_def split: if_splits) blast

lemma init_data_Ok:
  assumes "init_data hb s = Ok x t" and "0 \<le> hb" and "hb < 2 ^ 63"
  shows "\<exists>h. t = s\<lparr>HB := hb, HP := hb, HL := hb + 1000, data_len := hb + 1000, data_sh := h\<rparr>
    \<and> hb + 1000 < 2 ^ 32"
proof -
  have u: "ulong (hb + HEAPSIZE) = hb + 1000" using assms(2,3) by (simp add: HEAPSIZE_def ulong_id)
  let ?k = "c_uint (slong (hb + 1000))"
  let ?s = "s\<lparr>HB := hb, HP := hb, HL := hb + 1000, data_len := ?k\<rparr>"
  have d: "dt_clear_area 0 (hb + 1000) ?s = Ok x t"
    using assms(1) by (simp add: init_data_def u Malloc_def split: if_splits outcome.splits)
  have "\<not> ?k < hb + 1000"
    using dt_clear_area_undef [of 0 "hb + 1000" ?s] d assms(2) by auto
  moreover have k: "?k < 2 ^ 32" unfolding c_uint_def by (rule take_bit_int_less_exp)
  ultimately have b: "hb + 1000 < 2 ^ 32" by linarith
  then have "slong (hb + 1000) = hb + 1000" using assms(2) by (intro slong_id) simp_all
  then have "?k = hb + 1000" using b assms(2) by (simp add: c_uint_id)
  then show ?thesis
    using d dt_clear_area_ok [of 0 "hb + 1000" ?s] assms(2) b by auto
qed

lemma init_stack_Ok:
  assumes "cap_ok s" and "init_stack s = Ok x t"
  shows "\<exists>h. t = s\<lparr>MLim := max_addr s, SP := max_addr s + 1,
    LB := max_addr s + 1, AB := max_addr s + 1, SL := max_addr s + 1 - 1000, stack_len := 1000, stack_sh := h\<rparr>"
proof -
  have m: "1000 \<le> max_addr s" "max_addr s < 2 ^ 31" using cap_fields(16) [OF assms(1)] by auto
  then have u: "ulong (max_addr s + 1) = max_addr s + 1"
    "ulong (max_addr s + 1 - STACKSIZE) = max_addr s + 1 - 1000"
    by (simp_all add: STACKSIZE_def ulong_id)
  have c: "c_uint STACKSIZE = 1000" by (simp add: STACKSIZE_def c_uint_id)
  let ?s = "s\<lparr>MLim := max_addr s, SP := max_addr s + 1,
    LB := max_addr s + 1, AB := max_addr s + 1, SL := max_addr s + 1 - 1000, stack_len := 1000\<rparr>"
  have d: "st_clear_area (max_addr s) (max_addr s + 1 - 1000) ?s = Ok x t"
    using assms(2) by (simp add: init_stack_def u c Malloc_def split: if_splits outcome.splits)
  have "max_addr s + 1 - 1000 \<noteq> 0" using m by simp
  then have "st_clear_area (max_addr s) (max_addr s + 1 - 1000) = clear_down (nat 1000) (max_addr s)"
    by (simp add: st_clear_area_def)
  then obtain h where "t = ?s\<lparr>stack_sh := h\<rparr>"
    using d clear_down_cases [of "nat 1000" "max_addr s" ?s] by auto
  then show ?thesis by (intro exI [of _ h]) simp
qed

lemma init_FRA_Ok:
  assumes "init_FRA s = Ok x t" and "0 \<le> FRALimit s" and "FRALimit s < 2 ^ 31"
  shows "t = s\<lparr>FRA := replicate (nat (FRALimit s)) 0, FRA_sh := replicate (nat (FRALimit s)) 0,
    FRA_def := UNDEFINED\<rparr>"
  using assms by (simp add: init_FRA_def Malloc_def c_uint_id split: if_splits)

lemma init_AB_list_Ok:
  "init_AB_list s = Ok x t \<Longrightarrow> \<exists>l f n. t = s\<lparr>frame_limit := l, curr_frame := n, AB_list := f\<rparr>"
  by (auto simp: init_AB_list_def Malloc_def wr_AB_def split: if_splits)

lemma div_times_le_int: "0 < w \<Longrightarrow> (x :: int) div w * w \<le> x"
  using div_mult_mod_eq [of x w] pos_mod_sign [of w x] by linarith

lemma args_space:
  assumes "sizes_ok s" and "args_small strs"
  shows "0 \<le> vec_size s strs" "vec_size s strs \<le> 4 + 2 ^ 31"
    "0 \<le> string_size s strs" "string_size s strs < 2 ^ 31"
proof -
  have a: "0 \<le> alignedstrlen s str \<and> alignedstrlen s str \<le> int (length str) + 10" for str
  proof -
    have w: "wsize s = 2 \<or> wsize s = 4" using assms(1) by (auto simp: sizes_ok_def)
    define len where "len = int (length str) + 1"
    have "0 \<le> (len + wsize s - 1) div wsize s * wsize s" using w by (auto simp: len_def)
    moreover have "(len + wsize s - 1) div wsize s * wsize s \<le> len + wsize s - 1"
      using w by (intro div_times_le_int) auto
    moreover have "(len + wsize s - 1) sdiv wsize s = (len + wsize s - 1) div wsize s"
      using w by (auto simp: len_def signed_divide_int_def)
    ultimately show ?thesis using w by (auto simp: alignedstrlen_def Let_def len_def)
  qed
  have p: "psize s = 2 \<or> psize s = 4" using assms(1) by (auto simp: sizes_ok_def)
  have "4 * int (length strs) \<le> (\<Sum>str\<leftarrow>strs. int (length str) + 10)"
    by (induction strs) simp_all
  then show "0 \<le> vec_size s strs" "vec_size s strs \<le> 4 + 2 ^ 31"
    using p assms(2) by (auto simp: vec_size_def args_small_def)
  have "0 \<le> string_size s strs \<and> string_size s strs \<le> (\<Sum>str\<leftarrow>strs. int (length str) + 10)"
    unfolding string_size_def
  proof (induction strs)
    case (Cons str strs)
    then show ?case using a [of str] by simp
  qed simp
  then show "0 \<le> string_size s strs" "string_size s strs < 2 ^ 31"
    using assms(2) by (simp_all add: args_small_def)
qed

lemma init_segments_Ok:
  assumes c: "cap_ok s" and l: "0 \<le> FRALimit s" "FRALimit s < 2 ^ 31" and f: "FRASize s = 0"
    and h: "0 \<le> SZDATA h" "SZDATA h < 2 ^ 32"
    and a: "args_small av" "args_small environ"
    and e: "init_segments h av environ s = Ok x t"
  shows "binv t"
proof -
  define hb where "hb = ulong (ulong (SZDATA h) + vec_size s av + vec_size s environ
      + (string_size s environ + string_size s av))"
  have z: "sizes_ok s" using c by (simp add: cap_ok_def)
  have "ulong (SZDATA h) = SZDATA h" using h by (intro ulong_id) simp_all
  then have hb: "0 \<le> hb" "hb < 2 ^ 63"
    using args_space [OF z a(1)] args_space [OF z a(2)] h by (simp_all add: hb_def ulong_id)
  obtain y1 s1 y2 s2 y3 s3 y4 s4 where
    s1: "init_text h s = Ok y1 s1" and s2: "init_data hb s1 = Ok y2 s2"
    and s3: "init_stack s2 = Ok y3 s3" and s4: "init_FRA s3 = Ok y4 s4"
    and t: "thenM init_AB_list (returnM ()) s4 = Ok x t"
    using e unfolding init_segments_def withM_apply seqM.simps thenM_eq_Ok hb_def [symmetric] by blast
  obtain d n k where e1: "s1 = s\<lparr>DB := d, NProc := n, PI := - 1, PC := 0, text_len := k\<rparr>"
    using init_text_Ok [OF s1] by blast
  obtain h2 where e2: "s2 = s1\<lparr>HB := hb, HP := hb, HL := hb + 1000, data_len := hb + 1000, data_sh := h2\<rparr>"
    and b: "hb + 1000 < 2 ^ 32"
    using init_data_Ok [OF s2 hb] by blast
  have c2: "cap_ok s2" using c unfolding e2 e1 by (simp add: cap_ok_iff sizes_ok_def)
  obtain h3 where e3: "s3 = s2\<lparr>MLim := max_addr s2, SP := max_addr s2 + 1, LB := max_addr s2 + 1,
      AB := max_addr s2 + 1, SL := max_addr s2 + 1 - 1000, stack_len := 1000, stack_sh := h3\<rparr>"
    using init_stack_Ok [OF c2 s3] by blast
  have e4: "s4 = s3\<lparr>FRA := replicate (nat (FRALimit s3)) 0, FRA_sh := replicate (nat (FRALimit s3)) 0,
      FRA_def := UNDEFINED\<rparr>"
    using init_FRA_Ok [OF s4] l unfolding e3 e2 e1 by simp
  obtain fl cf ab where e5: "t = s4\<lparr>frame_limit := fl, curr_frame := cf, AB_list := ab\<rparr>"
    using init_AB_list_Ok [of s4 _ t] t by auto
  have m: "max_addr s2 = max_addr s" unfolding e2 e1 by simp
  have M: "1000 \<le> max_addr s" "max_addr s + 1 < 2 ^ 31" "wsize s dvd max_addr s + 1"
    using cap_fields(1-3,16) [OF c] by auto
  have u: "ulong (max_addr s + 1 - 1000) = max_addr s + 1 - 1000" using M by (simp add: ulong_id)
  have "cap_ok t" using c unfolding e5 e4 e3 e2 e1 by (simp add: cap_ok_iff sizes_ok_def)
  moreover have "regs_ok t"
    unfolding e5 e4 e3 e2 e1 regs_ok_def using hb b M l f u by simp
  ultimately show ?thesis
    unfolding binv_iff using l hb unfolding e5 e4 e3 e2 e1 by simp
qed

subsection \<open>The whole startup\<close>

lemma keeps_binv_regs: "keeps binv init_registers anyR"
  unfolding init_registers_def by (rule keeps_binv) (rule keeps_basic | simp)+

lemma keeps_binv_text: "keeps binv (load_text f) anyR"
  unfolding load_text_def Let_def
  by (intro keeps_with keeps_if keeps_undef keeps_then keeps_modify keeps_return TrueI)
    (simp add: binv_iff cap_ok_iff sizes_ok_def regs_ok_def)

lemma binv_proctab: "binv s \<Longrightarrow> binv (s\<lparr>proctab := ps\<rparr>)"
  by (simp add: binv_iff cap_ok_iff sizes_ok_def regs_ok_def)

lemma keeps_binv_proctab: "keeps binv (rd_proctab h f) anyR"
proof -
  have p: "keeps binv (add_proc n e) anyR" for n e
    unfolding add_proc_def Let_def
    by (intro keeps_with keeps_if keeps_fatal keeps_undef keeps_case_prod keeps_modify binv_proctab)
  have "keeps binv (proctab_loop k f) anyR" for k f
  proof (induction k arbitrary: f)
    case (Suc k)
    show ?case
      unfolding proctab_loop.simps
      by (intro keeps_with keeps_bind [OF keeps_rd_int] keeps_case_prod keeps_then p Suc)
  qed (simp only: proctab_loop.simps keeps_return)
  then show ?thesis
    unfolding rd_proctab_def init_proctab_def
    by (intro keeps_then keeps_seq_Cons keeps_seq_Nil keeps_with keeps_bind [OF keeps_alloc(1)]
        keeps_return keeps_modify binv_proctab TrueI)
qed

lemma keeps_put_string: "keeps (minv c) (put_string bs a) anyR"
proof (induction bs arbitrary: a)
  case (Cons b bs)
  show ?case unfolding put_string.simps by (intro keeps_then keeps_wr Cons)
qed (simp only: put_string.simps keeps_return)

lemma keeps_storestring: "keeps (minv c) (storestring a str) anyR"
  unfolding storestring_def Let_def
  by (intro keeps_with keeps_then keeps_seq_Cons keeps_seq_Nil keeps_checks keeps_put_string
      keeps_return TrueI)

lemma keeps_store_vec: "keeps (minv c) (store_vec ps v p) anyR"
proof (induction ps arbitrary: v p)
  case (Cons q ps)
  show ?case
    unfolding store_vec.simps
    by (intro keeps_with keeps_then keeps_dt_stores keeps_bind [OF keeps_storestring] Cons)
qed (simp only: store_vec.simps keeps_return)

lemma keeps_store_args: "keeps (minv c) (store_args p av en ac) anyR"
  unfolding store_args_def
  by (intro keeps_with keeps_then keeps_pushes keeps_bind [OF keeps_store_vec] keeps_case_prod
      keeps_dt_stores)

lemma est_keeps_any: "keeps I m R \<Longrightarrow> est I m (\<lambda>_. I)"
  by (rule est_weaken [OF est_keeps [of I m R]]) simp_all

definition seg_ready :: "mach \<Rightarrow> bool" where
  "seg_ready s \<longleftrightarrow> cap_ok s \<and> 0 \<le> FRALimit s \<and> FRALimit s < 2 ^ 31 \<and> FRASize s = 0"

lemma est_init:
  assumes "args_small av" and "args_small environ"
  shows "est fra_ok (init F fs environ av ac) (\<lambda>_. binv)"
proof -
  have z: "est (\<lambda>s. hdr_ok s \<and> 0 \<le> SZDATA h \<and> SZDATA h < 2 ^ 32) (modifyM init_sizes)
      (\<lambda>_ s. seg_ready s \<and> 0 \<le> SZDATA h \<and> SZDATA h < 2 ^ 32)" for h
    by (rule est_modify) (simp add: hdr_ok_def seg_ready_def cap_ok_init,
      simp add: init_sizes_def init_rsb_def Let_def)
  have g: "est (\<lambda>s. seg_ready s \<and> 0 \<le> SZDATA h \<and> SZDATA h < 2 ^ 32) (init_segments h av environ) (\<lambda>_. binv)" for h
  proof (rule estI)
    fix s x t assume "seg_ready s \<and> 0 \<le> SZDATA h \<and> SZDATA h < 2 ^ 32" "init_segments h av environ s = Ok x t"
    then show "binv t" unfolding seg_ready_def using init_segments_Ok [OF _ _ _ _ _ _ assms] by blast
  qed
  have k: "est (\<lambda>s. hdr_ok s \<and> 0 \<le> SZDATA h \<and> SZDATA h < 2 ^ 32)
      (thenM (modifyM init_sizes) (thenM (init_segments h av environ) (thenM init_registers
        (bindM (load_text f) (\<lambda>f. bindM (rd_gda F h f) (\<lambda>f. bindM (rd_proctab h f) (\<lambda>f.
          thenM (store_args (ulong (SZDATA h)) av environ ac) (returnM h)))))))) (\<lambda>_. binv)" for h f
    by (intro est_then [OF z] est_then [OF g] est_then [OF est_keeps_any [OF keeps_binv_regs]]
        est_bind [OF est_keeps_any [OF keeps_binv_text]]
        est_bind [OF est_keeps_any [OF keeps_binv [OF keeps_rd_gda]]]
        est_bind [OF est_keeps_any [OF keeps_binv_proctab]]
        est_then [OF est_keeps_any [OF keeps_binv [OF keeps_store_args]]] est_return)
  have "est fra_ok (bindM (rd_header f) (\<lambda>(h, f).
      thenM (modifyM init_sizes) (thenM (init_segments h av environ) (thenM init_registers
        (bindM (load_text f) (\<lambda>f. bindM (rd_gda F h f) (\<lambda>f. bindM (rd_proctab h f) (\<lambda>f.
          thenM (store_args (ulong (SZDATA h)) av environ ac) (returnM h))))))))) (\<lambda>_. binv)" for f
  proof (rule est_bind [OF est_rd_header])
    fix x :: "eout \<times> load_file"
    show "est ((\<lambda>(h, _) s. hdr_ok s \<and> 0 \<le> SZDATA h \<and> SZDATA h < 2 ^ 32) x) (case x of (h, f) \<Rightarrow>
      thenM (modifyM init_sizes) (thenM (init_segments h av environ) (thenM init_registers
        (bindM (load_text f) (\<lambda>f. bindM (rd_gda F h f) (\<lambda>f. bindM (rd_proctab h f) (\<lambda>f.
          thenM (store_args (ulong (SZDATA h)) av environ ac) (returnM h)))))))) (\<lambda>_. binv)"
      unfolding split_beta by (rule k)
  qed
  then have "est fra_ok (case fs (hd av) of None \<Rightarrow> loader_error ''Cannot open loadfile''
      | Some f \<Rightarrow> bindM (rd_header f) (\<lambda>(h, f).
      thenM (modifyM init_sizes) (thenM (init_segments h av environ) (thenM init_registers
        (bindM (load_text f) (\<lambda>f. bindM (rd_gda F h f) (\<lambda>f. bindM (rd_proctab h f) (\<lambda>f.
          thenM (store_args (ulong (SZDATA h)) av environ ac) (returnM h))))))))) (\<lambda>_. binv)"
    by (cases "fs (hd av)") (simp_all add: est_error)
  then show ?thesis
    unfolding init_def
    by (intro est_then [OF est_keeps_any [OF keeps_ofiles [OF unix_free_fra]]]
        est_then [OF est_keeps_any [OF keeps_init_signals [OF unix_free_fra]]])
qed

text \<open>The static variables of the interpreter before \<open>main()\<close> runs; \<open>mem\<close> says which requests
  the host's allocator grants.  The arrays are not allocated yet, and no trap can occur before
  \<open>init()\<close> sets \<open>OnTrap\<close>.\<close>

definition static_mach :: "(int \<Rightarrow> bool) \<Rightarrow> ((sysreq \<times> sysres) list \<Rightarrow> sysreq \<Rightarrow> sysres)
    \<Rightarrow> (int \<Rightarrow> sig_action) \<Rightarrow> mach" where
  "static_mach mem os acts =
     \<lparr>wsize = 0, dwsize = 0, psize = 0, i_minsw = 0, i_maxsw = 0, i_maxuw = 0, min_off = 0, max_off = 0,
      max_addr = 0, wsizem1 = 0, rsb_rsbcode = 0, rsb_PI = 0, rsb_PC = 0, rsb_LB = 0, rsb_LIN = 0,
      rsb_FIL = 0, rsbsize = 0, MLim = 0, HB = 0, DB = 0, NProc = 0, PreIgnMask = 0, FRALimit = 0,
      maxstack = 0, maxheap = 0, NLINE = 0, must_test = False, text_seg = (\<lambda>_. 0), text_len = 0,
      proctab = [], mem_avail = mem, host_os = os,
      PI = 0, PC = 0, HP = 0, SP = 0, LB = 0, AB = 0, ES = 0, ES_def = 0, OnTrap = TR_ABORT, IgnMask = 0,
      TrapPI = 0, FRA = [], FRA_sh = [], FRASize = 0, FRA_def = 0, data = (\<lambda>_. 0), data_sh = (\<lambda>_. 0),
      data_len = 0, HL = 0, stack = (\<lambda>_. 0), stack_sh = (\<lambda>_. 0), stack_len = 0, SL = 0, LIN = 0,
      FIL = 0, AB_list = (\<lambda>_. 0), frame_limit = 0, curr_frame = 0, running = False,
      wst = \<lparr>warn_cnt = (\<lambda>_. []), warnmask = (\<lambda>_. False), latest_warning_printed = False, mess_fp = []\<rparr>,
      unix = \<lparr>errno = 0, os_trace = [], sig_map = (\<lambda>_. 0), sig_act = acts, signalled = 0,
        fd_limit = 100, buf_cnt = (\<lambda>_. 0)\<rparr>\<rparr>"

lemma est_main_init:
  assumes "args_small args" and "args_small environ"
  shows "est (\<lambda>s. FRASize s = 0) (main_init F fs environ args) (\<lambda>_. binv)"
proof -
  have f: "est (\<lambda>s. FRASize s = 0) (modifyM (\<lambda>s. s\<lparr>PreIgnMask := 0, FRALimit := FRALIMIT\<rparr>)) (\<lambda>_. fra_ok)"
    by (rule est_modify) (simp add: fra_ok_def FRALIMIT_def)
  have e: "args_small [''e.out'']" by (simp add: args_small_def)
  have i: "est (\<lambda>s. fra_ok s \<and> (case x of (d, rest) \<Rightarrow> args_small rest))
      (if snd x \<noteq> [] then init F fs environ (snd x) (int (length (snd x))) else init F fs environ [''e.out''] 1)
      (\<lambda>_. binv)" for x :: "bool \<times> string list"
  proof (cases "args_small (snd x)")
    case True
    then show ?thesis
      using est_weaken [OF est_init [OF True assms(2)]] est_weaken [OF est_init [OF e assms(2)]]
      by (simp add: split_beta)
  next
    case False
    then show ?thesis by (simp add: est_def split_beta)
  qed
  have k: "keeps binv (seqM [
       whenM (FLAGS h AND FB_TEST \<noteq> 0) (modifyM (\<lambda>s. s\<lparr>must_test := True\<rparr>)),
       whenM (FLAGS h AND FB_EXTRA \<noteq> 0) (warn WEXTRIGN),
       modifyM (\<lambda>s. s\<lparr>running := True\<rparr>),
       modifyM (\<lambda>s. s\<lparr>OnTrap := TR_HALT\<rparr>),
       call (ENTRY h) RSB_STP]) anyR" for h
  proof (intro keeps_seq_Cons keeps_seq_Nil)
    show "keeps binv (whenM (FLAGS h AND FB_TEST \<noteq> 0) (modifyM (\<lambda>s. s\<lparr>must_test := True\<rparr>))) anyR"
      by (intro keeps_when keeps_modify) (simp add: binv_iff cap_ok_iff sizes_ok_def regs_ok_def)
    show "keeps binv (whenM (FLAGS h AND FB_EXTRA \<noteq> 0) (warn WEXTRIGN)) anyR"
      by (intro keeps_binv keeps_when keeps_warn wst_free_minv)
    show "keeps binv (modifyM (\<lambda>s. s\<lparr>running := True\<rparr>)) anyR"
      "keeps binv (modifyM (\<lambda>s. s\<lparr>OnTrap := TR_HALT\<rparr>)) anyR"
      by (intro keeps_binv keeps_modify, simp)+
    show "keeps binv (call (ENTRY h) RSB_STP) anyR" by (intro keeps_binv keeps_call)
  qed
  show ?thesis
    unfolding main_init_def
    by (rule est_then [OF f], rule est_bind [OF est_keeps [OF keeps_do_args [OF assms(1)]]],
        unfold split_beta, rule est_bind [OF i [unfolded split_beta]], rule est_if, rule est_fatal,
        rule est_keeps_any [OF k])
qed

end
