(* ===== verification/Interp.thy ===== *)
theory Interp
  imports Switch Init
begin

text \<open>
  The interpreter: the loop of \<open>main()\<close> (\<open>util/int/main.c\<close>), which fetches and executes
  instructions, hands pending signals to the EM machine and resumes after a caught trap.  Tallying
  and logging are left out.  The step relation adds the arrival of signals; their handlers only
  write \<open>signalled\<close> and the host's table of actions, which no instruction reads before its end,
  so they arrive between instructions here.
\<close>

section \<open>The loop\<close>

definition instruction :: "fpu \<Rightarrow> unit M" where
  "instruction F = seqM [
     withM (\<lambda>s. newPC (PC s)),
     bindM nextPCbyte (do_instr F),
     withM (\<lambda>s. whenM (signalled (unix s) \<noteq> 0) trap_signal)]"

text \<open>A call of \<open>trap()\<close> does not return: it ends in \<open>longjmp(trapbuf, 1)\<close>.  Before the first
  \<open>setjmp\<close> that jump has no target.\<close>

definition catchM :: "'a M \<Rightarrow> (int \<Rightarrow> 'a M) \<Rightarrow> 'a M" where
  "catchM m h = (\<lambda>s. case m s of Trap nr t \<Rightarrow> h nr t | r \<Rightarrow> r)"

text \<open>One turn; the value is the new \<open>nosetjmp\<close>.\<close>

definition iteration :: "fpu \<Rightarrow> bool \<Rightarrow> bool M" where
  "iteration F nosetjmp =
     thenM (catchM (instruction F)
         (\<lambda>nr. thenM (do_trap nr) (if nosetjmp then undefM else returnM ())))
       (returnM False)"

definition main_loop :: "fpu \<Rightarrow> (bool \<times> bool) M" where
  "main_loop F = withM (\<lambda>s. whileM snd
     (\<lambda>(nosetjmp, _). bindM (iteration F nosetjmp) (\<lambda>n. withM (\<lambda>s. returnM (n, running s))))
     (True, running s))"

text \<open>The value is the argument of \<open>exit()\<close>.\<close>

definition main_exit :: "int M" where
  "main_exit = withM (\<lambda>s.
     if ES_def s = DEFINED then thenM (message ''program exits with status'') (returnM (c_int (ES s)))
     else thenM (message ''program exits with undefined status'') (returnM 0))"

definition main ::
  "fpu \<Rightarrow> (string \<Rightarrow> load_file option) \<Rightarrow> string list \<Rightarrow> string list \<Rightarrow> int M" where
  "main F fs environ args =
     thenM (main_init F fs environ args) (bindM (main_loop F) (\<lambda>_. main_exit))"

section \<open>Steps\<close>

inductive em_step :: "fpu \<Rightarrow> bool \<times> mach \<Rightarrow> bool \<times> mach \<Rightarrow> bool" for F where
  Instr: "running s \<Longrightarrow> iteration F n s = Ok n' t \<Longrightarrow> em_step F (n, s) (n', t)"
| Signal: "0 < sn \<Longrightarrow> sn < NSIG \<Longrightarrow> deliver sn s = Ok () t \<Longrightarrow> em_step F (n, s) (n, t)"

inductive_cases em_stepE: "em_step F (n, s) (n', t)"

inductive reachable :: "fpu \<Rightarrow> bool \<times> mach \<Rightarrow> bool \<times> mach \<Rightarrow> bool" for F k where
  Start: "reachable F k k"
| Step: "reachable F k k' \<Longrightarrow> em_step F k' k'' \<Longrightarrow> reachable F k k''"

section \<open>The invariant\<close>

lemma keeps_catch:
  assumes "keeps I m R" and "\<And>nr. keeps I (h nr) R"
  shows "keeps I (catchM m h) R"
proof (rule keepsI)
  fix s x t assume s: "I s" and e: "catchM m h s = Ok x t"
  show "I t \<and> R x"
  proof (cases "m s")
    case (Trap nr u)
    then have "h nr u = Ok x t" "I u" using e s keeps_TrapD [OF assms(1)] by (simp_all add: catchM_def)
    then show ?thesis using keeps_OkD [OF assms(2)] by blast
  qed (use e s keeps_OkD [OF assms(1)] in \<open>simp_all add: catchM_def\<close>)
next
  fix s n t assume s: "I s" and e: "catchM m h s = Trap n t"
  show "I t"
  proof (cases "m s")
    case (Trap nr u)
    then have "h nr u = Trap n t" "I u" using e s keeps_TrapD [OF assms(1)] by (simp_all add: catchM_def)
    then show ?thesis using keeps_TrapD [OF assms(2)] by blast
  qed (use e in \<open>simp_all add: catchM_def\<close>)
qed

lemma keeps_instruction [keeps_rules]: "keeps (minv c) (instruction F) anyR"
  unfolding instruction_def
  by (intro keeps_seq_Cons keeps_seq_Nil keeps_with keeps_newPC keeps_bind [OF keeps_operands(1)]
      keeps_do_instr keeps_when keeps_trap_signal unix_free_minv)

lemma keeps_iteration [keeps_rules]: "keeps (minv c) (iteration F n) anyR"
  unfolding iteration_def
  by (intro keeps_then keeps_catch keeps_instruction keeps_do_trap keeps_if keeps_undef keeps_return TrueI)

lemma keeps_main_loop: "keeps (minv c) (main_loop F) anyR"
  unfolding main_loop_def
  by (intro keeps_with keeps_while keeps_case_prod keeps_bind [OF keeps_iteration] keeps_return TrueI)

lemma step_invariant:
  assumes "em_step F k k'" and "minv c (snd k)"
  shows "minv c (snd k')"
  using assms
proof cases
  case (Instr s n n' t)
  then show ?thesis using keeps_OkD [OF keeps_iteration _ Instr(4)] assms(2) by simp
next
  case (Signal sn s t n)
  then show ?thesis using keeps_OkD [OF keeps_deliver _ Signal(5)] assms(2) by simp
qed

lemma reachable_minv:
  assumes "reachable F k k'" and "minv c (snd k)"
  shows "minv c (snd k')"
  using assms by (induction rule: reachable.induct) (auto dest: step_invariant)

end
