(* ===== verification/Run.thy ===== *)
theory Run
  imports Interp
begin

text \<open>
  A program run by the interpreter from its load file: it pushes a constant and exits with it.  It
  shows that startup succeeds and that the machine it builds takes steps.
\<close>

section \<open>Startup on a host that grants every request\<close>

text \<open>A routine that changes nothing but the state of the host, and leaves no signal pending.\<close>

definition host_only :: "'a M \<Rightarrow> mach \<Rightarrow> bool" where
  "host_only m s \<longleftrightarrow> (\<exists>x u. m s = Ok x (s\<lparr>unix := u\<rparr>) \<and> signalled u = signalled (unix s))"

lemma host_only_return: "host_only (returnM x) s"
  unfolding host_only_def by (intro exI [of _ x] exI [of _ "unix s"]) simp

lemma host_only_bind:
  assumes "host_only m s" and "\<And>x s. host_only (f x) s"
  shows "host_only (bindM m f) s"
proof -
  obtain x u where 1: "m s = Ok x (s\<lparr>unix := u\<rparr>)" "signalled u = signalled (unix s)"
    using assms(1) unfolding host_only_def by blast
  obtain y v where "f x (s\<lparr>unix := u\<rparr>) = Ok y (s\<lparr>unix := u\<rparr>\<lparr>unix := v\<rparr>)"
    "signalled v = signalled (unix (s\<lparr>unix := u\<rparr>))"
    using assms(2) unfolding host_only_def by blast
  then show ?thesis unfolding host_only_def using 1 by (intro exI [of _ y] exI [of _ v]) simp
qed

lemma host_only_then: "host_only m s \<Longrightarrow> (\<And>s. host_only k s) \<Longrightarrow> host_only (thenM m k) s"
  unfolding thenM_def by (rule host_only_bind)

lemma host_only_for: "(\<And>i s. host_only (f i) s) \<Longrightarrow> host_only (forM k i f) s"
  by (induction k arbitrary: i s) (simp_all only: forM.simps host_only_return host_only_then)

lemma host_only_calls: "host_only (os_call q) s" "host_only (set_map sn tn) s" "host_only (signal sn act) s"
  by (auto simp: host_only_def os_call_def set_map_def signal_def set_act_def Let_def)

lemma host_only_signals: "host_only init_signals s"
proof -
  have "host_only (init_signal sn) s" for sn s
    unfolding init_signal_def
    by (cases "UNIX_trap sn \<or> sn = SIGCHLD \<or> sn = SIGIO \<or> sn = SIGWINCH")
      (simp_all only: if_True if_False host_only_return,
        intro host_only_bind host_only_calls, simp add: host_only_return host_only_bind host_only_calls)
  then show ?thesis
    unfolding init_signals_def seqM.simps
    by (intro host_only_then host_only_for host_only_calls host_only_return)
qed

definition willing_host :: "(sysreq \<times> sysres) list \<Rightarrow> sysreq \<Rightarrow> sysres" where
  "willing_host tr q = (case q of Sys name args strs \<Rightarrow>
     \<lparr>sr_ret = (if name = ''dup'' then - 1 else 3), sr_errno = 24, sr_vals = [], sr_data = []\<rparr>)"

definition before_main :: mach where
  "before_main = static_mach (\<lambda>_. True) willing_host (\<lambda>_. SIG_DFL)"

lemma host_ready:
  assumes "host_os s = willing_host"
  shows "host_only (thenM (init_ofiles True) init_signals) s"
proof -
  have "host_only (init_ofiles True) s"
    using assms by (simp add: host_only_def init_ofiles_def fcreat_high_def os_call_def Let_def willing_host_def
      eval_nat_numeral) (rule exI, rule conjI, rule refl, simp)
  then show ?thesis by (rule host_only_then) (rule host_only_signals)
qed

section \<open>The load file\<close>

definition hdr_bytes :: load_file where
  "hdr_bytes = [0xAD, 0x0E, 0, 0, 0, 0, 3, 0, 2, 0, 2, 0, 0, 0, 0, 0,
     5, 0, 0, 0, 1, 0, 0, 0, 1, 0, 8, 0, 0, 0, 0, 0]"

definition code_bytes :: load_file where
  "code_bytes = [7, 1, 254, 89, 0] @ [0, 0, 0, 0]"

definition hdr :: eout where
  "hdr = \<lparr>FLAGS = 0, NTEXT = 5, NDATA = 0, NPROC = 1, ENTRY = 0, SZDATA = 8\<rparr>"

definition disk :: "string \<Rightarrow> load_file option" where
  "disk name = (if name = ''e.out'' then Some (hdr_bytes @ code_bytes) else None)"

text \<open>The machine after the header, and after the segments are set up.\<close>

definition sized :: "unix_state \<Rightarrow> mach" where
  "sized u = before_main\<lparr>PreIgnMask := 0, FRALimit := 8, unix := u, wsize := 2, dwsize := 4, wsizem1 := 1, psize := 2,
     NLINE := 1\<rparr>"

definition segmented :: "(int \<Rightarrow> byte) \<Rightarrow> unix_state \<Rightarrow> mach" where
  "segmented sh u = (init_sizes (sized u))\<lparr>DB := 5, NProc := 1, PI := - 1, PC := 0, text_len := 5,
     HB := 20, HP := 20, HL := 1020, data_len := 1020, data_sh := (\<lambda>_. 0),
     MLim := 65533, SP := 65534, LB := 65534, AB := 65534, SL := 64534, stack_len := 1000, stack_sh := sh,
     FRA := replicate 8 0, FRA_sh := replicate 8 0, FRA_def := UNDEFINED,
     frame_limit := 100, curr_frame := 0, AB_list := (\<lambda>_. 0)(0 := 65534)\<rparr>"

lemma header_read:
  "rd_header (hdr_bytes @ code_bytes) (before_main\<lparr>PreIgnMask := 0, FRALimit := 8, unix := u\<rparr>)
    = Ok (hdr, code_bytes) (sized u)"
  unfolding rd_header_def rd_sizes_def hdr_bytes_def append.simps sized_def
  by (simp add: rd_int_eq before_main_def static_mach_def as_magic_def sp_magic_def VERSION_def
    uval_def hdr_def c_int_def)

lemma upd_bytes_zero: "upd_bytes (\<lambda>_. b) a (replicate n b) = (\<lambda>_. b)"
  by (rule ext) (auto simp: upd_bytes_def nat_less_iff)

lemma segments_made: "\<exists>sh. init_segments hdr [''e.out''] [] (init_sizes (sized u)) = Ok () (segmented sh u)"
proof -
  let ?z = "init_sizes (sized u)"
  define s1 where "s1 = ?z\<lparr>DB := 5, NProc := 1, PI := - 1, PC := 0, text_len := 5\<rparr>"
  define s2 where "s2 = s1\<lparr>HB := 20, HP := 20, HL := 1020, data_len := 1020, data_sh := \<lambda>_. 0\<rparr>"
  define s3 where "s3 = s2\<lparr>MLim := 65533, SP := 65534, LB := 65534, AB := 65534, SL := 64534, stack_len := 1000\<rparr>"
  have z: "max_addr ?z = 65533" "wsize ?z = 2" "psize ?z = 2" "FRALimit ?z = 8" "mem_avail ?z n" "data_sh ?z = (\<lambda>_. 0)"
    "AB_list ?z = (\<lambda>_. 0)" for n
    by (simp_all add: init_sizes_def init_rsb_def Let_def sized_def before_main_def static_mach_def ulong_id
      signed_divide_int_def)
  have hb: "ulong (ulong (SZDATA hdr) + vec_size ?z [''e.out''] + vec_size ?z []
      + (string_size ?z [] + string_size ?z [''e.out''])) = 20"
    by (simp add: hdr_def vec_size_def string_size_def alignedstrlen_def z ulong_id signed_divide_int_def)
  have 1: "init_text hdr ?z = Ok () s1"
    by (simp add: init_text_def hdr_def ulong_id slong_id Malloc_def c_uint_id z s1_def)
  have "dt_clear_area 0 1020 (s1\<lparr>HB := 20, HP := 20, HL := 1020, data_len := 1020\<rparr>) = Ok () s2"
    using dt_clear_area_ok [of 0 1020 "s1\<lparr>HB := 20, HP := 20, HL := 1020, data_len := 1020\<rparr>"]
    by (simp add: s2_def s1_def z upd_bytes_zero SH_UNDEF_def)
  then have 2: "init_data 20 s1 = Ok () s2"
    by (simp add: init_data_def HEAPSIZE_def ulong_id slong_id Malloc_def c_uint_id s1_def z)
  obtain sh where sh: "clear_down 1000 65533 s3 = Ok () (s3\<lparr>stack_sh := sh\<rparr>)"
    using clear_down_eq [of 65533 1000 s3] by (auto simp: s3_def)
  have 3: "init_stack s2 = Ok () (s3\<lparr>stack_sh := sh\<rparr>)"
    using sh by (simp add: init_stack_def STACKSIZE_def ulong_id Malloc_def c_uint_id s2_def s1_def z st_clear_area_def
      s3_def)
  have 4: "init_FRA (s3\<lparr>stack_sh := sh\<rparr>) = Ok () (s3\<lparr>stack_sh := sh, FRA := replicate 8 0, FRA_sh := replicate 8 0,
      FRA_def := UNDEFINED\<rparr>)"
    by (simp add: init_FRA_def s3_def s2_def s1_def z Malloc_def c_uint_id)
  have 5: "init_AB_list (s3\<lparr>stack_sh := sh, FRA := replicate 8 0, FRA_sh := replicate 8 0, FRA_def := UNDEFINED\<rparr>)
      = Ok () (segmented sh u)"
    by (simp add: init_AB_list_def s3_def s2_def s1_def z Malloc_def c_uint_id ABLISTSIZE_def wr_AB_def AB_ok_def
      segmented_def)
  show ?thesis
    unfolding init_segments_def withM_apply hb seqM.simps
    by (intro exI [of _ sh]) (simp only: thenM_apply 1 2 3 4 5 outcome.case apply_M)
qed

definition loaded :: "unit M" where
  "loaded = thenM init_registers (bindM (load_text code_bytes) (\<lambda>f. bindM (rd_gda undefined hdr f) (\<lambda>f.
     bindM (rd_proctab hdr f) (\<lambda>f. thenM (store_args 8 [''e.out''] [] 1) (seqM [
       modifyM (\<lambda>s. s\<lparr>running := True\<rparr>), modifyM (\<lambda>s. s\<lparr>OnTrap := TR_HALT\<rparr>),
       call 0 RSB_STP])))))"

lemma load_runs:
  "case loaded (segmented sh \<lparr>errno = e, os_trace = tr, sig_map = m, sig_act = a, signalled = 0, fd_limit = l,
      buf_cnt = b\<rparr>) of
    Ok _ t \<Rightarrow> PC t = 0 \<and> PI t = 0 \<and> proctab t = [\<lparr>pr_nloc = 0, pr_ep = 0, pr_ff = 5\<rparr>] \<and> DB t = 5 \<and> text_len t = 5
      \<and> text_seg t 0 = 7 \<and> text_seg t 1 = 1 \<and> running t \<and> maxstack t = 0 \<and> HP t = 20 \<and> SP t = 65514 \<and> mem_avail t n
      \<and> signalled (unix t) = 0 \<and> wsize t = 2 \<and> MLim t = 65533 | _ \<Rightarrow> False"
  by code_simp

lemma started:
  "\<exists>t. main_init F disk [] [] before_main = Ok () t \<and>
     (PC t = 0 \<and> PI t = 0 \<and> proctab t = [\<lparr>pr_nloc = 0, pr_ep = 0, pr_ff = 5\<rparr>] \<and> DB t = 5 \<and> text_len t = 5
      \<and> text_seg t 0 = 7 \<and> text_seg t 1 = 1 \<and> running t \<and> maxstack t = 0 \<and> HP t = 20 \<and> SP t = 65514 \<and> (\<forall>n. mem_avail t n)
      \<and> signalled (unix t) = 0 \<and> wsize t = 2 \<and> MLim t = 65533)"
proof -
  let ?b = "before_main\<lparr>PreIgnMask := 0, FRALimit := 8\<rparr>"
  have "host_os ?b = willing_host" by (simp add: before_main_def static_mach_def)
  then obtain u where u: "thenM (init_ofiles True) init_signals ?b = Ok () (?b\<lparr>unix := u\<rparr>)"
    and sg: "signalled u = 0"
    using host_ready [of ?b] by (auto simp: host_only_def before_main_def static_mach_def)
  obtain e tr m a l b where v: "u = \<lparr>errno = e, os_trace = tr, sig_map = m, sig_act = a, signalled = 0, fd_limit = l,
      buf_cnt = b\<rparr>"
    using sg by (cases u) simp
  obtain sh where sh: "init_segments hdr [''e.out''] [] (init_sizes (sized u)) = Ok () (segmented sh u)"
    using segments_made by blast
  note r = load_runs [where sh = sh and e = e and tr = tr and m = m and a = a and l = l and b = b, folded v]
  obtain t where t: "loaded (segmented sh u) = Ok () t"
    using r by (cases "loaded (segmented sh u)") simp_all
  obtain y1 s1 y2 s2 f2 s3 f3 s4 f4 y5 s5 where
    1: "init_registers (segmented sh u) = Ok y1 s1" and 2: "load_text code_bytes s1 = Ok f2 s2"
    and 3: "rd_gda undefined hdr f2 s2 = Ok f3 s3" and 4: "rd_proctab hdr f3 s3 = Ok f4 s4"
    and 5: "store_args 8 [''e.out''] [] 1 s4 = Ok y5 s5"
    and 6: "seqM [modifyM (\<lambda>s. s\<lparr>running := True\<rparr>), modifyM (\<lambda>s. s\<lparr>OnTrap := TR_HALT\<rparr>), call 0 RSB_STP] s5 = Ok () t"
    using t unfolding loaded_def thenM_eq_Ok bindM_eq_Ok by blast
  have "nat (NDATA hdr) = 0" by (simp add: hdr_def)
  then have g: "rd_gda F hdr f2 s2 = Ok f3 s3"
    using 3 unfolding rd_gda_def by (simp only: gda_loop.simps)
  have "init F disk [] [''e.out''] 1 ?b = Ok hdr s5"
  proof -
    obtain y0 s0 where 0: "init_ofiles True ?b = Ok y0 s0" "init_signals s0 = Ok () (?b\<lparr>unix := u\<rparr>)"
      using u unfolding thenM_eq_Ok by blast
    have h: "rd_header (hdr_bytes @ code_bytes) (?b\<lparr>unix := u\<rparr>) = Ok (hdr, code_bytes) (sized u)"
      by (rule header_read)
    have "ulong (SZDATA hdr) = 8" by (simp add: hdr_def ulong_id)
    then show ?thesis
      unfolding init_def disk_def
      by (simp only: list.sel simp_thms if_True option.case thenM_apply bindM_apply 0 h outcome.case case_prod_conv
          apply_M sh 1 2 g 4 5)
  qed
  then have "main_init F disk [] [] before_main = Ok () t"
    using 6 unfolding main_init_def do_args.simps
    by (simp add: FRALIMIT_def hdr_def)
  then show ?thesis using r t by (intro exI [of _ t]) simp
qed

text \<open>The first instruction pushes the constant 7.\<close>

lemma loc_case: "do_case F 7 = DoLOC 7"
proof -
  have "(''loc'', ''mP'', [34, 0]) \<in> set ip_spec" by (simp add: ip_spec_def ip_spec_4_def)
  then have "(base_of ''mP'' + last [34, 0] + 7, ''loc'', line_arg ''loc'' ''mP'' 7) \<in> set DoCases"
    by (intro line_case) (simp_all add: count_of_def)
  then have "map_of DoCases 7 = Some (''loc'', Arg_const 7 False)"
    by (intro map_of_case) (simp add: base_of_def PRIM_BASE_def line_arg_def Mini_def newi_def)
  moreover have "getmnem (handlers F) ''loc'' = Some (H1 DoLOC)"
    by (simp only: handlers_def getmnem.simps fst_conv snd_conv flag_simps)
  ultimately show ?thesis
    by (intro ext) (simp add: do_case_def run_case_def arg_val_def times_wsize_def slong_id)
qed


lemma first_step:
  assumes s: "minv c s" and w: "wsize c = 2"
    and p: "PC s = 0" "PI s = 0" "proctab s = [\<lparr>pr_nloc = 0, pr_ep = 0, pr_ff = 5\<rparr>]" "DB s = 5" "text_len s = 5"
      "text_seg s 0 = 7" "signalled (unix s) = 0" and f: "fits s (2 + length (opstack s))"
  shows "\<exists>t. iteration F True s = Ok False t \<and> opstack t = [7, 0] @ opstack s"
proof -
  let ?s = "s\<lparr>PC := 1\<rparr>"
  have "newPC (PC s) s = Ok () (s\<lparr>PC := PC s\<rparr>)" by (rule newPC_ok) (simp_all add: p)
  then have 1: "newPC (PC s) s = Ok () s" by simp
  have 2: "nextPCbyte s = Ok 7 ?s" using nextPCbyte_eq [of s] by (simp add: p btol_def)
  have l: "i_minsw c \<le> 7" "7 \<le> i_maxsw c" using minv_caps(13,14) [OF s] by (simp_all add: w)
  have m: "minv c ?s" "opstack ?s = opstack s" "fits ?s = fits s" using s by (simp_all add: opstack_def fits_def fun_eq_iff)
  have "runs c (DoLOC 7) ?s () (le_bytes (nat (wsize c)) 7 @ opstack s)"
    using runs_LOC [OF m(1) l] f by (simp add: m(2,3) w)
  then obtain t where t: "DoLOC 7 ?s = Ok () t" "stk_frame ?s t" "opstack t = le_bytes 2 7 @ opstack s"
    unfolding w by (auto simp: runs_def)
  have "signalled (unix t) = 0" using t(2) p(7) by (auto simp: stk_frame_def)
  then have "instruction F s = Ok () t"
    using loc_case [of F] by (simp add: instruction_def 1 2 do_instr_def SECONDARY_def TERTIARY_def t(1))
  moreover have "le_bytes 2 7 = [7, 0]" by code_simp
  ultimately show ?thesis using t(3) by (intro exI [of _ t]) (simp add: iteration_def catchM_def)
qed

section \<open>Reachable states\<close>

text \<open>
  (C1) Once \<open>main()\<close> has called the entry procedure, every state the machine reaches, by instructions,
  traps, monitor calls and signals, keeps the program as it was loaded (sizes, text, procedure table,
  limits) and satisfies the register invariant: heap and stack registers delimit parts of the arrays
  really allocated, and stack pointer and local base are word aligned.
\<close>

theorem reachable_invariant:
  assumes "args_small args" and "args_small environ"
    and "main_init F fs environ args (static_mach mem os acts) = Ok () s"
    and "reachable F (True, s) (n, t)"
  shows "prog_of t = prog_of s \<and> prog_ok (prog_of s) \<and> regs_ok t"
proof -
  have "FRASize (static_mach mem os acts) = 0" by (simp add: static_mach_def)
  then have "binv s" using estD [OF est_main_init [OF assms(1,2)] _ assms(3)] by blast
  then show ?thesis using reachable_minv [OF assms(4), of "prog_of s"] by (simp add: binv_def minv_def)
qed

theorem reachable_witness:
  "\<forall>F. \<exists>s t. main_init F disk [] [] (static_mach (\<lambda>_. True) willing_host (\<lambda>_. SIG_DFL)) = Ok () s
     \<and> reachable F (True, s) (False, t) \<and> opstack t = [7, 0] @ opstack s \<and> regs_ok t"
proof
  fix F
  obtain s where s: "main_init F disk [] [] before_main = Ok () s" and p: "PC s = 0" "PI s = 0"
      "proctab s = [\<lparr>pr_nloc = 0, pr_ep = 0, pr_ff = 5\<rparr>]" "DB s = 5" "text_len s = 5"
      "text_seg s 0 = 7" "signalled (unix s) = 0" and q: "running s" "maxstack s = 0" "HP s = 20" "SP s = 65514"
      "\<And>n. mem_avail s n" "wsize s = 2" "MLim s = 65533"
    using started [of F] by blast
  note s' = s [unfolded before_main_def]
  have a: "args_small []" by (simp add: args_small_def)
  note r = reachable_invariant [OF a a s']
  have m: "minv (prog_of s) s" using r [OF reachable.Start] by (simp add: minv_def)
  have w: "wsize (prog_of s) = 2" using minv_fields(1) [OF m] q(6) by simp
  have "fits s (2 + length (opstack s))" using q by (simp add: fits_def opstack_def)
  then obtain t where t: "iteration F True s = Ok False t" "opstack t = [7, 0] @ opstack s"
    using first_step [OF m w p] by blast
  have "reachable F (True, s) (False, t)"
    by (rule reachable.Step [OF reachable.Start], rule em_step.Instr [OF q(1) t(1)])
  then show "\<exists>s t. main_init F disk [] [] (static_mach (\<lambda>_. True) willing_host (\<lambda>_. SIG_DFL)) = Ok () s
     \<and> reachable F (True, s) (False, t) \<and> opstack t = [7, 0] @ opstack s \<and> regs_ok t"
    using s' t(2) r by blast
qed

end
