(* ===== verification/Word_Machine.thy ===== *)
theory Word_Machine
  imports Compare Load_Store
begin

text \<open>
  The machine that the arithmetic instructions implement: a stack of integers.  Constants and the
  signed operations on words (\<open>do_load.c\<close>, \<open>do_intar.c\<close>, \<open>do_comp.c\<close>) refine it, in any sequence.
\<close>

section \<open>The abstract machine\<close>

datatype winst = W_LOC int | W_ADI | W_SBI | W_MLI | W_DVI | W_RMI | W_CMI

text \<open>A result that does not fit a word is an overflow.\<close>

definition put_word :: "size \<Rightarrow> int \<Rightarrow> int list \<Rightarrow> (int + unit) \<times> int list" where
  "put_word n z xs = (if s_range n z then (Inr (), z # xs) else (Inl EIOVFL, xs))"

text \<open>One instruction: a trap or success, and the stack.  \<open>None\<close> if there is no such instruction,
  since a constant does not fit a word or operands are missing.  The interpreter does not notice
  that zero minus the least integer overflows.\<close>

fun wstep :: "size \<Rightarrow> winst \<Rightarrow> int list \<Rightarrow> ((int + unit) \<times> int list) option" where
  "wstep n (W_LOC k) xs = (if s_range n k then Some (Inr (), k # xs) else None)"
| "wstep n W_ADI (y # x # xs) = Some (put_word n (x + y) xs)"
| "wstep n W_SBI (y # x # xs) = Some (if x = 0 \<and> y = i_mins n then (Inr (), y # xs) else put_word n (x - y) xs)"
| "wstep n W_MLI (y # x # xs) = Some (put_word n (x * y) xs)"
| "wstep n W_DVI (y # x # xs) = Some (if y = 0 then (Inl EIDIVZ, xs) else put_word n (x sdiv y) xs)"
| "wstep n W_RMI (y # x # xs) = Some (if y = 0 then (Inl EIDIVZ, xs) else (Inr (), x smod y # xs))"
| "wstep n W_CMI (y # x # xs) = Some (Inr (), sgn (x - y) # xs)"
| "wstep n _ _ = None"

fun wrun :: "size \<Rightarrow> winst list \<Rightarrow> int list \<Rightarrow> ((int + unit) \<times> int list) option" where
  "wrun n [] xs = Some (Inr (), xs)"
| "wrun n (i # is) xs = (case wstep n i xs of
     None \<Rightarrow> None
   | Some (Inl e, ys) \<Rightarrow> Some (Inl e, ys)
   | Some (Inr _, ys) \<Rightarrow> wrun n is ys)"

section \<open>Its implementation\<close>

primrec winstr :: "size \<Rightarrow> winst \<Rightarrow> unit M" where
  "winstr n (W_LOC k) = DoLOC k"
| "winstr n W_ADI = DoADI n"
| "winstr n W_SBI = DoSBI n"
| "winstr n W_MLI = DoMLI n"
| "winstr n W_DVI = DoDVI n"
| "winstr n W_RMI = DoRMI n"
| "winstr n W_CMI = DoCMI n"

text \<open>The bytes of a stack of words, the top of the stack first.\<close>

definition wcode :: "size \<Rightarrow> int list \<Rightarrow> byte list" where
  "wcode n xs = concat (map (le_bytes (nat n)) xs)"

lemma wcode_simps [simp]: "wcode n [] = []" "wcode n (x # xs) = le_bytes (nat n) x @ wcode n xs"
  by (simp_all add: wcode_def)

text \<open>The states that represent a stack of words above \<open>rest\<close>, with room for \<open>k\<close> more, and the
  traps for overflow and division by zero enabled.\<close>

definition represents :: "em_prog \<Rightarrow> mach \<Rightarrow> int list \<Rightarrow> byte list \<Rightarrow> nat \<Rightarrow> bool" where
  "represents c s xs rest k \<longleftrightarrow> minv c s \<and> opstack s = wcode (wsize c) xs @ rest \<and> list_all (s_range (wsize c)) xs
     \<and> lb_depth s \<le> length rest \<and> fits s (length (opstack s) + nat (wsize c) * k)
     \<and> test_ovfl s \<and> \<not> ignored EIDIVZ s"

lemma word_size: "minv c s \<Longrightarrow> wsize c = 2 \<or> wsize c = 4" "minv c s \<Longrightarrow> wi_size c (wsize c)"
  using minv_caps(1) [of c s] by (auto simp: wi_size_def)

lemma represents_two:
  assumes r: "represents c s (y # x # xs) rest k"
  shows "two_ops c s (wsize c) (le_bytes (nat (wsize c)) y) (le_bytes (nat (wsize c)) x) (wcode (wsize c) xs @ rest)"
    "sval (le_bytes (nat (wsize c)) y) = y" "sval (le_bytes (nat (wsize c)) x) = x"
    "s_range (wsize c) x" "s_range (wsize c) y"
proof -
  have s: "minv c s" "fits s (length (opstack s))" using r by (auto simp: represents_def elim: fits_mono)
  show "two_ops c s (wsize c) (le_bytes (nat (wsize c)) y) (le_bytes (nat (wsize c)) x) (wcode (wsize c) xs @ rest)"
    using r s word_size [OF s(1)] by (auto simp: represents_def two_ops_def)
  show "s_range (wsize c) x" "s_range (wsize c) y" using r by (simp_all add: represents_def)
  then show "sval (le_bytes (nat (wsize c)) y) = y" "sval (le_bytes (nat (wsize c)) x) = x"
    using sval_le_s_range [OF word_size(1) [OF s(1)]] by simp_all
qed

text \<open>One instruction.\<close>

lemma op_refined:
  assumes r: "represents c s (y # x # xs) rest k"
    and f: "\<And>t. stk_frame s t \<Longrightarrow> f x y t = (if P then Trap e t else Ok v t)"
    and m: "m = bindM (arg_wi (wsize c)) (\<lambda>l'. bindM (spop l') (\<lambda>t. seqM [spoilFRA,
        bindM (spop (wsize c)) (\<lambda>w. bindM (f w t) (\<lambda>r. npush r (wsize c)))]))"
  shows "gives c m s (if P then Inl e else Inr ())
    ((if P then wcode (wsize c) xs else le_bytes (nat (wsize c)) v @ wcode (wsize c) xs) @ rest)"
  using sgn.binop_if [OF represents_two(1) [OF r], of f P e v "\<lambda>r. r"] f represents_two(2,3) [OF r]
  unfolding m by (cases P) simp_all

lemma le_bytes_mins: "n = 2 \<or> n = 4 \<Longrightarrow> le_bytes (nat n) (- i_mins n) = le_bytes (nat n) (i_mins n)"
proof -
  have "le_bytes 2 32768 = le_bytes 2 (- 32768)" "le_bytes 4 2147483648 = le_bytes 4 (- 2147483648)" by code_simp+
  then show "n = 2 \<or> n = 4 \<Longrightarrow> le_bytes (nat n) (- i_mins n) = le_bytes (nat n) (i_mins n)" by (auto simp: i_mins_def)
qed

lemma wstep_two:
  assumes r: "represents c s (y # x # xs) rest k" and w: "wstep (wsize c) i (y # x # xs) = Some (v, ys)"
    and i: "\<forall>k. i \<noteq> W_LOC k"
  shows "gives c (winstr (wsize c) i) s v (wcode (wsize c) ys @ rest)"
proof -
  note t = represents_two [OF r]
  have e: "test_ovfl u" "\<not> ignored EIDIVZ u" if "stk_frame s u" for u
    using r that by (simp_all add: represents_def test_ovfl_frame stk_frame_fields(14))
  show ?thesis
  proof (cases i)
    case W_ADI
    then show ?thesis
      using w op_refined [OF r, of "\<lambda>w t. adi w t (wsize c)" "\<not> s_range (wsize c) (x + y)" EIOVFL "x + y"]
      by (auto simp: adi_eq [OF t(4,5)] e DoADI_def put_word_def split: if_splits)
  next
    case W_SBI
    have "s_range (wsize c) (- y) \<longleftrightarrow> y \<noteq> i_mins (wsize c)" using t(5) by (auto simp: s_range_def i_mins_def i_maxs_def)
    then show ?thesis
      using W_SBI w op_refined [OF r, of "\<lambda>w t. sbi w t (wsize c)" "\<not> s_range (wsize c) (x - y) \<and> x \<noteq> 0" EIOVFL "x - y"]
        le_bytes_mins [OF word_size(1), of c s] r
      by (auto simp: sbi_eq [OF t(4,5)] e DoSBI_def put_word_def represents_def split: if_splits)
  next
    case W_MLI
    then show ?thesis
      using w op_refined [OF r, of "\<lambda>w t. mli w t (wsize c)" "\<not> s_range (wsize c) (x * y)" EIOVFL "x * y"]
      by (auto simp: mli_eq [OF t(4,5)] e DoMLI_def put_word_def split: if_splits)
  next
    case W_DVI
    then show ?thesis
      using w op_refined [OF r, of "\<lambda>w t. dvi w t (wsize c)" "y = 0 \<or> \<not> s_range (wsize c) (x sdiv y)"
        "if y = 0 then EIDIVZ else EIOVFL" "x sdiv y"]
      by (auto simp: dvi_eq [OF t(4)] e DoDVI_def put_word_def split: if_splits)
  next
    case W_RMI
    then show ?thesis
      using w op_refined [OF r, of rmi "y = 0" EIDIVZ "x smod y"]
      by (auto simp: rmi_eq [OF t(5)] e DoRMI_def split: if_splits)
  next
    case W_CMI
    then show ?thesis using w sgn.compare_runs [OF t(1)] t(2,3) by (auto simp: DoCMI_def)
  qed (use i in simp)
qed

text \<open>The abstract machine keeps its numbers in the range of a word.\<close>

lemma wstep_range:
  assumes n: "n = 2 \<or> n = 4" and w: "wstep n i xs = Some (v, ys)" and r: "list_all (s_range n) xs"
  shows "list_all (s_range n) ys" "length ys \<le> Suc (length xs)"
proof -
  have z: "s_range n (sgn z)" for z using n by (auto simp: s_range_def i_mins_def i_maxs_def sgn_if)
  have m: "s_range n (x smod y)" if "y \<noteq> 0" "s_range n y" for x y
    using smod_facts(1) [OF that(1), of x] that(2) n by (auto simp: s_range_def i_mins_def i_maxs_def)
  show "list_all (s_range n) ys" "length ys \<le> Suc (length xs)"
    using w r z m by (cases "(n, i, xs)" rule: wstep.cases; auto simp: put_word_def split: if_splits)+
qed

lemma wstep_refined:
  assumes r: "represents c s xs rest (Suc k)" and w: "wstep (wsize c) i xs = Some (v, ys)"
  shows "gives c (winstr (wsize c) i) s v (wcode (wsize c) ys @ rest)"
proof (cases "\<exists>k. i = W_LOC k")
  case True
  then obtain l where l: "i = W_LOC l" ..
  have s: "minv c s" "opstack s = wcode (wsize c) xs @ rest" "fits s (nat (wsize c) + length (opstack s))"
    using r by (auto simp: represents_def add.commute elim: fits_mono)
  have "s_range (wsize c) l" "v = Inr ()" "ys = l # xs" using w l by (auto split: if_splits)
  moreover from this have "i_minsw c \<le> l" "l \<le> i_maxsw c"
    using word_size(1) [OF s(1)] minv_caps [OF s(1)] by (auto simp: s_range_def i_mins_def i_maxs_def)
  ultimately show ?thesis using runs_LOC [OF s(1) _ _ s(3)] s(2) l by simp
next
  case False
  then obtain y x zs where "xs = y # x # zs" using w by (cases "(wsize c, i, xs)" rule: wstep.cases) auto
  then show ?thesis using wstep_two r w False by blast
qed

text \<open>After an instruction the state represents the new stack.\<close>

lemma represents_step:
  assumes r: "represents c s xs rest (Suc k)" and t: "minv c t" "stk_frame s t" "opstack t = wcode (wsize c) ys @ rest"
    and y: "list_all (s_range (wsize c)) ys" "length ys \<le> Suc (length xs)"
  shows "represents c t ys rest k"
proof -
  have l: "length (wcode n zs) = nat n * length zs" for n zs by (induction zs) simp_all
  have le: "nat (wsize c) * length ys \<le> nat (wsize c) * Suc (length xs)" using y(2) by (rule mult_le_mono2)
  have "fits s (length (opstack s) + nat (wsize c) * Suc k)" "opstack s = wcode (wsize c) xs @ rest"
    using r unfolding represents_def by blast+
  then have "fits s (length (opstack t) + nat (wsize c) * k)"
    using le by (elim fits_mono) (simp add: t(3) l)
  then show ?thesis
    using r t y(1) stk_frame_fields(1,2,14) [OF t(2)] test_ovfl_frame [OF t(2)] by (simp add: represents_def)
qed

text \<open>
  (C26) The constants and signed operations on words implement a machine with a stack of integers: for
  every sequence of such instructions that has its operands, executed with traps enabled on a state
  whose operand stack holds the words of the abstract stack, the interpreter ends with the
  abstract machine's result, success or the same trap, and its operand stack holds the words of the
  abstract machine's stack.
\<close>

theorem word_machine_refined:
  assumes "represents c s xs rest (length is)" and "wrun (wsize c) is xs = Some (v, ys)"
  shows "gives c (seqM (map (winstr (wsize c)) is)) s v (wcode (wsize c) ys @ rest)"
  using assms
proof (induction "is" arbitrary: s xs)
  case Nil
  then have "minv c s" "opstack s = wcode (wsize c) ys @ rest" "v = Inr ()" by (simp_all add: represents_def)
  then show ?case using gives_pure [of c s "returnM ()" "Inr ()"] by (simp add: returnM_def)
next
  case (Cons i "is")
  then have r: "represents c s xs rest (Suc (length is))" by simp
  have n: "wsize c = 2 \<or> wsize c = 4" "list_all (s_range (wsize c)) xs"
    using r word_size(1) [of c s] by (simp_all add: represents_def)
  obtain u zs where w: "wstep (wsize c) i xs = Some (u, zs)" using Cons.prems(2) by (auto split: option.splits)
  note g = wstep_refined [OF r w] and z = wstep_range [OF n(1) w n(2)]
  show ?case
  proof (cases u)
    case (Inl e)
    then have "v = Inl e" "ys = zs" using w Cons.prems(2) by simp_all
    then show ?thesis using g Inl by (simp only: list.map seqM.simps thenM_def raises_bind)
  next
    case (Inr q)
    then have "wrun (wsize c) is zs = Some (v, ys)" using w Cons.prems(2) by simp
    then have "gives c (seqM (map (winstr (wsize c)) is)) t v (wcode (wsize c) ys @ rest)"
      if "minv c t" "stk_frame s t" "opstack t = wcode (wsize c) zs @ rest" for t
      using Cons.IH represents_step [OF r that z] by blast
    then show ?thesis unfolding list.map seqM.simps using g Inr by (intro runs_then) simp_all
  qed
qed

lemma le_100: "le_bytes 2 100 = [100, 0]"
  by code_simp

theorem word_machine_witness:
  "gives sample_prog (seqM (map (winstr 2) [W_LOC 7, W_LOC 5, W_MLI, W_SBI])) (sample [100, 0]) (Inr ()) [65, 0]
   \<and> gives sample_prog (seqM (map (winstr 2) [W_LOC 0, W_DVI, W_ADI])) (sample [100, 0]) (Inl EIDIVZ) []"
proof -
  have s: "represents sample_prog (sample [100, 0]) [100] [] k" if "k < 10" for k
    using that le_100 by (simp add: represents_def sample_test)
  have w: "wcode 2 [65] = [65, 0]" "wcode 2 [] = []"
    "wrun 2 [W_LOC 7, W_LOC 5, W_MLI, W_SBI] [100] = Some (Inr (), [65])" "wrun 2 [W_LOC 0, W_DVI, W_ADI] [100] = Some (Inl EIDIVZ, [])"
    by code_simp+
  show ?thesis
    using word_machine_refined [OF s, of "[W_LOC 7, W_LOC 5, W_MLI, W_SBI]" "Inr ()" "[65]"]
      word_machine_refined [OF s, of "[W_LOC 0, W_DVI, W_ADI]" "Inl EIDIVZ" "[]"] w
    by (simp del: seqM.simps wrun.simps winstr.simps list.map)
qed

end
