(* ===== verification/Mon_Strings.thy ===== *)
theory Mon_Strings
  imports Monitor
begin

text \<open>
  The strings that monitor calls take from the memory of the EM program: what the two loops of
  \<open>savestr\<close> in \<open>src/util/int/moncalls.c\<close> return for every address.
\<close>

section \<open>Bytes in reach\<close>

text \<open>The byte at an address, in whatever segment, and the addresses that have one.\<close>

definition mem_at :: "mach \<Rightarrow> ptr \<Rightarrow> byte" where
  "mem_at s a = (if in_stack s a then stack s a else data s a)"

definition readable :: "mach \<Rightarrow> ptr \<Rightarrow> bool" where
  "readable s a \<longleftrightarrow> a < HP s \<or> in_stack s a"

lemma readable_small: "minv c s \<Longrightarrow> readable s a \<Longrightarrow> a < 4294967296"
  using minv_regs(2-4) [of c s] minv_SP(3) [of c s] minv_fields(17) [of c s] by (auto simp: readable_def in_stack_def)

lemma is_in_mem_readable:
  assumes "minv c s" and "0 \<le> a" "a < 2 ^ 64 - 1"
  shows "is_in_mem s a 1 = readable s a"
  using assms(2,3) by (auto simp: is_in_mem_def readable_def is_in_data_def is_in_stack_def in_stack_def ulong_small)

lemma mem_loc_readable:
  assumes s: "minv c s" and "0 \<le> a" and "readable s a"
  shows "mem_loc a s = Ok (mem_at s a) s"
  using assms(2,3) minv_regs(2,3,10) [OF s] minv_fields(17) [OF s]
  by (auto simp: mem_loc_def mem_at_def readable_def in_stack_def rd_stack_def rd_data_def stack_ok_def data_ok_def)

lemma memfault_cases:
  "is_in_mem s a n \<Longrightarrow> memfault a n s = Ok False s"
  "\<not> is_in_mem s a n \<Longrightarrow> \<exists>w. memfault a n s = Ok True (s\<lparr>wst := w, unix := (unix s)\<lparr>errno := 14\<rparr>\<rparr>)"
proof -
  obtain w where "warn WMONFLT s = Ok () (s\<lparr>wst := w\<rparr>)" using warn_Ok by blast
  then show "\<not> is_in_mem s a n \<Longrightarrow> \<exists>w. memfault a n s = Ok True (s\<lparr>wst := w, unix := (unix s)\<lparr>errno := 14\<rparr>\<rparr>)"
    by (intro exI [of _ w]) (simp add: memfault_def efault_def set_errno_def)
qed (simp add: memfault_def)

section \<open>Strings\<close>

text \<open>The string at \<open>a\<close> has \<open>k\<close> bytes before its zero byte, all of them in reach.\<close>

definition string_at :: "mach \<Rightarrow> ptr \<Rightarrow> nat \<Rightarrow> bool" where
  "string_at s a k \<longleftrightarrow> (\<forall>i \<le> k. readable s (a + int i)) \<and> (\<forall>i < k. mem_at s (a + int i) \<noteq> 0)
     \<and> mem_at s (a + int k) = 0"

lemma string_at_small: "minv c s \<Longrightarrow> string_at s a k \<Longrightarrow> i \<le> k \<Longrightarrow> a + int i < 4294967296"
  using readable_small [of c s "a + int i"] by (simp add: string_at_def)

lemma string_at_unix [simp]: "string_at (s\<lparr>unix := u\<rparr>) a k = string_at s a k" "mem_at (s\<lparr>unix := u\<rparr>) b = mem_at s b"
  by (simp_all add: string_at_def mem_at_def readable_def in_stack_def)

text \<open>One turn of the first loop.\<close>

lemma scan_step_ok:
  assumes s: "minv c s" and a: "0 \<le> a" and r: "readable s (a + int j)"
  shows "scan_step a (int j, f) s = Ok (int j + 1, if mem_at s (a + int j) = 0 then Some True else None) s"
proof -
  have b: "0 \<le> a + int j" "a + int j < 4294967296" using a readable_small [OF s r] by simp_all
  then have u: "ulong (a + int j) = a + int j" by (simp add: ulong_small)
  have "is_in_mem s (a + int j) 1" using is_in_mem_readable [OF s, of "a + int j"] b r by simp
  then show ?thesis using mem_loc_readable [OF s b(1) r] by (simp add: scan_step_def u memfault_cases(1))
qed

lemma scan_found:
  assumes s: "minv c s" and a: "0 \<le> a" and k: "string_at s a k" and j: "j \<le> k"
  shows "whileM (\<lambda>(len, found). found = None) (scan_step a) (int j, None) s = Ok (int k + 1, Some True) s"
  using j
proof (induction rule: inc_induct)
  case base
  have "readable s (a + int k)" "mem_at s (a + int k) = 0" using k by (simp_all add: string_at_def)
  then show ?case
    using scan_step_ok [OF s a, of k None] by (subst whileM_unfold) (simp add: whileM_unfold)
next
  case (step j)
  have "readable s (a + int j)" "mem_at s (a + int j) \<noteq> 0" using k step.hyps by (simp_all add: string_at_def)
  then show ?case
    using scan_step_ok [OF s a, of j None] step.IH by (subst whileM_unfold) (simp add: add.commute)
qed

lemma scan_fault:
  assumes s: "minv c s" and a: "0 \<le> a" "a < 2 ^ 64 - 1" and m: "\<not> readable s (a + int m)"
    and r: "\<forall>i < m. readable s (a + int i) \<and> mem_at s (a + int i) \<noteq> 0" and j: "j \<le> m"
  shows "\<exists>w. whileM (\<lambda>(len, found). found = None) (scan_step a) (int j, None) s
    = Ok (int m, Some False) (s\<lparr>wst := w, unix := (unix s)\<lparr>errno := 14\<rparr>\<rparr>)"
  using j
proof (induction rule: inc_induct)
  case base
  have b: "a + int m < 2 ^ 64 - 1"
  proof (cases m)
    case (Suc i)
    then have "a + int i < 4294967296" using r readable_small [OF s, of "a + int i"] by simp
    then show ?thesis using Suc by simp
  qed (use a in simp)
  then have "ulong (a + int m) = a + int m" using a(1) by (simp add: ulong_small)
  moreover obtain w where "memfault (a + int m) 1 s = Ok True (s\<lparr>wst := w, unix := (unix s)\<lparr>errno := 14\<rparr>\<rparr>)"
    using memfault_cases(2) [of s "a + int m" 1] is_in_mem_readable [OF s _ b] a(1) m by auto
  ultimately have "scan_step a (int m, None) s = Ok (int m, Some False) (s\<lparr>wst := w, unix := (unix s)\<lparr>errno := 14\<rparr>\<rparr>)"
    by (simp add: scan_step_def)
  then show ?case by (intro exI [of _ w]) (subst whileM_unfold, simp add: whileM_unfold)
next
  case (step j)
  have "readable s (a + int j)" "mem_at s (a + int j) \<noteq> 0" using r step.hyps by simp_all
  then show ?case
    using scan_step_ok [OF s a(1), of j None] step.IH by (subst whileM_unfold) (simp add: add.commute)
qed

text \<open>Without a string, the bytes run out of the memory before a zero.\<close>

lemma no_string:
  assumes s: "minv c s" and "\<nexists>k. string_at s a k"
  obtains m where "\<not> readable s (a + int m)" "\<forall>i < m. readable s (a + int i) \<and> mem_at s (a + int i) \<noteq> 0"
proof -
  let ?bad = "\<lambda>i. \<not> readable s (a + int i) \<or> mem_at s (a + int i) = 0"
  have "\<not> readable s (a + int (nat (4294967296 - a)))"
    using readable_small [OF s, of "a + int (nat (4294967296 - a))"] by linarith
  then have "?bad (nat (4294967296 - a))" by blast
  define m where "m = (LEAST i. ?bad i)"
  have l: "?bad m" unfolding m_def by (rule LeastI) fact
  have b: "readable s (a + int i) \<and> mem_at s (a + int i) \<noteq> 0" if "i < m" for i
    using not_less_Least [of i ?bad] that unfolding m_def by blast
  have "\<not> readable s (a + int m)"
  proof
    assume "readable s (a + int m)"
    then have "string_at s a m" using l b by (auto simp: string_at_def le_less)
    then show False using assms(2) by blast
  qed
  then show ?thesis using that b by blast
qed

text \<open>The second loop copies the string.\<close>

lemma copy_string:
  assumes s: "minv c s" and a: "0 \<le> a" and k: "string_at s a k" and j: "j \<le> k"
  shows "whileM (\<lambda>(cp, addr, more). more) copy_step (map (\<lambda>i. mem_at s (a + int i)) [0..<j], a + int j, True) s
    = Ok (map (\<lambda>i. mem_at s (a + int i)) [0..<Suc k], a + int k + 1, False) s"
  using j
proof (induction rule: inc_induct)
  case base
  have "mem_loc (a + int k) s = Ok 0 s"
    using mem_loc_readable [OF s, of "a + int k"] k a by (simp add: string_at_def)
  moreover have "ulong (a + int k + 1) = a + int k + 1"
    using a string_at_small [OF s k order_refl] by (intro ulong_small) simp_all
  moreover have "mem_at s (a + int k) = 0" using k by (simp add: string_at_def)
  ultimately have "copy_step (map (\<lambda>i. mem_at s (a + int i)) [0..<k], a + int k, True) s
      = Ok (map (\<lambda>i. mem_at s (a + int i)) [0..<Suc k], a + int k + 1, False) s"
    by (simp add: copy_step_def returnM_def)
  then show ?case by (subst whileM_unfold) (simp add: whileM_unfold del: upt_Suc)
next
  case (step j)
  have j: "readable s (a + int j)" "mem_at s (a + int j) \<noteq> 0" using k step.hyps by (simp_all add: string_at_def)
  then have "mem_loc (a + int j) s = Ok (mem_at s (a + int j)) s"
    using mem_loc_readable [OF s, of "a + int j"] a by simp
  moreover have "ulong (a + int j + 1) = a + int j + 1"
    using a readable_small [OF s j(1)] by (intro ulong_small) simp_all
  ultimately have "copy_step (map (\<lambda>i. mem_at s (a + int i)) [0..<j], a + int j, True) s
      = Ok (map (\<lambda>i. mem_at s (a + int i)) [0..<Suc j], a + int (Suc j), True) s"
    using j(2) by (simp add: copy_step_def returnM_def ac_simps)
  then show ?case using step.IH by (subst whileM_unfold) (simp del: upt_Suc of_nat_Suc)
qed

text \<open>The buffer is large enough for the string.\<close>

lemma check_buf_ok:
  assumes "\<forall>n. mem_avail s n" and "0 \<le> sz" "sz < 2 ^ 40"
  shows "\<exists>b. check_buf n sz s = Ok () (s\<lparr>unix := (unix s)\<lparr>buf_cnt := b\<rparr>\<rparr>) \<and> sz \<le> b n"
proof -
  let ?b = "buf_cnt (unix s)"
  have "sz \<le> allocfrac sz"
    using assms(2,3) by (cases "sz = 0") (simp_all add: allocfrac_def slong_id signed_divide_int_def)
  moreover have "s = s\<lparr>unix := (unix s)\<lparr>buf_cnt := ?b\<rparr>\<rparr>" by simp
  ultimately show ?thesis
    using assms(1)
    by (intro exI [of _ "if ?b n = 0 then ?b(n := max 128 sz) else if ?b n < sz then ?b(n := allocfrac sz) else ?b"])
      (simp add: check_buf_def Let_def Malloc_def Realloc_def returnM_def)
qed

lemma scan_at_end:
  assumes s: "minv c s" 
  shows "savestr n (2 ^ 64 - 1) s = Undef"
proof -
  have "is_in_mem s (2 ^ 64 - 1) 1" using minv_regs(1) [OF s] by (simp add: is_in_mem_def is_in_data_def ulong_def)
  moreover have "mem_loc (2 ^ 64 - 1) s = Undef"
    using minv_regs(4) [OF s] minv_SP(3) [OF s] minv_fields(17) [OF s]
    by (auto simp: mem_loc_def in_stack_def rd_data_def data_ok_def)
  ultimately have "scan_step (2 ^ 64 - 1) (0, None) s = Undef"
    by (simp add: scan_step_def memfault_cases(1) ulong_small)
  then show ?thesis by (simp add: savestr_def scan_def whileM_unfold)
qed

text \<open>
  (C27) \<open>savestr\<close> takes a string of the EM program, which need not be one: on a host with enough
  memory, at every address but the last of the 64-bit address space, it returns.  If all bytes
  from the address up to a first zero byte are in the data segment or on the stack, it returns these
  bytes with the zero, in a buffer large enough for them, and changes nothing else; if the bytes run
  out of the memory first, it returns nothing, with \<open>errno\<close> set to 14 (EFAULT).  At the last address
  the test for a fault wraps around, and the byte read lies outside the data array (undefined).
\<close>

theorem savestr_spec:
  assumes s: "minv c s" and m: "\<forall>n. mem_avail s n" and a: "0 \<le> a" "a < 2 ^ 64"
  shows "if a = 2 ^ 64 - 1 then savestr n a s = Undef
    else if \<exists>k. string_at s a k
    then \<exists>k b. string_at s a k \<and> int (Suc k) \<le> b n
      \<and> savestr n a s = Ok (Some (map (\<lambda>i. mem_at s (a + int i)) [0..<Suc k])) (s\<lparr>unix := (unix s)\<lparr>buf_cnt := b\<rparr>\<rparr>)
    else \<exists>w. savestr n a s = Ok None (s\<lparr>wst := w, unix := (unix s)\<lparr>errno := 14\<rparr>\<rparr>)"
proof -
  consider "a = 2 ^ 64 - 1" | k where "a < 2 ^ 64 - 1" "string_at s a k" | "a < 2 ^ 64 - 1" "\<nexists>k. string_at s a k"
    using a(2) by fastforce
  then show ?thesis
  proof cases
    case 1
    then show ?thesis using scan_at_end [OF s] by simp
  next
    case 2
    have l: "int k + 1 < 2 ^ 40" using string_at_small [OF s 2(2) order_refl] a(1) by simp
    have sc: "scan a s = Ok (int k + 1, Some True) s" using scan_found [OF s a(1) 2(2), of 0] by (simp add: scan_def)
    obtain b where b: "check_buf n (int k + 1) s = Ok () (s\<lparr>unix := (unix s)\<lparr>buf_cnt := b\<rparr>\<rparr>)" "int k + 1 \<le> b n"
      using check_buf_ok [OF m _ l] by auto
    let ?t = "s\<lparr>unix := (unix s)\<lparr>buf_cnt := b\<rparr>\<rparr>"
    have "minv c ?t" "string_at ?t a k" using s 2(2) by simp_all
    from copy_string [OF this(1) a(1) this(2), of 0]
    have "savestr n a s = Ok (Some (map (\<lambda>i. mem_at s (a + int i)) [0..<Suc k])) ?t"
      by (simp add: savestr_def sc b(1) del: upt_Suc)
    moreover have "a \<noteq> 2 ^ 64 - 1" "\<exists>k. string_at s a k" using 2 by auto
    moreover have "int (Suc k) \<le> b n" using b(2) by simp
    ultimately show ?thesis using 2(2) by (simp only: if_True if_False) blast
  next
    case 3
    obtain k where k: "\<not> readable s (a + int k)" "\<forall>i < k. readable s (a + int i) \<and> mem_at s (a + int i) \<noteq> 0"
      using no_string [OF s 3(2)] .
    obtain w where "scan a s = Ok (int k, Some False) (s\<lparr>wst := w, unix := (unix s)\<lparr>errno := 14\<rparr>\<rparr>)"
      using scan_fault [OF s a(1) 3(1) k, of 0] by (auto simp: scan_def)
    then have "savestr n a s = Ok None (s\<lparr>wst := w, unix := (unix s)\<lparr>errno := 14\<rparr>\<rparr>)" by (simp add: savestr_def)
    moreover have "a \<noteq> 2 ^ 64 - 1" using 3(1) by simp
    ultimately show ?thesis using 3(2) by (simp only: if_False) blast
  qed
qed

theorem savestr_witness:
  "let s = sample [72, 105, 0, 0] in
     (\<exists>b. savestr 0 65530 s = Ok (Some [72, 105, 0]) (s\<lparr>unix := (unix s)\<lparr>buf_cnt := b\<rparr>\<rparr>) \<and> 3 \<le> b 0)
     \<and> (\<exists>w. savestr 0 70000 s = Ok None (s\<lparr>wst := w, unix := (unix s)\<lparr>errno := 14\<rparr>\<rparr>))"
proof -
  let ?s = "sample [72, 105, 0, 0]"
  have m: "minv sample_prog ?s" "\<forall>n. mem_avail ?s n" by simp_all
  have z: "(72 :: byte) \<noteq> 0" "(105 :: byte) \<noteq> 0" by code_simp+
  have b: "mem_at ?s 65530 = 72" "mem_at ?s 65531 = 105" "mem_at ?s 65532 = 0"
    by (simp_all add: mem_at_def in_stack_def upd_bytes_def)
  have x: "string_at ?s 65530 2"
    using b z by (auto simp: string_at_def readable_def in_stack_def less_2_cases_iff)
  have u: "k = 2" if "string_at ?s 65530 k" for k
  proof -
    have "mem_at ?s (65530 + int 0) \<noteq> 0" "mem_at ?s (65530 + int 1) \<noteq> 0" using b z by simp_all
    then have "\<not> k < 2" using that unfolding string_at_def less_2_cases_iff One_nat_def by metis
    moreover have "mem_at ?s (65530 + int 2) \<noteq> 0" if "2 < k" using that \<open>string_at ?s 65530 k\<close> unfolding string_at_def by blast
    then have "\<not> 2 < k" using b(3) by auto
    ultimately show ?thesis by simp
  qed
  have h: "(65530 :: int) \<noteq> 2 ^ 64 - 1" "\<exists>k. string_at ?s 65530 k" using x by (simp, blast)
  obtain k f where k: "string_at ?s 65530 k" "int (Suc k) \<le> f 0" "savestr 0 65530 ?s
      = Ok (Some (map (\<lambda>i. mem_at ?s (65530 + int i)) [0..<Suc k])) (?s\<lparr>unix := (unix ?s)\<lparr>buf_cnt := f\<rparr>\<rparr>)"
    using savestr_spec [OF m, of 65530 0] unfolding if_not_P [OF h(1)] if_P [OF h(2)] by auto
  have l: "map (\<lambda>i. mem_at ?s (65530 + int i)) [0..<Suc 2] = [72, 105, 0]" using b by (simp add: upt_rec)
  have g: "\<nexists>k. string_at ?s 70000 k" "(70000 :: int) \<noteq> 2 ^ 64 - 1"
    by (auto simp: string_at_def readable_def in_stack_def)
  have "\<exists>w. savestr 0 70000 ?s = Ok None (?s\<lparr>wst := w, unix := (unix ?s)\<lparr>errno := 14\<rparr>\<rparr>)"
    using savestr_spec [OF m, of 70000 0] unfolding if_not_P [OF g(2)] if_not_P [OF g(1)] by simp
  moreover have "savestr 0 65530 ?s = Ok (Some [72, 105, 0]) (?s\<lparr>unix := (unix ?s)\<lparr>buf_cnt := f\<rparr>\<rparr>)" "3 \<le> f 0"
    using k(2,3) unfolding u [OF k(1)] l by simp_all
  ultimately show ?thesis unfolding Let_def by blast
qed

end
