(* ===== verification/Ack_String.thy ===== *)
theory Ack_String
  imports Prelude
begin

text \<open>
  The string module (\<open>src/modules/src/string\<close>), linked into the compilers and the tools of the kit:
  strings that end in a zero byte, rows of bytes with a length, and conversions between them and
  numbers.

  The memory a pointer leads into is the list of the bytes from there on; to read past its end is
  undefined and gives \<^const>\<open>None\<close>.  The operations that copy within memory work on a store from
  addresses to bytes, so that the rows may overlap.  Characters are signed.
\<close>

section \<open>Strings\<close>

text \<open>\<open>strindex.c\<close>: the offset of the first occurrence, \<^const>\<open>None\<close> inside for the null pointer.\<close>

fun strindex_loop :: "byte list \<Rightarrow> int \<Rightarrow> nat \<Rightarrow> nat option option" where
  "strindex_loop [] c i = None"
| "strindex_loop (b # s) c i =
     (if b = 0 then Some None
      else if btos b = c then Some (Some i)
      else strindex_loop s c (Suc i))"

definition strindex :: "byte list \<Rightarrow> int \<Rightarrow> nat option option" where
  "strindex s c = strindex_loop s c 0"

text \<open>\<open>strrindex.c\<close>: the offset of the last occurrence.\<close>

fun strrindex_loop :: "byte list \<Rightarrow> int \<Rightarrow> nat \<Rightarrow> nat option \<Rightarrow> nat option option" where
  "strrindex_loop [] c i retptr = None"
| "strrindex_loop (b # str) c i retptr =
     (if b = 0 then Some retptr
      else strrindex_loop str c (Suc i) (if btos b = c then Some i else retptr))"

definition strrindex :: "byte list \<Rightarrow> int \<Rightarrow> nat option option" where
  "strrindex str c = strrindex_loop str c 0 None"

text \<open>\<open>strzero.c\<close>.\<close>

definition strzero :: "byte list \<Rightarrow> byte list option" where
  "strzero s = (case s of [] \<Rightarrow> None | b # s \<Rightarrow> Some (0 # s))"

section \<open>Rows of bytes\<close>

type_synonym store = "int \<Rightarrow> byte"

text \<open>\<open>while (n-- > 0) *b1++ = *b2++;\<close> of \<open>btscpy.c\<close> and \<open>btscat.c\<close>.\<close>

primrec copy_up :: "nat \<Rightarrow> int \<Rightarrow> int \<Rightarrow> store \<Rightarrow> store" where
  "copy_up 0 b1 b2 m = m"
| "copy_up (Suc n) b1 b2 m = copy_up n (b1 + 1) (b2 + 1) (m(b1 := m b2))"

definition btscpy :: "int \<Rightarrow> int \<Rightarrow> int \<Rightarrow> store \<Rightarrow> store" where
  "btscpy b1 b2 n = copy_up (nat n) b1 b2"

definition btscat :: "int \<Rightarrow> int \<Rightarrow> int \<Rightarrow> int \<Rightarrow> store \<Rightarrow> store" where
  "btscat b1 n1 b2 n2 = copy_up (nat n2) (b1 + n1) b2"

text \<open>\<open>btszero.c\<close>.\<close>

primrec zero_up :: "nat \<Rightarrow> int \<Rightarrow> store \<Rightarrow> store" where
  "zero_up 0 s m = m"
| "zero_up (Suc n) s m = zero_up n (s + 1) (m(s := 0))"

definition btszero :: "int \<Rightarrow> int \<Rightarrow> store \<Rightarrow> store" where
  "btszero b n = zero_up (nat n) b"

text \<open>\<open>btscmp.c\<close>: the difference of the first bytes that differ, as signed characters, or
  \<open>n2 - n1\<close>.\<close>

fun btscmp_loop :: "nat \<Rightarrow> byte list \<Rightarrow> byte list \<Rightarrow> int \<Rightarrow> int option" where
  "btscmp_loop 0 b1 b2 r = Some r"
| "btscmp_loop (Suc n) (x # b1) (y # b2) r =
     (if x \<noteq> y then Some (btos x - btos y) else btscmp_loop n b1 b2 r)"
| "btscmp_loop (Suc n) _ _ r = None"

definition btscmp :: "byte list \<Rightarrow> int \<Rightarrow> byte list \<Rightarrow> int \<Rightarrow> int option" where
  "btscmp b1 n1 b2 n2 = btscmp_loop (nat (if n1 \<le> n2 then n1 else n2)) b1 b2 (c_int (n2 - n1))"

section \<open>Escape sequences\<close>

text \<open>\<open>bts2str.c\<close>.  The second loop variable is the text written so far.\<close>

definition is_print :: "byte \<Rightarrow> bool" where
  "is_print c \<longleftrightarrow> c_uint (btos c - 32) \<le> 126 - 32"

fun bts2str_loop :: "nat \<Rightarrow> byte list \<Rightarrow> byte list \<Rightarrow> byte list option" where
  "bts2str_loop 0 f t = Some (t @ [0])"
| "bts2str_loop (Suc n) [] t = None"
| "bts2str_loop (Suc n) (c # f) t =
     (if is_print c then
        let t = (if c = 92 \<or> c = 34 then t @ [92] else t) in bts2str_loop n f (t @ [c])
      else
        bts2str_loop n f (t @ [92,
          to_char ((drop_bit 6 (btos c) AND 3) + 48),
          to_char ((drop_bit 3 (btos c) AND 7) + 48),
          to_char ((btos c AND 7) + 48)]))"

definition bts2str :: "byte list \<Rightarrow> int \<Rightarrow> byte list option" where
  "bts2str b n = bts2str_loop (nat n) b []"

text \<open>\<open>str2bts.c\<close>.  \<open>oct_loop\<close> reads up to three octal digits, at least one.\<close>

definition is_oct :: "byte \<Rightarrow> bool" where
  "is_oct c \<longleftrightarrow> c_uint (btos c - 48) \<le> 55 - 48"

fun oct_loop :: "int \<Rightarrow> int \<Rightarrow> byte list \<Rightarrow> (int \<times> byte list) option" where
  "oct_loop cnt oct [] = None"
| "oct_loop cnt oct [c] = None"
| "oct_loop cnt oct (c # d # str) = (let oct = oct * 8 + btos c - 48 in
     if is_oct d \<and> cnt + 1 < 3 then oct_loop (cnt + 1) oct (d # str) else Some (oct, d # str))"

text \<open>The letters \<open>b f n r t\<close> and the characters they stand for.\<close>

definition escapes :: "(byte \<times> byte) list" where
  "escapes = [(98, 8), (102, 12), (110, 10), (114, 13), (116, 9)]"

lemma oct_loop_shorter: "oct_loop cnt oct str = Some (r, rest) \<Longrightarrow> length rest < length str"
  by (induction cnt oct str rule: oct_loop.induct) (auto simp: Let_def split: if_splits)

function str2bts_loop :: "byte list \<Rightarrow> byte list \<Rightarrow> byte list option" where
  "str2bts_loop [] t = None"
| "str2bts_loop (c # str) t =
     (if c = 0 then Some (t @ [0])
      else if c = 92 then (case str of [] \<Rightarrow> None | d # str' \<Rightarrow>
        (case map_of escapes d of
           Some e \<Rightarrow> str2bts_loop str' (t @ [e])
         | None \<Rightarrow>
             if is_oct d then (case oct_loop 0 0 str of
                 None \<Rightarrow> None
               | Some (oct, rest) \<Rightarrow> str2bts_loop rest (t @ [to_char oct]))
             else str2bts_loop str' (t @ [d])))
      else str2bts_loop str (t @ [c]))"
  by pat_completeness auto

termination
  by (relation "measure (length \<circ> fst)") (auto dest: oct_loop_shorter)

definition str2bts :: "byte list \<Rightarrow> (byte list \<times> int) option" where
  "str2bts str = map_option (\<lambda>bts. (bts, int (length bts))) (str2bts_loop str [])"

section \<open>Numbers\<close>

text \<open>\<open>long2str.c\<close>.  The text is built backwards from the end of \<open>numbuf\<close>, which has 32 bytes; a
  33rd write is out of bounds.\<close>

definition MAXWIDTH :: nat where
  "MAXWIDTH = 32"

definition put_front :: "byte \<Rightarrow> byte list \<Rightarrow> byte list option" where
  "put_front c p = (if length p < MAXWIDTH then Some (c # p) else None)"

text \<open>\<open>vec\<close> is \<open>"0123456789ABCDEF"\<close> with its final zero.\<close>

definition digits_vec :: "byte list" where
  "digits_vec = [48, 49, 50, 51, 52, 53, 54, 55, 56, 57, 65, 66, 67, 68, 69, 70, 0]"

definition vec_at :: "int \<Rightarrow> byte option" where
  "vec_at i = (if 0 \<le> i \<and> i < 17 then Some (digits_vec ! nat i) else None)"

function digit_loop :: "int \<Rightarrow> long \<Rightarrow> byte list \<Rightarrow> byte list option" where
  "digit_loop base val p =
     (if base = 0 then None
      else case vec_at (c_int (val smod base)) of None \<Rightarrow> None | Some d \<Rightarrow>
        (case put_front d p of None \<Rightarrow> None | Some p \<Rightarrow>
          let val = val sdiv base in if val = 0 then Some p else digit_loop base val p))"
  by pat_completeness auto

termination
  by (relation "measure (\<lambda>(base, val, p). MAXWIDTH - length p)") (auto simp: put_front_def split: if_splits)

declare digit_loop.simps [simp del]

text \<open>The loop at the label \<open>overflow\<close>: division of the unsigned value, bit by bit.\<close>

primrec ovfl_loop :: "nat \<Rightarrow> int \<Rightarrow> int \<Rightarrow> long \<Rightarrow> int \<times> long" where
  "ovfl_loop 0 base md val = (md, val)"
| "ovfl_loop (Suc i) base md val =
     (let md = c_int (2 * md); md = (if val < 0 then c_int (md + 1) else md); val = slong (2 * val) in
      if md \<ge> base then ovfl_loop i base (md - base) (slong (val + 1)) else ovfl_loop i base md val)"

definition ovfl_digit :: "int \<Rightarrow> long \<Rightarrow> byte list \<Rightarrow> (long \<times> byte list) option" where
  "ovfl_digit base val p = (case ovfl_loop 64 base 0 val of (md, val) \<Rightarrow>
     (case vec_at md of None \<Rightarrow> None | Some d \<Rightarrow> map_option (Pair val) (put_front d p)))"

definition long2str :: "long \<Rightarrow> int \<Rightarrow> byte list option" where
  "long2str val base = (case put_front 0 [] of None \<Rightarrow> None | Some p \<Rightarrow>
     if val \<noteq> 0 then
       let sign = base > 0;
           absb = (if base < 0 then c_int (- base) else base);
           sign = (if base > 0 \<and> \<not> val < 0 then False else sign);
           v1 = slong (- val);
           wide = (if base > 0 then val < 0 \<and> v1 = val else base < 0 \<and> val < 0);
           val = (if base > 0 \<and> val < 0 \<and> v1 \<noteq> val then v1 else val) in
       (case (if wide then ovfl_digit absb val p else Some (val, p)) of None \<Rightarrow> None | Some (val, p) \<Rightarrow>
         (case digit_loop absb val p of None \<Rightarrow> None | Some p \<Rightarrow>
           if sign then put_front 45 p else Some p))
     else put_front 48 p)"

text \<open>\<open>str2long.c\<close>.\<close>

definition digit_value :: "byte \<Rightarrow> int \<Rightarrow> int" where
  "digit_value c b =
     (let ch = btos c - 48 in if c_uint ch \<le> 9 then ch
      else let ch = btos c - 65 in if c_uint ch \<le> 5 then ch + 10
      else let ch = btos c - 97 in if c_uint ch \<le> 5 then ch + 10
      else b)"

fun str2long_loop :: "int \<Rightarrow> long \<Rightarrow> byte list \<Rightarrow> long option" where
  "str2long_loop base l [] = None"
| "str2long_loop base l (c # str) = (let d = digit_value c base in
     if d < base then str2long_loop base (slong (base * l + d)) str else Some l)"

definition str2long :: "byte list \<Rightarrow> int \<Rightarrow> long option" where
  "str2long str base = (case str of [] \<Rightarrow> None | c # rest \<Rightarrow>
     if c = 45 then map_option (\<lambda>l. slong (- l)) (str2long_loop base 0 rest)
     else str2long_loop base 0 str)"

section \<open>Escape sequences read back\<close>

text \<open>What \<open>bts2str\<close> writes for a byte.\<close>

definition escaped :: "byte \<Rightarrow> byte list" where
  "escaped c = (if is_print c then (if c = 92 \<or> c = 34 then [92, c] else [c])
     else [92, to_char ((drop_bit 6 (btos c) AND 3) + 48), to_char ((drop_bit 3 (btos c) AND 7) + 48),
       to_char ((btos c AND 7) + 48)])"

lemma bts2str_loop_eq:
  "n \<le> length f \<Longrightarrow> bts2str_loop n f t = Some (t @ concat (map escaped (take n f)) @ [0])"
  by (induction n f t rule: bts2str_loop.induct) (simp_all add: escaped_def Let_def)

lemma digit_char:
  assumes "0 \<le> d" and "d \<le> 7"
  shows "btos (to_char (d + 48)) = d + 48" "is_oct (to_char (d + 48))" "is_print (to_char (d + 48))"
    "map_of escapes (to_char (d + 48)) = None"
proof -
  show b: "btos (to_char (d + 48)) = d + 48"
    using assms by (simp add: signed_take_bit_int_eq_self)
  show "is_oct (to_char (d + 48))" "is_print (to_char (d + 48))"
    unfolding is_oct_def is_print_def b using assms by (simp_all add: c_uint_id)
  have "btos x \<noteq> d + 48" if "x \<in> set (map fst escapes)" for x
    using that assms by (auto simp: escapes_def btos_def)
  then have "to_char (d + 48) \<notin> fst ` set escapes" using b by force
  then show "map_of escapes (to_char (d + 48)) = None" by (simp add: map_of_eq_None_iff)
qed

lemma octal_parts:
  fixes b :: int
  shows "drop_bit 6 b AND 3 = b div 64 mod 4" "drop_bit 3 b = b div 8" "b AND 7 = b mod 8"
  by (simp_all add: drop_bit_eq_div flip: take_bit_eq_mod [where n = 2, simplified] take_bit_eq_mod [where n = 3, simplified])
    (simp_all add: take_bit_eq_mask mask_eq_exp_minus_1)

lemma mod_small: "0 < m \<Longrightarrow> m \<le> 8 \<Longrightarrow> 0 \<le> x mod m \<and> x mod m \<le> (7 :: int)"
  using pos_mod_bound [of m x] pos_mod_sign [of m x] by linarith

lemma octal_sum:
  fixes b :: int
  shows "((b div 64 mod 4 + 48 - 48) * 8 + (b div 8 mod 8 + 48) - 48) * 8 + (b mod 8 + 48) - 48 = b mod 256"
proof -
  have "b mod (64 * 4) = 64 * (b div 64 mod 4) + b mod 64" by (rule zmod_zmult2_eq) simp
  moreover have "b mod (8 * 8) = 8 * (b div 8 mod 8) + b mod 8" by (rule zmod_zmult2_eq) simp
  moreover have "((x + 48 - 48) * 8 + (y + 48) - 48) * 8 + (z + 48) - 48 = 64 * x + (8 * y + z)" for x y z :: int
    by simp
  ultimately show ?thesis by simp
qed

text \<open>The three digits of an octal escape: they are octal, no letter of another escape, and give the
  byte again.\<close>

lemma octal_digits:
  fixes c :: byte
  defines "d1 \<equiv> to_char ((drop_bit 6 (btos c) AND 3) + 48)" and "d2 \<equiv> to_char ((drop_bit 3 (btos c) AND 7) + 48)"
    and "d3 \<equiv> to_char ((btos c AND 7) + 48)"
  shows "is_oct d1" "is_oct d2" "is_oct d3" "map_of escapes d1 = None"
    "to_char (((btos d1 - 48) * 8 + btos d2 - 48) * 8 + btos d3 - 48) = c"
    "is_print d1" "is_print d2" "is_print d3"
proof -
  let ?b = "btos c"
  have r: "0 \<le> ?b div 64 mod 4" "?b div 64 mod 4 \<le> 7" "0 \<le> ?b div 8 mod 8" "?b div 8 mod 8 \<le> 7"
    "0 \<le> ?b mod 8" "?b mod 8 \<le> 7"
    using mod_small [of 4] mod_small [of 8] by simp_all
  show "is_oct d1" "is_oct d2" "is_oct d3" "map_of escapes d1 = None" "is_print d1" "is_print d2" "is_print d3"
    unfolding d1_def d2_def d3_def octal_parts by (rule digit_char, rule r, rule r)+
  have "((btos d1 - 48) * 8 + btos d2 - 48) * 8 + btos d3 - 48 = ?b mod 256"
    unfolding d1_def d2_def d3_def octal_parts digit_char(1) [OF r(1,2)] digit_char(1) [OF r(3,4)] digit_char(1) [OF r(5,6)]
    by (rule octal_sum)
  moreover have "to_char (?b mod 256) = to_char ?b"
    by (simp add: to_char_def word_of_int_eq_iff take_bit_eq_mod)
  moreover have "to_char ?b = c" by (simp add: to_char_def btos_def)
  ultimately show "to_char (((btos d1 - 48) * 8 + btos d2 - 48) * 8 + btos d3 - 48) = c" by simp
qed

lemma quote_not_escape: "map_of escapes 92 = None" "map_of escapes 34 = None" "\<not> is_oct 92" "\<not> is_oct 34"
  "\<not> is_print 0" "is_print 92"
  by code_simp+

lemma str2bts_escaped:
  assumes "rest \<noteq> []"
  shows "str2bts_loop (escaped c @ rest) t = str2bts_loop rest (t @ [c])"
proof (cases "is_print c")
  case True
  then have "c \<noteq> 0" using quote_not_escape(5) by auto
  then show ?thesis using True quote_not_escape by (auto simp: escaped_def)
next
  case False
  obtain d r where r: "rest = d # r" using assms by (cases rest) auto
  have c: "c \<noteq> 92" using False quote_not_escape(6) by auto
  note o = octal_digits [of c]
  have "(92 :: byte) \<noteq> 0" by simp
  then show ?thesis
    using False o by (simp add: escaped_def r Let_def)
qed

lemma str2bts_loop_inverse:
  "str2bts_loop (concat (map escaped b) @ [0]) t = Some (t @ b @ [0])"
  by (induction b arbitrary: t) (simp_all add: str2bts_escaped)

lemma escaped_print: "x \<in> set (escaped c) \<Longrightarrow> is_print x"
  using octal_digits(6-8) [of c] quote_not_escape(6) by (auto simp: escaped_def split: if_splits)

text \<open>
  (C39) \<open>bts2str\<close> turns any row of bytes into a string of printable characters, and \<open>str2bts\<close>
  gives the row back, with its length counted with the final zero byte.
\<close>

theorem bts_roundtrip:
  assumes "0 \<le> n" and "n \<le> int (length b)"
  shows "\<exists>s. bts2str b n = Some (s @ [0]) \<and> (\<forall>c\<in>set s. is_print c)
    \<and> str2bts (s @ [0]) = Some (take (nat n) b @ [0], n + 1)"
proof -
  let ?s = "concat (map escaped (take (nat n) b))"
  have "bts2str b n = Some (?s @ [0])" using assms by (simp add: bts2str_def bts2str_loop_eq)
  moreover have "str2bts (?s @ [0]) = Some (take (nat n) b @ [0], n + 1)"
    using assms by (simp add: str2bts_def str2bts_loop_inverse)
  ultimately show ?thesis using escaped_print by auto
qed

theorem bts_roundtrip_witness:
  "\<exists>s. bts2str [65, 10, 92, 255, 7] 4 = Some (s @ [0]) \<and> str2bts (s @ [0]) = Some ([65, 10, 92, 255, 0], 5)"
  using bts_roundtrip [of 4 "[65, 10, 92, 255, 7]"] by auto

section \<open>Numbers read back\<close>

lemma slong_step: "slong (b * slong l + d) = slong (b * l + d)"
proof -
  have "take_bit 64 (b * slong l + d) = take_bit 64 (b * take_bit 64 (slong l) + d)"
    by (simp add: take_bit_eq_mod mod_add_left_eq [of "b * slong l", symmetric] mod_mult_right_eq
        mod_add_left_eq [of "b * (slong l mod _)", symmetric])
  also have "take_bit 64 (slong l) = take_bit 64 l" by (simp add: slong_def take_bit_signed_take_bit)
  also have "take_bit 64 (b * take_bit 64 l + d) = take_bit 64 (b * l + d)"
    by (simp add: take_bit_eq_mod mod_add_left_eq [of "b * l", symmetric] mod_mult_right_eq
        mod_add_left_eq [of "b * (l mod _)", symmetric])
  finally show ?thesis by (simp add: slong_def signed_take_bit_eq_iff_take_bit_eq)
qed

lemma vec_digit:
  assumes "0 \<le> d" and "d < 16"
  obtains c where "vec_at d = Some c" "digit_value c b = d" "c \<noteq> 45"
proof -
  have "list_all (\<lambda>d. case vec_at d of None \<Rightarrow> False | Some c \<Rightarrow> digit_value c 99 = d \<and> c \<noteq> 45) [0..15]"
    by code_simp
  moreover have "d \<in> set [0..15]" using assms by simp
  ultimately have "case vec_at d of None \<Rightarrow> False | Some c \<Rightarrow> digit_value c 99 = d \<and> c \<noteq> 45"
    unfolding list_all_iff by blast
  then obtain c where c: "vec_at d = Some c" "digit_value c 99 = d" "c \<noteq> 45" by (auto split: option.splits)
  moreover have "digit_value c b = d"
    using c(2) assms by (auto simp: digit_value_def Let_def split: if_splits)
  ultimately show ?thesis using that by blast
qed

lemma digit_value_end: "digit_value 0 b = b"
proof -
  have "\<not> c_uint (btos 0 - 48) \<le> 9" "\<not> c_uint (btos 0 - 65) \<le> 5" "\<not> c_uint (btos 0 - 97) \<le> 5" by code_simp+
  then show ?thesis by (simp add: digit_value_def)
qed

text \<open>The bytes \<open>ds\<close> are read as the number \<open>u\<close>, whatever was read before.\<close>

definition reads :: "int \<Rightarrow> byte list \<Rightarrow> int \<Rightarrow> bool" where
  "reads base ds u \<longleftrightarrow> ds \<noteq> [] \<and> hd ds \<noteq> 45
     \<and> (\<forall>l q. str2long_loop base l (ds @ q) = str2long_loop base (slong (base ^ length ds * l + u)) q)"

lemma reads_digit:
  assumes "vec_at d = Some c" "digit_value c base = d" "c \<noteq> 45" "d < base"
  shows "reads base [c] d"
  using assms by (simp add: reads_def)

lemma reads_snoc:
  assumes "reads base ds u" and "digit_value c base = d" and "d < base"
  shows "reads base (ds @ [c]) (base * u + d)"
  unfolding reads_def
proof (intro conjI allI)
  fix l q
  have "str2long_loop base l ((ds @ [c]) @ q) = str2long_loop base (slong (base ^ length ds * l + u)) (c # q)"
    using assms(1) by (simp add: reads_def)
  also have "\<dots> = str2long_loop base (slong (base * (base ^ length ds * l + u) + d)) q"
    using assms(2,3) by (simp add: slong_step)
  also have "base * (base ^ length ds * l + u) + d = base ^ length (ds @ [c]) * l + (base * u + d)"
    by (simp add: algebra_simps)
  finally show "str2long_loop base l ((ds @ [c]) @ q)
      = str2long_loop base (slong (base ^ length (ds @ [c]) * l + (base * u + d))) q" .
qed (use assms(1) in \<open>auto simp: reads_def\<close>)

lemma reads_end: "reads base ds u \<Longrightarrow> 0 < base \<Longrightarrow> str2long_loop base 0 (ds @ [0]) = Some (slong u)"
  by (simp add: reads_def digit_value_end)

lemma c_int_small: "0 \<le> x \<Longrightarrow> x < 256 \<Longrightarrow> c_int x = x"
  by (simp add: c_int_id)

lemma base_power_mono:
  assumes "2 \<le> (b :: int)" and "u < b ^ Suc k"
  shows "u div b < b ^ k"
proof (rule ccontr)
  assume "\<not> u div b < b ^ k"
  then have "b * b ^ k \<le> b * (u div b)" using assms(1) by (intro mult_left_mono) simp_all
  also have "\<dots> \<le> u" using assms(1) mult_div_mod_eq [of b u] pos_mod_sign [of b u] by linarith
  finally show False using assms(2) by simp
qed

lemma sdiv_smod_nonneg: "0 \<le> a \<Longrightarrow> 0 < b \<Longrightarrow> a sdiv b = a div (b :: int)" "0 \<le> a \<Longrightarrow> 0 < b \<Longrightarrow> a smod b = a mod (b :: int)"
  by (cases "a = 0", simp_all add: signed_divide_int_def signed_modulo_int_def)+

text \<open>The digits of a number below \<open>base ^ k\<close>.\<close>

lemma digit_loop_ok:
  assumes base: "2 \<le> base" "base \<le> 16" and val: "0 \<le> val" "val < base ^ Suc k" and p: "length p + Suc k \<le> 32"
  shows "\<exists>ds. digit_loop base val p = Some (ds @ p) \<and> length ds \<le> Suc k \<and> reads base ds val"
  using val p
proof (induction k arbitrary: val p)
  case (0 val p)
  obtain c where c: "vec_at val = Some c" "digit_value c base = val" "c \<noteq> 45"
    using vec_digit [of val base] 0 base by auto
  have "val smod base = val" "val sdiv base = 0" using 0 base by (simp_all add: sdiv_smod_nonneg)
  then have "digit_loop base val p = Some ([c] @ p)"
    using c 0 base by (simp add: digit_loop.simps [of base val] put_front_def MAXWIDTH_def c_int_id)
  then show ?case using reads_digit [OF c] 0 by auto
next
  case (Suc k val p)
  let ?d = "val mod base" and ?v = "val div base"
  have d: "0 \<le> ?d" "?d < base" using base by simp_all
  then have ci: "c_int ?d = ?d" using base by (intro c_int_small) linarith+
  have v: "val smod base = ?d" "val sdiv base = ?v" using Suc.prems base by (simp_all add: sdiv_smod_nonneg)
  obtain c where c: "vec_at ?d = Some c" "digit_value c base = ?d" "c \<noteq> 45"
    using vec_digit [of ?d base] d base by auto
  have step: "digit_loop base val p = (if ?v = 0 then Some (c # p) else digit_loop base ?v (c # p))"
    using c ci v Suc.prems base by (simp add: digit_loop.simps [of base val] put_front_def MAXWIDTH_def Let_def)
  show ?case
  proof (cases "?v = 0")
    case True
    then have "?d = val" using div_mult_mod_eq [of val base] by simp
    then show ?thesis using True step reads_digit [OF c d(2)] by auto
  next
    case False
    have "?v < base ^ Suc k" using base_power_mono [of base val "Suc k"] Suc.prems(2) base by simp
    then obtain ds where ds: "digit_loop base ?v (c # p) = Some (ds @ c # p)" "length ds \<le> Suc k" "reads base ds ?v"
      using Suc.IH [of ?v "c # p"] Suc.prems base by (auto simp: pos_imp_zdiv_nonneg_iff)
    have "reads base (ds @ [c]) val"
      using reads_snoc [OF ds(3) c(2) d(2)] by (simp add: mult.commute)
    then show ?thesis using ds step False by (intro exI [of _ "ds @ [c]"]) simp
  qed
qed

text \<open>The division by bits at the label \<open>overflow\<close>.  With \<open>i\<close> turns to go, \<open>val\<close> holds the
  \<open>i\<close> bits \<open>D\<close> of the dividend not used yet and, below them, the quotient bits \<open>Q\<close> found.\<close>

lemma slong_negative:
  assumes "0 \<le> x" and "x < 2 ^ 64"
  shows "slong x < 0 \<longleftrightarrow> 2 ^ 63 \<le> x"
proof -
  have "slong x < 0 \<longleftrightarrow> bit x 63" by (simp add: slong_def signed_take_bit_negative_iff)
  also have "\<dots> \<longleftrightarrow> odd (x div 2 ^ 63)" by (simp add: bit_iff_odd)
  also have "\<dots> \<longleftrightarrow> 2 ^ 63 \<le> x"
  proof (cases "x < 2 ^ 63")
    case False
    then have "x div 2 ^ 63 = 1" using assms by (intro int_div_pos_eq [where r = "x - 2 ^ 63"]) simp_all
    then show ?thesis using False by simp
  qed (use assms in simp)
  finally show ?thesis .
qed

lemma ovfl_step:
  assumes "0 \<le> D" "D < 2 ^ Suc i" "0 \<le> Q" "Q < 2 ^ (63 - i)" "i \<le> 63"
  shows "slong (D * 2 ^ (63 - i) + Q) < 0 \<longleftrightarrow> 2 ^ i \<le> D"
    "slong (2 * slong (D * 2 ^ (63 - i) + Q)) = slong (D mod 2 ^ i * 2 ^ (64 - i) + 2 * Q)"
    "slong (slong (2 * slong (D * 2 ^ (63 - i) + Q)) + 1) = slong (D mod 2 ^ i * 2 ^ (64 - i) + (2 * Q + 1))"
proof -
  let ?w = "2 ^ (63 - i) :: int"
  have w: "?w * 2 ^ i = 2 ^ 63" "2 * ?w = 2 ^ (64 - i)"
    using assms(5) by (simp_all flip: power_add power_Suc)
  have lt: "D * ?w + Q < 2 ^ 64"
  proof -
    have "D * ?w + Q < (D + 1) * ?w" using assms(4) by (simp add: algebra_simps)
    also have "\<dots> \<le> 2 ^ Suc i * ?w" using assms(2) by (intro mult_right_mono) simp_all
    also have "\<dots> = 2 ^ 64" using w(1) by (simp add: algebra_simps)
    finally show ?thesis .
  qed
  have "2 ^ 63 \<le> D * ?w + Q \<longleftrightarrow> 2 ^ i \<le> D"
  proof
    assume "2 ^ i \<le> D"
    then have "2 ^ i * ?w \<le> D * ?w" by (intro mult_right_mono) simp_all
    then have "2 ^ 63 \<le> D * ?w" using w(1) by (simp only: mult.commute)
    then show "2 ^ 63 \<le> D * ?w + Q" using assms(3) by linarith
  next
    assume l: "2 ^ 63 \<le> D * ?w + Q"
    show "2 ^ i \<le> D"
    proof (rule ccontr)
      assume "\<not> 2 ^ i \<le> D"
      then have "(D + 1) * ?w \<le> 2 ^ i * ?w" by (intro mult_right_mono) simp_all
      then show False using l w(1) assms(4) by (simp add: algebra_simps)
    qed
  qed
  then show "slong (D * ?w + Q) < 0 \<longleftrightarrow> 2 ^ i \<le> D"
    using slong_negative [of "D * ?w + Q"] lt assms(1,3) by simp
  define q where "q = D div 2 ^ i"
  have D: "D = q * 2 ^ i + D mod 2 ^ i" by (simp only: q_def div_mult_mod_eq)
  have e: "2 * (D * ?w + Q) + d = (D mod 2 ^ i * 2 ^ (64 - i) + 2 * Q + d) + q * 2 ^ 64" for d
  proof -
    have "2 * (D * ?w + Q) + d = 2 * ((q * 2 ^ i + D mod 2 ^ i) * ?w + Q) + d" by (simp only: D [symmetric])
    also have "\<dots> = q * 2 * (?w * 2 ^ i) + D mod 2 ^ i * (2 * ?w) + 2 * Q + d" by (simp add: algebra_simps)
    finally show ?thesis unfolding w by simp
  qed
  have s: "slong (2 * (D * ?w + Q) + d) = slong (D mod 2 ^ i * 2 ^ (64 - i) + 2 * Q + d)" for d
    unfolding e slong_def signed_take_bit_eq_iff_take_bit_eq by (simp add: take_bit_eq_mod)
  show "slong (2 * slong (D * ?w + Q)) = slong (D mod 2 ^ i * 2 ^ (64 - i) + 2 * Q)"
    using slong_step [of 2 _ 0] s [of 0] by simp
  show "slong (slong (2 * slong (D * ?w + Q)) + 1) = slong (D mod 2 ^ i * 2 ^ (64 - i) + (2 * Q + 1))"
    using slong_step [of 2 _ 0] slong_step [of 1 _ 1] s [of 1] by (simp add: add.assoc)
qed

lemma ovfl_loop_eq:
  assumes base: "1 < base" "base < 2 ^ 30"
  shows "0 \<le> md \<Longrightarrow> md < base \<Longrightarrow> 0 \<le> D \<Longrightarrow> D < 2 ^ i \<Longrightarrow> 0 \<le> Q \<Longrightarrow> Q < 2 ^ (64 - i) \<Longrightarrow> i \<le> 64 \<Longrightarrow>
    ovfl_loop i base md (slong (D * 2 ^ (64 - i) + Q))
      = ((md * 2 ^ i + D) mod base, slong (Q * 2 ^ i + (md * 2 ^ i + D) div base))"
proof (induction i arbitrary: md D Q)
  case (Suc i md D Q)
  define t where "t = D div 2 ^ i"
  have D: "D = t * 2 ^ i + D mod 2 ^ i" by (simp only: t_def div_mult_mod_eq)
  have t: "t = (if 2 ^ i \<le> D then 1 else 0)"
  proof (cases "2 ^ i \<le> D")
    case True
    then have "D div 2 ^ i = 1" using Suc.prems(4) by (intro int_div_pos_eq [where r = "D - 2 ^ i"]) simp_all
    then show ?thesis using True by (simp add: t_def)
  qed (use Suc.prems(3) in \<open>simp add: t_def\<close>)
  let ?md = "2 * md + t" and ?D = "D mod 2 ^ i"
  note st = ovfl_step [of D i Q, OF Suc.prems(3,4,5)]
  have i: "i \<le> 63" "Q < 2 ^ (63 - i)" using Suc.prems(6,7) by simp_all
  have q: "2 * Q + 1 < 2 ^ (64 - i)" "2 * Q < 2 ^ (64 - i)"
  proof -
    have "2 ^ (64 - i) = 2 * (2 ^ (63 - i) :: int)" using i(1) by (simp add: Suc_diff_le flip: power_Suc)
    then show "2 * Q + 1 < 2 ^ (64 - i)" "2 * Q < 2 ^ (64 - i)" using i(2) by linarith+
  qed
  have md: "0 \<le> ?md" "?md < 2 * base" using Suc.prems(1,2) t by auto
  have c: "c_int (2 * md) = 2 * md" "c_int (2 * md + 1) = 2 * md + 1"
    using Suc.prems(1,2) base by (simp_all add: c_int_id)
  have body: "ovfl_loop (Suc i) base md (slong (D * 2 ^ (64 - Suc i) + Q)) =
     (if ?md \<ge> base then ovfl_loop i base (?md - base) (slong (?D * 2 ^ (64 - i) + (2 * Q + 1)))
      else ovfl_loop i base ?md (slong (?D * 2 ^ (64 - i) + 2 * Q)))"
    using st [OF i(2,1)] t c by (simp add: Let_def)
  have e: "md * 2 ^ Suc i + D = ?md * 2 ^ i + ?D" by (subst D) (simp add: algebra_simps)
  show ?case
  proof (cases "?md \<ge> base")
    case True
    have n: "(?md - base) * 2 ^ i + ?D = (?md * 2 ^ i + ?D) + base * (- (2 ^ i))" by (simp add: algebra_simps)
    have "((?md - base) * 2 ^ i + ?D) mod base = (?md * 2 ^ i + ?D) mod base"
      unfolding n by (rule mod_mult_self2)
    moreover have "((?md - base) * 2 ^ i + ?D) div base = (?md * 2 ^ i + ?D) div base - 2 ^ i"
      unfolding n using base by (subst div_mult_self2) simp_all
    moreover have "ovfl_loop i base (?md - base) (slong (?D * 2 ^ (64 - i) + (2 * Q + 1)))
      = (((?md - base) * 2 ^ i + ?D) mod base, slong ((2 * Q + 1) * 2 ^ i + ((?md - base) * 2 ^ i + ?D) div base))"
      using True md q Suc.prems(5) i by (intro Suc.IH) simp_all
    moreover have "(2 * Q + 1) * 2 ^ i + (x - 2 ^ i) = Q * 2 ^ Suc i + x" for x :: int by (simp add: algebra_simps)
    ultimately show ?thesis unfolding body e using True by simp
  next
    case False
    then show ?thesis
      unfolding body e using Suc.IH [of ?md ?D "2 * Q"] md q Suc.prems(5) i by (simp add: algebra_simps)
  qed
next
  case (0 md D Q)
  then have "D = 0" by simp
  then show ?case using 0 by simp
qed

lemma slong_ulong: "slong (ulong x) = slong x"
  by (simp add: ulong_def slong_def signed_take_bit_eq_iff_take_bit_eq)

lemma ovfl_digit_ok:
  assumes base: "2 \<le> base" "base \<le> 16" and val: "- (2 ^ 63) \<le> val" "val < 0" and p: "length p < 32"
  obtains c where "ovfl_digit base val p = Some (ulong val div base, c # p)"
    "digit_value c base = ulong val mod base"
proof -
  let ?u = "ulong val"
  have u: "0 \<le> ?u" "?u < 2 ^ 64" by simp_all
  have "slong ?u = slong val" by (rule slong_ulong)
  also have "\<dots> = val" using val by (simp add: slong_id)
  finally have s: "slong ?u = val" .
  have d: "0 \<le> ?u mod base" "?u mod base < 16" using base pos_mod_bound [of base ?u] pos_mod_sign [of base ?u] by linarith+
  have "?u div base \<le> ?u div 2" using base u by (intro zdiv_mono2) simp_all
  moreover have "?u div 2 < 2 ^ 63" using base_power_mono [of 2 ?u 63] by simp
  ultimately have q: "slong (?u div base) = ?u div base"
    using base u by (intro slong_id) (simp_all add: pos_imp_zdiv_nonneg_iff order.trans [of _ 0])
  have "ovfl_loop 64 base 0 val = (?u mod base, ?u div base)"
    using ovfl_loop_eq [of base 0 ?u 64 0] base u s q by simp
  moreover obtain c where "vec_at (?u mod base) = Some c" "digit_value c base = ?u mod base"
    using vec_digit [OF d] by blast
  ultimately show ?thesis using that p by (simp add: ovfl_digit_def put_front_def MAXWIDTH_def)
qed

text \<open>The digits that \<open>long2str\<close> writes, in either way, before the sign.\<close>

lemma wide_digits:
  assumes base: "2 \<le> base" "base \<le> 16" and val: "- (2 ^ 63) \<le> val" "val < 0" and u: "ulong val < base ^ 30"
  shows "\<exists>v p ds. ovfl_digit base val [0] = Some (v, p) \<and> digit_loop base v p = Some (ds @ [0])
    \<and> length ds \<le> 30 \<and> reads base ds (ulong val)"
proof -
  let ?u = "ulong val"
  obtain c where c: "ovfl_digit base val [0] = Some (?u div base, c # [0])" "digit_value c base = ?u mod base"
    using ovfl_digit_ok [OF base val, of "[0]"] by auto
  have "?u div base < base ^ Suc 28" using base_power_mono [of base ?u 29] base u by simp
  then obtain ds where ds: "digit_loop base (?u div base) [c, 0] = Some (ds @ [c, 0])" "length ds \<le> 29"
      "reads base ds (?u div base)"
    using digit_loop_ok [OF base, of "?u div base" 28 "[c, 0]"] base by (auto simp: pos_imp_zdiv_nonneg_iff)
  have "reads base (ds @ [c]) ?u"
    using reads_snoc [OF ds(3) c(2)] base by simp
  then show ?thesis using c(1) ds(1,2) by (intro exI [of _ "?u div base"] exI [of _ "[c, 0]"] exI [of _ "ds @ [c]"]) simp
qed

lemma narrow_digits:
  assumes "2 \<le> base" "base \<le> 16" and "0 \<le> val" "val < base ^ 30"
  shows "\<exists>ds. digit_loop base val [0] = Some (ds @ [0]) \<and> length ds \<le> 30 \<and> reads base ds val"
  using digit_loop_ok [of base val 29 "[0]"] assms by simp

lemma str2long_reads:
  assumes "reads base ds u" and "0 < base"
  shows "str2long (ds @ [0]) base = Some (slong u)" "str2long (45 # ds @ [0]) base = Some (slong (- u))"
proof -
  obtain c cs where c: "ds = c # cs" "c \<noteq> 45" using assms(1) by (cases ds) (auto simp: reads_def)
  show "str2long (ds @ [0]) base = Some (slong u)"
    using reads_end [OF assms] c by (simp add: str2long_def)
  show "str2long (45 # ds @ [0]) base = Some (slong (- u))"
    using reads_end [OF assms] slong_step [of "- 1" u 0] by (simp add: str2long_def)
qed

text \<open>
  (C40) A number printed by \<open>long2str\<close> in a base from 2 to 16, or as unsigned number in a negative
  base, is read back by \<open>str2long\<close>, the smallest number included, if it has at most 30 digits: the
  buffer of 32 bytes then holds it with its sign and the final zero byte.
\<close>

theorem long2str_roundtrip:
  assumes "2 \<le> \<bar>base\<bar>" and "\<bar>base\<bar> \<le> 16" and "- (2 ^ 63) \<le> val" and "val < 2 ^ 63"
    and "(if base > 0 then \<bar>val\<bar> else ulong val) < \<bar>base\<bar> ^ 30"
  shows "\<exists>s. long2str val base = Some s \<and> str2long s \<bar>base\<bar> = Some val"
proof -
  define B where "B = \<bar>base\<bar>"
  note as = assms [folded B_def]
  have b: "(if base < 0 then c_int (- base) else base) = B" using as(1,2) by (auto simp: B_def c_int_id)
  have p: "put_front 0 [] = Some [0]" by (simp add: put_front_def MAXWIDTH_def)
  have minus: "put_front 45 (ds @ [0]) = Some (45 # ds @ [0])" if "length ds \<le> 30" for ds
    using that by (simp add: put_front_def MAXWIDTH_def)
  have neg: "slong (- val) = val \<longleftrightarrow> val = - (2 ^ 63)" if "val < 0"
  proof (cases "val = - (2 ^ 63)")
    case False
    then have "slong (- val) = - val" using that as(3) by (intro slong_id) simp_all
    then show ?thesis using that False by simp
  qed (simp add: slong_def signed_take_bit_int_eq_self_iff)
  have u: "slong (ulong val) = val" "slong (- ulong val) = slong (- val)"
    using slong_step [of "- 1" "ulong val" 0] slong_ulong [of val] slong_id [OF as(3,4)] by simp_all
  consider "val = 0" | "0 < val" | "val < 0" "base > 0" "val \<noteq> - (2 ^ 63)" | "val < 0" "base > 0" "val = - (2 ^ 63)"
    | "val < 0" "base < 0" using as(1) unfolding B_def by linarith
  then have "\<exists>s. long2str val base = Some s \<and> str2long s B = Some val"
  proof cases
    case 1
    have "digit_value 48 B = 0" by (simp add: digit_value_def btos_def c_uint_def)
    then show ?thesis
      using 1 p as(1) by (simp add: long2str_def put_front_def MAXWIDTH_def str2long_def digit_value_end slong_def)
  next
    case 2
    then have "val < B ^ 30" using as(3-5) by (auto simp: ulong_small split: if_splits)
    then obtain ds where "digit_loop B val [0] = Some (ds @ [0])" "reads B ds val"
      using narrow_digits [of B val] as(1,2) 2 by auto
    then show ?thesis
      using 2 p b as str2long_reads(1) [of B ds val] by (simp add: long2str_def Let_def slong_id)
  next
    case 3
    then obtain ds where "digit_loop B (- val) [0] = Some (ds @ [0])" "reads B ds (- val)" "length ds \<le> 30"
      using narrow_digits [of B "- val"] as by auto
    moreover have "slong (- val) = - val" using 3 as(3) by (intro slong_id) simp_all
    ultimately show ?thesis
      using 3 p b as minus str2long_reads(2) [of B ds "- val"] by (simp add: long2str_def Let_def slong_id)
  next
    case 4
    then obtain v q ds where "ovfl_digit B val [0] = Some (v, q)" "digit_loop B v q = Some (ds @ [0])"
        "length ds \<le> 30" "reads B ds (ulong val)"
      using wide_digits [of B val] as by (auto simp: ulong_def take_bit_eq_mod)
    then show ?thesis
      using 4 p b as minus neg u str2long_reads(2) [of B ds "ulong val"] by (simp add: long2str_def Let_def)
  next
    case 5
    then obtain v q ds where "ovfl_digit B val [0] = Some (v, q)" "digit_loop B v q = Some (ds @ [0])"
        "reads B ds (ulong val)"
      using wide_digits [of B val] as by auto
    then show ?thesis
      using 5 p b as u str2long_reads(1) [of B ds "ulong val"] by (simp add: long2str_def Let_def)
  qed
  then show ?thesis by (simp add: B_def)
qed

text \<open>The smallest number in base 10; in base 2 it does not fit the buffer.\<close>

theorem long2str_witness:
  "(\<exists>s. long2str (- 9223372036854775808) 10 = Some s \<and> str2long s 10 = Some (- 9223372036854775808))
   \<and> long2str (- 9223372036854775808) 2 = None"
proof
  show "\<exists>s. long2str (- 9223372036854775808) 10 = Some s \<and> str2long s 10 = Some (- 9223372036854775808)"
    using long2str_roundtrip [of 10 "- 9223372036854775808"] by simp
  show "long2str (- 9223372036854775808) 2 = None" by code_simp
qed

text \<open>\<open>btscmp\<close> takes a proper prefix for the greater of two rows, against its documentation.\<close>

lemma btscmp_prefix:
  assumes "n1 < n2" and "0 \<le> n1" and "n2 \<le> int (length b)" and "n2 < 2 ^ 31"
  shows "btscmp b n1 b n2 = Some (n2 - n1)"
proof -
  have "btscmp_loop k xs xs r = Some r" if "k \<le> length xs" for k xs r
    using that by (induction k arbitrary: xs) (auto simp: Suc_le_length_iff)
  then show ?thesis using assms by (simp add: btscmp_def c_int_id nat_le_iff)
qed

text \<open>Copying up is right unless the target begins inside the source.\<close>

lemma copy_up_ok:
  assumes "b1 \<le> b2 \<or> b2 + int n \<le> b1"
  shows "copy_up n b1 b2 m x = (if b1 \<le> x \<and> x < b1 + int n then m (b2 + (x - b1)) else m x)"
  using assms
proof (induction n arbitrary: b1 b2 m)
  case (Suc n)
  then have "b1 + 1 \<le> b2 + 1 \<or> (b2 + 1) + int n \<le> b1 + 1" by auto
  note IH = Suc.IH [OF this]
  show ?case unfolding copy_up.simps IH using Suc.prems by auto
qed auto

lemma zero_up_ok: "zero_up n b m x = (if b \<le> x \<and> x < b + int n then 0 else m x)"
  by (induction n arbitrary: b m) auto

end
