(* ===== verification/Flt_Arith.thy ===== *)
theory Flt_Arith
  imports Prelude Complex_Main "HOL-Library.While_Combinator"
begin

text \<open>
  The floating point module (\<open>src/modules/src/flt_arith\<close>), with which the compilers evaluate
  floating point constants: its data, shifting and adding of mantissas, normalization, addition,
  comparison, splitting, and conversion from and to integers.  Multiplication, division and
  conversion of strings are in the theories \<open>Flt_Mul\<close>, \<open>Flt_Div\<close> and \<open>Flt_Str\<close>.

  A number is passed by a pointer; the operations are functions of values here.  A result may be
  stored in an operand where the code reads the operand first; \<open>flt_sub\<close> with its result in the
  second operand and \<open>flt_modf\<close> with the integer part in its argument are not covered.  The variable \<open>flt_status\<close> is the second component of a
  result.  An exponent is a \<open>short\<close>: every assignment to it wraps.
\<close>

section \<open>Numbers\<close>

record flt_mantissa =
  flt_h_32 :: "32 word"
  flt_l_32 :: "32 word"

record flt_arith =
  flt_sign :: int
  flt_exp :: int
  flt_mantissa :: flt_mantissa

definition c_short :: "int \<Rightarrow> int" where
  "c_short x = signed_take_bit 15 x"

abbreviation "m1 e \<equiv> flt_h_32 (flt_mantissa e)"
abbreviation "m2 e \<equiv> flt_l_32 (flt_mantissa e)"

definition FLT_OVFL :: int where "FLT_OVFL = 1"
definition FLT_UNFL :: int where "FLT_UNFL = 2"
definition FLT_DIV0 :: int where "FLT_DIV0 = 4"
definition FLT_NOFLT :: int where "FLT_NOFLT = 8"
definition FLT_BTSM :: int where "FLT_BTSM = 16"
definition EXT_MAX :: int where "EXT_MAX = 16384"
definition EXT_MIN :: int where "EXT_MIN = - 16384"

section \<open>Mantissas (\<open>b64_add.c\<close>, \<open>b64_sft.c\<close>)\<close>

text \<open>The sum, and whether it overflowed.\<close>

definition flt_b64_add :: "flt_mantissa \<Rightarrow> flt_mantissa \<Rightarrow> flt_mantissa \<times> bool" where
  "flt_b64_add e1 e2 =
     (let overflow = 0xFFFFFFFF - flt_h_32 e1 < flt_h_32 e2;
          h = flt_h_32 e1 + flt_h_32 e2;
          carry = 0xFFFFFFFF - flt_l_32 e1 < flt_l_32 e2;
          l = flt_l_32 e1 + flt_l_32 e2 in
      if carry then (\<lparr>flt_h_32 = h + 1, flt_l_32 = l\<rparr>, h + 1 = 0 \<or> overflow)
      else (\<lparr>flt_h_32 = h, flt_l_32 = l\<rparr>, overflow))"

definition flt_b64_sft :: "flt_mantissa \<Rightarrow> int \<Rightarrow> flt_mantissa" where
  "flt_b64_sft e n =
     (if n > 63 \<or> n < - 63 then \<lparr>flt_h_32 = 0, flt_l_32 = 0\<rparr>
      else
        let (e, n) = (if n \<ge> 32 then (\<lparr>flt_h_32 = 0, flt_l_32 = flt_h_32 e\<rparr>, n - 32) else (e, n));
            e = (if n > 0 then
                   let l = drop_bit (nat n) (flt_l_32 e) in
                   if flt_h_32 e \<noteq> 0 then
                     \<lparr>flt_h_32 = drop_bit (nat n) (flt_h_32 e),
                      flt_l_32 = l OR push_bit (nat (32 - n)) (flt_h_32 e)\<rparr>
                   else e\<lparr>flt_l_32 := l\<rparr>
                 else e);
            n = - n;
            (e, n) = (if n \<ge> 32 then (\<lparr>flt_h_32 = flt_l_32 e, flt_l_32 = 0\<rparr>, n - 32) else (e, n)) in
        if n > 0 then
          let h = push_bit (nat n) (flt_h_32 e) in
          if flt_l_32 e \<noteq> 0 then
            \<lparr>flt_h_32 = h OR drop_bit (nat (32 - n)) (flt_l_32 e),
             flt_l_32 = push_bit (nat n) (flt_l_32 e)\<rparr>
          else e\<lparr>flt_h_32 := h\<rparr>
        else e)"

section \<open>Normalization and range (\<open>flt_nrm.c\<close>, \<open>flt_chk.c\<close>)\<close>

text \<open>The loop that looks for the highest bit of \<open>m1\<close>: it counts down from \<open>-1\<close>.\<close>

definition nrm_loop :: "32 word \<Rightarrow> int" where
  "nrm_loop m = snd (while (\<lambda>(l, cnt). l AND m = 0) (\<lambda>(l, cnt). (drop_bit 1 l, cnt - 1))
     (0x40000000 :: 32 word, - 1))"

definition flt_nrm :: "flt_arith \<Rightarrow> flt_arith" where
  "flt_nrm e =
     (if m1 e OR m2 e = 0 then e\<lparr>flt_exp := 0, flt_sign := 0\<rparr>
      else
        let e = (if m1 e = 0
                 then e\<lparr>flt_mantissa := \<lparr>flt_h_32 = m2 e, flt_l_32 = 0\<rparr>, flt_exp := c_short (flt_exp e - 32)\<rparr>
                 else e) in
        if m1 e AND 0x80000000 = 0 then
          let cnt = nrm_loop (m1 e) in
          e\<lparr>flt_exp := c_short (flt_exp e + cnt), flt_mantissa := flt_b64_sft (flt_mantissa e) cnt\<rparr>
        else e)"

definition flt_chk :: "flt_arith \<Rightarrow> int \<Rightarrow> flt_arith \<times> int" where
  "flt_chk e status =
     (let (e, status) =
        (if flt_exp e \<ge> EXT_MAX
         then (e\<lparr>flt_exp := EXT_MAX, flt_mantissa := \<lparr>flt_h_32 = 0x80000000, flt_l_32 = 0\<rparr>\<rparr>, FLT_OVFL)
         else (e, status)) in
      if flt_exp e \<le> EXT_MIN
      then (e\<lparr>flt_exp := 0, flt_mantissa := \<lparr>flt_h_32 = 0, flt_l_32 = 0\<rparr>, flt_sign := 0\<rparr>, FLT_UNFL)
      else (e, status))"

section \<open>Addition, comparison, negation (\<open>flt_add.c\<close>, \<open>flt_cmp.c\<close>, \<open>flt_umin.c\<close>)\<close>

text \<open>The difference of two mantissas, the first of which is not less.\<close>

definition mant_sub :: "flt_arith \<Rightarrow> flt_arith \<Rightarrow> flt_arith" where
  "mant_sub e1 e2 =
     (let h = (if m2 e1 < m2 e2 then m1 e1 - 1 else m1 e1) in
      e1\<lparr>flt_mantissa := \<lparr>flt_h_32 = h - m1 e2, flt_l_32 = m2 e1 - m2 e2\<rparr>\<rparr>)"

definition flt_add :: "flt_arith \<Rightarrow> flt_arith \<Rightarrow> flt_arith \<times> int" where
  "flt_add e1 e2 =
     (if m1 e2 OR m2 e2 = 0 then (e1, 0)
      else if m1 e1 OR m2 e1 = 0 then (e2, 0)
      else
        let diff = flt_exp e2 - flt_exp e1;
            e2 = (if diff < 0
                  then e2\<lparr>flt_exp := c_short (flt_exp e2 - diff), flt_mantissa := flt_b64_sft (flt_mantissa e2) (- diff)\<rparr>
                  else e2);
            e1 = (if diff > 0
                  then e1\<lparr>flt_exp := c_short (flt_exp e1 + diff), flt_mantissa := flt_b64_sft (flt_mantissa e1) diff\<rparr>
                  else e1);
            res =
              (if flt_sign e1 \<noteq> flt_sign e2 then
                 if m1 e1 > m1 e2 \<or> m1 e1 = m1 e2 \<and> m2 e1 > m2 e2 then mant_sub e1 e2 else mant_sub e2 e1
               else
                 let (m, carry) = flt_b64_add (flt_mantissa e2) (flt_mantissa e1); res = e2\<lparr>flt_mantissa := m\<rparr> in
                 if carry then
                   let m = flt_b64_sft m 1 in
                   res\<lparr>flt_mantissa := m\<lparr>flt_h_32 := flt_h_32 m OR 0x80000000\<rparr>, flt_exp := c_short (flt_exp res + 1)\<rparr>
                 else res) in
        flt_chk (flt_nrm res) 0)"

definition not_sign :: "flt_arith \<Rightarrow> flt_arith" where
  "not_sign e = e\<lparr>flt_sign := (if flt_sign e = 0 then 1 else 0)\<rparr>"

text \<open>\<open>flt_sub\<close> negates \<open>e2\<close> for the time of the addition.\<close>

definition flt_sub :: "flt_arith \<Rightarrow> flt_arith \<Rightarrow> flt_arith \<times> int" where
  "flt_sub e1 e2 = flt_add e1 (not_sign e2)"

definition flt_cmp :: "flt_arith \<Rightarrow> flt_arith \<Rightarrow> int \<times> int" where
  "flt_cmp e1 e2 = (case flt_sub e1 e2 of (x, status) \<Rightarrow>
     (if m1 x = 0 \<and> m2 x = 0 then 0 else if flt_sign x \<noteq> 0 then - 1 else 1, status))"

definition flt_umin :: "flt_arith \<Rightarrow> flt_arith \<times> int" where
  "flt_umin e = (not_sign e, 0)"

section \<open>Integers (\<open>flt_modf.c\<close>, \<open>flt_ar2flt.c\<close>, \<open>flt_flt2ar.c\<close>)\<close>

definition zero_flt :: flt_arith where
  "zero_flt = \<lparr>flt_sign = 0, flt_exp = 0, flt_mantissa = \<lparr>flt_h_32 = 0, flt_l_32 = 0\<rparr>\<rparr>"

text \<open>Integer part, fraction and status; \<open>flt_modf\<close> sets the status only by its subtraction.\<close>

definition flt_modf :: "flt_arith \<Rightarrow> int \<Rightarrow> flt_arith \<times> flt_arith \<times> int" where
  "flt_modf e status =
     (if flt_exp e < 0 then (zero_flt, e, status)
      else if flt_exp e \<ge> 63 then (e, zero_flt, status)
      else
        let ipart = e\<lparr>flt_mantissa := flt_b64_sft (flt_b64_sft (flt_mantissa e) (63 - flt_exp e)) (flt_exp e - 63)\<rparr> in
        (ipart, flt_sub e ipart))"

definition flt_arith2flt :: "long \<Rightarrow> bool \<Rightarrow> int \<Rightarrow> flt_arith \<times> int" where
  "flt_arith2flt n uns status =
     (let sign = (if \<not> uns \<and> n < 0 then 1 else 0);
          n = (if \<not> uns \<and> n < 0 then slong (- n) else n);
          m = \<lparr>flt_h_32 = word_of_int (drop_bit 32 n), flt_l_32 = word_of_int n\<rparr> in
      if n = 0 then (\<lparr>flt_sign = sign, flt_exp = 0, flt_mantissa = m\<rparr>, status)
      else (flt_nrm \<lparr>flt_sign = sign, flt_exp = 63, flt_mantissa = m\<rparr>, 0))"

text \<open>A number too large for the result is replaced by the nearest \<open>long\<close>, but for the smallest
  \<open>long\<close> itself.\<close>

definition arith_clip :: "flt_arith \<Rightarrow> int \<Rightarrow> flt_arith \<times> int" where
  "arith_clip e uns =
     (if flt_exp e > 62 + uns then
        if flt_sign e \<noteq> 0 \<and> flt_exp e = 63 \<and> m2 e = 0 \<and> m1 e = 0x80000000 then (e, 0)
        else (e\<lparr>flt_exp := c_short (62 + uns + flt_sign e),
                flt_mantissa := (if flt_sign e \<noteq> 0 then \<lparr>flt_h_32 = 0x80000000, flt_l_32 = 0\<rparr>
                                 else \<lparr>flt_h_32 = 0xFFFFFFFF, flt_l_32 = 0xFFFFFFFF\<rparr>)\<rparr>, FLT_OVFL)
      else (e, 0))"

text \<open>The result, the number \<open>e\<close> as the function leaves it, and the status.  The shifts of
  \<open>flt_h_32\<close> are shifts of 32-bit numbers.\<close>

definition flt_flt2arith :: "flt_arith \<Rightarrow> bool \<Rightarrow> long \<times> flt_arith \<times> int" where
  "flt_flt2arith e uns =
     (if flt_sign e \<noteq> 0 \<and> uns then (0, e, FLT_UNFL)
      else if flt_exp e < 0 then (- flt_sign e, e, 0)
      else
        let (e, status) = arith_clip e (if uns then 1 else 0);
            a = flt_b64_sft (flt_mantissa e) (63 - flt_exp e);
            n = uint (flt_l_32 a OR push_bit 16 (push_bit 16 (flt_h_32 a))) in
        (if flt_sign e \<noteq> 0 then slong (- n) else n, e, status))"

section \<open>Mantissas as numbers\<close>

definition mval :: "flt_mantissa \<Rightarrow> int" where
  "mval m = uint (flt_h_32 m) * 2 ^ 32 + uint (flt_l_32 m)"

lemma mval_range [simp]: "0 \<le> mval m" "mval m < 2 ^ 64" "mval m < 18446744073709551616"
proof -
  have "uint (flt_h_32 m) < 2 ^ 32" "uint (flt_l_32 m) < 2 ^ 32" using uint_bounded [where 'a = 32] by simp_all
  then have "mval m < 2 ^ 64" unfolding mval_def by simp
  then show "mval m < 2 ^ 64" "mval m < 18446744073709551616" by simp_all
qed (simp add: mval_def)

lemma mval_parts: "mval m div 2 ^ 32 = uint (flt_h_32 m)" "mval m mod 2 ^ 32 = uint (flt_l_32 m)"
  using uint_bounded [of "flt_l_32 m"] by (simp_all add: mval_def)

lemma mval_inject: "mval m = mval m' \<longleftrightarrow> m = m'"
  using mval_parts [of m] mval_parts [of m'] by (metis flt_mantissa.equality old.unit.exhaust word_uint_eq_iff)

lemma mval_eq_0: "mval m = 0 \<longleftrightarrow> flt_h_32 m = 0 \<and> flt_l_32 m = 0"
proof -
  have "0 \<le> uint (flt_h_32 m)" "0 \<le> uint (flt_l_32 m)" by simp_all
  then have "mval m = 0 \<longleftrightarrow> uint (flt_h_32 m) = 0 \<and> uint (flt_l_32 m) = 0"
    unfolding mval_def by (simp add: add_nonneg_eq_0_iff)
  then show ?thesis by (simp add: word_uint_eq_iff)
qed

lemma or_eq_0: "(a :: 32 word) OR b = 0 \<longleftrightarrow> a = 0 \<and> b = 0"
  by (auto simp: bit_eq_iff bit_simps)

lemma mval_zero [simp]: "mval \<lparr>flt_h_32 = 0, flt_l_32 = 0\<rparr> = 0"
  by (simp add: mval_def)

text \<open>Comparison of mantissas, and the top bit.\<close>

lemma two_words_less:
  fixes h :: int
  assumes "0 \<le> l" "l < 2 ^ 32" "0 \<le> l'" "l' < 2 ^ 32"
  shows "h * 2 ^ 32 + l < h' * 2 ^ 32 + l' \<longleftrightarrow> h < h' \<or> h = h' \<and> l < l'"
proof -
  consider "h < h'" | "h = h'" | "h' < h" by linarith
  then show ?thesis
  proof cases
    case 1
    then have "(h + 1) * 2 ^ 32 \<le> h' * 2 ^ 32" by (intro mult_right_mono) simp_all
    then show ?thesis using 1 assms by (simp add: algebra_simps)
  next
    case 3
    then have "(h' + 1) * 2 ^ 32 \<le> h * 2 ^ 32" by (intro mult_right_mono) simp_all
    then show ?thesis using 3 assms by (simp add: algebra_simps)
  qed simp
qed

lemma uint32 [simp]: "0 \<le> uint (w :: 32 word)" "uint w < 2 ^ 32" "uint w < 4294967296"
  using uint_bounded [of w] by simp_all

lemma mval_less:
  "mval m < mval m' \<longleftrightarrow> flt_h_32 m < flt_h_32 m' \<or> flt_h_32 m = flt_h_32 m' \<and> flt_l_32 m < flt_l_32 m'"
  unfolding mval_def by (subst two_words_less) (simp_all add: word_less_def word_uint_eq_iff)

lemma top_bit: "(w :: 32 word) AND 0x80000000 = 0 \<longleftrightarrow> uint w < 2 ^ 31"
proof -
  have "(w AND 0x80000000 = 0) \<longleftrightarrow> \<not> bit w 31"
    using and_exp_eq_0_iff_not_bit [of w 31] by simp
  also have "\<dots> \<longleftrightarrow> \<not> bit (uint w) 31" by (simp add: bit_uint_iff)
  also have "\<dots> \<longleftrightarrow> even (uint w div 2 ^ 31)" by (simp add: bit_iff_odd)
  also have "\<dots> \<longleftrightarrow> uint w < 2 ^ 31"
  proof (cases "uint w < 2 ^ 31")
    case False
    then have "uint w div 2 ^ 31 = 1"
      by (intro int_div_pos_eq [where r = "uint w - 2 ^ 31"]) (simp_all add: less_diff_eq)
    then show ?thesis using False by simp
  qed simp
  finally show ?thesis .
qed

lemma top_mval: "m1 e AND 0x80000000 = 0 \<longleftrightarrow> mval (flt_mantissa e) < 2 ^ 63"
proof -
  have "mval (flt_mantissa e) < 2 ^ 31 * 2 ^ 32 + 0 \<longleftrightarrow> uint (m1 e) < 2 ^ 31"
    unfolding mval_def by (subst two_words_less) simp_all
  then show ?thesis unfolding top_bit by simp
qed

text \<open>Shifts.\<close>

lemma zdiv_less_pow: "x < y * 2 ^ n \<Longrightarrow> x div 2 ^ n < (y :: int)"
proof (rule ccontr)
  assume a: "x < y * 2 ^ n" and "\<not> x div 2 ^ n < y"
  then have "y * 2 ^ n \<le> (x div 2 ^ n) * 2 ^ n" by (intro mult_right_mono) simp_all
  also have "\<dots> \<le> x" using div_mult_mod_eq [of x "2 ^ n"] pos_mod_sign [of "2 ^ n" x] zero_less_power [of "2 :: int" n] by linarith
  finally show False using a by simp
qed

lemma uint_drop_bit32: "uint (drop_bit n (w :: 32 word)) = uint w div 2 ^ n"
  using drop_bit_eq_div [of n "uint w"] by (simp add: unsigned_drop_bit_eq take_bit_int_eq_self)

lemma shift_parts:
  assumes "0 < n" "n < 32"
  shows "uint (drop_bit n (w :: 32 word)) = uint w div 2 ^ n"
    "uint (push_bit n w) = uint w * 2 ^ n mod 2 ^ 32"
    "uint (drop_bit n l OR push_bit (32 - n) h) = uint l div 2 ^ n + uint (h :: 32 word) * 2 ^ (32 - n) mod 2 ^ 32"
proof -
  show d: "uint (drop_bit n w) = uint w div 2 ^ n" for w :: "32 word"
    by (rule uint_drop_bit32)
  show p: "uint (push_bit n w) = uint w * 2 ^ n mod 2 ^ 32" for n and w :: "32 word"
    using push_bit_eq_mult [of n "uint w"] by (simp add: unsigned_push_bit_eq take_bit_eq_mod)
  have l: "uint l div 2 ^ n < 2 ^ (32 - n)"
  proof -
    have "uint l < 2 ^ (32 - n) * 2 ^ n" using assms by (simp flip: power_add)
    then show ?thesis by (simp add: zdiv_less_pow)
  qed
  have "push_bit (32 - n) (uint h) mod 2 ^ 32 = push_bit (32 - n) (take_bit n (uint h))"
    using assms by (simp only: take_bit_push_bit flip: take_bit_eq_mod) simp
  moreover have "a OR push_bit k b = a + push_bit k b" if "0 \<le> a" "a < 2 ^ k" for a b :: int and k
    using concat_bit_def [of k a b] concat_bit_eq [of k a b] that by (simp add: take_bit_int_eq_self)
  ultimately show "uint (drop_bit n l OR push_bit (32 - n) h) = uint l div 2 ^ n + uint h * 2 ^ (32 - n) mod 2 ^ 32"
    using l by (simp add: unsigned_or_eq d p pos_imp_zdiv_nonneg_iff flip: push_bit_eq_mult)
qed

lemma div_mod_shift:
  fixes H L :: int
  assumes "n \<le> 32" "0 \<le> H" "0 \<le> L" "L < 2 ^ 32"
  shows "(H * 2 ^ 32 + L) div 2 ^ n = (H div 2 ^ n) * 2 ^ 32 + (L div 2 ^ n + H * 2 ^ (32 - n) mod 2 ^ 32)"
proof -
  have w: "(2 :: int) ^ 32 = 2 ^ (32 - n) * 2 ^ n" using assms(1) by (simp flip: power_add)
  have "(H * 2 ^ 32 + L) div 2 ^ n = (L + (H * 2 ^ (32 - n)) * 2 ^ n) div 2 ^ n" unfolding w by (simp add: algebra_simps)
  also have "\<dots> = H * 2 ^ (32 - n) + L div 2 ^ n" by (subst div_mult_self1) simp_all
  also have "H * 2 ^ (32 - n) = (H * 2 ^ (32 - n) div 2 ^ 32) * 2 ^ 32 + H * 2 ^ (32 - n) mod 2 ^ 32" by simp
  also have "H * 2 ^ (32 - n) div 2 ^ 32 = H div 2 ^ n" unfolding w by (simp add: div_mult_mult2 mult.commute)
  finally show ?thesis by simp
qed

lemma mval_sft_right:
  assumes "0 \<le> n"
  shows "mval (flt_b64_sft m n) = mval m div 2 ^ nat n"
proof -
  let ?h = "uint (flt_h_32 m)" and ?l = "uint (flt_l_32 m)"
  have r: "0 \<le> ?h" "?h < 2 ^ 32" "0 \<le> ?l" "?l < 2 ^ 32" using uint_bounded [where 'a = 32] by simp_all
  consider "n = 0" | "0 < n" "n < 32" | "32 \<le> n" "n \<le> 63" | "63 < n" using assms by linarith
  then show ?thesis
  proof cases
    case 1
    then show ?thesis by (simp add: flt_b64_sft_def)
  next
    case 2
    have e: "flt_b64_sft m n = \<lparr>flt_h_32 = drop_bit (nat n) (flt_h_32 m),
        flt_l_32 = drop_bit (nat n) (flt_l_32 m) OR push_bit (32 - nat n) (flt_h_32 m)\<rparr>"
      using 2 by (cases m) (simp add: flt_b64_sft_def Let_def nat_diff_distrib)
    have n: "0 < nat n" "nat n < 32" using 2 by simp_all
    show ?thesis unfolding e
      using div_mod_shift [of "nat n" ?h ?l] r n by (simp add: mval_def shift_parts)
  next
    case 3
    have e: "flt_b64_sft m n = \<lparr>flt_h_32 = 0, flt_l_32 = drop_bit (nat (n - 32)) (flt_h_32 m)\<rparr>"
      using 3 by (cases "n = 32") (simp_all add: flt_b64_sft_def Let_def)
    have "nat n = 32 + nat (n - 32)" using 3 by simp
    then have "mval m div 2 ^ nat n = mval m div 2 ^ 32 div 2 ^ nat (n - 32)"
      by (simp only: power_add) (simp add: zdiv_zmult2_eq)
    then show ?thesis unfolding e mval_parts by (simp add: mval_def uint_drop_bit32)
  next
    case 4
    have "(2 :: int) ^ 64 \<le> 2 ^ nat n" using 4 by (intro power_increasing) simp_all
    then have "mval m div 2 ^ nat n = 0" using mval_range [of m] by (intro div_pos_pos_trivial) linarith+
    then show ?thesis using 4 by (simp add: flt_b64_sft_def)
  qed
qed

lemma div_mod_left:
  fixes H L :: int
  assumes "n \<le> 32" "0 \<le> H" "0 \<le> L" "L < 2 ^ 32"
  shows "(H * 2 ^ 32 + L) * 2 ^ n mod 2 ^ 64
    = (H * 2 ^ n mod 2 ^ 32 + L div 2 ^ (32 - n)) * 2 ^ 32 + L * 2 ^ n mod 2 ^ 32"
proof -
  have w: "(2 :: int) ^ 32 = 2 ^ (32 - n) * 2 ^ n" using assms(1) by (simp flip: power_add)
  let ?a = "L div 2 ^ (32 - n)"
  have l: "L * 2 ^ n = ?a * 2 ^ 32 + L * 2 ^ n mod 2 ^ 32"
  proof -
    have "L * 2 ^ n div 2 ^ 32 = ?a" unfolding w by (simp add: div_mult_mult2)
    then show ?thesis using div_mult_mod_eq [of "L * 2 ^ n" "2 ^ 32"] by simp
  qed
  have a: "0 \<le> ?a" "?a < 2 ^ n" using assms w by (simp_all add: pos_imp_zdiv_nonneg_iff zdiv_less_pow mult.commute)
  have h: "H * 2 ^ n mod 2 ^ 32 = (H mod 2 ^ (32 - n)) * 2 ^ n" unfolding w by (simp add: mult_mod_left mult.commute)
  have "H * 2 ^ n mod 2 ^ 32 + ?a < 2 ^ 32"
  proof -
    have "H mod 2 ^ (32 - n) + 1 \<le> 2 ^ (32 - n)" using pos_mod_bound [of "2 ^ (32 - n)" H] by (simp add: add1_zle_eq)
    then have "(H mod 2 ^ (32 - n) + 1) * 2 ^ n \<le> 2 ^ (32 - n) * 2 ^ n" by (intro mult_right_mono) simp_all
    then show ?thesis unfolding h w using a(2) by (simp add: algebra_simps)
  qed
  then have r: "0 \<le> (H * 2 ^ n mod 2 ^ 32 + ?a) * 2 ^ 32 + L * 2 ^ n mod 2 ^ 32"
    "(H * 2 ^ n mod 2 ^ 32 + ?a) * 2 ^ 32 + L * 2 ^ n mod 2 ^ 32 < 2 ^ 64"
    using a(1) pos_mod_bound [of "2 ^ 32" "L * 2 ^ n"] by simp_all
  define q x where "q = H * 2 ^ n div 2 ^ 32" and "x = H * 2 ^ n mod 2 ^ 32"
  have hq: "H * 2 ^ n = q * 2 ^ 32 + x" by (simp only: q_def x_def div_mult_mod_eq)
  have "(H * 2 ^ 32 + L) * 2 ^ n = (H * 2 ^ n) * 2 ^ 32 + L * 2 ^ n" by (simp add: algebra_simps)
  also have "\<dots> = (q * 2 ^ 32 + x) * 2 ^ 32 + (?a * 2 ^ 32 + L * 2 ^ n mod 2 ^ 32)" by (simp only: hq l [symmetric])
  also have "\<dots> = (x + ?a) * 2 ^ 32 + L * 2 ^ n mod 2 ^ 32 + q * 2 ^ 64" by (simp add: algebra_simps)
  finally have "(H * 2 ^ 32 + L) * 2 ^ n
    = (H * 2 ^ n mod 2 ^ 32 + ?a) * 2 ^ 32 + L * 2 ^ n mod 2 ^ 32 + q * 2 ^ 64" by (simp only: x_def)
  then show ?thesis using mod_pos_pos_trivial [OF r] by (simp only: mod_mult_self1)
qed

lemma mval_sft_left:
  assumes "0 \<le> n"
  shows "mval (flt_b64_sft m (- n)) = mval m * 2 ^ nat n mod 2 ^ 64"
proof -
  let ?h = "uint (flt_h_32 m)" and ?l = "uint (flt_l_32 m)"
  consider "n = 0" | "0 < n" "n < 32" | "32 \<le> n" "n \<le> 63" | "63 < n" using assms by linarith
  then show ?thesis
  proof cases
    case 1
    then show ?thesis by (simp add: flt_b64_sft_def)
  next
    case 2
    have e: "flt_b64_sft m (- n) = \<lparr>flt_h_32 = drop_bit (32 - nat n) (flt_l_32 m) OR push_bit (nat n) (flt_h_32 m),
        flt_l_32 = push_bit (nat n) (flt_l_32 m)\<rparr>"
      using 2 by (cases m) (simp add: flt_b64_sft_def Let_def nat_diff_distrib or.commute)
    have n: "0 < nat n" "nat n < 32" "0 < 32 - nat n" "32 - nat n < 32" "32 - (32 - nat n) = nat n" using 2 by simp_all
    have "uint (drop_bit (32 - nat n) (flt_l_32 m) OR push_bit (nat n) (flt_h_32 m))
        = ?l div 2 ^ (32 - nat n) + ?h * 2 ^ nat n mod 2 ^ 32"
      using shift_parts(3) [OF n(3,4), of "flt_l_32 m" "flt_h_32 m"] n(5) by simp
    then show ?thesis unfolding e
      using div_mod_left [of "nat n" ?h ?l] shift_parts(2) [OF n(1,2)] n by (simp add: mval_def)
  next
    case 3
    have e: "flt_b64_sft m (- n) = \<lparr>flt_h_32 = push_bit (nat (n - 32)) (flt_l_32 m), flt_l_32 = 0\<rparr>"
      using 3 by (cases "n = 32") (simp_all add: flt_b64_sft_def Let_def)
    have n: "nat n = 32 + nat (n - 32)" using 3 by simp
    have "mval m * 2 ^ nat n = ?l * 2 ^ nat (n - 32) * 2 ^ 32 + (?h * 2 ^ nat (n - 32)) * 2 ^ 64"
      unfolding n mval_def power_add by (simp add: algebra_simps)
    then have "mval m * 2 ^ nat n mod 2 ^ 64 = (?l * 2 ^ nat (n - 32) * 2 ^ 32) mod (2 ^ 32 * 2 ^ 32)" by simp
    also have "\<dots> = (?l * 2 ^ nat (n - 32) mod 2 ^ 32) * 2 ^ 32" by (simp only: mult_mod_left)
    finally have r: "mval m * 2 ^ nat n mod 2 ^ 64 = (?l * 2 ^ nat (n - 32) mod 2 ^ 32) * 2 ^ 32" .
    have "uint (push_bit (nat (n - 32)) (flt_l_32 m)) = ?l * 2 ^ nat (n - 32) mod 2 ^ 32"
      using push_bit_eq_mult [of "nat (n - 32)" ?l] by (simp add: unsigned_push_bit_eq take_bit_eq_mod)
    then show ?thesis unfolding e r by (simp add: mval_def)
  next
    case 4
    then have "nat n = 64 + nat (n - 64)" by simp
    then have "mval m * 2 ^ nat n = mval m * 2 ^ nat (n - 64) * 2 ^ 64" by (simp only: power_add) (simp add: algebra_simps)
    then have "mval m * 2 ^ nat n mod 2 ^ 64 = 0" by (simp only: mod_mult_self2_is_0)
    then show ?thesis using 4 by (simp add: flt_b64_sft_def)
  qed
qed

lemma word_overflow: "(0xFFFFFFFF - a < (b :: 32 word)) \<longleftrightarrow> 2 ^ 32 \<le> uint a + uint b"
proof -
  have "uint a \<le> 4294967295" using uint32(3) [of a] by linarith
  then have "uint (0xFFFFFFFF - a) = 4294967295 - uint a" by (subst uint_sub_if') simp
  then show ?thesis by (auto simp: word_less_def)
qed

lemma uint_add32: "uint (a + b :: 32 word) = (if 2 ^ 32 \<le> uint a + uint b then uint a + uint b - 2 ^ 32 else uint a + uint b)"
  by (auto simp: uint_plus_if')

lemma mval_add:
  "mval (fst (flt_b64_add a b)) = (mval a + mval b) mod 2 ^ 64"
  "snd (flt_b64_add a b) \<longleftrightarrow> 2 ^ 64 \<le> mval a + mval b"
proof -
  obtain ah al bh bl where ab: "a = \<lparr>flt_h_32 = ah, flt_l_32 = al\<rparr>" "b = \<lparr>flt_h_32 = bh, flt_l_32 = bl\<rparr>"
    by (cases a, cases b) auto
  define c :: int where "c = (if 2 ^ 32 \<le> uint al + uint bl then 1 else 0)"
  define v where "v = uint ah + uint bh + c"
  have l: "uint (al + bl) = uint al + uint bl - c * 2 ^ 32" "0 \<le> uint (al + bl)" "uint (al + bl) < 2 ^ 32"
    by (simp_all only: uint32) (simp add: c_def uint_add32)
  have c1: "c = 0 \<or> c = 1" by (simp add: c_def)
  have sum: "mval a + mval b = v * 2 ^ 32 + uint (al + bl)"
    unfolding l(1) v_def by (simp add: ab mval_def algebra_simps)
  have b: "uint ah + uint bh \<le> 8589934590" using uint32(3) [of ah] uint32(3) [of bh] by linarith
  have h: "uint (ah + bh + word_of_int c) = (if 2 ^ 32 \<le> v then v - 2 ^ 32 else v)" "v < 2 ^ 33" "0 \<le> v"
    using c1 b by (auto simp: uint_add32 v_def)
  have f: "flt_b64_add a b = (\<lparr>flt_h_32 = ah + bh + word_of_int c, flt_l_32 = al + bl\<rparr>, 2 ^ 32 \<le> v)"
  proof -
    have "ah + bh + 1 = 0 \<longleftrightarrow> uint (ah + bh + 1) = 0" by (simp add: word_uint_eq_iff)
    moreover have "uint ah + uint bh + 1 \<noteq> 0" using uint32(1) [of ah] uint32(1) [of bh] by linarith
    ultimately show ?thesis
      using b unfolding flt_b64_add_def Let_def word_overflow
      by (auto simp: ab v_def c_def uint_add32)
  qed
  have w: "2 ^ 64 \<le> mval a + mval b \<longleftrightarrow> 2 ^ 32 \<le> v"
    unfolding sum using l(2,3) two_words_less [of "uint (al + bl)" 0 v "2 ^ 32"] by (auto simp: not_less [symmetric])
  then show "snd (flt_b64_add a b) \<longleftrightarrow> 2 ^ 64 \<le> mval a + mval b" by (simp add: f)
  have "mval (fst (flt_b64_add a b)) = mval a + mval b - (if 2 ^ 32 \<le> v then 2 ^ 64 else 0)"
    unfolding sum f fst_conv mval_def [of "\<lparr>flt_h_32 = _, flt_l_32 = _\<rparr>"] using h(1) by simp
  then have "mval (fst (flt_b64_add a b)) = mval a + mval b - (if 2 ^ 64 \<le> mval a + mval b then 2 ^ 64 else 0)"
    by (simp only: w)
  then have "mval a + mval b = mval (fst (flt_b64_add a b)) + (if 2 ^ 64 \<le> mval a + mval b then 1 else 0) * 2 ^ 64"
    by simp
  then have "(mval a + mval b) mod 2 ^ 64 = mval (fst (flt_b64_add a b)) mod 2 ^ 64" by (metis mod_mult_self1)
  then show "mval (fst (flt_b64_add a b)) = (mval a + mval b) mod 2 ^ 64" by simp
qed

section \<open>Normalization\<close>

lemma mask_bit: "(2 ^ k :: 32 word) AND m = 0 \<longleftrightarrow> \<not> bit m k"
  using and_exp_eq_0_iff_not_bit [of m k] by (simp add: and.commute)

text \<open>The loop stops at the highest bit.\<close>

lemma nrm_loop_eq:
  assumes m: "bit m k" and k: "k \<le> 30" and above: "\<And>j. k < j \<Longrightarrow> j \<le> 30 \<Longrightarrow> \<not> bit m j"
  shows "nrm_loop m = int k - 31"
proof -
  let ?b = "\<lambda>(l, cnt :: int). l AND m = 0" and ?c = "\<lambda>(l :: 32 word, cnt :: int). (drop_bit 1 l, cnt - 1)"
  have "while ?b ?c (2 ^ (k + d), int (k + d) - 31) = (2 ^ k, int k - 31)" if "k + d \<le> 30" for d
    using that
  proof (induction d)
    case 0
    have "\<not> ?b (2 ^ k, int k - 31)" using m k by (simp add: mask_bit)
    then show ?case by (subst while_unfold) simp
  next
    case (Suc d)
    have "?b (2 ^ (k + Suc d), int (k + Suc d) - 31)" using above [of "k + Suc d"] Suc.prems
      by (simp only: split mask_bit) simp
    moreover have "drop_bit 1 (2 ^ Suc (k + d) :: 32 word) = 2 ^ (k + d)"
      by (rule bit_word_eqI) (use Suc.prems in \<open>auto simp: bit_simps simp del: power_Suc\<close>)
    ultimately show ?case using Suc by (subst while_unfold) simp
  qed
  from this [of "30 - k"] k have "while ?b ?c (2 ^ 30, - 1) = (2 ^ k, int k - 31)" by simp
  then show ?thesis by (simp add: nrm_loop_def)
qed

lemma nrm_loop_ok:
  assumes "m \<noteq> 0" and "uint m < 2 ^ 31"
  obtains k where "k \<le> 30" "nrm_loop m = int k - 31" "2 ^ k \<le> uint m" "uint m < 2 ^ Suc k"
proof -
  have "0 < uint m" using assms(1) uint32(1) [of m] by (simp add: word_uint_eq_iff order.not_eq_order_implies_strict)
  then have "1 \<le> nat (uint m)" by linarith
  then obtain k where k': "2 ^ k \<le> nat (uint m)" "nat (uint m) < 2 ^ (k + 1)"
    using ex_power_ivl1 [of 2 "nat (uint m)"] by auto
  have k: "2 ^ k \<le> uint m" "uint m < 2 ^ Suc k"
    using k' \<open>0 < uint m\<close> by (simp_all only: le_nat_iff nat_less_iff order.strict_implies_order of_nat_power of_nat_numeral Suc_eq_plus1)
  have k30: "k \<le> 30"
  proof (rule ccontr)
    assume "\<not> k \<le> 30"
    then have "(2 :: int) ^ 31 \<le> 2 ^ k" by (intro power_increasing) simp_all
    then show False using k(1) assms(2) by linarith
  qed
  have "uint m div 2 ^ k = 1" using k by (intro int_div_pos_eq [where r = "uint m - 2 ^ k"]) simp_all
  then have "bit (uint m) k" by (simp add: bit_iff_odd)
  then have b: "bit m k" by (simp add: bit_uint_iff)
  have "\<not> bit m j" if "k < j" for j
  proof -
    have "(2 :: int) ^ Suc k \<le> 2 ^ j" using that by (intro power_increasing) simp_all
    then have "uint m div 2 ^ j = 0" using k(2) by (intro div_pos_pos_trivial) simp_all
    then have "\<not> bit (uint m) j" by (simp add: bit_iff_odd)
    then show ?thesis using bit_imp_le_length [of m j] by (auto simp: bit_uint_iff)
  qed
  then show ?thesis using that [OF k30 _ k] nrm_loop_eq [OF b k30] by blast
qed

text \<open>A nonzero number is shifted left until its top bit is set, and the exponent follows.\<close>

lemma flt_nrm_shift:
  assumes nz: "mval (flt_mantissa e) \<noteq> 0" and ex: "- 32000 \<le> flt_exp e" "flt_exp e < 2 ^ 15"
  obtains k where "k \<le> 63" "flt_sign (flt_nrm e) = flt_sign e" "flt_exp (flt_nrm e) = flt_exp e - int k"
    "mval (flt_mantissa (flt_nrm e)) = mval (flt_mantissa e) * 2 ^ k" "2 ^ 63 \<le> mval (flt_mantissa (flt_nrm e))"
proof -
  define e' where "e' = (if m1 e = 0
     then e\<lparr>flt_mantissa := \<lparr>flt_h_32 = m2 e, flt_l_32 = 0\<rparr>, flt_exp := c_short (flt_exp e - 32)\<rparr> else e)"
  define a :: nat where "a = (if m1 e = 0 then 32 else 0)"
  have sh: "c_short x = x" if "- (2 ^ 15) \<le> x" "x < 2 ^ 15" for x
    using that by (simp add: c_short_def signed_take_bit_int_eq_self)
  have e': "e' = e\<lparr>flt_exp := flt_exp e - int a, flt_mantissa := flt_mantissa e'\<rparr>"
    using ex sh by (cases e) (simp add: e'_def a_def)
  have v': "mval (flt_mantissa e') = mval (flt_mantissa e) * 2 ^ a"
    by (simp add: e'_def a_def mval_def)
  have h': "m1 e' \<noteq> 0" using nz by (auto simp: e'_def mval_eq_0)
  have nrm: "flt_nrm e = (if m1 e' AND 0x80000000 = 0 then
      e'\<lparr>flt_exp := c_short (flt_exp e' + nrm_loop (m1 e')), flt_mantissa := flt_b64_sft (flt_mantissa e') (nrm_loop (m1 e'))\<rparr> else e')"
    using nz by (auto simp: flt_nrm_def mval_eq_0 or_eq_0 Let_def e'_def [symmetric])
  show ?thesis
  proof (cases "mval (flt_mantissa e') < 2 ^ 63")
    case False
    then have "flt_nrm e = e'" unfolding nrm by (simp add: top_mval)
    moreover have "flt_sign e' = flt_sign e" "flt_exp e' = flt_exp e - int a" by (subst e', simp)+
    ultimately show ?thesis using that [of a] v' False by (simp add: a_def)
  next
    case True
    then have t: "m1 e' AND 0x80000000 = 0" by (simp add: top_mval)
    then obtain k where k: "k \<le> 30" "nrm_loop (m1 e') = int k - 31" "2 ^ k \<le> uint (m1 e')" "uint (m1 e') < 2 ^ Suc k"
      using nrm_loop_ok [OF h'] by (auto simp: top_bit)
    let ?M = "mval (flt_mantissa e')"
    have lo: "2 ^ k * 2 ^ 32 \<le> ?M"
      using mult_right_mono [OF k(3), of "2 ^ 32"] uint32(1) [of "m2 e'"] unfolding mval_def
      by (simp add: add_increasing2)
    have hi: "?M < 2 ^ Suc k * 2 ^ 32"
      using k(4) two_words_less [of "uint (m2 e')" 0 "uint (m1 e')" "2 ^ Suc k"] by (simp add: mval_def)
    have p: "(2 :: int) ^ k * 2 ^ 32 * 2 ^ (31 - k) = 2 ^ 63" using k(1) by (simp flip: power_add)
    have "?M * 2 ^ (31 - k) < 2 ^ Suc k * 2 ^ 32 * 2 ^ (31 - k)" by (rule mult_strict_right_mono [OF hi]) simp
    also have "\<dots> = 2 * (2 ^ k * 2 ^ 32 * 2 ^ (31 - k))" by simp
    finally have hi': "?M * 2 ^ (31 - k) < 2 ^ 64" unfolding p by simp
    have lo': "2 ^ 63 \<le> ?M * 2 ^ (31 - k)"
      unfolding p [symmetric] by (rule mult_right_mono [OF lo]) simp
    have n: "nrm_loop (m1 e') = - int (31 - k)" using k(1,2) by simp
    define mm where "mm = flt_b64_sft (flt_mantissa e') (- int (31 - k))"
    have mm: "mval mm = mval (flt_mantissa e) * 2 ^ (a + (31 - k))" "2 ^ 63 \<le> mval mm"
      using mval_sft_left [of "int (31 - k)" "flt_mantissa e'"] hi' lo' v'
      by (simp_all add: mm_def mod_pos_pos_trivial power_add mult.assoc)
    have "flt_exp e' = flt_exp e - int a" by (subst e') simp
    then have "c_short (flt_exp e' - int (31 - k)) = flt_exp e - int (a + (31 - k))"
      using ex by (subst sh) (auto simp: a_def)
    then have "flt_nrm e = e'\<lparr>flt_exp := flt_exp e - int (a + (31 - k)), flt_mantissa := mm\<rparr>"
      unfolding nrm n using t by (simp add: mm_def)
    also have "\<dots> = e\<lparr>flt_exp := flt_exp e - int (a + (31 - k)), flt_mantissa := mm\<rparr>" by (subst e') simp
    finally have "flt_nrm e = e\<lparr>flt_exp := flt_exp e - int (a + (31 - k)), flt_mantissa := mm\<rparr>" .
    moreover have "a + (31 - k) \<le> 63" unfolding a_def by (cases "m1 e = 0") (use k(1) in auto)
    ultimately show ?thesis using that [of "a + (31 - k)"] mm by simp
  qed
qed

section \<open>Values\<close>

text \<open>The number that a sign, a mantissa and an exponent stand for.\<close>

definition scaled :: "int \<Rightarrow> int \<Rightarrow> int \<Rightarrow> real" where
  "scaled s m x = (if s = 0 then 1 else - 1) * of_int m * 2 powi (x - 63)"

definition fval :: "flt_arith \<Rightarrow> real" where
  "fval e = scaled (flt_sign e) (mval (flt_mantissa e)) (flt_exp e)"

definition normal :: "flt_arith \<Rightarrow> bool" where
  "normal e \<longleftrightarrow> flt_sign e \<in> {0, 1} \<and> 2 ^ 63 \<le> mval (flt_mantissa e)
     \<and> EXT_MIN < flt_exp e \<and> flt_exp e < EXT_MAX"

text \<open>The numbers that operations take: normalized and in range, or zero.\<close>

definition finite_flt :: "flt_arith \<Rightarrow> bool" where
  "finite_flt e \<longleftrightarrow> normal e \<or> mval (flt_mantissa e) = 0"

lemma scaled_shift: "scaled s (m * 2 ^ k) x = scaled s m (x + int k)"
  by (simp add: scaled_def power_int_add power_int_diff)

lemma scaled_abs: "0 \<le> m \<Longrightarrow> \<bar>scaled s m x\<bar> = of_int m * 2 powi (x - 63)"
  by (simp add: scaled_def abs_mult)

lemma scaled_0 [simp]: "scaled s 0 x = 0"
  by (simp add: scaled_def)

lemma powi_pos [simp]: "0 < (2 :: real) powi n"
  by simp

lemma fval_nrm:
  assumes "- 32000 \<le> flt_exp e" "flt_exp e < 2 ^ 15"
  shows "fval (flt_nrm e) = fval e"
proof (cases "mval (flt_mantissa e) = 0")
  case True
  then show ?thesis using mval_eq_0 [of "flt_mantissa e"] by (simp add: flt_nrm_def fval_def)
next
  case False
  then obtain k where "flt_sign (flt_nrm e) = flt_sign e" "flt_exp (flt_nrm e) = flt_exp e - int k"
    and m: "mval (flt_mantissa (flt_nrm e)) = mval (flt_mantissa e) * 2 ^ k"
    using flt_nrm_shift [OF _ assms] by metis
  then show ?thesis by (simp add: fval_def m scaled_shift)
qed

lemma fval_normal_bounds:
  assumes "2 ^ 63 \<le> mval (flt_mantissa e)"
  shows "2 powi flt_exp e \<le> \<bar>fval e\<bar>" "\<bar>fval e\<bar> < 2 powi (flt_exp e + 1)"
proof -
  have p: "(2 :: real) powi x = 2 ^ 63 * 2 powi (x - 63)" for x by (simp add: power_int_diff)
  have "real_of_int (2 ^ 63) \<le> of_int (mval (flt_mantissa e))" using assms by (simp only: of_int_le_iff)
  then show "2 powi flt_exp e \<le> \<bar>fval e\<bar>"
    unfolding fval_def p [of "flt_exp e"] by (subst scaled_abs) (simp_all add: mult_right_mono)
  have "real_of_int (mval (flt_mantissa e)) < of_int (2 ^ 64)" by (simp only: of_int_less_iff mval_range)
  then show "\<bar>fval e\<bar> < 2 powi (flt_exp e + 1)"
    unfolding fval_def p [of "flt_exp e + 1"] by (subst scaled_abs) (simp_all add: power_int_add power_int_diff)
qed

text \<open>Dropping the low bits of a mantissa loses less than one unit.\<close>

lemma scaled_trunc:
  assumes "0 \<le> m"
  shows "\<bar>scaled s m x - scaled s (m div 2 ^ d) (x + int d)\<bar> < 2 powi (x + int d - 63)"
proof -
  let ?q = "real_of_int (m div 2 ^ d)" and ?r = "real_of_int (m mod 2 ^ d)"
  have "m = (m div 2 ^ d) * 2 ^ d + m mod 2 ^ d" by (simp only: div_mult_mod_eq)
  then have "real_of_int m = ?q * 2 ^ d + ?r" by (metis of_int_add of_int_mult of_int_power of_int_numeral)
  moreover have "2 powi (x + int d - 63) = 2 ^ d * (2 powi (x - 63) :: real)"
    by (simp add: power_int_add power_int_diff)
  ultimately have "scaled s m x - scaled s (m div 2 ^ d) (x + int d) = (if s = 0 then 1 else - 1) * ?r * 2 powi (x - 63)"
    by (simp add: scaled_def algebra_simps)
  then have "\<bar>scaled s m x - scaled s (m div 2 ^ d) (x + int d)\<bar> = ?r * 2 powi (x - 63)"
    by (simp add: abs_mult)
  also have "\<dots> < 2 ^ d * 2 powi (x - 63)"
  proof -
    have "m mod 2 ^ d < 2 ^ d" by simp
    then have "?r < of_int (2 ^ d)" by (simp only: of_int_less_iff)
    then show ?thesis by simp
  qed
  also have "\<dots> = 2 powi (x + int d - 63)" by (simp add: power_int_add power_int_diff)
  finally show ?thesis .
qed

end
