(* ===== verification/Flt_Add.thy ===== *)
theory Flt_Add
  imports Flt_Arith
begin

text \<open>
  Addition, comparison, splitting and integer conversion of the floating point module: how near
  \<open>flt_add\<close> comes to the sum, that \<open>flt_cmp\<close> compares, that \<open>flt_modf\<close> splits without error, and
  what the conversions from and to integers do.
\<close>

section \<open>Addition\<close>

text \<open>A number moved to a higher exponent.\<close>

definition aligned :: "flt_arith \<Rightarrow> int \<Rightarrow> flt_arith" where
  "aligned e d = (if d > 0
     then e\<lparr>flt_exp := c_short (flt_exp e + d), flt_mantissa := flt_b64_sft (flt_mantissa e) d\<rparr> else e)"

text \<open>The sum of two numbers with the same exponent, before it is normalized.\<close>

definition raw_sum :: "flt_arith \<Rightarrow> flt_arith \<Rightarrow> flt_arith" where
  "raw_sum e1 e2 =
     (if flt_sign e1 \<noteq> flt_sign e2 then
        if m1 e1 > m1 e2 \<or> m1 e1 = m1 e2 \<and> m2 e1 > m2 e2 then mant_sub e1 e2 else mant_sub e2 e1
      else
        let (m, carry) = flt_b64_add (flt_mantissa e2) (flt_mantissa e1); res = e2\<lparr>flt_mantissa := m\<rparr> in
        if carry then
          let m = flt_b64_sft m 1 in
          res\<lparr>flt_mantissa := m\<lparr>flt_h_32 := flt_h_32 m OR 0x80000000\<rparr>, flt_exp := c_short (flt_exp res + 1)\<rparr>
        else res)"

lemma flt_add_eq:
  "flt_add e1 e2 =
     (if mval (flt_mantissa e2) = 0 then (e1, 0) else if mval (flt_mantissa e1) = 0 then (e2, 0)
      else flt_chk (flt_nrm (raw_sum (aligned e1 (flt_exp e2 - flt_exp e1)) (aligned e2 (flt_exp e1 - flt_exp e2)))) 0)"
proof -
  have "aligned e2 (flt_exp e1 - flt_exp e2) = (if flt_exp e2 - flt_exp e1 < 0
      then e2\<lparr>flt_exp := c_short (flt_exp e2 - (flt_exp e2 - flt_exp e1)),
        flt_mantissa := flt_b64_sft (flt_mantissa e2) (- (flt_exp e2 - flt_exp e1))\<rparr> else e2)"
    by (simp add: aligned_def)
  then show ?thesis
    unfolding flt_add_def raw_sum_def aligned_def [of e1] Let_def by (simp only: mval_eq_0 or_eq_0)
qed

lemma c_short_id: "- (2 ^ 15) \<le> x \<Longrightarrow> x < 2 ^ 15 \<Longrightarrow> c_short x = x"
  by (simp add: c_short_def signed_take_bit_int_eq_self)

lemma aligned_ok:
  assumes "0 \<le> mval (flt_mantissa e)" "- 16384 \<le> flt_exp e" "flt_exp e + d < 16384" "flt_exp e < 16384"
  shows "flt_sign (aligned e d) = flt_sign e" "flt_exp (aligned e d) = flt_exp e + max 0 d"
    "mval (flt_mantissa (aligned e d)) = mval (flt_mantissa e) div 2 ^ nat (max 0 d)"
proof -
  have "c_short (flt_exp e + d) = flt_exp e + d" if "0 < d"
    using assms that by (intro c_short_id) simp_all
  then show "flt_sign (aligned e d) = flt_sign e" "flt_exp (aligned e d) = flt_exp e + max 0 d"
    "mval (flt_mantissa (aligned e d)) = mval (flt_mantissa e) div 2 ^ nat (max 0 d)"
    by (auto simp: aligned_def mval_sft_right)
qed

text \<open>The value of an aligned number: it is less than one unit nearer to zero.\<close>

lemma fval_aligned:
  assumes "- 16384 \<le> flt_exp e" "flt_exp e + d < 16384" "flt_exp e < 16384"
  shows "\<bar>fval e - fval (aligned e d)\<bar> < 2 powi (flt_exp e + max 0 d - 63)"
  using scaled_trunc [of "mval (flt_mantissa e)" "flt_sign e" "flt_exp e" "nat (max 0 d)"]
  by (simp add: fval_def aligned_ok [OF _ assms])

lemma aligned_le:
  assumes "- 16384 \<le> flt_exp e" "flt_exp e + d < 16384" "flt_exp e < 16384"
  shows "\<bar>fval (aligned e d)\<bar> \<le> \<bar>fval e\<bar>"
proof -
  let ?m = "mval (flt_mantissa e)" and ?d = "nat (max 0 d)"
  have "?m div 2 ^ ?d * 2 ^ ?d \<le> ?m"
    using div_mult_mod_eq [of ?m "2 ^ ?d"] pos_mod_sign [of "2 ^ ?d" ?m] zero_less_power [of "2 :: int" ?d] by linarith
  then have "of_int (?m div 2 ^ ?d * 2 ^ ?d) \<le> real_of_int ?m" by (simp only: of_int_le_iff)
  then have "of_int (?m div 2 ^ ?d * 2 ^ ?d) * 2 powi (flt_exp e - 63) \<le> real_of_int ?m * 2 powi (flt_exp e - 63)"
    by (rule mult_right_mono) simp
  then have "\<bar>scaled (flt_sign e) (?m div 2 ^ ?d * 2 ^ ?d) (flt_exp e)\<bar> \<le> \<bar>scaled (flt_sign e) ?m (flt_exp e)\<bar>"
    by (subst (1 2) scaled_abs) (simp_all add: pos_imp_zdiv_nonneg_iff)
  then show ?thesis unfolding scaled_shift using assms by (simp add: fval_def aligned_ok)
qed

lemma uint_sub32: "uint (a - b :: 32 word) = (if uint a < uint b then uint a - uint b + 2 ^ 32 else uint a - uint b)"
  by (auto simp: uint_sub_if')

lemma mval_mant_sub:
  assumes "mval (flt_mantissa e2) \<le> mval (flt_mantissa e1)"
  shows "mval (flt_mantissa (mant_sub e1 e2)) = mval (flt_mantissa e1) - mval (flt_mantissa e2)"
    "flt_sign (mant_sub e1 e2) = flt_sign e1" "flt_exp (mant_sub e1 e2) = flt_exp e1"
proof -
  define c :: int where "c = (if uint (m2 e1) < uint (m2 e2) then 1 else 0)"
  have le: "m1 e2 < m1 e1 \<or> m1 e2 = m1 e1 \<and> m2 e2 \<le> m2 e1"
    using assms mval_less [of "flt_mantissa e1" "flt_mantissa e2"] by (auto simp: not_less [symmetric])
  then have h: "uint (m1 e2) + c \<le> uint (m1 e1)"
    by (auto simp: c_def word_less_def word_le_def)
  have pos: "c = 1 \<Longrightarrow> 1 \<le> uint (m1 e1)" using h uint32(1) [of "m1 e2"] by linarith
  have "uint (m1 e1 - word_of_int c - m1 e2) = uint (m1 e1) - c - uint (m1 e2)"
    using h pos by (auto simp: uint_sub32 c_def split: if_splits)
  moreover have "uint (m2 e1 - m2 e2) = uint (m2 e1) - uint (m2 e2) + c * 2 ^ 32" by (simp add: uint_sub32 c_def)
  moreover have "mant_sub e1 e2 = e1\<lparr>flt_mantissa := \<lparr>flt_h_32 = m1 e1 - word_of_int c - m1 e2, flt_l_32 = m2 e1 - m2 e2\<rparr>\<rparr>"
    by (simp add: mant_sub_def c_def word_less_def)
  ultimately show "mval (flt_mantissa (mant_sub e1 e2)) = mval (flt_mantissa e1) - mval (flt_mantissa e2)"
    "flt_sign (mant_sub e1 e2) = flt_sign e1" "flt_exp (mant_sub e1 e2) = flt_exp e1"
    by (simp_all add: mval_def algebra_simps)
qed

lemma or_top: "uint (w :: 32 word) < 2 ^ 31 \<Longrightarrow> uint (w OR 0x80000000) = uint w + 2 ^ 31"
proof -
  assume "uint w < 2 ^ 31"
  then have "uint w OR push_bit 31 1 = uint w + push_bit 31 1"
    using concat_bit_def [of 31 "uint w" 1] concat_bit_eq [of 31 "uint w" 1] by (simp add: take_bit_int_eq_self)
  then show ?thesis by (simp add: unsigned_or_eq)
qed

text \<open>The sum is exact, but for the bit that is lost with a carry.\<close>

lemma raw_sum_ok:
  assumes x: "flt_exp e1 = E" "flt_exp e2 = E" "- 16384 \<le> E" "E < 16384" and s: "flt_sign e1 \<in> {0, 1}" "flt_sign e2 \<in> {0, 1}"
  defines "A \<equiv> mval (flt_mantissa e1)" and "B \<equiv> mval (flt_mantissa e2)" and "r \<equiv> raw_sum e1 e2"
  shows "if flt_sign e1 \<noteq> flt_sign e2 then
      flt_exp r = E \<and> mval (flt_mantissa r) = \<bar>A - B\<bar> \<and> flt_sign r = (if B < A then flt_sign e1 else flt_sign e2)
    else flt_sign r = flt_sign e1 \<and>
      (if A + B < 2 ^ 64 then flt_exp r = E \<and> mval (flt_mantissa r) = A + B
       else flt_exp r = E + 1 \<and> mval (flt_mantissa r) = (A + B) div 2)"
proof (cases "flt_sign e1 = flt_sign e2")
  case False
  have "(m1 e1 > m1 e2 \<or> m1 e1 = m1 e2 \<and> m2 e1 > m2 e2) \<longleftrightarrow> B < A"
    unfolding A_def B_def mval_less by auto
  then have "r = (if B < A then mant_sub e1 e2 else mant_sub e2 e1)"
    using False by (simp add: r_def raw_sum_def)
  then show ?thesis using False x mval_mant_sub [of e2 e1] mval_mant_sub [of e1 e2] by (simp add: A_def B_def)
next
  case True
  obtain m c where add: "flt_b64_add (flt_mantissa e2) (flt_mantissa e1) = (m, c)" by fastforce
  then have m: "mval m = (A + B) mod 2 ^ 64" "c \<longleftrightarrow> 2 ^ 64 \<le> A + B"
    using mval_add [of "flt_mantissa e2" "flt_mantissa e1"] by (simp_all add: A_def B_def add.commute)
  show ?thesis
  proof (cases "A + B < 2 ^ 64")
    case small: True
    then have "r = e2\<lparr>flt_mantissa := m\<rparr>" using True add m(2) by (simp add: r_def raw_sum_def)
    moreover have "mval m = A + B" using small by (simp add: m(1) A_def B_def mod_pos_pos_trivial)
    ultimately show ?thesis using True small x by simp
  next
    case False
    let ?h = "flt_b64_sft m 1"
    have "A + B < 2 * 2 ^ 64" 
      using mval_range(2) [of "flt_mantissa e1"] mval_range(2) [of "flt_mantissa e2"] unfolding A_def B_def by linarith
    then have M: "mval m = A + B - 2 ^ 64" using False unfolding m(1)
      by (metis mod_pos_pos_trivial mod_add_self2 diff_add_cancel diff_ge_0_iff_ge diff_less_eq mult_2 not_less)
    have h: "mval ?h = mval m div 2" using mval_sft_right [of 1 m] by simp
    have "uint (flt_h_32 ?h) < 2 ^ 31"
    proof -
      have "mval ?h < 2 ^ 31 * 2 ^ 32 + 0" using zdiv_less_pow [of "mval m" "2 ^ 63" 1] unfolding h by simp
      then show ?thesis unfolding mval_def by (subst (asm) two_words_less) simp_all
    qed
    then have "mval (?h\<lparr>flt_h_32 := flt_h_32 ?h OR 0x80000000\<rparr>) = mval ?h + 2 ^ 63" by (simp add: mval_def or_top)
    also have "\<dots> = (A + B) div 2" unfolding h M by simp
    finally have v: "mval (?h\<lparr>flt_h_32 := flt_h_32 ?h OR 0x80000000\<rparr>) = (A + B) div 2" .
    have "r = e2\<lparr>flt_mantissa := ?h\<lparr>flt_h_32 := flt_h_32 ?h OR 0x80000000\<rparr>, flt_exp := E + 1\<rparr>"
      using True False add m(2) x by (simp add: r_def raw_sum_def Let_def c_short_id)
    then show ?thesis using True False v by simp
  qed
qed

text \<open>Two numbers brought to the greater of their exponents.\<close>

lemma aligned_pair:
  assumes e: "normal e1" "normal e2"
  defines "E \<equiv> max (flt_exp e1) (flt_exp e2)"
    and "a1 \<equiv> aligned e1 (flt_exp e2 - flt_exp e1)" and "a2 \<equiv> aligned e2 (flt_exp e1 - flt_exp e2)"
  shows "flt_exp a1 = E" "flt_exp a2 = E" "flt_sign a1 = flt_sign e1" "flt_sign a2 = flt_sign e2"
    "\<bar>fval e1 - fval a1\<bar> < 2 powi (E - 63)" "\<bar>fval e2 - fval a2\<bar> < 2 powi (E - 63)"
    "flt_exp e1 < flt_exp e2 \<or> a1 = e1" "flt_exp e2 < flt_exp e1 \<or> a2 = e2"
    "flt_exp e1 < flt_exp e2 \<Longrightarrow> mval (flt_mantissa a1) < 2 ^ 63"
    "flt_exp e2 < flt_exp e1 \<Longrightarrow> mval (flt_mantissa a2) < 2 ^ 63"
    "- 16384 < E" "E < 16384"
proof -
  have r: "- 16384 \<le> flt_exp e1" "flt_exp e1 < 16384" "- 16384 \<le> flt_exp e2" "flt_exp e2 < 16384"
    using e by (simp_all add: normal_def EXT_MIN_def EXT_MAX_def)
  have E: "flt_exp e1 + max 0 (flt_exp e2 - flt_exp e1) = E" "flt_exp e2 + max 0 (flt_exp e1 - flt_exp e2) = E"
    by (auto simp: E_def)
  note ok1 = aligned_ok [of e1 "flt_exp e2 - flt_exp e1"] and ok2 = aligned_ok [of e2 "flt_exp e1 - flt_exp e2"]
  show "flt_exp a1 = E" "flt_exp a2 = E" "flt_sign a1 = flt_sign e1" "flt_sign a2 = flt_sign e2"
    using ok1 ok2 r E by (simp_all add: a1_def a2_def)
  show "\<bar>fval e1 - fval a1\<bar> < 2 powi (E - 63)" "\<bar>fval e2 - fval a2\<bar> < 2 powi (E - 63)"
    using fval_aligned [of e1 "flt_exp e2 - flt_exp e1"] fval_aligned [of e2 "flt_exp e1 - flt_exp e2"] r E
    by (simp_all add: a1_def a2_def)
  show "flt_exp e1 < flt_exp e2 \<or> a1 = e1" "flt_exp e2 < flt_exp e1 \<or> a2 = e2"
    by (auto simp: a1_def a2_def aligned_def)
  have half: "mval m div 2 ^ nat d < 2 ^ 63" if "0 < d" for m d
  proof -
    have "mval m < 2 ^ 63 * 2 ^ 1" by simp
    also have "\<dots> \<le> 2 ^ 63 * 2 ^ nat d" using that by (intro mult_left_mono power_increasing) simp_all
    finally show ?thesis by (rule zdiv_less_pow)
  qed
  show "mval (flt_mantissa a1) < 2 ^ 63" if "flt_exp e1 < flt_exp e2"
    using ok1(3) r half [of "flt_exp e2 - flt_exp e1"] that by (simp add: a1_def)
  show "mval (flt_mantissa a2) < 2 ^ 63" if "flt_exp e2 < flt_exp e1"
    using ok2(3) r half [of "flt_exp e1 - flt_exp e2"] that by (simp add: a2_def)
  show "- 16384 < E" "E < 16384" using e by (auto simp: E_def normal_def EXT_MIN_def EXT_MAX_def)
qed

lemma fval_sgn:
  assumes "mval (flt_mantissa e) \<noteq> 0"
  shows "sgn (fval e) = (if flt_sign e = 0 then 1 else - 1)"
proof -
  have "0 < mval (flt_mantissa e)" using assms mval_range(1) [of "flt_mantissa e"] by linarith
  then show ?thesis by (simp add: fval_def scaled_def sgn_mult)
qed

lemma fval_sign: "flt_sign e = 0 \<Longrightarrow> 0 \<le> fval e" "flt_sign e \<noteq> 0 \<Longrightarrow> fval e \<le> 0"
  using mval_range(1) [of "flt_mantissa e"] by (simp_all add: fval_def scaled_def)

text \<open>Numbers of different sign: the sum keeps the sign of the greater one.\<close>

lemma diff_close:
  assumes e: "normal e1" "normal e2" "flt_sign e1 \<noteq> flt_sign e2"
  defines "E \<equiv> max (flt_exp e1) (flt_exp e2)"
    and "r \<equiv> raw_sum (aligned e1 (flt_exp e2 - flt_exp e1)) (aligned e2 (flt_exp e1 - flt_exp e2))"
  shows "\<bar>fval r - (fval e1 + fval e2)\<bar> < 2 powi (E - 63)"
    "flt_exp e1 = flt_exp e2 \<Longrightarrow> fval r = fval e1 + fval e2"
    "flt_exp r = E" "flt_sign r \<in> {0, 1}" "sgn (fval r) = sgn (fval e1 + fval e2)"
    "\<bar>fval e1 + fval e2\<bar> \<le> \<bar>fval r\<bar>"
proof -
  define a1 a2 where "a1 = aligned e1 (flt_exp e2 - flt_exp e1)" and "a2 = aligned e2 (flt_exp e1 - flt_exp e2)"
  note al = aligned_pair [OF e(1,2), folded E_def a1_def a2_def]
  let ?A = "mval (flt_mantissa a1)" and ?B = "mval (flt_mantissa a2)"
  have s: "flt_sign a1 \<in> {0, 1}" "flt_sign a2 \<in> {0, 1}" using e al by (simp_all add: normal_def)
  have r: "flt_exp r = E" "mval (flt_mantissa r) = \<bar>?A - ?B\<bar>" "flt_sign r = (if ?B < ?A then flt_sign e1 else flt_sign e2)"
    using raw_sum_ok [OF al(1,2) _ _ s] al e(3) by (simp_all add: r_def a1_def a2_def)
  show "flt_exp r = E" by (rule r)
  show "flt_sign r \<in> {0, 1}" using r(3) s al by simp
  have v: "fval r = fval a1 + fval a2"
    using r al s e(3) by (auto simp: fval_def scaled_def algebra_simps)
  have "0 \<le> (2 powi (E - 63) :: real)" by simp
  then show "\<bar>fval r - (fval e1 + fval e2)\<bar> < 2 powi (E - 63)"
    using al(5-8) unfolding v by (cases "flt_exp e1 < flt_exp e2") auto
  show eq: "fval r = fval e1 + fval e2" if "flt_exp e1 = flt_exp e2" using that al(7,8) unfolding v by auto
  have big: "2 ^ 63 \<le> mval (flt_mantissa e1)" "2 ^ 63 \<le> mval (flt_mantissa e2)" using e by (simp_all add: normal_def)
  note b1 = fval_normal_bounds [OF big(1)] and b2 = fval_normal_bounds [OF big(2)]
  have mono: "(2 :: real) powi (x + 1) \<le> 2 powi y" if "x < y" for x y :: int
    using that by (intro power_int_increasing) simp_all
  show "sgn (fval r) = sgn (fval e1 + fval e2)"
  proof (cases "flt_exp e1" "flt_exp e2" rule: linorder_cases)
    case equal
    then show ?thesis using eq by simp
  next
    case less
    then have a: "?A < 2 ^ 63" "a2 = e2" using al by auto
    then have "?A < ?B" using big by simp
    then have "sgn (fval r) = sgn (fval e2)" using r a big by (simp add: fval_sgn)
    moreover have "\<bar>fval e1\<bar> < \<bar>fval e2\<bar>" using b1(2) b2(1) mono [OF less] by linarith
    then have "sgn (fval e1 + fval e2) = sgn (fval e2)" by (auto simp: sgn_if)
    ultimately show ?thesis by simp
  next
    case greater
    then have a: "?B < 2 ^ 63" "a1 = e1" using al by auto
    then have "?B < ?A" using big by simp
    then have "sgn (fval r) = sgn (fval e1)" using r a big by (simp add: fval_sgn)
    moreover have "\<bar>fval e2\<bar> < \<bar>fval e1\<bar>" using b2(2) b1(1) mono [OF greater] by linarith
    then have "sgn (fval e1 + fval e2) = sgn (fval e1)" by (auto simp: sgn_if)
    ultimately show ?thesis by simp
  qed
  have le: "\<bar>fval a1\<bar> \<le> \<bar>fval e1\<bar>" "\<bar>fval a2\<bar> \<le> \<bar>fval e2\<bar>"
    using aligned_le [of e1 "flt_exp e2 - flt_exp e1"] aligned_le [of e2 "flt_exp e1 - flt_exp e2"] e(1,2)
    by (simp_all add: a1_def a2_def normal_def EXT_MIN_def EXT_MAX_def)
  have g: "0 \<le> fval a1 \<and> 0 \<le> fval e1 \<and> fval a2 \<le> 0 \<and> fval e2 \<le> 0 \<or> fval a1 \<le> 0 \<and> fval e1 \<le> 0 \<and> 0 \<le> fval a2 \<and> 0 \<le> fval e2"
    using fval_sign [of a1] fval_sign [of e1] fval_sign [of a2] fval_sign [of e2] al(3,4) s e(3)
    by (cases "flt_sign e1 = 0") auto
  show "\<bar>fval e1 + fval e2\<bar> \<le> \<bar>fval r\<bar>"
  proof (cases "flt_exp e1" "flt_exp e2" rule: linorder_cases)
    case equal
    then show ?thesis using eq by simp
  next
    case less
    have "a2 = e2" using al(8) less by simp
    moreover have "\<bar>fval e1\<bar> < \<bar>fval e2\<bar>" using b1(2) b2(1) mono [OF less] by linarith
    ultimately show ?thesis using g le(1) unfolding v by auto
  next
    case greater
    have "a1 = e1" using al(7) greater by simp
    moreover have "\<bar>fval e2\<bar> < \<bar>fval e1\<bar>" using b2(2) b1(1) mono [OF greater] by linarith
    ultimately show ?thesis using g le(2) unfolding v by auto
  qed
qed

text \<open>Numbers of the same sign: the sum is at most one unit too near to zero.\<close>

lemma same_close:
  assumes e: "normal e1" "normal e2" "flt_sign e1 = flt_sign e2"
  defines "E \<equiv> max (flt_exp e1) (flt_exp e2)"
    and "r \<equiv> raw_sum (aligned e1 (flt_exp e2 - flt_exp e1)) (aligned e2 (flt_exp e1 - flt_exp e2))"
  shows "\<bar>fval r - (fval e1 + fval e2)\<bar> < 2 powi (E - 62)" "\<bar>fval r\<bar> \<le> \<bar>fval e1 + fval e2\<bar>"
    "flt_exp r = E \<or> flt_exp r = E + 1" "flt_sign r = flt_sign e1" "2 ^ 63 \<le> mval (flt_mantissa r)"
    "sgn (fval r) = sgn (fval e1 + fval e2)"
proof -
  define a1 a2 where "a1 = aligned e1 (flt_exp e2 - flt_exp e1)" and "a2 = aligned e2 (flt_exp e1 - flt_exp e2)"
  note al = aligned_pair [OF e(1,2), folded E_def a1_def a2_def]
  define S where "S = mval (flt_mantissa a1) + mval (flt_mantissa a2)"
  define u where "u = (2 :: real) powi (E - 63)"
  have r': "r = raw_sum a1 a2" by (simp add: r_def a1_def a2_def)
  have u: "0 < u" "2 powi (E - 62) = 2 * u" by (simp_all add: u_def power_int_diff)
  have s: "flt_sign a1 \<in> {0, 1}" "flt_sign a2 \<in> {0, 1}" using e al by (simp_all add: normal_def)
  have r: "flt_sign r = flt_sign e1" "if S < 2 ^ 64 then flt_exp r = E \<and> mval (flt_mantissa r) = S
      else flt_exp r = E + 1 \<and> mval (flt_mantissa r) = S div 2"
    using raw_sum_ok [OF al(1,2) _ _ s, folded S_def r'] al(3,4,11,12) e(3) by (simp_all del: if_split)
  show "flt_sign r = flt_sign e1" by (rule r)
  show "flt_exp r = E \<or> flt_exp r = E + 1" using r(2) by (auto split: if_splits)
  have big: "2 ^ 63 \<le> mval (flt_mantissa e1)" "2 ^ 63 \<le> mval (flt_mantissa e2)" using e by (simp_all add: normal_def)
  have S: "2 ^ 63 \<le> S"
    using al(7,8) big unfolding S_def by (auto intro: add_increasing add_increasing2)
  show m: "2 ^ 63 \<le> mval (flt_mantissa r)"
  proof (cases "S < 2 ^ 64")
    case False
    then have "2 ^ 64 div 2 \<le> S div 2" by (intro zdiv_mono1) simp_all
    then show ?thesis using r(2) False by simp
  qed (use S r(2) in simp)
  have sum: "fval a1 + fval a2 = scaled (flt_sign e1) S E"
    using al e(3) by (simp add: fval_def scaled_def S_def algebra_simps)
  have lost: "fval a1 + fval a2 - fval r = (if flt_sign e1 = 0 then 1 else - 1) * of_int (if S < 2 ^ 64 then 0 else S mod 2) * u"
  proof (cases "S < 2 ^ 64")
    case False
    have "S - S div 2 * 2 = S mod 2" by (rule minus_div_mult_eq_mod)
    then have "real_of_int S - of_int (S div 2) * 2 = of_int (S mod 2)" by (metis of_int_diff of_int_mult of_int_numeral)
    then have "real_of_int S * u - of_int (S div 2) * (2 * u) = of_int (S mod 2) * u"
      by (metis (no_types) left_diff_distrib mult.assoc)
    then show ?thesis
      unfolding sum using False r u(2) by (simp add: fval_def scaled_def u_def algebra_simps)
  qed (use r sum in \<open>simp add: fval_def\<close>)
  moreover have "S mod 2 \<le> 1" using pos_mod_bound [of 2 S] by linarith
  ultimately have l1: "\<bar>fval a1 + fval a2 - fval r\<bar> \<le> u"
    using u(1) by (simp add: abs_mult)
  have "\<bar>(fval e1 + fval e2) - (fval a1 + fval a2)\<bar> < u"
    using al(5-8) u(1) unfolding u_def [symmetric] by (cases "flt_exp e1 < flt_exp e2") auto
  then show "\<bar>fval r - (fval e1 + fval e2)\<bar> < 2 powi (E - 62)" using l1 unfolding u(2) by linarith
  have "sgn (fval r) = (if flt_sign e1 = 0 then 1 else - 1)" using m r(1) by (subst fval_sgn) auto
  moreover have sg: "sgn (fval e1) = (if flt_sign e1 = 0 then 1 else - 1)" "sgn (fval e2) = (if flt_sign e1 = 0 then 1 else - 1)"
    using big e(3) by (auto simp: fval_sgn)
  ultimately show "sgn (fval r) = sgn (fval e1 + fval e2)" by (auto simp: sgn_if split: if_splits)
  have "\<bar>fval r\<bar> \<le> \<bar>scaled (flt_sign e1) S E\<bar>"
  proof (cases "S < 2 ^ 64")
    case False
    have "2 * of_int (S div 2) \<le> real_of_int S"
    proof -
      have "2 * (S div 2) \<le> S" by simp
      then show ?thesis by linarith
    qed
    then have "of_int (S div 2) * (2 * u) \<le> of_int S * u" using u(1) by (simp add: mult.assoc [symmetric] mult_right_mono)
    then show ?thesis
      using False r S u(2) unfolding fval_def by (subst (1 2) scaled_abs) (simp_all add: u_def)
  qed (use r in \<open>simp add: fval_def\<close>)
  also have "\<dots> \<le> \<bar>fval e1\<bar> + \<bar>fval e2\<bar>"
    using aligned_le [of e1 "flt_exp e2 - flt_exp e1"] aligned_le [of e2 "flt_exp e1 - flt_exp e2"] e(1,2)
    unfolding sum [symmetric] by (simp add: a1_def a2_def normal_def EXT_MIN_def EXT_MAX_def)
  also have "\<dots> = \<bar>fval e1 + fval e2\<bar>" using sg by (auto simp: sgn_if split: if_splits)
  finally show "\<bar>fval r\<bar> \<le> \<bar>fval e1 + fval e2\<bar>" .
qed

text \<open>What the last steps of every operation do to a number whose exponent may be out of range.\<close>

lemma flt_chk_cases:
  "flt_chk e 0 = (if flt_exp e \<ge> EXT_MAX then (e\<lparr>flt_exp := EXT_MAX, flt_mantissa := \<lparr>flt_h_32 = 0x80000000, flt_l_32 = 0\<rparr>\<rparr>, FLT_OVFL)
     else if flt_exp e \<le> EXT_MIN then (zero_flt, FLT_UNFL) else (e, 0))"
  by (cases e) (simp add: flt_chk_def EXT_MAX_def EXT_MIN_def zero_flt_def)

text \<open>The end of an addition: what normalization and the range check make of the raw sum.\<close>

lemma flt_nrm_cases:
  assumes "- 32000 \<le> flt_exp e" "flt_exp e < 2 ^ 15" "flt_sign e \<in> {0, 1}"
  shows "mval (flt_mantissa (flt_nrm e)) = 0 \<and> mval (flt_mantissa e) = 0 \<and> flt_exp (flt_nrm e) = 0
    \<or> 2 ^ 63 \<le> mval (flt_mantissa (flt_nrm e)) \<and> flt_sign (flt_nrm e) = flt_sign e
      \<and> flt_exp e - 63 \<le> flt_exp (flt_nrm e) \<and> flt_exp (flt_nrm e) \<le> flt_exp e
      \<and> (2 ^ 63 \<le> mval (flt_mantissa e) \<longrightarrow> flt_exp (flt_nrm e) = flt_exp e)"
proof (cases "mval (flt_mantissa e) = 0")
  case True
  then show ?thesis using mval_eq_0 [of "flt_mantissa e"] by (simp add: flt_nrm_def)
next
  case False
  then obtain k where k: "k \<le> 63" "flt_sign (flt_nrm e) = flt_sign e" "flt_exp (flt_nrm e) = flt_exp e - int k"
    "mval (flt_mantissa (flt_nrm e)) = mval (flt_mantissa e) * 2 ^ k" "2 ^ 63 \<le> mval (flt_mantissa (flt_nrm e))"
    using flt_nrm_shift [OF _ assms(1,2)] by metis
  have "k = 0" if "2 ^ 63 \<le> mval (flt_mantissa e)"
  proof (rule ccontr)
    assume "k \<noteq> 0"
    then have "2 ^ 63 * 2 ^ 1 \<le> mval (flt_mantissa e) * 2 ^ k"
      using that by (intro mult_mono power_increasing) simp_all
    then show False using mval_range(2) [of "flt_mantissa (flt_nrm e)"] k(4) by simp
  qed
  then show ?thesis using k by auto
qed

lemma nrm_chk_ok:
  assumes x: "EXT_MIN < E" "E < EXT_MAX" "flt_exp R = E \<or> flt_exp R = E + 1 \<and> 2 ^ 63 \<le> mval (flt_mantissa R)"
    and s: "flt_sign R \<in> {0, 1}" and r: "flt_chk (flt_nrm R) 0 = (r, status)"
  shows "(status = 0 \<and> finite_flt r \<and> fval r = fval R)
    \<or> (status = FLT_OVFL \<and> 2 powi EXT_MAX \<le> \<bar>fval R\<bar> \<and> flt_exp R = E + 1 \<and> flt_exp r = EXT_MAX \<and> sgn (fval r) = sgn (fval R))
    \<or> (status = FLT_UNFL \<and> \<bar>fval R\<bar> < 2 powi (EXT_MIN + 1) \<and> E - 63 \<le> EXT_MIN \<and> \<not> 2 ^ 63 \<le> mval (flt_mantissa R) \<and> fval r = 0)"
proof -
  let ?N = "flt_nrm R"
  have range: "EXT_MIN = - 16384" "EXT_MAX = 16384" by (simp_all add: EXT_MIN_def EXT_MAX_def)
  have b: "- 32000 \<le> flt_exp R" "flt_exp R < 2 ^ 15" using x range by auto
  have v: "fval ?N = fval R" by (rule fval_nrm [OF b])
  have n: "mval (flt_mantissa ?N) = 0 \<and> flt_exp ?N = 0 \<or> 2 ^ 63 \<le> mval (flt_mantissa ?N) \<and> flt_sign ?N = flt_sign R
      \<and> flt_exp R - 63 \<le> flt_exp ?N \<and> flt_exp ?N \<le> flt_exp R \<and> (2 ^ 63 \<le> mval (flt_mantissa R) \<longrightarrow> flt_exp ?N = flt_exp R)"
    using flt_nrm_cases [OF b s] by blast
  have mono: "(2 :: real) powi x \<le> 2 powi y" if "x \<le> y" for x y :: int
    using that by (intro power_int_increasing) simp_all
  consider "flt_exp ?N \<ge> EXT_MAX" | "\<not> flt_exp ?N \<ge> EXT_MAX" "flt_exp ?N \<le> EXT_MIN" | "EXT_MIN < flt_exp ?N" "flt_exp ?N < EXT_MAX"
    by linarith
  then show ?thesis
  proof cases
    case 1
    then have big: "2 ^ 63 \<le> mval (flt_mantissa ?N)" "flt_exp R = E + 1" using n x range by auto
    have "2 powi EXT_MAX \<le> \<bar>fval R\<bar>" using fval_normal_bounds(1) [OF big(1)] mono [OF 1] v by (simp only: v)
    moreover have "r = ?N\<lparr>flt_exp := EXT_MAX, flt_mantissa := \<lparr>flt_h_32 = 0x80000000, flt_l_32 = 0\<rparr>\<rparr>" "status = FLT_OVFL"
      using r 1 by (simp_all add: flt_chk_cases)
    moreover have "mval \<lparr>flt_h_32 = 0x80000000, flt_l_32 = 0\<rparr> = 2 ^ 63" by (simp add: mval_def)
    ultimately show ?thesis using big v fval_sgn [of ?N] fval_sgn [of r] by auto
  next
    case 2
    then have big: "2 ^ 63 \<le> mval (flt_mantissa ?N)" "E - 63 \<le> EXT_MIN" "\<not> 2 ^ 63 \<le> mval (flt_mantissa R)"
      using n x range by auto
    have "\<bar>fval R\<bar> < 2 powi (EXT_MIN + 1)"
      using fval_normal_bounds(2) [OF big(1)] mono [of "flt_exp ?N + 1" "EXT_MIN + 1"] 2(2) v by simp
    moreover have "r = zero_flt" "status = FLT_UNFL" using r 2 by (simp_all add: flt_chk_cases)
    ultimately show ?thesis using big by (simp add: zero_flt_def fval_def)
  next
    case 3
    then have "r = ?N" "status = 0" using r by (simp_all add: flt_chk_cases)
    moreover have "finite_flt ?N" using n s 3 by (auto simp: finite_flt_def normal_def)
    ultimately show ?thesis using v by simp
  qed
qed

lemma flt_add_close:
  assumes e: "finite_flt e1" "finite_flt e2" and r: "flt_add e1 e2 = (r, status)"
  shows "(status = 0 \<and> finite_flt r \<and> \<bar>fval r - (fval e1 + fval e2)\<bar> < 2 powi (max (flt_exp e1) (flt_exp e2) - 62)
        \<and> (flt_exp e1 = flt_exp e2 \<and> flt_sign e1 \<noteq> flt_sign e2 \<longrightarrow> fval r = fval e1 + fval e2))
    \<or> (status = FLT_OVFL \<and> 2 powi EXT_MAX \<le> \<bar>fval e1 + fval e2\<bar> \<and> flt_exp r = EXT_MAX \<and> sgn (fval r) = sgn (fval e1 + fval e2))
    \<or> (status = FLT_UNFL \<and> \<bar>fval e1 + fval e2\<bar> < 2 powi (EXT_MIN + 1) \<and> fval r = 0)"
proof (cases "mval (flt_mantissa e1) = 0 \<or> mval (flt_mantissa e2) = 0")
  case True
  then have "fval r = fval e1 + fval e2" "finite_flt r" "status = 0" using e r
    by (auto simp: flt_add_eq fval_def split: if_splits)
  then show ?thesis by simp
next
  case False
  then have n: "normal e1" "normal e2" using e by (auto simp: finite_flt_def)
  define E where "E = max (flt_exp e1) (flt_exp e2)"
  define R where "R = raw_sum (aligned e1 (flt_exp e2 - flt_exp e1)) (aligned e2 (flt_exp e1 - flt_exp e2))"
  have r': "flt_chk (flt_nrm R) 0 = (r, status)" using r False by (simp add: flt_add_eq R_def)
  have E: "EXT_MIN < E" "E < EXT_MAX" using n by (auto simp: E_def normal_def)
  have p: "(2 :: real) powi (E - 63) \<le> 2 powi (E - 62)" "0 < (2 :: real) powi (E - 62)" by (simp_all add: power_int_increasing)
  have s: "flt_sign R \<in> {0, 1}" "sgn (fval R) = sgn (fval e1 + fval e2)"
    "flt_exp R = E \<or> flt_exp R = E + 1 \<and> 2 ^ 63 \<le> mval (flt_mantissa R)"
    using diff_close(3-5) [OF n] same_close(3-6) [OF n] n(1) unfolding R_def E_def normal_def by metis+
  have close: "\<bar>fval R - (fval e1 + fval e2)\<bar> < 2 powi (E - 62)"
    using diff_close(1) [OF n] same_close(1) [OF n] p unfolding R_def [symmetric] E_def [symmetric] by fastforce
  have ex: "flt_exp e1 = flt_exp e2 \<and> flt_sign e1 \<noteq> flt_sign e2 \<longrightarrow> fval R = fval e1 + fval e2"
    using diff_close(2) [OF n] by (simp add: R_def)
  from nrm_chk_ok [OF E s(3,1) r'] show ?thesis
  proof (elim disjE)
    assume "status = 0 \<and> finite_flt r \<and> fval r = fval R"
    then show ?thesis using close ex by (simp add: E_def)
  next
    assume a: "status = FLT_OVFL \<and> 2 powi EXT_MAX \<le> \<bar>fval R\<bar> \<and> flt_exp R = E + 1 \<and> flt_exp r = EXT_MAX \<and> sgn (fval r) = sgn (fval R)"
    then have "flt_sign e1 = flt_sign e2" using diff_close(3) [OF n] by (auto simp: R_def E_def)
    then have "\<bar>fval R\<bar> \<le> \<bar>fval e1 + fval e2\<bar>" using same_close(2) [OF n] by (simp add: R_def)
    then show ?thesis using a s(2) by simp
  next
    assume a: "status = FLT_UNFL \<and> \<bar>fval R\<bar> < 2 powi (EXT_MIN + 1) \<and> E - 63 \<le> EXT_MIN \<and> \<not> 2 ^ 63 \<le> mval (flt_mantissa R) \<and> fval r = 0"
    then have "flt_sign e1 \<noteq> flt_sign e2" using same_close(5) [OF n] by (auto simp: R_def)
    then have "\<bar>fval e1 + fval e2\<bar> \<le> \<bar>fval R\<bar>" using diff_close(6) [OF n] by (simp add: R_def)
    then show ?thesis using a by simp
  qed
qed

text \<open>
  (C32) \<open>flt_add\<close> on normalized numbers and zeros.  Without overflow or underflow the result is
  again such a number and differs from the sum by less than two units in the last place of the
  operand with the greater exponent; the difference of numbers with one exponent is exact.  On
  overflow the sum is indeed too large and the result is the greatest number, with its sign; on
  underflow the sum is indeed smaller than every normalized number but zero, and the result is zero.
\<close>

theorem flt_add_spec:
  assumes e: "finite_flt e1" "finite_flt e2" and r: "flt_add e1 e2 = (r, status)"
  shows "(status = 0 \<and> finite_flt r \<and> \<bar>fval r - (fval e1 + fval e2)\<bar> < 2 powi (max (flt_exp e1) (flt_exp e2) - 62)
        \<and> (flt_exp e1 = flt_exp e2 \<and> flt_sign e1 \<noteq> flt_sign e2 \<longrightarrow> fval r = fval e1 + fval e2))
    \<or> (status = FLT_OVFL \<and> 2 powi EXT_MAX \<le> \<bar>fval e1 + fval e2\<bar> \<and> flt_exp r = EXT_MAX \<and> sgn (fval r) = sgn (fval e1 + fval e2))
    \<or> (status = FLT_UNFL \<and> \<bar>fval e1 + fval e2\<bar> < 2 powi (EXT_MIN + 1) \<and> fval r = 0)"
  by (rule flt_add_close [OF assms])

lemma flt_cmp_eq: "flt_cmp e1 e2 = (case flt_sub e1 e2 of (x, status) \<Rightarrow>
    (if mval (flt_mantissa x) = 0 then 0 else if flt_sign x \<noteq> 0 then - 1 else 1, status))"
  by (simp add: flt_cmp_def mval_eq_0)

lemma fval_not_sign: "fval (not_sign e) = - fval e"
  by (simp add: not_sign_def fval_def scaled_def)

lemma finite_not_sign: "finite_flt e \<Longrightarrow> finite_flt (not_sign e)"
  by (auto simp: not_sign_def finite_flt_def normal_def)

lemma flt_add_sgn:
  assumes e: "finite_flt e1" "finite_flt e2" and r: "flt_add e1 e2 = (r, status)" and ok: "status \<noteq> FLT_UNFL"
  shows "sgn (fval r) = sgn (fval e1 + fval e2)"
proof (cases "mval (flt_mantissa e1) = 0 \<or> mval (flt_mantissa e2) = 0")
  case True
  then show ?thesis using r by (auto simp: flt_add_eq fval_def split: if_splits)
next
  case False
  then have n: "normal e1" "normal e2" using e by (auto simp: finite_flt_def)
  define E where "E = max (flt_exp e1) (flt_exp e2)"
  define R where "R = raw_sum (aligned e1 (flt_exp e2 - flt_exp e1)) (aligned e2 (flt_exp e1 - flt_exp e2))"
  have r': "flt_chk (flt_nrm R) 0 = (r, status)" using r False by (simp add: flt_add_eq R_def)
  have E: "EXT_MIN < E" "E < EXT_MAX" using n by (auto simp: E_def normal_def)
  have s: "flt_sign R \<in> {0, 1}" "sgn (fval R) = sgn (fval e1 + fval e2)"
    "flt_exp R = E \<or> flt_exp R = E + 1 \<and> 2 ^ 63 \<le> mval (flt_mantissa R)"
    using diff_close(3-5) [OF n] same_close(3-6) [OF n] n(1) unfolding R_def E_def normal_def by metis+
  from nrm_chk_ok [OF E s(3,1) r'] show ?thesis using s(2) ok by auto
qed

text \<open>
  (C35) \<open>flt_cmp\<close> on normalized numbers and zeros returns the sign of the difference, although the
  difference is rounded and may overflow; only when the subtraction underflows it may call two
  different numbers equal, and then they differ by less than the smallest positive number.
\<close>

theorem flt_cmp_spec:
  assumes e: "finite_flt e1" "finite_flt e2" and r: "flt_cmp e1 e2 = (c, status)"
  shows "if status = FLT_UNFL then \<bar>fval e1 - fval e2\<bar> < 2 powi (EXT_MIN + 1) \<and> c = 0
    else c = (if fval e1 < fval e2 then - 1 else if fval e1 = fval e2 then 0 else 1)"
proof -
  obtain x where x: "flt_add e1 (not_sign e2) = (x, status)" "c = (if mval (flt_mantissa x) = 0 then 0 else if flt_sign x \<noteq> 0 then - 1 else 1)"
    using r by (auto simp: flt_cmp_eq flt_sub_def split: prod.splits)
  have f: "finite_flt (not_sign e2)" using e(2) by (simp add: finite_not_sign)
  have c: "of_int c = sgn (fval x)"
    using x(2) fval_sgn [of x] by (auto simp: fval_def)
  show ?thesis
  proof (cases "status = FLT_UNFL")
    case True
    then show ?thesis
      using flt_add_close [OF e(1) f x(1)] c by (auto simp: fval_not_sign FLT_UNFL_def FLT_OVFL_def)
  next
    case False
    then have "of_int c = sgn (fval e1 - fval e2)"
      using flt_add_sgn [OF e(1) f x(1)] c by (simp add: fval_not_sign)
    then have "of_int c = (of_int (if fval e1 < fval e2 then - 1 else if fval e1 = fval e2 then 0 else 1) :: real)"
      by (simp add: sgn_if)
    then show ?thesis using False by (simp only: of_int_eq_iff) simp
  qed
qed

section \<open>Integers\<close>

lemma flt_add_exact:
  assumes n: "normal e1" "normal e2" and x: "flt_exp e1 = flt_exp e2" "flt_sign e1 \<noteq> flt_sign e2" "EXT_MIN < flt_exp e1 - 63"
    and r: "flt_add e1 e2 = (r, status)"
  shows "status = 0 \<and> finite_flt r \<and> fval r = fval e1 + fval e2"
proof -
  define R where "R = raw_sum (aligned e1 (flt_exp e2 - flt_exp e1)) (aligned e2 (flt_exp e1 - flt_exp e2))"
  have nz: "mval (flt_mantissa e1) \<noteq> 0" "mval (flt_mantissa e2) \<noteq> 0" using n by (auto simp: normal_def)
  have r': "flt_chk (flt_nrm R) 0 = (r, status)" using r nz by (simp add: flt_add_eq R_def)
  note dc = diff_close [OF n x(2), folded R_def]
  have E: "EXT_MIN < flt_exp e1" "flt_exp e1 < EXT_MAX" using n by (simp_all add: normal_def)
  have "flt_exp R = flt_exp e1" "flt_sign R \<in> {0, 1}" using dc(3,4) x(1) by simp_all
  then show ?thesis using nrm_chk_ok [OF E _ _ r'] dc(2) x by auto
qed

text \<open>The integer part as \<open>flt_modf\<close> computes it: the bits of the fraction are shifted out.\<close>

definition int_part :: "flt_arith \<Rightarrow> flt_arith" where
  "int_part e = e\<lparr>flt_mantissa := flt_b64_sft (flt_b64_sft (flt_mantissa e) (63 - flt_exp e)) (flt_exp e - 63)\<rparr>"

lemma int_part_mant:
  assumes "0 \<le> flt_exp e" "flt_exp e < 63"
  defines "s \<equiv> nat (63 - flt_exp e)"
  shows "mval (flt_mantissa (int_part e)) = mval (flt_mantissa e) div 2 ^ s * 2 ^ s"
    "mval (flt_mantissa e) div 2 ^ s * 2 ^ s \<le> mval (flt_mantissa e)"
proof -
  let ?M = "mval (flt_mantissa e)" and ?K = "mval (flt_mantissa e) div 2 ^ s"
  show K: "?K * 2 ^ s \<le> ?M"
    using div_mult_mod_eq [of ?M "2 ^ s"] pos_mod_sign [of "2 ^ s" ?M] zero_less_power [of "2 :: int" s] by linarith
  have "mval (flt_mantissa (int_part e)) = ?K * 2 ^ s mod 2 ^ 64"
    using mval_sft_left [of "63 - flt_exp e" "flt_b64_sft (flt_mantissa e) (63 - flt_exp e)"] assms(1,2)
    by (simp add: int_part_def mval_sft_right s_def)
  also have "\<dots> = ?K * 2 ^ s"
    using K le_less_trans [OF K mval_range(2)] by (intro mod_pos_pos_trivial) (simp_all add: pos_imp_zdiv_nonneg_iff)
  finally show "mval (flt_mantissa (int_part e)) = ?K * 2 ^ s" .
qed

lemma int_part_ok:
  assumes n: "normal e" and x: "0 \<le> flt_exp e" "flt_exp e < 63"
  shows "normal (int_part e)" "\<exists>n :: int. fval (int_part e) = of_int n" "\<bar>fval e - fval (int_part e)\<bar> < 1"
    "\<bar>fval (int_part e)\<bar> \<le> \<bar>fval e\<bar>"
proof -
  let ?M = "mval (flt_mantissa e)" and ?i = "int_part e"
  define s where "s = nat (63 - flt_exp e)"
  have s: "int s = 63 - flt_exp e" "s \<le> 63" using x by (simp_all add: s_def)
  define K where "K = ?M div 2 ^ s"
  have K: "K * 2 ^ s \<le> ?M" "0 \<le> K" and mi: "mval (flt_mantissa ?i) = K * 2 ^ s"
    using int_part_mant [OF x] by (simp_all add: K_def s_def pos_imp_zdiv_nonneg_iff)
  have p: "(2 :: int) ^ 63 = 2 ^ (63 - s) * 2 ^ s" using s(2) by (simp flip: power_add)
  have "2 ^ 63 div 2 ^ s \<le> K" unfolding K_def using n by (intro zdiv_mono1) (simp_all add: normal_def)
  then have "2 ^ (63 - s) \<le> K" unfolding p by simp
  then have big: "2 ^ 63 \<le> K * 2 ^ s" unfolding p by (intro mult_right_mono) simp_all
  then show "normal ?i" using n mi by (auto simp: int_part_def normal_def)
  have "fval ?i = of_int ((if flt_sign e = 0 then 1 else - 1) * K)"
    using mi s(1) scaled_shift [of "flt_sign e" K s "flt_exp e"] by (simp add: fval_def int_part_def) (simp add: scaled_def)
  then show "\<exists>n :: int. fval ?i = of_int n" by blast
  show "\<bar>fval e - fval ?i\<bar> < 1"
    using scaled_trunc [of ?M "flt_sign e" "flt_exp e" s] mi s(1) scaled_shift [of "flt_sign e" K s "flt_exp e"]
    by (simp add: fval_def int_part_def K_def)
  have "of_int (K * 2 ^ s) \<le> real_of_int ?M" using K(1) by (simp only: of_int_le_iff)
  then have "of_int (K * 2 ^ s) * 2 powi (flt_exp e - 63) \<le> real_of_int ?M * 2 powi (flt_exp e - 63)" by (rule mult_right_mono) simp
  then show "\<bar>fval ?i\<bar> \<le> \<bar>fval e\<bar>" using K(2) mi by (simp add: fval_def scaled_abs int_part_def)
qed

lemma modf_int_part:
  assumes "flt_modf e 0 = (ip, fp, status)" and "0 \<le> flt_exp e" "flt_exp e < 63"
  shows "ip = int_part e" "flt_add e (not_sign (int_part e)) = (fp, status)"
  using assms by (auto simp: flt_modf_def Let_def int_part_def flt_sub_def)

lemma modf_zero:
  assumes z: "mval (flt_mantissa e) = 0" and r: "flt_modf e 0 = (ip, fp, status)"
  shows "fval ip = 0 \<and> fval fp = 0 \<and> status = 0"
proof (cases "0 \<le> flt_exp e \<and> flt_exp e < 63")
  case True
  then have "mval (flt_mantissa (int_part e)) = 0" using int_part_mant(1) [of e] z by simp
  then have "flt_add e (not_sign (int_part e)) = (e, 0)" "fval (int_part e) = 0"
    by (simp_all add: flt_add_eq not_sign_def fval_def)
  then show ?thesis using modf_int_part [OF r] True z by (simp add: fval_def)
next
  case False
  then show ?thesis using r z by (auto simp: flt_modf_def zero_flt_def fval_def split: if_splits)
qed

text \<open>
  (C37) \<open>flt_modf\<close> splits a normalized number or zero into an integer and a fraction below one in
  absolute value; their sum is exactly the number.
\<close>

theorem flt_modf_spec:
  assumes e: "finite_flt e" and r: "flt_modf e 0 = (ip, fp, status)"
  shows "fval ip + fval fp = fval e \<and> (\<exists>n :: int. fval ip = of_int n) \<and> \<bar>fval fp\<bar> < 1 \<and> \<bar>fval ip\<bar> \<le> \<bar>fval e\<bar> \<and> status = 0"
proof -
  let ?M = "mval (flt_mantissa e)"
  have z: "fval zero_flt = 0" by (simp add: zero_flt_def fval_def)
  consider "?M = 0" | "?M \<noteq> 0" "flt_exp e < 0" | "?M \<noteq> 0" "63 \<le> flt_exp e" | "?M \<noteq> 0" "0 \<le> flt_exp e" "flt_exp e < 63" by linarith
  then show ?thesis
  proof cases
    case 1
    then have "fval e = 0" by (simp add: fval_def)
    then show ?thesis using modf_zero [OF 1 r] by (auto intro: exI [of _ 0])
  next
    case 2
    then have "2 ^ 63 \<le> ?M" using e by (auto simp: finite_flt_def normal_def)
    then have "\<bar>fval e\<bar> < 2 powi (flt_exp e + 1)" by (rule fval_normal_bounds)
    also have "\<dots> \<le> 2 powi 0" using 2 by (intro power_int_increasing) simp_all
    finally have "\<bar>fval e\<bar> < 1" by simp
    then show ?thesis using r 2 z by (auto simp: flt_modf_def intro: exI [of _ 0])
  next
    case 3
    have "fval e = of_int ((if flt_sign e = 0 then 1 else - 1) * ?M * 2 ^ nat (flt_exp e - 63))"
      using 3 by (simp add: fval_def scaled_def power_int_def)
    then have "\<exists>n :: int. fval e = of_int n" by blast
    then show ?thesis using r 3 z by (auto simp: flt_modf_def)
  next
    case 4
    then have n: "normal e" using e by (auto simp: finite_flt_def)
    note i = int_part_ok [OF n 4(2,3)] and r' = modf_int_part [OF r 4(2,3)]
    have h: "normal (not_sign (int_part e))" using i(1) by (auto simp: normal_def not_sign_def)
    have x: "flt_exp e = flt_exp (not_sign (int_part e))" "flt_sign e \<noteq> flt_sign (not_sign (int_part e))" "EXT_MIN < flt_exp e - 63"
      using 4 by (simp_all add: int_part_def not_sign_def EXT_MIN_def)
    have "status = 0" "fval fp = fval e - fval (int_part e)"
      using flt_add_exact [OF n h x r'(2)] by (simp_all add: fval_not_sign)
    then show ?thesis using i r'(1) by simp
  qed
qed

text \<open>An integer as mantissa.\<close>

lemma mval_of_long: "mval \<lparr>flt_h_32 = word_of_int (drop_bit 32 n), flt_l_32 = word_of_int n\<rparr> = ulong n"
proof -
  have "uint (word_of_int (drop_bit 32 n) :: 32 word) = take_bit 32 (drop_bit 32 n)" "uint (word_of_int n :: 32 word) = take_bit 32 n"
    by (simp_all add: unsigned_of_int)
  moreover have "n mod (2 ^ 32 * 2 ^ 32) = 2 ^ 32 * (n div 2 ^ 32 mod 2 ^ 32) + n mod 2 ^ 32" by (rule zmod_zmult2_eq) simp
  ultimately show ?thesis by (simp add: mval_def ulong_def take_bit_eq_mod drop_bit_eq_div)
qed

lemma word_join: "(l :: 32 word) OR push_bit 16 (push_bit 16 h) = l"
proof -
  have "push_bit 16 (push_bit 16 h) = push_bit 32 h" by simp
  also have "\<dots> = 0" by (rule bit_word_eqI) (simp add: bit_simps)
  finally show ?thesis by simp
qed

lemma slong_neg32: "0 \<le> x \<Longrightarrow> x < 4294967296 \<Longrightarrow> slong (- x) = - x"
  by (simp add: slong_id)

text \<open>The integer part of a number, cut to 32 bits.\<close>

lemma flt_flt2arith_eq:
  assumes "0 \<le> flt_exp e" "flt_exp e < 63 \<or> flt_exp e = 63 \<and> flt_sign e = 1 \<and> mval (flt_mantissa e) = 2 ^ 63" "flt_sign e \<in> {0, 1}"
  shows "flt_flt2arith e False
    = ((if flt_sign e = 0 then 1 else - 1) * (mval (flt_mantissa e) div 2 ^ nat (63 - flt_exp e) mod 2 ^ 32), e, 0)"
proof -
  let ?a = "flt_b64_sft (flt_mantissa e) (63 - flt_exp e)"
  have "mval (flt_mantissa e) = 2 ^ 63 \<Longrightarrow> m1 e = 0x80000000 \<and> m2 e = 0"
    using mval_inject [of "flt_mantissa e" "\<lparr>flt_h_32 = 0x80000000, flt_l_32 = 0\<rparr>"] by (simp add: mval_def)
  then have c: "arith_clip e 0 = (e, 0)" using assms(2) by (auto simp: arith_clip_def)
  have a: "uint (flt_l_32 ?a) = mval (flt_mantissa e) div 2 ^ nat (63 - flt_exp e) mod 2 ^ 32"
    using mval_parts(2) [of ?a] mval_sft_right [of "63 - flt_exp e" "flt_mantissa e"] assms(2) by auto
  have "slong (- uint w) = - uint w" for w :: "32 word"
    using slong_neg32 [OF uint32(1,3)] .
  then have "flt_flt2arith e False = (if flt_sign e \<noteq> 0 then - uint (flt_l_32 ?a) else uint (flt_l_32 ?a), e, 0)"
    using assms(1) c by (simp add: flt_flt2arith_def word_join)
  then show ?thesis unfolding a by simp
qed

text \<open>
  (C38) Every \<open>long\<close> is converted to a floating point number exactly.  Converted back it is only its
  absolute value modulo \<open>2 ^ 32\<close>, with the sign: \<open>flt_flt2arith\<close> shifts the upper half of the
  mantissa as a 32-bit number, so that it is lost.
\<close>

theorem flt_long_roundtrip:
  assumes "- (2 ^ 63) \<le> n" and "n < 2 ^ 63" and e: "flt_arith2flt n False 0 = (e, status)"
  shows "fval e = of_int n \<and> finite_flt e \<and> status = 0 \<and> flt_flt2arith e False = (sgn n * (\<bar>n\<bar> mod 2 ^ 32), e, 0)"
proof -
  define s :: int where "s = (if n < 0 then 1 else 0)"
  define N where "N = \<bar>n\<bar>"
  define v where "v = (if n < 0 then slong (- n) else n)"
  define f where "f = \<lparr>flt_sign = s, flt_exp = 63, flt_mantissa = \<lparr>flt_h_32 = word_of_int (drop_bit 32 v), flt_l_32 = word_of_int v\<rparr>\<rparr>"
  have N: "0 \<le> N" "N \<le> 2 ^ 63" using assms(1,2) by (auto simp: N_def)
  have v: "ulong v = N"
  proof -
    have "ulong v = ulong N"
      by (simp add: v_def N_def slong_def ulong_def take_bit_signed_take_bit)
    then show ?thesis using N by (simp add: ulong_id)
  qed
  have m: "mval (flt_mantissa f) = N" using mval_of_long [of v] v by (simp add: f_def)
  have n: "of_int n = (if s = 0 then 1 else - 1) * real_of_int N" "sgn n * (N mod 2 ^ 32) = (if s = 0 then 1 else - 1) * (N mod 2 ^ 32)"
    by (auto simp: s_def N_def sgn_if)
  show ?thesis
  proof (cases "n = 0")
    case True
    then have "e = zero_flt" "status = 0" using e by (simp_all add: flt_arith2flt_def zero_flt_def)
    then show ?thesis using True flt_flt2arith_eq [of e] by (simp add: zero_flt_def fval_def finite_flt_def)
  next
    case False
    then have "v \<noteq> 0" using v N_def by (auto simp: ulong_def)
    then have "e = flt_nrm f" "status = 0" using e by (simp_all add: flt_arith2flt_def Let_def f_def v_def s_def)
    moreover obtain k where k: "k \<le> 63" "flt_sign (flt_nrm f) = s" "flt_exp (flt_nrm f) = 63 - int k"
      "mval (flt_mantissa (flt_nrm f)) = N * 2 ^ k" "2 ^ 63 \<le> mval (flt_mantissa (flt_nrm f))"
      using flt_nrm_shift [of f] m False by (force simp: f_def N_def)
    ultimately have e: "flt_sign e = s" "flt_exp e = 63 - int k" "mval (flt_mantissa e) = N * 2 ^ k" "2 ^ 63 \<le> N * 2 ^ k" "status = 0" by simp_all
    have "fval e = of_int n" unfolding n using e scaled_shift [of s N k "63 - int k"] by (simp add: fval_def scaled_def)
    moreover have "finite_flt e" using e k(1) by (simp add: finite_flt_def normal_def s_def EXT_MIN_def EXT_MAX_def)
    moreover have "flt_flt2arith e False = ((if s = 0 then 1 else - 1) * (N mod 2 ^ 32), e, 0)"
    proof -
      have "k = 0 \<Longrightarrow> N = 2 ^ 63 \<and> s = 1" using e(4) N(2) assms(2) by (auto simp: N_def s_def)
      then show ?thesis using flt_flt2arith_eq [of e] e k(1) by (cases "k = 0") (simp_all add: s_def)
    qed
    ultimately show ?thesis using e(5) n(2) by (simp only: N_def)
  qed
qed

section \<open>Examples\<close>

text \<open>The numbers 1, 1.5 and 2.\<close>

definition flt_one :: flt_arith where
  "flt_one = \<lparr>flt_sign = 0, flt_exp = 0, flt_mantissa = \<lparr>flt_h_32 = 0x80000000, flt_l_32 = 0\<rparr>\<rparr>"

definition flt_onehalf :: flt_arith where
  "flt_onehalf = \<lparr>flt_sign = 0, flt_exp = 0, flt_mantissa = \<lparr>flt_h_32 = 0xC0000000, flt_l_32 = 0\<rparr>\<rparr>"

definition flt_two :: flt_arith where
  "flt_two = \<lparr>flt_sign = 0, flt_exp = 1, flt_mantissa = \<lparr>flt_h_32 = 0x80000000, flt_l_32 = 0\<rparr>\<rparr>"

lemma normal_examples [simp]: "normal flt_one" "normal flt_onehalf" "normal flt_two"
  by (simp_all add: normal_def flt_one_def flt_onehalf_def flt_two_def mval_def EXT_MIN_def EXT_MAX_def)

lemma finite_examples [simp]: "finite_flt flt_one" "finite_flt flt_onehalf" "finite_flt flt_two"
  by (simp_all add: finite_flt_def)

lemma flt_examples:
  "flt_add flt_one flt_one = (flt_two, 0)" "flt_cmp flt_onehalf flt_two = (- 1, 0)"
  "flt_modf flt_onehalf 0 = (flt_one, \<lparr>flt_sign = 0, flt_exp = - 1, flt_mantissa = \<lparr>flt_h_32 = 0x80000000, flt_l_32 = 0\<rparr>\<rparr>, 0)"
  "snd (flt_arith2flt (2 ^ 32 + 5) False 0) = 0"
  by code_simp+

theorem flt_add_witness:
  "flt_add flt_one flt_one = (flt_two, 0) \<and> \<bar>fval flt_two - (fval flt_one + fval flt_one)\<bar> < 2 powi (- 62)"
proof -
  have "flt_exp flt_one = 0" by (simp add: flt_one_def)
  then show ?thesis
    using flt_add_spec [OF _ _ flt_examples(1)] flt_examples(1) by (simp add: FLT_OVFL_def FLT_UNFL_def)
qed

theorem flt_cmp_witness: "flt_cmp flt_onehalf flt_two = (- 1, 0) \<and> fval flt_onehalf < fval flt_two"
  using flt_cmp_spec [OF _ _ flt_examples(2)] flt_examples(2) by (simp add: FLT_UNFL_def split: if_splits)

theorem flt_modf_witness: "fst (flt_modf flt_onehalf 0) = flt_one \<and> fval flt_one + fval (fst (snd (flt_modf flt_onehalf 0))) = fval flt_onehalf"
  using flt_modf_spec [OF _ flt_examples(3)] flt_examples(3) by simp

theorem flt_long_witness: "\<exists>e. flt_arith2flt (2 ^ 32 + 5) False 0 = (e, 0) \<and> fst (flt_flt2arith e False) = 5"
proof -
  obtain e where e: "flt_arith2flt (2 ^ 32 + 5) False 0 = (e, 0)"
    using flt_examples(4) by (metis prod.collapse)
  then show ?thesis using flt_long_roundtrip [OF _ _ e] by simp
qed

end
