(* ===== verification/Flt_Mul.thy ===== *)
theory Flt_Mul
  imports Flt_Add
begin

text \<open>
  Multiplication of the floating point module (\<open>split.c\<close>, \<open>flt_mul.c\<close>): the mantissas are split
  into four digits of 16 bits, multiplied digit by digit, and the product is rounded to 64 bits.
  A list holds an array of \<open>unsigned short\<close>.
\<close>

section \<open>The operation\<close>

definition flt_split :: "flt_arith \<Rightarrow> int list" where
  "flt_split e = [uint (drop_bit 16 (m1 e)) AND 0xFFFF, uint (m1 e) AND 0xFFFF,
     uint (drop_bit 16 (m2 e)) AND 0xFFFF, uint (m2 e) AND 0xFFFF]"

text \<open>One row: \<open>p\<close> is the offset of \<open>pres\<close> in \<open>result\<close>.  The result is the carry and the array.\<close>

primrec mul_row :: "int \<Rightarrow> int list \<Rightarrow> nat \<Rightarrow> nat \<Rightarrow> int \<Rightarrow> int list \<Rightarrow> int \<times> int list" where
  "mul_row mpi mc p 0 k res = (k, res)"
| "mul_row mpi mc p (Suc j) k res =
     (let tmp = c_uint (res ! (p + j) + k);
          tmp = (if mc ! j \<noteq> 0 then tmp + c_uint (mpi * mc ! j) else tmp) in
      mul_row mpi mc p j (drop_bit 16 tmp AND 0xFFFF) (res[p + j := tmp AND 0xFFFF]))"

primrec mul_rows :: "int list \<Rightarrow> int list \<Rightarrow> nat \<Rightarrow> int list \<Rightarrow> int list" where
  "mul_rows mp mc 0 res = res"
| "mul_rows mp mc (Suc i) res =
     (if mp ! i \<noteq> 0 then
        (case mul_row (mp ! i) mc (Suc i) 4 0 res of (k, res) \<Rightarrow> mul_rows mp mc i (res[i := k]))
      else mul_rows mp mc i res)"

text \<open>The product shifted left by one bit, as far as it is used.\<close>

primrec shl_loop :: "nat list \<Rightarrow> int list \<Rightarrow> int list" where
  "shl_loop [] res = res"
| "shl_loop (i # is) res =
     (let r = take_bit 16 (2 * res ! i) in
      shl_loop is (res[i := (if res ! Suc i AND 0x8000 \<noteq> 0 then r OR 1 else r)]))"

definition shl_product :: "int list \<Rightarrow> int list" where
  "shl_product res = (let res = shl_loop [0, 1, 2, 3] res in res[4 := take_bit 16 (2 * res ! 4)])"

text \<open>Rounding by the first bit that is cut off.\<close>

definition mul_round :: "int list \<Rightarrow> flt_mantissa \<Rightarrow> int \<Rightarrow> flt_mantissa \<times> int" where
  "mul_round res m x =
     (if res ! 4 AND 0x8000 \<noteq> 0 then
        let l = flt_l_32 m + 1 in
        if l = 0 then
          let h = flt_h_32 m + 1 in
          if h = 0 then (\<lparr>flt_h_32 = 0x80000000, flt_l_32 = 0\<rparr>, c_short (x + 1))
          else (\<lparr>flt_h_32 = h, flt_l_32 = 0\<rparr>, x)
        else (m\<lparr>flt_l_32 := l\<rparr>, x)
      else (m, x))"

definition flt_mul :: "flt_arith \<Rightarrow> flt_arith \<Rightarrow> flt_arith \<times> int" where
  "flt_mul e1 e2 =
     (let sign = flt_sign e1 XOR flt_sign e2;
          x = c_short (flt_exp e1 + flt_exp e2 + 1);
          res = mul_rows (flt_split e1) (flt_split e2) 4 (replicate 8 0);
          (res, x) = (if res ! 0 AND 0x8000 = 0 then (shl_product res, c_short (x - 1)) else (res, x));
          m = \<lparr>flt_h_32 = word_of_int (push_bit 16 (res ! 0) + res ! 1),
               flt_l_32 = word_of_int (push_bit 16 (res ! 2) + res ! 3)\<rparr>;
          (m, x) = mul_round res m x in
      flt_chk \<lparr>flt_sign = sign, flt_exp = x, flt_mantissa = m\<rparr> 0)"

section \<open>Digits\<close>

definition dval :: "int list \<Rightarrow> int" where
  "dval = foldl (\<lambda>a d. 65536 * a + d) 0"

definition digits :: "int list \<Rightarrow> bool" where
  "digits ds \<longleftrightarrow> (\<forall>d\<in>set ds. 0 \<le> d \<and> d < 65536)"

lemma dval_Nil [simp]: "dval [] = 0"
  by (simp add: dval_def)

lemma dval_snoc [simp]: "dval (ds @ [d]) = 65536 * dval ds + d"
  by (simp add: dval_def)

lemma dval_append: "dval (xs @ ys) = dval xs * 65536 ^ length ys + dval ys"
  by (induction ys rule: rev_induct) (simp_all add: algebra_simps flip: append_assoc)

lemma dval_Cons: "dval (d # ds) = d * 65536 ^ length ds + dval ds"
  using dval_append [of "[d]" ds] by (simp add: dval_def)

lemma dval_range: "digits ds \<Longrightarrow> 0 \<le> dval ds \<and> dval ds < 65536 ^ length ds"
  by (induction ds rule: rev_induct) (auto simp: digits_def)

lemma digits_nth: "digits ds \<Longrightarrow> i < length ds \<Longrightarrow> 0 \<le> ds ! i \<and> ds ! i < 65536"
  by (simp add: digits_def)

lemma digits_update: "digits ds \<Longrightarrow> 0 \<le> d \<Longrightarrow> d < 65536 \<Longrightarrow> digits (ds[i := d])"
  using set_update_subset_insert [of ds i d] by (auto simp: digits_def)

lemma low16: "x AND 0xFFFF = x mod (65536 :: int)" "drop_bit 16 x = x div (65536 :: int)"
  using take_bit_eq_mask [of 16 x] by (simp_all add: take_bit_eq_mod drop_bit_eq_div mask_eq_exp_minus_1)

lemma flt_split_ok: "digits (flt_split e)" "dval (flt_split e) = mval (flt_mantissa e)" "length (flt_split e) = 4"
proof -
  have u: "uint (drop_bit 16 w) = uint w div 65536" for w :: "32 word" using uint_drop_bit32 [of 16 w] by simp
  have r: "uint w div 65536 mod 65536 = uint w div 65536" for w :: "32 word"
    using zdiv_less_pow [of "uint w" 65536 16] by (intro mod_pos_pos_trivial) (simp_all add: pos_imp_zdiv_nonneg_iff)
  show "digits (flt_split e)" by (simp add: flt_split_def digits_def low16)
  show "dval (flt_split e) = mval (flt_mantissa e)"
    by (simp add: flt_split_def low16 u r dval_def mval_def algebra_simps)
  show "length (flt_split e) = 4" by (simp add: flt_split_def)
qed

lemma mul_row_ok:
  assumes "digits mc" "0 \<le> mpi" "mpi < 65536"
  shows "digits res \<Longrightarrow> 0 \<le> k \<Longrightarrow> k < 65536 \<Longrightarrow> p + j \<le> length res \<Longrightarrow> j \<le> length mc \<Longrightarrow>
    mul_row mpi mc p j k res = (k', res') \<Longrightarrow>
    length res' = length res \<and> digits res' \<and> 0 \<le> k' \<and> k' < 65536 \<and> take p res' = take p res \<and> drop (p + j) res' = drop (p + j) res
    \<and> k' * 65536 ^ j + dval (take j (drop p res')) = dval (take j (drop p res)) + mpi * dval (take j mc) + k"
proof (induction j arbitrary: k res)
  case (Suc j k res)
  let ?r = "res ! (p + j)" and ?c = "mc ! j"
  define t where "t = ?r + k + mpi * ?c"
  have rc: "0 \<le> ?r" "?r < 65536" "0 \<le> ?c" "?c < 65536"
    using digits_nth [OF Suc.prems(1), of "p + j"] digits_nth [OF assms(1), of j] Suc.prems(4,5) by simp_all
  have mc: "0 \<le> mpi * ?c" "mpi * ?c \<le> 65535 * 65535" using rc assms(2,3) by (simp, intro mult_mono) simp_all
  have t: "0 \<le> t" "t < 65536 * 65536" using mc rc Suc.prems(2,3) unfolding t_def by linarith+
  have row: "mul_row mpi mc p (Suc j) k res = mul_row mpi mc p j (t div 65536) (res[p + j := t mod 65536])"
  proof -
    have "c_uint (?r + k) = ?r + k" "c_uint (mpi * ?c) = mpi * ?c"
      using rc mc Suc.prems(2,3) by (simp_all add: c_uint_id)
    moreover have "t div 65536 mod 65536 = t div 65536" using t by (intro mod_pos_pos_trivial) (simp_all add: pos_imp_zdiv_nonneg_iff)
    moreover from calculation have "(if ?c \<noteq> 0 then c_uint (?r + k) + c_uint (mpi * ?c) else c_uint (?r + k)) = t"
      by (simp add: t_def)
    ultimately show ?thesis by (simp only: mul_row.simps Let_def low16)
  qed
  let ?res = "res[p + j := t mod 65536]"
  have k: "0 \<le> t div 65536" "t div 65536 < 65536" using t by (simp_all add: pos_imp_zdiv_nonneg_iff)
  have IH: "length res' = length ?res \<and> digits res' \<and> 0 \<le> k' \<and> k' < 65536 \<and> take p res' = take p ?res \<and> drop (p + j) res' = drop (p + j) ?res
    \<and> k' * 65536 ^ j + dval (take j (drop p res')) = dval (take j (drop p ?res)) + mpi * dval (take j mc) + t div 65536"
    using Suc.prems k row by (intro Suc.IH digits_update) simp_all
  have l: "p + j < length res" "j < length mc" using Suc.prems by simp_all
  have "res' ! (p + j) = t mod 65536"
    using IH l by (metis hd_drop_conv_nth length_list_update nth_list_update_eq)
  moreover have "take j (drop p ?res) = take j (drop p res)" by (simp add: drop_update_swap)
  moreover have "take (Suc j) (drop p xs) = take j (drop p xs) @ [xs ! (p + j)]" if "length xs = length res" for xs :: "int list"
    using that l by (simp add: take_Suc_conv_app_nth)
  moreover have "take (Suc j) mc = take j mc @ [?c]" using l by (simp add: take_Suc_conv_app_nth)
  moreover have "drop (p + Suc j) res' = drop (p + Suc j) res"
    using IH by (metis add_Suc_right drop_Suc_Cons drop_drop drop_update_cancel lessI plus_1_eq_Suc)
  moreover have "k' * 65536 ^ Suc j + (65536 * X + t mod 65536) = 65536 * Y + ?r + mpi * (65536 * Z + ?c) + k"
    if "k' * 65536 ^ j + X = Y + mpi * Z + t div 65536" for X Y Z
  proof -
    have "k' * 65536 ^ Suc j + (65536 * X + t mod 65536) = 65536 * (k' * 65536 ^ j + X) + t mod 65536" by (simp add: algebra_simps)
    also have "\<dots> = 65536 * Y + mpi * (65536 * Z) + (t div 65536 * 65536 + t mod 65536)" unfolding that by (simp add: algebra_simps)
    also have "t div 65536 * 65536 + t mod 65536 = ?r + k + mpi * ?c" by (simp only: div_mult_mod_eq t_def)
    finally show ?thesis by (simp add: algebra_simps)
  qed
  ultimately show ?case using IH by simp
qed simp

text \<open>All rows: the product of the digits not yet used is in place.\<close>

lemma mul_rows_ok:
  assumes "digits mp" "digits mc" "length mp = 4" "length mc = 4"
  shows "i \<le> 4 \<Longrightarrow> length res = 8 \<Longrightarrow> digits res \<Longrightarrow> (\<And>j. j < i \<Longrightarrow> res ! j = 0) \<Longrightarrow>
    dval (drop i res) = dval mc * dval (drop i mp) \<Longrightarrow>
    length (mul_rows mp mc i res) = 8 \<and> digits (mul_rows mp mc i res) \<and> dval (mul_rows mp mc i res) = dval mc * dval mp"
proof (induction i arbitrary: res)
  case (Suc i res)
  have mp: "drop i mp = mp ! i # drop (Suc i) mp" "length (drop (Suc i) mp) = 3 - i" "0 \<le> mp ! i" "mp ! i < 65536"
    using Suc.prems(1) assms(3) digits_nth [OF assms(1), of i] by (simp_all add: Cons_nth_drop_Suc)
  show ?case
  proof (cases "mp ! i = 0")
    case True
    have "drop i res = 0 # drop (Suc i) res" using Suc.prems by (simp add: Cons_nth_drop_Suc [symmetric])
    then have "dval (drop i res) = dval mc * dval (drop i mp)" using Suc.prems(5) mp True by (simp add: dval_Cons)
    then show ?thesis using Suc True by simp
  next
    case False
    obtain k' res' where row: "mul_row (mp ! i) mc (Suc i) 4 0 res = (k', res')" by fastforce
    have ok: "length res' = 8" "digits res'" "0 \<le> k'" "k' < 65536" "take (Suc i) res' = take (Suc i) res"
      "drop (Suc i + 4) res' = drop (Suc i + 4) res"
      "k' * 65536 ^ 4 + dval (take 4 (drop (Suc i) res')) = dval (take 4 (drop (Suc i) res)) + mp ! i * dval mc"
      using mul_row_ok [OF assms(2) mp(3,4) Suc.prems(3), of 0 "Suc i" 4 k' res'] row Suc.prems(1,2) assms(4) by auto
    let ?res = "res'[i := k']"
    have sp: "dval (drop (Suc i) xs) = dval (take 4 (drop (Suc i) xs)) * 65536 ^ (3 - i) + dval (drop (Suc i + 4) xs)"
      if "length xs = 8" for xs :: "int list"
    proof -
      have "drop (Suc i) xs = take 4 (drop (Suc i) xs) @ drop (Suc i + 4) xs" by (metis append_take_drop_id drop_drop add.commute)
      then have "dval (drop (Suc i) xs) = dval (take 4 (drop (Suc i) xs)) * 65536 ^ length (drop (Suc i + 4) xs) + dval (drop (Suc i + 4) xs)"
        by (metis dval_append)
      moreover have "length (drop (Suc i + 4) xs) = 3 - i" using that by simp
      ultimately show ?thesis by (simp only:)
    qed
    have "drop i ?res = k' # drop (Suc i) res'" using ok(1) Suc.prems(1) by (simp add: drop_update_swap Cons_nth_drop_Suc [symmetric])
    moreover have "length (drop (Suc i) res') = 4 + (3 - i)" using ok(1) Suc.prems(1) by simp
    ultimately have "dval (drop i ?res) = k' * 65536 ^ (4 + (3 - i)) + dval (drop (Suc i) res')" by (simp only: dval_Cons)
    also have "\<dots> = (k' * 65536 ^ 4 + dval (take 4 (drop (Suc i) res'))) * 65536 ^ (3 - i) + dval (drop (Suc i + 4) res)"
      unfolding sp [OF ok(1)] ok(6) by (simp add: power_add algebra_simps)
    also have "\<dots> = dval (drop (Suc i) res) + mp ! i * dval mc * 65536 ^ (3 - i)"
      unfolding ok(7) sp [OF Suc.prems(2)] by (simp add: algebra_simps)
    also have "\<dots> = dval mc * dval (drop i mp)" unfolding Suc.prems(5) mp(1) dval_Cons mp(2) by (simp add: algebra_simps)
    finally have "dval (drop i ?res) = dval mc * dval (drop i mp)" .
    moreover have "?res ! j = 0" if "j < i" for j
      using that Suc.prems(4) [of j] ok(5) by (metis less_SucI nat_neq_iff nth_list_update_neq nth_take)
    ultimately show ?thesis using Suc.IH [of ?res] row False ok Suc.prems(1) by (simp add: digits_update)
  qed
qed simp

section \<open>Rounding\<close>

lemma bit15:
  assumes "0 \<le> d" "d < 65536"
  shows "d AND 0x8000 = 0 \<longleftrightarrow> d < (32768 :: int)"
proof -
  have "d AND 0x8000 = 0 \<longleftrightarrow> \<not> bit d 15" using and_exp_eq_0_iff_not_bit [of d 15] by simp
  also have "\<dots> \<longleftrightarrow> even (d div 32768)" by (simp add: bit_iff_odd)
  also have "\<dots> \<longleftrightarrow> d < 32768"
  proof (cases "d < 32768")
    case False
    then have "d div 32768 = 1" using assms by (intro int_div_pos_eq [where r = "d - 32768"]) simp_all
    then show ?thesis using False by simp
  qed (use assms in simp)
  finally show ?thesis .
qed

lemma double16:
  assumes "0 \<le> d" "d < (65536 :: int)"
  shows "take_bit 16 (2 * d) = (if d < 32768 then 2 * d else 2 * d - 65536)"
proof (cases "d < 32768")
  case False
  have "(2 * d) mod 65536 = (2 * d - 65536) mod 65536" by (rule minus_mod_self2 [symmetric])
  also have "\<dots> = 2 * d - 65536" using False assms by (intro mod_pos_pos_trivial) simp_all
  finally show ?thesis using False by (simp add: take_bit_eq_mod)
qed (use assms in \<open>simp add: take_bit_eq_mod\<close>)

lemma or_one: "even (d :: int) \<Longrightarrow> d OR 1 = d + 1"
  by (simp add: or_one_eq)

definition carry15 :: "int \<Rightarrow> int" where
  "carry15 d = (if d < 32768 then 0 else 1)"

lemma shl_product_ok:
  assumes "digits [r0, r1, r2, r3, r4, r5, r6, r7]"
  shows "shl_product [r0, r1, r2, r3, r4, r5, r6, r7] =
    [2 * r0 - 65536 * carry15 r0 + carry15 r1, 2 * r1 - 65536 * carry15 r1 + carry15 r2,
     2 * r2 - 65536 * carry15 r2 + carry15 r3, 2 * r3 - 65536 * carry15 r3 + carry15 r4, 2 * r4 - 65536 * carry15 r4, r5, r6, r7]"
proof -
  have d: "0 \<le> d \<and> d < 65536" if "d \<in> {r0, r1, r2, r3, r4}" for d using assms that by (auto simp: digits_def)
  have step: "(if d' AND 0x8000 \<noteq> 0 then take_bit 16 (2 * d) OR 1 else take_bit 16 (2 * d)) = 2 * d - 65536 * carry15 d + carry15 d'"
    if "0 \<le> d \<and> d < 65536" "0 \<le> d' \<and> d' < 65536" for d d'
    using that bit15 [of d'] double16 [of d] by (simp add: carry15_def or_one)
  have last: "take_bit 16 (2 * d) = 2 * d - 65536 * carry15 d" if "0 \<le> d \<and> d < 65536" for d
    using that double16 [of d] by (simp add: carry15_def)
  have "shl_product [r0, r1, r2, r3, r4, r5, r6, r7] =
    [if r1 AND 0x8000 \<noteq> 0 then take_bit 16 (2 * r0) OR 1 else take_bit 16 (2 * r0),
     if r2 AND 0x8000 \<noteq> 0 then take_bit 16 (2 * r1) OR 1 else take_bit 16 (2 * r1),
     if r3 AND 0x8000 \<noteq> 0 then take_bit 16 (2 * r2) OR 1 else take_bit 16 (2 * r2),
     if r4 AND 0x8000 \<noteq> 0 then take_bit 16 (2 * r3) OR 1 else take_bit 16 (2 * r3), take_bit 16 (2 * r4), r5, r6, r7]"
    by (simp add: shl_product_def Let_def)
  also have "\<dots> = [2 * r0 - 65536 * carry15 r0 + carry15 r1, 2 * r1 - 65536 * carry15 r1 + carry15 r2,
     2 * r2 - 65536 * carry15 r2 + carry15 r3, 2 * r3 - 65536 * carry15 r3 + carry15 r4, 2 * r4 - 65536 * carry15 r4, r5, r6, r7]"
    using d by (subst (1 2 3 4) step) (simp_all add: last)
  finally show ?thesis .
qed

lemma mul_round_ok:
  assumes "0 \<le> res ! 4" "res ! 4 < 65536" and r: "mul_round res m x = (m', x')"
  defines "M \<equiv> (65536 * mval m + res ! 4 + 32768) div 65536"
  shows "if M < 2 ^ 64 then mval m' = M \<and> x' = x else M = 2 ^ 64 \<and> mval m' = 2 ^ 63 \<and> x' = c_short (x + 1)"
proof -
  have M: "M = mval m + carry15 (res ! 4)"
  proof -
    have "M = mval m + (res ! 4 + 32768) div 65536" unfolding M_def by (simp add: add.assoc)
    moreover have "(res ! 4 + 32768) div 65536 = carry15 (res ! 4)"
    proof (cases "res ! 4 < 32768")
      case False
      then show ?thesis using assms(1,2)
        by (subst int_div_pos_eq [where q = 1 and r = "res ! 4 - 32768"]) (simp_all add: carry15_def)
    qed (use assms(1) in \<open>simp add: carry15_def\<close>)
    ultimately show ?thesis by simp
  qed
  show ?thesis
  proof (cases "res ! 4 < 32768")
    case True
    then have "m' = m" "x' = x" using r bit15 [OF assms(1,2)] by (simp_all add: mul_round_def)
    then show ?thesis using M True mval_range(3) [of m] by (simp add: carry15_def)
  next
    case False
    then have c: "\<not> res ! 4 AND 0x8000 = 0" using bit15 [OF assms(1,2)] by simp
    obtain h l where m: "m = \<lparr>flt_h_32 = h, flt_l_32 = l\<rparr>" by (cases m) auto
    have up: "w + 1 = 0 \<longleftrightarrow> uint w = 2 ^ 32 - 1" "w + 1 \<noteq> 0 \<Longrightarrow> uint (w + 1) = uint w + 1" for w :: "32 word"
    proof -
      have u: "uint (w + 1) = (if 2 ^ 32 \<le> uint w + 1 then uint w + 1 - 2 ^ 32 else uint w + 1)" using uint_add32 [of w 1] by simp
      have pos: "uint w + 1 \<noteq> 0" using uint32(1) [of w] by linarith
      show "w + 1 = 0 \<longleftrightarrow> uint w = 2 ^ 32 - 1"
        using u uint32(3) [of w] pos by (auto simp: word_uint_eq_iff)
      then show "w + 1 \<noteq> 0 \<Longrightarrow> uint (w + 1) = uint w + 1" using u uint32(3) [of w] by auto
    qed
    have "M = mval m + 1" using M False by (simp add: carry15_def)
    moreover have "mval m + 1 = (uint h * 2 ^ 32 + uint l) + 1" by (simp add: m mval_def)
    moreover note lim = uint32(3) [of l] uint32(3) [of h]
    ultimately show ?thesis
    proof (cases "l + 1 = 0")
      case l: False
      then have "m' = \<lparr>flt_h_32 = h, flt_l_32 = l + 1\<rparr>" "x' = x" using r c by (simp_all add: mul_round_def m)
      moreover have "uint l \<noteq> 4294967295" using l up(1) [of l] by simp
      then have "uint h * 4294967296 + uint l + 1 < 18446744073709551616" using lim by linarith
      ultimately show ?thesis using \<open>M = mval m + 1\<close> up(2) [OF l] by (simp add: m mval_def)
    next
      case l: True
      then have ul: "uint l = 4294967295" using up(1) [of l] by simp
      show ?thesis
      proof (cases "h + 1 = 0")
        case h: False
        then have "m' = \<lparr>flt_h_32 = h + 1, flt_l_32 = 0\<rparr>" "x' = x" using r c l by (simp_all add: mul_round_def m)
        moreover have "uint h \<noteq> 4294967295" using h up(1) [of h] by simp
        then have "uint h * 4294967296 + uint l + 1 < 18446744073709551616" using lim by linarith
        ultimately show ?thesis using \<open>M = mval m + 1\<close> up(2) [OF h] ul by (simp add: m mval_def)
      next
        case h: True
        then have "uint h = 4294967295" using up(1) [of h] by simp
        moreover have "m' = \<lparr>flt_h_32 = 0x80000000, flt_l_32 = 0\<rparr>" "x' = c_short (x + 1)" using r c l h by (simp_all add: mul_round_def m)
        ultimately show ?thesis using \<open>M = mval m + 1\<close> ul by (simp add: m mval_def)
      qed
    qed
  qed
qed

section \<open>The product\<close>

lemma eight:
  assumes "length xs = 8"
  obtains r0 r1 r2 r3 r4 r5 r6 r7 where "xs = [r0, r1, r2, r3, r4, r5, r6, r7]"
  using assms by (auto simp: numeral_eq_Suc length_Suc_conv)

lemma mval_of_digits:
  assumes "0 \<le> a" "a < 65536" "0 \<le> b" "b < 65536" "0 \<le> c" "c < 65536" "0 \<le> d" "d < 65536"
  shows "mval \<lparr>flt_h_32 = word_of_int (push_bit 16 a + b), flt_l_32 = word_of_int (push_bit 16 c + d)\<rparr> = dval [a, b, c, d]"
proof -
  have "uint (word_of_int (push_bit 16 x + y) :: 32 word) = 65536 * x + y" if "0 \<le> x" "x < 65536" "0 \<le> y" "y < 65536" for x y :: int
  proof -
    have z: "uint (word_of_int z :: 32 word) = z" if "0 \<le> z" "z < 4294967296" for z
      using that by (simp add: unsigned_of_int take_bit_int_eq_self)
    have "push_bit 16 x + y = 65536 * x + y" by (simp add: push_bit_eq_mult)
    then show ?thesis using that by (simp only:) (rule z, simp_all)
  qed
  then show ?thesis using assms by (simp only: mval_def flt_mantissa.simps) (simp add: dval_def)
qed

text \<open>The mantissa of the product: the product of the mantissas, shifted so that its top bit is set
  and rounded.\<close>

definition mul_shift :: "int \<Rightarrow> nat" where
  "mul_shift p = (if p < 2 ^ 127 then 63 else 64)"

definition mul_mant :: "int \<Rightarrow> int" where
  "mul_mant p = (p + 2 ^ (mul_shift p - 1)) div 2 ^ mul_shift p"

lemma mul_combine:
  assumes res: "length res = 8" "digits res"
    and s: "(res', x') = (if res ! 0 AND 0x8000 = 0 then (shl_product res, c_short (x - 1)) else (res, x))"
  defines "m \<equiv> \<lparr>flt_h_32 = word_of_int (push_bit 16 (res' ! 0) + res' ! 1), flt_l_32 = word_of_int (push_bit 16 (res' ! 2) + res' ! 3)\<rparr>"
  shows "(65536 * mval m + res' ! 4 + 32768) div 65536 = mul_mant (dval res)" "0 \<le> res' ! 4" "res' ! 4 < 65536"
    "x' = (if dval res < 2 ^ 127 then c_short (x - 1) else x)"
proof -
  obtain r0 r1 r2 r3 r4 r5 r6 r7 where r: "res = [r0, r1, r2, r3, r4, r5, r6, r7]" using eight [OF res(1)] .
  have d: "0 \<le> r0" "r0 < 65536" "0 \<le> r1" "r1 < 65536" "0 \<le> r2" "r2 < 65536" "0 \<le> r3" "r3 < 65536"
    "0 \<le> r4" "r4 < 65536" "0 \<le> r5" "r5 < 65536" "0 \<le> r6" "r6 < 65536" "0 \<le> r7" "r7 < 65536"
    using res(2) by (simp_all add: r digits_def)
  define T where "T = dval [r0, r1, r2, r3, r4]"
  define L where "L = dval [r5, r6, r7]"
  have P: "dval res = 2 ^ 48 * T + L" by (simp add: r T_def L_def dval_def)
  have L: "0 \<le> L" "L < 2 ^ 48" using d unfolding L_def by (simp_all add: dval_def)
  have top: "dval res < 2 ^ 127 \<longleftrightarrow> r0 < 32768"
  proof -
    have "dval res = 65536 ^ 7 * r0 + dval [r1, r2, r3, r4, r5, r6, r7]" by (simp add: r dval_def)
    moreover have "digits [r1, r2, r3, r4, r5, r6, r7]" using d by (simp add: digits_def)
    then have "0 \<le> dval [r1, r2, r3, r4, r5, r6, r7] \<and> dval [r1, r2, r3, r4, r5, r6, r7] < 65536 ^ 7"
      using dval_range by fastforce
    moreover define l where "l = dval [r1, r2, r3, r4, r5, r6, r7]"
    ultimately have "dval res = 5192296858534827628530496329220096 * r0 + l" "0 \<le> l" "l < 5192296858534827628530496329220096"
      by simp_all
    then show ?thesis by simp linarith
  qed
  have b: "r0 AND 0x8000 = 0 \<longleftrightarrow> r0 < 32768" using bit15 [OF d(1,2)] .
  have div48: "(dval res + 2 ^ 48 * k) div 2 ^ 48 = T + k" for k
    unfolding P using L by (intro int_div_pos_eq [where r = L]) (simp_all add: algebra_simps)
  show "x' = (if dval res < 2 ^ 127 then c_short (x - 1) else x)" using s top b by (simp add: r split: if_splits)
  show "0 \<le> res' ! 4" "res' ! 4 < 65536" "(65536 * mval m + res' ! 4 + 32768) div 65536 = mul_mant (dval res)"
  proof (atomize (full), cases "r0 < 32768")
    case True
    then have r': "res' = shl_product res" using s b by (simp add: r)
    let ?c = carry15
    have c: "?c x = 0 \<and> x < 32768 \<or> ?c x = 1 \<and> 32768 \<le> x" for x by (simp add: carry15_def)
    have nth: "res' ! 0 = 2 * r0 - 65536 * ?c r0 + ?c r1" "res' ! 1 = 2 * r1 - 65536 * ?c r1 + ?c r2"
      "res' ! 2 = 2 * r2 - 65536 * ?c r2 + ?c r3" "res' ! 3 = 2 * r3 - 65536 * ?c r3 + ?c r4" "res' ! 4 = 2 * r4 - 65536 * ?c r4"
      using shl_product_ok res(2) unfolding r' r by simp_all
    have "?c r0 = 0" using True by (simp add: carry15_def)
    have in4: "0 \<le> res' ! 4" "res' ! 4 < 65536" using d(9,10) c [of r4] unfolding nth by auto
    have "0 \<le> res' ! 0" "res' ! 0 < 65536" using d(1,2) c [of r0] c [of r1] unfolding nth by auto
    moreover have "0 \<le> res' ! 1" "res' ! 1 < 65536" using d(3,4) c [of r1] c [of r2] unfolding nth by auto
    moreover have "0 \<le> res' ! 2" "res' ! 2 < 65536" using d(5,6) c [of r2] c [of r3] unfolding nth by auto
    moreover have "0 \<le> res' ! 3" "res' ! 3 < 65536" using d(7,8) c [of r3] c [of r4] unfolding nth by auto
    ultimately have "mval m = dval [res' ! 0, res' ! 1, res' ! 2, res' ! 3]" unfolding m_def by (rule mval_of_digits)
    then have "65536 * mval m + res' ! 4 = 2 * T" using \<open>?c r0 = 0\<close> by (simp add: nth nth(2) [simplified] T_def dval_def)
    moreover have "(2 * T + 32768) div 65536 = (T + 16384) div 32768"
      using div_mult_mult1 [of 2 "T + 16384" 32768] by simp
    moreover have "mul_mant (dval res) = (T + 16384) div 32768"
    proof -
      have "mul_mant (dval res) = (dval res + 2 ^ 48 * 16384) div (2 ^ 48 * 32768)"
        using True top by (simp add: mul_mant_def mul_shift_def)
      also have "\<dots> = (T + 16384) div 32768" by (subst zdiv_zmult2_eq) (simp, simp only: div48)
      finally show ?thesis .
    qed
    ultimately show "0 \<le> res' ! 4 \<and> res' ! 4 < 65536 \<and> (65536 * mval m + res' ! 4 + 32768) div 65536 = mul_mant (dval res)"
      using in4 by simp
  next
    case False
    then have r': "res' = res" using s b by (simp add: r)
    have "mval m = dval [r0, r1, r2, r3]" unfolding m_def r' r using mval_of_digits [OF d(1-8)] by simp
    then have "65536 * mval m + res' ! 4 = T" by (simp add: T_def dval_def r' r)
    moreover have "mul_mant (dval res) = (T + 32768) div 65536"
    proof -
      have "mul_mant (dval res) = (dval res + 2 ^ 48 * 32768) div (2 ^ 48 * 65536)"
        using False top by (simp add: mul_mant_def mul_shift_def)
      also have "\<dots> = (T + 32768) div 65536" by (subst zdiv_zmult2_eq) (simp, simp only: div48)
      finally show ?thesis .
    qed
    ultimately show "0 \<le> res' ! 4 \<and> res' ! 4 < 65536 \<and> (65536 * mval m + res' ! 4 + 32768) div 65536 = mul_mant (dval res)"
      using d(9,10) by (simp add: r' r)
  qed
qed

text \<open>\<open>flt_mul\<close> before the range check.\<close>

definition exp_ok :: "flt_arith \<Rightarrow> bool" where
  "exp_ok e \<longleftrightarrow> EXT_MIN < flt_exp e \<and> flt_exp e < EXT_MAX"

lemma normal_exp_ok: "normal e \<Longrightarrow> exp_ok e"
  by (simp add: normal_def exp_ok_def)

lemma flt_mul_mant:
  assumes n: "exp_ok e1" "exp_ok e2"
  defines "P \<equiv> mval (flt_mantissa e1) * mval (flt_mantissa e2)"
  defines "E \<equiv> flt_exp e1 + flt_exp e2 - 63 + int (mul_shift P)"
  obtains m x where "flt_mul e1 e2 = flt_chk \<lparr>flt_sign = flt_sign e1 XOR flt_sign e2, flt_exp = x, flt_mantissa = m\<rparr> 0"
    "mval m = mul_mant P \<and> x = E \<or> mul_mant P = 2 ^ 64 \<and> mval m = 2 ^ 63 \<and> x = E + 1"
proof -
  let ?x = "c_short (flt_exp e1 + flt_exp e2 + 1)"
  define res where "res = mul_rows (flt_split e1) (flt_split e2) 4 (replicate 8 0)"
  have ok: "length res = 8" "digits res" "dval res = P"
  proof -
    have "digits (replicate 8 0)" "dval (replicate 4 0) = 0" by (simp_all add: digits_def dval_def numeral_eq_Suc)
    then show "length res = 8" "digits res" "dval res = P"
      using mul_rows_ok [of "flt_split e1" "flt_split e2" 4 "replicate 8 0"]
      by (simp_all add: flt_split_ok res_def P_def mult.commute)
  qed
  have ex: "- 16384 < flt_exp e1" "flt_exp e1 < 16384" "- 16384 < flt_exp e2" "flt_exp e2 < 16384"
    using n by (simp_all add: exp_ok_def EXT_MIN_def EXT_MAX_def)
  have cx: "?x = flt_exp e1 + flt_exp e2 + 1" using ex by (intro c_short_id) simp_all
  obtain res' x' where s: "(res', x') = (if res ! 0 AND 0x8000 = 0 then (shl_product res, c_short (?x - 1)) else (res, ?x))" by metis
  note cmb = mul_combine [OF ok(1,2) s, unfolded ok(3)]
  let ?m = "\<lparr>flt_h_32 = word_of_int (push_bit 16 (res' ! 0) + res' ! 1), flt_l_32 = word_of_int (push_bit 16 (res' ! 2) + res' ! 3)\<rparr>"
  have "c_short (?x - 1) = flt_exp e1 + flt_exp e2" unfolding cx using ex by (subst c_short_id) simp_all
  then have x': "x' = E" using cmb(4) cx by (simp add: E_def mul_shift_def)
  obtain m x where mr: "mul_round res' ?m x' = (m, x)" by fastforce
  note round = mul_round_ok [OF cmb(2,3) mr, unfolded cmb(1)]
  have "flt_mul e1 e2 = flt_chk \<lparr>flt_sign = flt_sign e1 XOR flt_sign e2, flt_exp = x, flt_mantissa = m\<rparr> 0"
    unfolding flt_mul_def Let_def res_def [symmetric] s [symmetric] prod.case mr ..
  moreover have "mval m = mul_mant P \<and> x = E \<or> mul_mant P = 2 ^ 64 \<and> mval m = 2 ^ 63 \<and> x = E + 1"
  proof (cases "mul_mant P < 2 ^ 64")
    case True
    then show ?thesis using round x' by simp
  next
    case False
    have "P < 2 ^ 127"
    proof (rule ccontr)
      assume "\<not> P < 2 ^ 127"
      then have "mul_mant P = (P + 2 ^ 63) div 2 ^ 64" by (simp add: mul_mant_def mul_shift_def)
      moreover have le: "mval a \<le> 2 ^ 64 - 1" for a using mval_range(2) [of a] zle_diff1_eq [of "mval a" "2 ^ 64"] by blast
      then have "P \<le> (2 ^ 64 - 1) * (2 ^ 64 - 1)" unfolding P_def by (intro mult_mono le) simp_all
      then have "P + 2 ^ 63 < 2 ^ 64 * 2 ^ 64" by simp
      then have "(P + 2 ^ 63) div 2 ^ 64 < 2 ^ 64" by (rule zdiv_less_pow)
      ultimately show False using False by simp
    qed
    then have "E = flt_exp e1 + flt_exp e2" by (simp add: E_def mul_shift_def)
    then have "c_short (x' + 1) = E + 1" unfolding x' using ex by (subst c_short_id) simp_all
    then show ?thesis using round False by simp
  qed
  ultimately show ?thesis using that by blast
qed

text \<open>Rounding errs by at most half a unit.\<close>

lemma round_close: "\<bar>(p + 2 ^ k) div 2 ^ Suc k * 2 ^ Suc k - p\<bar> \<le> (2 ^ k :: int)"
proof -
  let ?q = "(p + 2 ^ k) div 2 ^ Suc k" and ?r = "(p + 2 ^ k) mod 2 ^ Suc k"
  have "?q * 2 ^ Suc k + ?r = p + 2 ^ k" by (rule div_mult_mod_eq)
  moreover have "0 \<le> ?r" "?r < 2 ^ Suc k" by simp_all
  ultimately show ?thesis unfolding power_Suc by linarith
qed

lemma mul_mant_close: "\<bar>mul_mant p * 2 ^ mul_shift p - p\<bar> \<le> 2 ^ (mul_shift p - 1)"
  using round_close [of p 62] round_close [of p 63] by (simp add: mul_mant_def mul_shift_def)

lemma mul_mant_top:
  assumes "2 ^ 126 \<le> p"
  shows "2 ^ 63 \<le> mul_mant p"
proof -
  have "2 ^ 63 * 2 ^ mul_shift p \<le> p + 2 ^ (mul_shift p - 1)" using assms by (simp add: mul_shift_def)
  then have "(2 ^ 63 * 2 ^ mul_shift p) div 2 ^ mul_shift p \<le> mul_mant p" unfolding mul_mant_def by (intro zdiv_mono1) simp_all
  then show ?thesis by simp
qed

lemma powi_shift: "(2 :: real) powi (x + int k) = 2 ^ k * 2 powi x"
  by (simp add: power_int_add)

text \<open>The number that is checked for its range.\<close>

lemma flt_mul_close:
  assumes n: "normal e1" "normal e2"
  obtains f where "flt_mul e1 e2 = flt_chk f 0" "flt_sign f = flt_sign e1 XOR flt_sign e2" "flt_sign f \<in> {0, 1}" "2 ^ 63 \<le> mval (flt_mantissa f)"
    "\<bar>fval f - fval e1 * fval e2\<bar> \<le> 2 powi (flt_exp f - 64)"
    "flt_exp e1 + flt_exp e2 \<le> flt_exp f" "flt_exp f \<le> flt_exp e1 + flt_exp e2 + 2"
proof -
  define P where "P = mval (flt_mantissa e1) * mval (flt_mantissa e2)"
  define E where "E = flt_exp e1 + flt_exp e2 - 63 + int (mul_shift P)"
  define s where "s = flt_sign e1 XOR flt_sign e2"
  obtain m x where r: "flt_mul e1 e2 = flt_chk \<lparr>flt_sign = s, flt_exp = x, flt_mantissa = m\<rparr> 0"
    and mx: "mval m = mul_mant P \<and> x = E \<or> mul_mant P = 2 ^ 64 \<and> mval m = 2 ^ 63 \<and> x = E + 1"
    using flt_mul_mant [OF normal_exp_ok [OF n(1)] normal_exp_ok [OF n(2)]] unfolding P_def E_def s_def by metis
  have M: "2 ^ 63 \<le> mval (flt_mantissa e1)" "2 ^ 63 \<le> mval (flt_mantissa e2)" "flt_sign e1 \<in> {0, 1}" "flt_sign e2 \<in> {0, 1}"
    using n by (simp_all add: normal_def)
  have "2 ^ 63 * 2 ^ 63 \<le> P" unfolding P_def using M by (intro mult_mono) simp_all
  then have top: "2 ^ 63 \<le> mval m" using mx mul_mant_top [of P] by auto
  have s: "s \<in> {0, 1}" "fval e1 * fval e2 = scaled s P (flt_exp e1 + flt_exp e2 - 63)"
    using M(3,4) by (auto simp: s_def P_def fval_def scaled_def power_int_add power_int_diff)
  have v: "scaled s (mval m) x = scaled s (mul_mant P * 2 ^ mul_shift P) (flt_exp e1 + flt_exp e2 - 63)"
  proof -
    have "scaled s (mval m) x = scaled s (mul_mant P) E"
      using mx scaled_shift [of s "2 ^ 63" 1 E] by auto
    then show ?thesis by (simp add: scaled_shift E_def)
  qed
  have "\<bar>scaled s (mval m) x - fval e1 * fval e2\<bar>
    = of_int \<bar>mul_mant P * 2 ^ mul_shift P - P\<bar> * 2 powi (flt_exp e1 + flt_exp e2 - 126)"
    unfolding s(2) v using s(1) by (auto simp: scaled_def abs_mult simp flip: left_diff_distrib right_diff_distrib)
  also have "\<dots> \<le> of_int (2 ^ (mul_shift P - 1)) * 2 powi (flt_exp e1 + flt_exp e2 - 126)"
    using mul_mant_close [of P] by (intro mult_right_mono) (simp_all only: of_int_le_iff, simp)
  also have "\<dots> = 2 powi (E - 64)"
    using powi_shift [of "flt_exp e1 + flt_exp e2 - 126" "mul_shift P - 1"] by (simp add: E_def mul_shift_def)
  also have "\<dots> \<le> 2 powi (x - 64)" using mx by (intro power_int_increasing) auto
  finally have c: "\<bar>scaled s (mval m) x - fval e1 * fval e2\<bar> \<le> 2 powi (x - 64)" .
  have "flt_exp e1 + flt_exp e2 \<le> x" "x \<le> flt_exp e1 + flt_exp e2 + 2" using mx by (auto simp: E_def mul_shift_def)
  then show ?thesis
    using that [of "\<lparr>flt_sign = s, flt_exp = x, flt_mantissa = m\<rparr>"] r s(1) top c by (simp add: fval_def s_def)
qed

text \<open>What the range check makes of a number near \<open>v\<close>.\<close>

lemma chk_close:
  assumes f: "flt_sign f \<in> {0, 1}" "2 ^ 63 \<le> mval (flt_mantissa f)" "\<bar>fval f - v\<bar> \<le> 2 powi (flt_exp f - 64)"
    and r: "flt_chk f 0 = (r, status)"
  shows "(status = 0 \<and> normal r \<and> \<bar>fval r - v\<bar> \<le> 2 powi (flt_exp r - 64))
    \<or> (status = FLT_OVFL \<and> 2 powi EXT_MAX - 2 powi (EXT_MAX - 64) \<le> \<bar>v\<bar> \<and> flt_exp r = EXT_MAX \<and> sgn (fval r) = sgn v)
    \<or> (status = FLT_UNFL \<and> \<bar>v\<bar> < 2 powi (EXT_MIN + 1) \<and> fval r = 0)"
proof -
  let ?x = "flt_exp f" and ?M = "mval (flt_mantissa f)"
  have p: "(2 :: real) powi ?x = 2 ^ 64 * 2 powi (?x - 64)" "(2 :: real) powi (?x + 1) = 2 ^ 65 * 2 powi (?x - 64)" "(2 :: real) powi (?x - 63) = 2 * 2 powi (?x - 64)"
    using powi_shift [of "?x - 64" 64] powi_shift [of "?x - 64" 65] powi_shift [of "?x - 64" 1] by (simp_all add: add.commute)
  have a: "\<bar>fval f\<bar> = of_int ?M * (2 * 2 powi (?x - 64))" unfolding fval_def p(3) [symmetric] by (rule scaled_abs) simp
  have lo: "2 powi ?x - 2 powi (?x - 64) \<le> \<bar>v\<bar>" using fval_normal_bounds(1) [OF f(2)] f(3) by linarith
  have hi: "\<bar>v\<bar> < 2 powi (?x + 1)"
  proof -
    have "?M \<le> 2 ^ 64 - 1" using mval_range(2) [of "flt_mantissa f"] by linarith
    then have "real_of_int ?M \<le> of_int (2 ^ 64 - 1)" by (simp only: of_int_le_iff)
    then have "\<bar>fval f\<bar> \<le> of_int (2 ^ 64 - 1) * (2 * 2 powi (?x - 64))" unfolding a by (rule mult_right_mono) simp
    then have "\<bar>fval f\<bar> \<le> 2 powi (?x + 1) - 2 * 2 powi (?x - 64)" unfolding p(2) by (simp add: algebra_simps)
    then show ?thesis using f(3) powi_pos [of "?x - 64"] by linarith
  qed
  have sg: "sgn v = (if flt_sign f = 0 then 1 else - 1)"
  proof -
    have "(2 :: real) powi (?x - 64) < 2 powi ?x" by (rule power_int_strict_increasing) simp_all
    then have "2 powi (?x - 64) < \<bar>fval f\<bar>" using fval_normal_bounds(1) [OF f(2)] by linarith
    then have "sgn v = sgn (fval f)" using f(3) by (auto simp: sgn_if)
    then show ?thesis using fval_sgn [of f] f(2) by simp
  qed
  consider "?x \<ge> EXT_MAX" | "?x \<le> EXT_MIN" "\<not> ?x \<ge> EXT_MAX" | "EXT_MIN < ?x" "?x < EXT_MAX" by linarith
  then show ?thesis
  proof cases
    case 1
    then have "r = f\<lparr>flt_exp := EXT_MAX, flt_mantissa := \<lparr>flt_h_32 = 0x80000000, flt_l_32 = 0\<rparr>\<rparr>" "status = FLT_OVFL"
      using r by (simp_all add: flt_chk_cases)
    moreover from this have "sgn (fval r) = sgn v" using fval_sgn [of r] sg by (simp add: mval_def)
    moreover have "2 powi EXT_MAX - 2 powi (EXT_MAX - 64) \<le> \<bar>v\<bar>"
    proof -
      have "(2 :: real) powi EXT_MAX = 2 ^ 64 * 2 powi (EXT_MAX - 64)" using powi_shift [of "EXT_MAX - 64" 64] by simp
      moreover have "(2 :: real) powi (EXT_MAX - 64) \<le> 2 powi (?x - 64)" using 1 by (intro power_int_increasing) simp_all
      ultimately show ?thesis using lo unfolding p(1) by simp
    qed
    ultimately show ?thesis by simp
  next
    case 2
    then have "r = zero_flt" "status = FLT_UNFL" using r by (simp_all add: flt_chk_cases)
    moreover have "(2 :: real) powi (?x + 1) \<le> 2 powi (EXT_MIN + 1)" using 2 by (intro power_int_increasing) simp_all
    ultimately show ?thesis using hi by (simp add: zero_flt_def fval_def)
  next
    case 3
    then show ?thesis using r f by (auto simp: flt_chk_cases normal_def)
  qed
qed

text \<open>A zero operand.\<close>

lemma flt_mul_zero:
  assumes x: "exp_ok e1" "exp_ok e2" and z: "mval (flt_mantissa e1) = 0 \<or> mval (flt_mantissa e2) = 0"
  obtains f where "flt_mul e1 e2 = flt_chk f 0" "flt_exp f = flt_exp e1 + flt_exp e2" "mval (flt_mantissa f) = 0"
proof -
  have P: "mval (flt_mantissa e1) * mval (flt_mantissa e2) = 0" using z by auto
  have z: "mul_mant 0 = 0" "mul_shift 0 = 63" by (simp_all add: mul_mant_def mul_shift_def)
  obtain m y where f: "flt_mul e1 e2 = flt_chk \<lparr>flt_sign = flt_sign e1 XOR flt_sign e2, flt_exp = y, flt_mantissa = m\<rparr> 0"
    and "mval m = mul_mant 0 \<and> y = flt_exp e1 + flt_exp e2 - 63 + int (mul_shift 0)
      \<or> mul_mant 0 = 2 ^ 64 \<and> mval m = 2 ^ 63 \<and> y = flt_exp e1 + flt_exp e2 - 63 + int (mul_shift 0) + 1"
    using flt_mul_mant [OF x] unfolding P by metis
  then have "mval m = 0" "y = flt_exp e1 + flt_exp e2" unfolding z by simp_all
  then show ?thesis using that [OF f] by simp
qed

text \<open>
  (C33) \<open>flt_mul\<close> on normalized numbers and zeros, with exponents in range.  If no operand is zero
  and the product is in range, the result is the product, rounded to the nearest number of 64
  bits: it errs by at most half a unit in the last place.  On overflow the product is too large, up to
  rounding, and the result is the greatest number with the sign of the product; on underflow the
  product is below the smallest number and the result is zero.  If an operand is zero, so is the result
  as long as the exponents, which a zero has too, add up to one in range; when their sum is too large the
  product of zero is reported as an overflow and made the greatest number.
\<close>

theorem flt_mul_spec:
  assumes "finite_flt e1" and "finite_flt e2" and x: "exp_ok e1" "exp_ok e2" and r: "flt_mul e1 e2 = (r, status)"
  shows "if mval (flt_mantissa e1) = 0 \<or> mval (flt_mantissa e2) = 0
    then (if EXT_MAX \<le> flt_exp e1 + flt_exp e2 then status = FLT_OVFL \<and> flt_exp r = EXT_MAX \<and> fval r \<noteq> 0
          else fval r = 0 \<and> status = (if flt_exp e1 + flt_exp e2 \<le> EXT_MIN then FLT_UNFL else 0))
    else (status = 0 \<and> normal r \<and> \<bar>fval r - fval e1 * fval e2\<bar> \<le> 2 powi (flt_exp r - 64))
      \<or> (status = FLT_OVFL \<and> 2 powi EXT_MAX - 2 powi (EXT_MAX - 64) \<le> \<bar>fval e1 * fval e2\<bar>
         \<and> flt_exp r = EXT_MAX \<and> sgn (fval r) = sgn (fval e1 * fval e2))
      \<or> (status = FLT_UNFL \<and> \<bar>fval e1 * fval e2\<bar> < 2 powi (EXT_MIN + 1) \<and> fval r = 0)"
proof (cases "mval (flt_mantissa e1) = 0 \<or> mval (flt_mantissa e2) = 0")
  case True
  obtain f where f: "flt_mul e1 e2 = flt_chk f 0" "flt_exp f = flt_exp e1 + flt_exp e2" "mval (flt_mantissa f) = 0"
    using flt_mul_zero [OF x True] .
  have v: "fval f = 0" "fval zero_flt = 0" using f(3) by (simp_all add: fval_def zero_flt_def)
  have o: "fval (f\<lparr>flt_exp := EXT_MAX, flt_mantissa := \<lparr>flt_h_32 = 0x80000000, flt_l_32 = 0\<rparr>\<rparr>) \<noteq> 0"
    using fval_sgn [of "f\<lparr>flt_exp := EXT_MAX, flt_mantissa := \<lparr>flt_h_32 = 0x80000000, flt_l_32 = 0\<rparr>\<rparr>"]
    by (auto simp: mval_def sgn_if split: if_splits)
  show ?thesis
    unfolding if_P [OF True] using r o v unfolding f(1) flt_chk_cases f(2) by (auto split: if_splits)
next
  case False
  then have n: "normal e1" "normal e2" using assms(1,2) by (auto simp: finite_flt_def)
  obtain f where f: "flt_mul e1 e2 = flt_chk f 0" "flt_sign f \<in> {0, 1}" "2 ^ 63 \<le> mval (flt_mantissa f)"
    "\<bar>fval f - fval e1 * fval e2\<bar> \<le> 2 powi (flt_exp f - 64)"
    using flt_mul_close [OF n] by metis
  show ?thesis unfolding if_not_P [OF False] using chk_close [OF f(2-4)] r f(1) by simp
qed

lemma flt_mul_example: "flt_mul flt_onehalf flt_onehalf
    = (\<lparr>flt_sign = 0, flt_exp = 1, flt_mantissa = \<lparr>flt_h_32 = 0x90000000, flt_l_32 = 0\<rparr>\<rparr>, 0)"
  by code_simp

definition late_zero :: flt_arith where
  "late_zero = \<lparr>flt_sign = 0, flt_exp = 16383, flt_mantissa = \<lparr>flt_h_32 = 0, flt_l_32 = 0\<rparr>\<rparr>"

theorem flt_mul_witness:
  "snd (flt_mul flt_onehalf flt_onehalf) = 0
   \<and> \<bar>fval (fst (flt_mul flt_onehalf flt_onehalf)) - fval flt_onehalf * fval flt_onehalf\<bar> \<le> 2 powi (- 63)
   \<and> snd (flt_mul late_zero flt_two) = FLT_OVFL"
proof -
  have h: "finite_flt flt_onehalf" "exp_ok flt_onehalf" "finite_flt late_zero" "exp_ok late_zero" "finite_flt flt_two" "exp_ok flt_two"
    by (simp_all add: normal_exp_ok) (simp_all add: finite_flt_def exp_ok_def late_zero_def mval_def EXT_MIN_def EXT_MAX_def)
  have z: "mval (flt_mantissa late_zero) = 0" "EXT_MAX \<le> flt_exp late_zero + flt_exp flt_two"
    "mval (flt_mantissa flt_onehalf) \<noteq> 0"
    by (simp_all add: late_zero_def flt_two_def flt_onehalf_def mval_def EXT_MAX_def)
  show ?thesis
    using flt_mul_spec [OF h(1,1,2,2) flt_mul_example] flt_mul_spec [OF h(3,5,4,6), of "fst (flt_mul late_zero flt_two)" "snd (flt_mul late_zero flt_two)"]
      flt_mul_example z by (simp add: FLT_OVFL_def FLT_UNFL_def)
qed

end
