(* ===== verification/Flt_Div.thy ===== *)
theory Flt_Div
  imports Flt_Mul
begin

text \<open>
  Division of the floating point module (\<open>flt_div.c\<close>): Knuth's algorithm D on digits of 16 bits.
  The arrays \<open>u\<close> and \<open>v\<close> are lists; \<open>u[8]\<close> and \<open>v[0]\<close> are never used.  The theorem is that every
  estimated digit is corrected to the right one, so that the mantissa is the truncated quotient.
\<close>

section \<open>The operation\<close>

text \<open>\<open>while (! v[maxv]) maxv--\<close>\<close>

primrec maxv_loop :: "int list \<Rightarrow> nat \<Rightarrow> nat" where
  "maxv_loop v 0 = 0"
| "maxv_loop v (Suc i) = (if v ! Suc i = 0 then maxv_loop v i else Suc i)"

text \<open>The estimate of a digit is lowered while the first two digits of \<open>v\<close> show that it is too big.\<close>

function est_loop :: "int list \<Rightarrow> int \<Rightarrow> int \<Rightarrow> int \<Rightarrow> int" where
  "est_loop v u2 q_est temp =
     (if temp AND 0xFFFF0000 = 0 \<and> c_uint (v ! 2 * q_est) > c_uint (push_bit 16 temp + u2)
      then est_loop v u2 (c_uint (q_est - 1)) (c_uint (temp + v ! 1)) else q_est)"
  by pat_completeness auto

termination
proof (relation "measure (\<lambda>(v, u2, q_est, temp). nat (c_uint q_est))", goal_cases)
  case (2 v u2 q_est temp)
  have c: "c_uint x = x mod 4294967296" for x by (simp add: c_uint_def take_bit_eq_mod)
  have "c_uint (v ! 2 * q_est) > 0" using 2 by (metis c pos_mod_sign zero_less_numeral order_le_less_trans)
  then have "q_est mod 4294967296 \<noteq> 0" by (auto simp: c mod_eq_0_iff_dvd)
  moreover have "0 \<le> q_est mod 4294967296" "q_est mod 4294967296 < 4294967296" by simp_all
  ultimately have "(q_est mod 4294967296 - 1) mod 4294967296 = q_est mod 4294967296 - 1" by (intro mod_pos_pos_trivial) linarith+
  then have "(q_est - 1) mod 4294967296 = q_est mod 4294967296 - 1" by (simp add: mod_diff_left_eq)
  then show ?case using \<open>q_est mod 4294967296 \<noteq> 0\<close> \<open>0 \<le> q_est mod 4294967296\<close> by (simp add: c)
qed simp

declare est_loop.simps [simp del]

text \<open>\<open>q_est\<close> times \<open>v\<close> is subtracted from the digits of \<open>u\<close> from \<open>p\<close> on: carry, borrow and array.\<close>

primrec div_sub :: "int \<Rightarrow> int list \<Rightarrow> nat \<Rightarrow> nat \<Rightarrow> int \<Rightarrow> int \<Rightarrow> int list \<Rightarrow> int \<times> int \<times> int list" where
  "div_sub q_est v p 0 k borrow u = (k, borrow, u)"
| "div_sub q_est v p (Suc i) k borrow u =
     (let tmp = c_uint (q_est * v ! Suc i + k + borrow); md = tmp AND 0xFFFF; ui = u ! (p + Suc i) in
      div_sub q_est v p i (drop_bit 16 tmp AND 0xFFFF) (if md > ui then 1 else 0) (u[p + Suc i := take_bit 16 (ui - md)]))"

text \<open>\<open>v\<close> is added again.\<close>

primrec add_back :: "int list \<Rightarrow> nat \<Rightarrow> nat \<Rightarrow> int \<Rightarrow> int list \<Rightarrow> int \<times> int list" where
  "add_back v p 0 borrow u = (borrow, u)"
| "add_back v p (Suc i) borrow u =
     (let tmp = c_uint (v ! Suc i + u ! (p + Suc i) + borrow) in
      add_back v p i (drop_bit 16 tmp AND 0xFFFF) (u[p + Suc i := tmp AND 0xFFFF]))"

definition div_est :: "int list \<Rightarrow> nat \<Rightarrow> int list \<Rightarrow> int" where
  "div_est v p u =
     (let temp = c_uint (push_bit 16 (u ! p) + u ! Suc p);
          q_est = (if u ! p \<ge> v ! 1 then 0xFFFF else if v ! 1 = 1 then temp else temp div v ! 1);
          temp = c_uint (temp - c_uint (q_est * v ! 1)) in
      est_loop v (u ! (p + 2)) q_est temp)"

text \<open>One digit of the quotient, and the array that is left.\<close>

definition div_step :: "int list \<Rightarrow> nat \<Rightarrow> nat \<Rightarrow> int list \<Rightarrow> int \<times> int list" where
  "div_step v maxv p u =
     (if u ! p = 0 \<and> u ! Suc p < v ! 1 then (0, u)
      else
        let q_est = div_est v p u in
        if q_est \<noteq> 0 then
          let (k, borrow, u) = div_sub q_est v p maxv 0 0 u;
              k = c_uint (k + borrow);
              borrow = u ! p < k;
              u = u[p := take_bit 16 (u ! p - k)] in
          if borrow then
            let (borrow, u) = add_back v p maxv 0 u in
            (c_uint (q_est - 1), u[p := take_bit 16 (u ! p + borrow)])
          else (q_est, u)
        else (q_est, u))"

text \<open>\<open>result\<close> is a pair; the digit goes to the upper or lower half of one of its words.\<close>

definition put_quot :: "nat \<Rightarrow> int \<Rightarrow> int \<times> int \<Rightarrow> int \<times> int" where
  "put_quot j q_est result =
     (let d = (if odd j then q_est else c_uint (push_bit 16 q_est)) in
      if j < 2 then (fst result OR d, snd result) else (fst result, snd result OR d))"

primrec div_loop :: "int list \<Rightarrow> nat \<Rightarrow> nat list \<Rightarrow> int list \<Rightarrow> int \<times> int \<Rightarrow> int \<times> int" where
  "div_loop v maxv [] u result = result"
| "div_loop v maxv (j # js) u result =
     (case div_step v maxv j u of (q_est, u) \<Rightarrow> div_loop v maxv js u (put_quot j q_est result))"

definition flt_div :: "flt_arith \<Rightarrow> flt_arith \<Rightarrow> flt_arith \<times> int" where
  "flt_div e1 e2 =
     (let sign = flt_sign e1 XOR flt_sign e2 in
      if m1 e2 OR m2 e2 = 0 then
        (\<lparr>flt_sign = sign, flt_exp = EXT_MAX, flt_mantissa = \<lparr>flt_h_32 = 0x80000000, flt_l_32 = 0\<rparr>\<rparr>, FLT_DIV0)
      else if m1 e1 OR m2 e1 = 0 then (zero_flt, 0)
      else
        let cpe1 = e1\<lparr>flt_mantissa := flt_b64_sft (flt_mantissa e1) 1\<rparr>;
            u = flt_split cpe1 @ [uint (push_bit 15 (m2 e1 AND 1)), 0, 0, 0];
            v = 0 # flt_split e2;
            (r0, r1) = div_loop v (maxv_loop v 4) [0, 1, 2, 3] u (0, 0) in
        flt_chk (flt_nrm \<lparr>flt_sign = sign, flt_exp = c_short (flt_exp e1 - flt_exp e2),
          flt_mantissa = \<lparr>flt_h_32 = word_of_int r0, flt_l_32 = word_of_int r1\<rparr>\<rparr>) 0)"

section \<open>Subtracting and adding\<close>

lemma take_Suc_nth: "i < length xs \<Longrightarrow> take (Suc i) xs = take i xs @ [xs ! i]"
  by (rule take_Suc_conv_app_nth)

text \<open>A digit is replaced below a part that stays.\<close>

lemma window_low:
  fixes u :: "int list"
  assumes "length u' = length u" "drop (p + i) u' = drop (p + i) (u[p + i := d])" "p + i < length u"
  shows "take (Suc i) (drop p u') = take i (drop p u') @ [d]" "take (Suc i) (drop p u) = take i (drop p u) @ [u ! (p + i)]"
    "take i (drop p (u[p + i := d])) = take i (drop p u)" "drop (p + Suc i) u' = drop (p + Suc i) u"
proof -
  have "u' ! (p + i) = d" using assms by (metis hd_drop_conv_nth length_list_update nth_list_update_eq)
  then show "take (Suc i) (drop p u') = take i (drop p u') @ [d]" using assms by (simp add: take_Suc_nth)
  show "take (Suc i) (drop p u) = take i (drop p u) @ [u ! (p + i)]" using assms by (simp add: take_Suc_nth)
  show "take i (drop p (u[p + i := d])) = take i (drop p u)" by (simp add: drop_update_swap)
  show "drop (p + Suc i) u' = drop (p + Suc i) u"
    using assms(2) by (metis add_Suc_right drop_Suc_Cons drop_drop drop_update_cancel lessI plus_1_eq_Suc)
qed

lemma div_sub_ok:
  assumes "digits v" "0 \<le> q" "q < 65536"
  shows "digits u \<Longrightarrow> 0 \<le> k \<Longrightarrow> k < 65536 \<Longrightarrow> b \<in> {0, 1} \<Longrightarrow> Suc p + i \<le> length u \<Longrightarrow> i < length v \<Longrightarrow>
    div_sub q v p i k b u = (k', b', u') \<Longrightarrow>
    length u' = length u \<and> digits u' \<and> 0 \<le> k' \<and> k' < 65536 \<and> b' \<in> {0, 1} \<and> take (Suc p) u' = take (Suc p) u
    \<and> drop (Suc p + i) u' = drop (Suc p + i) u
    \<and> dval (take i (drop (Suc p) u')) = dval (take i (drop (Suc p) u)) - q * dval (take i (drop 1 v)) - (k + b) + (k' + b') * 65536 ^ i"
proof (induction i arbitrary: k b u)
  case (Suc i k b u)
  let ?u = "u ! (Suc p + i)" and ?v = "v ! Suc i"
  define t where "t = q * ?v + k + b"
  have r: "0 \<le> ?u" "?u < 65536" "0 \<le> ?v" "?v < 65536"
    using digits_nth [OF Suc.prems(1), of "Suc p + i"] digits_nth [OF assms(1), of "Suc i"] Suc.prems(5,6) by simp_all
  have m: "0 \<le> q * ?v" "q * ?v \<le> 65535 * 65535" using r assms(2,3) by (simp, intro mult_mono) simp_all
  have t: "0 \<le> t" "t < 65536 * 65536" using m Suc.prems(2,3,4) unfolding t_def by auto
  define b1 :: int where "b1 = (if t mod 65536 > ?u then 1 else 0)"
  have md: "0 \<le> t mod 65536" "t mod 65536 < 65536" by simp_all
  define d where "d = ?u - t mod 65536 + b1 * 65536"
  have d: "take_bit 16 (?u - t mod 65536) = d" "0 \<le> d" "d < 65536"
  proof -
    show "0 \<le> d" "d < 65536" using r md by (auto simp: d_def b1_def)
    then have "(?u - t mod 65536 + b1 * 65536) mod 65536 = d" unfolding d_def by (rule mod_pos_pos_trivial)
    then show "take_bit 16 (?u - t mod 65536) = d" by (simp add: take_bit_eq_mod)
  qed
  have k: "0 \<le> t div 65536" "t div 65536 < 65536" using t by (simp_all add: pos_imp_zdiv_nonneg_iff)
  have row: "div_sub q v p (Suc i) k b u = div_sub q v p i (t div 65536) b1 (u[Suc p + i := d])"
  proof -
    have "c_uint (q * ?v + k + b) = t" using t by (simp add: t_def c_uint_id)
    moreover have "t div 65536 mod 65536 = t div 65536" using k by simp
    ultimately show ?thesis using d(1) by (simp add: Let_def low16 b1_def)
  qed
  let ?us = "u[Suc p + i := d]"
  have IH: "length u' = length ?us \<and> digits u' \<and> 0 \<le> k' \<and> k' < 65536 \<and> b' \<in> {0, 1} \<and> take (Suc p) u' = take (Suc p) ?us
    \<and> drop (Suc p + i) u' = drop (Suc p + i) ?us
    \<and> dval (take i (drop (Suc p) u')) = dval (take i (drop (Suc p) ?us)) - q * dval (take i (drop 1 v)) - (t div 65536 + b1) + (k' + b') * 65536 ^ i"
    using Suc.prems k row d by (intro Suc.IH digits_update) (simp_all add: b1_def)
  have l: "Suc p + i < length u" "i < length (drop 1 v)" using Suc.prems by simp_all
  note w = window_low [of u' u "Suc p" i d, OF _ _ l(1)]
  have e: "65536 * (X - q * Z - (t div 65536 + b1) + (k' + b') * 65536 ^ i) + d
    = 65536 * X + ?u - q * (65536 * Z + ?v) - (k + b) + (k' + b') * 65536 ^ Suc i" for X Z
  proof -
    have "65536 * (t div 65536) = t - t mod 65536" by (simp add: minus_mod_eq_mult_div)
    then show ?thesis by (simp add: d_def algebra_simps t_def)
  qed
  have "take (Suc i) (drop 1 v) = take i (drop 1 v) @ [?v]" using l(2) by (simp add: take_Suc_nth)
  then show ?case using IH w e by simp
qed simp

lemma add_back_ok:
  assumes "digits v"
  shows "digits u \<Longrightarrow> b \<in> {0, 1} \<Longrightarrow> Suc p + i \<le> length u \<Longrightarrow> i < length v \<Longrightarrow> add_back v p i b u = (b', u') \<Longrightarrow>
    length u' = length u \<and> digits u' \<and> b' \<in> {0, 1} \<and> take (Suc p) u' = take (Suc p) u
    \<and> drop (Suc p + i) u' = drop (Suc p + i) u
    \<and> dval (take i (drop (Suc p) u')) = dval (take i (drop (Suc p) u)) + dval (take i (drop 1 v)) + b - b' * 65536 ^ i"
proof (induction i arbitrary: b u)
  case (Suc i b u)
  let ?u = "u ! (Suc p + i)" and ?v = "v ! Suc i"
  define t where "t = ?v + ?u + b"
  have r: "0 \<le> ?u" "?u < 65536" "0 \<le> ?v" "?v < 65536"
    using digits_nth [OF Suc.prems(1), of "Suc p + i"] digits_nth [OF assms(1), of "Suc i"] Suc.prems(3,4) by simp_all
  have t: "0 \<le> t" "t < 2 * 65536" using r Suc.prems(2) unfolding t_def by auto
  have k: "t div 65536 \<in> {0, 1}"
  proof -
    have "0 \<le> t div 65536" "t div 65536 < 2" using t by (simp_all add: pos_imp_zdiv_nonneg_iff)
    then show ?thesis by auto
  qed
  let ?us = "u[Suc p + i := t mod 65536]"
  have row: "add_back v p (Suc i) b u = add_back v p i (t div 65536) ?us"
  proof -
    have "c_uint (?v + ?u + b) = t" using t by (simp add: t_def c_uint_id)
    moreover have "t div 65536 mod 65536 = t div 65536" using k by auto
    ultimately show ?thesis by (simp add: Let_def low16)
  qed
  have IH: "length u' = length ?us \<and> digits u' \<and> b' \<in> {0, 1} \<and> take (Suc p) u' = take (Suc p) ?us
    \<and> drop (Suc p + i) u' = drop (Suc p + i) ?us
    \<and> dval (take i (drop (Suc p) u')) = dval (take i (drop (Suc p) ?us)) + dval (take i (drop 1 v)) + t div 65536 - b' * 65536 ^ i"
    using Suc.prems k row by (intro Suc.IH digits_update) simp_all
  have l: "Suc p + i < length u" "i < length (drop 1 v)" using Suc.prems by simp_all
  note w = window_low [of u' u "Suc p" i "t mod 65536", OF _ _ l(1)]
  have e: "65536 * (X + Z + t div 65536 - b' * 65536 ^ i) + t mod 65536
    = 65536 * X + ?u + (65536 * Z + ?v) + b - b' * 65536 ^ Suc i" for X Z
  proof -
    have "65536 * (t div 65536) = t - t mod 65536" by (simp add: minus_mod_eq_mult_div)
    then show ?thesis by (simp add: algebra_simps t_def)
  qed
  have "take (Suc i) (drop 1 v) = take i (drop 1 v) @ [?v]" using l(2) by (simp add: take_Suc_nth)
  then show ?case using IH w e by simp
qed simp

text \<open>Digits of \<open>v\<close> that are zero may be left out.\<close>

lemma div_sub_skip:
  assumes "digits u" "\<And>i. n < i \<Longrightarrow> i \<le> n + d \<Longrightarrow> v ! i = 0" "p + (n + d) < length u"
  shows "div_sub q v p (n + d) 0 0 u = div_sub q v p n 0 0 u"
  using assms(2,3)
proof (induction d)
  case (Suc d)
  have u: "0 \<le> u ! (p + Suc (n + d))" "u ! (p + Suc (n + d)) < 65536" using digits_nth [OF assms(1), of "p + Suc (n + d)"] Suc.prems(2) by simp_all
  then have "take_bit 16 (u ! (p + Suc (n + d))) = u ! (p + Suc (n + d))" by (simp add: take_bit_int_eq_self)
  then show ?case using Suc u by (simp add: Let_def c_uint_def)
qed simp

lemma add_back_skip:
  assumes "digits u" "\<And>i. n < i \<Longrightarrow> i \<le> n + d \<Longrightarrow> v ! i = 0" "p + (n + d) < length u"
  shows "add_back v p (n + d) 0 u = add_back v p n 0 u"
  using assms(2,3)
proof (induction d)
  case (Suc d)
  have u: "0 \<le> u ! (p + Suc (n + d))" "u ! (p + Suc (n + d)) < 65536" using digits_nth [OF assms(1), of "p + Suc (n + d)"] Suc.prems(2) by simp_all
  then have "c_uint (u ! (p + Suc (n + d))) = u ! (p + Suc (n + d))" by (simp add: c_uint_id)
  then show ?case using Suc u by (simp add: Let_def low16)
qed simp

lemma maxv_loop_le: "maxv_loop v n \<le> n" "maxv_loop v n < i \<Longrightarrow> i \<le> n \<Longrightarrow> v ! i = 0"
proof -
  show "maxv_loop v n \<le> n" for n by (induction n) auto
  then show "maxv_loop v n < i \<Longrightarrow> i \<le> n \<Longrightarrow> v ! i = 0"
    by (induction n) (auto simp: le_Suc_eq split: if_splits)
qed

section \<open>The estimate\<close>

lemma top16:
  assumes "0 \<le> t" "t < (4294967296 :: int)"
  shows "t AND 0xFFFF0000 = 0 \<longleftrightarrow> t < 65536"
proof -
  have "t AND 0xFFFF0000 = push_bit 16 (drop_bit 16 t)"
  proof (rule bit_eqI)
    fix n
    have m: "(0xFFFF0000 :: int) = push_bit 16 (mask 16)" by (simp add: mask_eq_exp_minus_1 push_bit_eq_mult)
    have "bit t n \<Longrightarrow> n < 32"
      using assms bit_take_bit_iff [of 32 t n] by (simp add: take_bit_int_eq_self)
    then show "bit (t AND 0xFFFF0000) n \<longleftrightarrow> bit (push_bit 16 (drop_bit 16 t)) n"
      unfolding m by (simp only: bit_and_iff bit_push_bit_iff bit_mask_iff bit_drop_bit_eq) (auto simp: bit_simps)
  qed
  also have "\<dots> = 0 \<longleftrightarrow> t div 65536 = 0" by (simp add: push_bit_eq_mult drop_bit_eq_div)
  also have "\<dots> \<longleftrightarrow> t < 65536" using assms div_pos_pos_trivial [of t 65536] zdiv_mono1 [of 65536 t 65536] by (cases "t < 65536") simp_all
  finally show ?thesis .
qed

text \<open>The loop stops at the quotient of the first three digits by two, or one above, in the sense that
  is needed: never below the true digit, and at most one above it.\<close>

lemma est_loop_ok:
  fixes N W L :: int
  assumes v: "0 < v ! 1" "v ! 1 < 65536" "0 \<le> v ! 2" "v ! 2 < 65536" and W: "0 \<le> W" "W < 65536 ^ 2"
    and u: "0 \<le> u2" "u2 < 65536" "0 \<le> L" "L < 65536 ^ 2"
  defines "V \<equiv> v ! 1 * 65536 ^ 3 + v ! 2 * 65536 ^ 2 + W" and "U \<equiv> N * 65536 ^ 3 + u2 * 65536 ^ 2 + L"
  shows "0 \<le> q \<Longrightarrow> q < 65536 \<Longrightarrow> temp = N - q * v ! 1 \<Longrightarrow> 0 \<le> temp \<Longrightarrow> temp < 4294967296 \<Longrightarrow> U < (q + 1) * V \<Longrightarrow>
    0 \<le> est_loop v u2 q temp \<and> est_loop v u2 q temp < 65536
    \<and> (est_loop v u2 q temp - 1) * V \<le> U \<and> U < (est_loop v u2 q temp + 1) * V"
proof (induction "nat q" arbitrary: q temp rule: less_induct)
  case (less q temp)
  have qV: "q * V = q * v ! 1 * 65536 ^ 3 + q * v ! 2 * 65536 ^ 2 + q * W" by (simp add: V_def algebra_simps)
  have qv: "q * v ! 1 = N - temp" using less.prems(3) by simp
  have q2: "0 \<le> q * v ! 2" "q * v ! 2 \<le> 65535 * 65535" using less.prems(1,2) v by (simp, intro mult_mono) simp_all
  have top: "temp AND 0xFFFF0000 = 0 \<longleftrightarrow> temp < 65536" using top16 less.prems(4,5) .
  have c: "c_uint (v ! 2 * q) = q * v ! 2" using q2 by (simp add: c_uint_id mult.commute)
  have c': "c_uint (push_bit 16 temp + u2) = temp * 65536 + u2" if "temp < 65536"
    using that less.prems(4) u by (simp add: c_uint_id push_bit_eq_mult)
  show ?case
  proof (cases "temp < 65536 \<and> q * v ! 2 > temp * 65536 + u2")
    case True
    then have "q \<noteq> 0" using less.prems(4) u by auto
    then have q: "1 \<le> q" using less.prems(1) by simp
    have e: "est_loop v u2 q temp = est_loop v u2 (q - 1) (temp + v ! 1)"
      using True c c' top q less.prems(2,4) v by (subst est_loop.simps) (simp add: c_uint_id)
    have "(q * v ! 2) * 65536 ^ 2 \<ge> (temp * 65536 + u2 + 1) * 65536 ^ 2" using True by (intro mult_right_mono) simp_all
    moreover have "0 \<le> q * W" using q W by simp
    ultimately have "U < q * V" using u qV unfolding qv U_def by (simp add: algebra_simps)
    then have "U < (q - 1 + 1) * V" by simp
    moreover have "temp + v ! 1 = N - (q - 1) * v ! 1" using less.prems(3) by (simp add: left_diff_distrib)
    ultimately show ?thesis unfolding e using q less.prems(1,2,4) v True by (intro less.hyps) simp_all
  next
    case False
    then have e: "est_loop v u2 q temp = q" using c c' top by (subst est_loop.simps) auto
    have V0: "0 \<le> V" "65536 ^ 3 \<le> V" using v W by (simp_all add: V_def)
    have "(q - 1) * V \<le> U"
    proof (cases "temp < 65536")
      case True
      then have "q * v ! 2 * 65536 ^ 2 \<le> (temp * 65536 + u2) * 65536 ^ 2" using False by (intro mult_right_mono) simp_all
      moreover have "q * W \<le> 65536 * 65536 ^ 2" using less.prems(1,2) W by (intro mult_mono) simp_all
      ultimately show ?thesis using qV V0 u unfolding qv U_def by (simp add: algebra_simps)
    next
      case f: False
      have "q * (v ! 2 * 65536 ^ 2 + W) \<le> 65536 * (65536 ^ 3)" using less.prems(1,2) v W by (intro mult_mono) simp_all
      moreover have "65536 * 65536 ^ 3 \<le> temp * 65536 ^ 3" using f by simp
      ultimately show ?thesis using qV V0 u unfolding qv U_def by (simp add: algebra_simps)
    qed
    then show ?thesis unfolding e using less.prems by simp
  qed
qed

text \<open>Five digits of \<open>u\<close>.\<close>

lemma five_digits:
  fixes u :: "int list"
  assumes "p + 4 < length u"
  shows "take 5 (drop p u) = [u ! p, u ! Suc p, u ! (p + 2), u ! (p + 3), u ! (p + 4)]"
proof -
  have "drop p u = u ! p # u ! Suc p # u ! (p + 2) # u ! (p + 3) # u ! (p + 4) # drop (p + 5) u"
    using assms by (simp add: Cons_nth_drop_Suc numeral_eq_Suc)
  then show ?thesis by simp
qed

lemma window_Cons:
  assumes "p + 4 < length u"
  shows "dval (take 5 (drop p u)) = u ! p * 65536 ^ 4 + dval (take 4 (drop (Suc p) u))"
proof -
  have "drop p u = u ! p # drop (Suc p) u" using assms by (simp add: Cons_nth_drop_Suc)
  then have "take 5 (drop p u) = u ! p # take 4 (drop (Suc p) u)" by (simp add: numeral_eq_Suc)
  moreover have "length (take 4 (drop (Suc p) u)) = 4" using assms by simp
  ultimately show ?thesis by (simp only: dval_Cons)
qed

lemma digits_part: "digits u \<Longrightarrow> digits (take i u)" "digits u \<Longrightarrow> digits (drop i u)"
  by (auto simp: digits_def dest: in_set_takeD in_set_dropD)

lemma div_est_ok:
  assumes v: "digits v" "v = [v0, v1, v2, v3, v4]" "0 < v1" and u: "digits u" "p + 4 < length u"
  defines "V \<equiv> dval (drop 1 v)" and "U \<equiv> dval (take 5 (drop p u))"
  assumes less: "U < V * 65536"
  shows "0 \<le> div_est v p u \<and> div_est v p u < 65536 \<and> (div_est v p u - 1) * V \<le> U \<and> U < (div_est v p u + 1) * V"
proof -
  define N where "N = u ! p * 65536 + u ! Suc p"
  define L where "L = u ! (p + 3) * 65536 + u ! (p + 4)"
  have d: "0 \<le> u ! i \<and> u ! i < 65536" if "i \<le> p + 4" for i using digits_nth [OF u(1), of i] that u(2) by simp
  have dv: "0 \<le> v1" "v1 < 65536" "0 \<le> v2" "v2 < 65536" "0 \<le> v3" "v3 < 65536" "0 \<le> v4" "v4 < 65536"
    using v(1) by (simp_all add: v(2) digits_def)
  have V: "V = v ! 1 * 65536 ^ 3 + v ! 2 * 65536 ^ 2 + (v3 * 65536 + v4)" by (simp add: V_def v(2) dval_def)
  have U: "U = N * 65536 ^ 3 + u ! (p + 2) * 65536 ^ 2 + L"
    using u(2) by (simp add: U_def five_digits dval_def N_def L_def)
  have N: "0 \<le> N" "N < 4294967296" using d [of p] d [of "Suc p"] by (simp_all add: N_def)
  have L: "0 \<le> L" "L < 65536 ^ 2" using d [of "p + 3"] d [of "p + 4"] by (simp_all add: L_def)
  have W: "0 \<le> v3 * 65536 + v4" "v3 * 65536 + v4 < 65536 ^ 2" using dv by simp_all
  define q where "q = (if u ! p \<ge> v1 then 65535 else N div v1)"
  have r: "N - q * v1 \<ge> 0" "0 \<le> q" "q < 65536" "U < (q + 1) * V"
  proof -
    show "N - q * v1 \<ge> 0"
    proof (cases "u ! p \<ge> v1")
      case True
      then show ?thesis using d [of "Suc p"] dv(1) by (simp add: q_def N_def)
    next
      case False
      have "N div v1 * v1 \<le> N" using div_mult_mod_eq [of N v1] pos_mod_sign [of v1 N] v(3) by linarith
      then show ?thesis using False by (simp add: q_def)
    qed
    show "0 \<le> q" using N(1) v(3) by (simp add: q_def pos_imp_zdiv_nonneg_iff)
    have N': "N < v1 * 65536" if "u ! p < v1" using that d [of "Suc p"] unfolding N_def by simp
    have "N div v1 < 65536" if "u ! p < v1"
    proof (rule ccontr)
      assume "\<not> N div v1 < 65536"
      then have "65536 * v1 \<le> N div v1 * v1" using v(3) by (intro mult_right_mono) simp_all
      moreover have "N div v1 * v1 \<le> N" using div_mult_mod_eq [of N v1] pos_mod_sign [of v1 N] v(3) by linarith
      ultimately show False using N' [OF that] by simp
    qed
    then show "q < 65536" by (simp add: q_def)
    show "U < (q + 1) * V"
    proof (cases "u ! p \<ge> v1")
      case False
      have "N < (N div v1 + 1) * v1"
        using div_mult_mod_eq [of N v1] pos_mod_bound [OF v(3), of N] unfolding distrib_right by linarith
      then have "N < (q + 1) * v1" using False by (simp add: q_def)
      then have "(N + 1) * 65536 ^ 3 \<le> (q + 1) * v1 * 65536 ^ 3" by (intro mult_right_mono) simp_all
      moreover have "0 \<le> (q + 1) * (v2 * 65536 ^ 2 + (v3 * 65536 + v4))" using \<open>0 \<le> q\<close> dv by simp
      ultimately have "(N + 1) * 65536 ^ 3 \<le> (q + 1) * V" by (simp add: V v(2) algebra_simps)
      moreover have "U < (N + 1) * 65536 ^ 3" using L d [of "p + 2"] by (simp add: U)
      ultimately show ?thesis by linarith
    qed (use less in \<open>simp add: q_def mult.commute\<close>)
  qed
  have "div_est v p u = est_loop v (u ! (p + 2)) q (N - q * v1)"
  proof -
    have c1: "c_uint (push_bit 16 (u ! p) + u ! Suc p) = N" using N by (simp add: N_def push_bit_eq_mult c_uint_id)
    have "0 \<le> q * v1" "q * v1 < 4294967296" using r(1,2) N(2) dv(1) by (simp, linarith)
    then have c2: "c_uint (N - c_uint (q * v ! 1)) = N - q * v1" using r(1) N(2) by (simp add: c_uint_id v(2))
    have est: "(if u ! p \<ge> v ! 1 then 0xFFFF else if v ! 1 = 1 then N else N div v ! 1) = q" by (simp add: q_def v(2))
    show ?thesis unfolding div_est_def Let_def c1 est c2 ..
  qed
  moreover have "N - q * v1 < 4294967296" using N(2) r(2) dv(1) mult_nonneg_nonneg [of q v1] by linarith
  ultimately show ?thesis
    using est_loop_ok [of v "v3 * 65536 + v4" "u ! (p + 2)" L q "N - q * v1" N] r W L dv v(3) d [of "p + 2"]
    unfolding V [symmetric] U [symmetric] by (simp add: v(2))
qed

section \<open>The quotient\<close>

lemma take_bit16: "- 65536 \<le> x \<Longrightarrow> x < 0 \<Longrightarrow> take_bit 16 x = x + 65536" "0 \<le> x \<Longrightarrow> x < 65536 \<Longrightarrow> take_bit 16 x = (x :: int)"
proof -
  assume "- 65536 \<le> x" "x < 0"
  then have "(x + 65536) mod 65536 = x + 65536" by (intro mod_pos_pos_trivial) simp_all
  then show "take_bit 16 x = x + 65536" by (simp add: take_bit_eq_mod)
qed (simp add: take_bit_int_eq_self)

lemma take_pred: "take (Suc p) xs = take (Suc p) ys \<Longrightarrow> take p xs = take p ys"
  by (drule arg_cong [of _ _ "take p"]) simp

lemma div_sub_window:
  assumes v: "digits v" "length v = 5" "0 \<le> q" "q < 65536" and u: "digits u" "p + 4 < length u"
    and s: "div_sub q v p (maxv_loop v 4) 0 0 u = (k, b, u')"
  defines "u'' \<equiv> u'[p := take_bit 16 (u' ! p - c_uint (k + b))]"
  shows "dval (take 5 (drop p u'')) = dval (take 5 (drop p u)) - q * dval (drop 1 v) + (if u' ! p < c_uint (k + b) then 65536 ^ 5 else 0)"
    "length u'' = length u" "digits u''" "take p u'' = take p u" "drop (p + 5) u'' = drop (p + 5) u"
proof -
  define d where "d = 4 - maxv_loop v 4"
  have n: "maxv_loop v 4 + d = 4" using maxv_loop_le(1) [of v 4] by (simp add: d_def)
  have "div_sub q v p (maxv_loop v 4 + d) 0 0 u = (k, b, u')"
    using div_sub_skip [OF u(1), of "maxv_loop v 4" d v p q] maxv_loop_le(2) [of v 4] u(2) s by (simp only: n)
  then have s4: "div_sub q v p 4 0 0 u = (k, b, u')" by (simp only: n)
  have ok: "length u' = length u" "digits u'" "0 \<le> k" "k < 65536" "b \<in> {0, 1}" "take (Suc p) u' = take (Suc p) u"
    "drop (p + 5) u' = drop (p + 5) u"
    "dval (take 4 (drop (Suc p) u')) = dval (take 4 (drop (Suc p) u)) - q * dval (take 4 (drop 1 v)) + (k + b) * 65536 ^ 4"
    using div_sub_ok [OF v(1,3,4) u(1) _ _ _ _ _ s4] u(2) v(2) by (simp_all add: add.commute)
  have up: "u' ! p = u ! p" using ok(6) by (metis lessI nth_take)
  have dp: "0 \<le> u ! p" "u ! p < 65536" using digits_nth [OF u(1), of p] u(2) by simp_all
  have kb: "c_uint (k + b) = k + b" "0 \<le> k + b" "k + b \<le> 65536" using ok(3-5) by (auto simp: c_uint_id)
  define c :: int where "c = (if u ! p < k + b then 1 else 0)"
  have t: "take_bit 16 (u ! p - (k + b)) = u ! p - (k + b) + c * 65536" "0 \<le> take_bit 16 (u ! p - (k + b))" "take_bit 16 (u ! p - (k + b)) < 65536"
    using dp kb take_bit16 [of "u ! p - (k + b)"] by (auto simp: c_def take_bit_eq_mod)
  have "dval (take 5 (drop p u'')) = take_bit 16 (u ! p - (k + b)) * 65536 ^ 4 + dval (take 4 (drop (Suc p) u'))"
    using window_Cons [of p u''] u(2) ok(1) by (simp add: u''_def up kb(1) drop_update_swap)
  also have "\<dots> = u ! p * 65536 ^ 4 + dval (take 4 (drop (Suc p) u)) - q * dval (drop 1 v) + c * 65536 ^ 5"
    unfolding t(1) ok(8) using v(2) by (simp add: algebra_simps)
  finally show "dval (take 5 (drop p u'')) = dval (take 5 (drop p u)) - q * dval (drop 1 v) + (if u' ! p < c_uint (k + b) then 65536 ^ 5 else 0)"
    unfolding window_Cons [OF u(2)] by (simp add: c_def up kb(1))
  show "length u'' = length u" "digits u''" "take p u'' = take p u" "drop (p + 5) u'' = drop (p + 5) u"
    using ok(1,2,7) t(2,3) take_pred [OF ok(6)] by (simp_all add: u''_def digits_update up kb(1))
qed

lemma add_back_window:
  assumes v: "digits v" "length v = 5" and u: "digits u" "p + 4 < length u"
    and s: "add_back v p (maxv_loop v 4) 0 u = (b, u')"
  defines "u'' \<equiv> u'[p := take_bit 16 (u' ! p + b)]"
  shows "dval (take 5 (drop p u'')) \<in> {dval (take 5 (drop p u)) + dval (drop 1 v), dval (take 5 (drop p u)) + dval (drop 1 v) - 65536 ^ 5}"
    "length u'' = length u" "digits u''" "take p u'' = take p u" "drop (p + 5) u'' = drop (p + 5) u"
proof -
  define d where "d = 4 - maxv_loop v 4"
  have n: "maxv_loop v 4 + d = 4" using maxv_loop_le(1) [of v 4] by (simp add: d_def)
  have "add_back v p (maxv_loop v 4 + d) 0 u = (b, u')"
    using add_back_skip [OF u(1), of "maxv_loop v 4" d v p] maxv_loop_le(2) [of v 4] u(2) s by (simp only: n)
  then have s4: "add_back v p 4 0 u = (b, u')" by (simp only: n)
  have ok: "length u' = length u" "digits u'" "b \<in> {0, 1}" "take (Suc p) u' = take (Suc p) u" "drop (p + 5) u' = drop (p + 5) u"
    "dval (take 4 (drop (Suc p) u')) = dval (take 4 (drop (Suc p) u)) + dval (take 4 (drop 1 v)) - b * 65536 ^ 4"
    using add_back_ok [OF v(1) u(1) _ _ _ s4] u(2) v(2) by (simp_all add: add.commute)
  have up: "u' ! p = u ! p" using ok(4) by (metis lessI nth_take)
  have dp: "0 \<le> u ! p" "u ! p < 65536" using digits_nth [OF u(1), of p] u(2) by simp_all
  define c :: int where "c = (if u ! p + b = 65536 then 1 else 0)"
  have t: "take_bit 16 (u ! p + b) = u ! p + b - c * 65536" "0 \<le> take_bit 16 (u ! p + b)" "take_bit 16 (u ! p + b) < 65536"
  proof -
    show "take_bit 16 (u ! p + b) = u ! p + b - c * 65536"
    proof (cases "u ! p + b = 65536")
      case False
      then have "u ! p + b < 65536" "0 \<le> u ! p + b" using dp ok(3) by auto
      then show ?thesis using False take_bit16(2) by (simp add: c_def)
    qed (simp add: c_def take_bit_eq_mod)
  qed (simp_all add: take_bit_eq_mod)
  have "dval (take 5 (drop p u'')) = take_bit 16 (u ! p + b) * 65536 ^ 4 + dval (take 4 (drop (Suc p) u'))"
    using window_Cons [of p u''] u(2) ok(1) by (simp add: u''_def up drop_update_swap)
  also have "\<dots> = u ! p * 65536 ^ 4 + dval (take 4 (drop (Suc p) u)) + dval (drop 1 v) - c * 65536 ^ 5"
    unfolding t(1) ok(6) using v(2) by (simp add: algebra_simps)
  finally show "dval (take 5 (drop p u'')) \<in> {dval (take 5 (drop p u)) + dval (drop 1 v), dval (take 5 (drop p u)) + dval (drop 1 v) - 65536 ^ 5}"
    unfolding window_Cons [OF u(2)] by (simp add: c_def)
  show "length u'' = length u" "digits u''" "take p u'' = take p u" "drop (p + 5) u'' = drop (p + 5) u"
    using ok(1,2,5) t(2,3) take_pred [OF ok(4)] by (simp_all add: u''_def digits_update up)
qed

text \<open>One step of the division: the digit is right, and the rest is less than the divisor.\<close>

lemma div_step_ok:
  assumes v: "digits v" "v = [v0, v1, v2, v3, v4]" "0 < v1" and u: "digits u" "p + 4 < length u"
  defines "V \<equiv> dval (drop 1 v)" and "U \<equiv> dval (take 5 (drop p u))"
  assumes less: "U < V * 65536" and s: "div_step v (maxv_loop v 4) p u = (q, u')"
  shows "length u' = length u \<and> digits u' \<and> take p u' = take p u \<and> drop (p + 5) u' = drop (p + 5) u
    \<and> 0 \<le> q \<and> q < 65536 \<and> U = q * V + dval (take 5 (drop p u')) \<and> dval (take 5 (drop p u')) < V"
proof (cases "u ! p = 0 \<and> u ! Suc p < v ! 1")
  case True
  then have q: "q = 0" "u' = u" using s by (simp_all add: div_step_def)
  have d: "0 \<le> u ! i \<and> u ! i < 65536" if "i \<le> p + 4" for i using digits_nth [OF u(1), of i] that u(2) by simp
  have dv: "0 \<le> v2" "0 \<le> v3" "0 \<le> v4" using v(1) by (simp_all add: v(2) digits_def)
  have "U < V" using True dv d [of "p + 2"] d [of "p + 3"] d [of "p + 4"] u(2)
    by (simp add: U_def V_def v(2) five_digits dval_def)
  then show ?thesis using q u by (simp add: U_def)
next
  case False
  define qe where "qe = div_est v p u"
  have qe: "0 \<le> qe" "qe < 65536" "qe * V - V \<le> U" "U < qe * V + V"
    using div_est_ok [OF v u] less by (simp_all add: V_def U_def qe_def algebra_simps)
  have len: "length v = 5" by (simp add: v(2))
  have pos: "digits x \<Longrightarrow> 0 \<le> dval (take 5 (drop i x)) \<and> dval (take 5 (drop i x)) < 65536 ^ 5" for i x
    using dval_range [of "take 5 (drop i x)"] digits_part(1) [OF digits_part(2), of x 5 i]
      power_increasing [of "length (take 5 (drop i x))" 5 "65536 :: int"] by force
  have V: "0 \<le> V" "V < 65536 ^ 4" using dval_range [of "drop 1 v"] digits_part(2) [OF v(1), of 1] by (simp_all add: V_def len)
  note s = s [unfolded div_step_def if_not_P [OF False], folded qe_def]
  show ?thesis
  proof (cases "qe = 0")
    case True
    then have "q = 0" "u' = u" using s by (simp_all add: Let_def)
    then show ?thesis using u qe True by (simp add: U_def)
  next
    case nz: False
    obtain k b w where sub: "div_sub qe v p (maxv_loop v 4) 0 0 u = (k, b, w)" by (metis prod_cases3)
    define w' where "w' = w[p := take_bit 16 (w ! p - c_uint (k + b))]"
    note sw = div_sub_window [OF v(1) len qe(1,2) u sub, folded w'_def V_def U_def]
    show ?thesis
    proof (cases "w ! p < c_uint (k + b)")
      case b: False
      then have "q = qe" "u' = w'" using s nz sub by (simp_all add: Let_def w'_def)
      then show ?thesis using sw b qe by simp
    next
      case b: True
      obtain b' x where add: "add_back v p (maxv_loop v 4) 0 w' = (b', x)" by fastforce
      define x' where "x' = x[p := take_bit 16 (x ! p + b')]"
      have "p + 4 < length w'" using sw(2) u(2) by simp
      note aw = add_back_window [OF v(1) len sw(3) this add, folded x'_def V_def]
      have "q = c_uint (qe - 1)" "u' = x'" using s nz sub add b by (simp_all add: Let_def w'_def x'_def)
      then have q: "q = qe - 1" "u' = x'" using qe(1,2) nz by (simp_all add: c_uint_id)
      have "dval (take 5 (drop p x')) = U - qe * V + V"
        using aw(1) sw(1) b pos [OF aw(3), of p] qe V by auto
      moreover have "qe * V > U" using sw(1) b pos [OF sw(3), of p] by simp
      moreover have "q * V = qe * V - V" by (simp add: q(1) left_diff_distrib)
      ultimately show ?thesis using q aw(2-5) sw(2-5) qe(1,2) nz by simp
    qed
  qed
qed

text \<open>The digits of the quotient in their order.\<close>

primrec quotients :: "int list \<Rightarrow> nat \<Rightarrow> nat list \<Rightarrow> int list \<Rightarrow> int list" where
  "quotients v maxv [] u = []"
| "quotients v maxv (j # js) u = fst (div_step v maxv j u) # quotients v maxv js (snd (div_step v maxv j u))"

lemma div_loop_quotients:
  assumes "quotients v maxv [0, 1, 2, 3] u = [q0, q1, q2, q3]"
  shows "div_loop v maxv [0, 1, 2, 3] u (0, 0) = put_quot 3 q3 (put_quot 2 q2 (put_quot 1 q1 (put_quot 0 q0 (0, 0))))"
  using assms by (auto split: prod.splits)

lemma put_digits:
  assumes "digits [q0, q1, q2, q3]"
  shows "put_quot 3 q3 (put_quot 2 q2 (put_quot 1 q1 (put_quot 0 q0 (0, 0)))) = (push_bit 16 q0 + q1, push_bit 16 q2 + q3)"
proof -
  have "push_bit 16 a OR b = push_bit 16 a + b" if "0 \<le> b" "b < 65536" for a b :: int
    using that concat_bit_def [of 16 b a] concat_bit_eq [of 16 b a] by (simp add: take_bit_int_eq_self or.commute add.commute)
  moreover have "c_uint (push_bit 16 a) = push_bit 16 a" if "0 \<le> a" "a < 65536" for a
    using that by (simp add: c_uint_id push_bit_eq_mult)
  ultimately show ?thesis using assms by (simp add: put_quot_def Let_def digits_def)
qed

lemma quotients_ok:
  assumes v: "digits v" "v = [v0, v1, v2, v3, v4]" "0 < v1"
  defines "V \<equiv> dval (drop 1 v)"
  shows "p \<le> 4 \<Longrightarrow> length u = 8 \<Longrightarrow> digits u \<Longrightarrow> dval (take p u) = 0 \<Longrightarrow> dval (take (p + 4) u) < V \<Longrightarrow>
    length (quotients v (maxv_loop v 4) [p..<4] u) = 4 - p \<and> digits (quotients v (maxv_loop v 4) [p..<4] u)
    \<and> (\<exists>R. 0 \<le> R \<and> R < V \<and> dval u = dval (quotients v (maxv_loop v 4) [p..<4] u) * V + R)"
proof (induction "4 - p" arbitrary: p u)
  case 0
  then have "p = 4" by simp
  then show ?case using 0 dval_range [of u] by (simp add: digits_def exI [of _ "dval u"])
next
  case (Suc n p u)
  then have p: "p < 4" "[p..<4] = p # [Suc p..<4]" by (simp_all add: upt_conv_Cons)
  have W: "dval (take (p + 5) x) = dval (take p x) * 65536 ^ 5 + dval (take 5 (drop p x))"
    "dval x = dval (take (p + 5) x) * 65536 ^ (3 - p) + dval (drop (p + 5) x)" if "length x = 8" for x
    using that p(1) dval_append [of "take p x" "take 5 (drop p x)"] dval_append [of "take (p + 5) x" "drop (p + 5) x"]
    by (simp_all add: take_add [symmetric] add.commute)
  obtain q u' where s: "div_step v (maxv_loop v 4) p u = (q, u')" by fastforce
  have less: "dval (take 5 (drop p u)) < V * 65536"
  proof -
    have "take (p + 5) u = take (p + 4) u @ [u ! (p + 4)]" using Suc.prems(2) p(1) take_Suc_nth [of "p + 4" u] by (simp add: numeral_eq_Suc)
    then have "dval (take 5 (drop p u)) = 65536 * dval (take (p + 4) u) + u ! (p + 4)"
      using W(1) [OF Suc.prems(2)] Suc.prems(4) by simp
    then show ?thesis using Suc.prems(5) digits_nth [OF Suc.prems(3), of "p + 4"] Suc.prems(2) p(1) by simp
  qed
  have ok: "length u' = 8" "digits u'" "take p u' = take p u" "drop (p + 5) u' = drop (p + 5) u" "0 \<le> q" "q < 65536"
    "dval (take 5 (drop p u)) = q * V + dval (take 5 (drop p u'))" "dval (take 5 (drop p u')) < V"
    using div_step_ok [OF v Suc.prems(3), of p] less s Suc.prems(2) p(1) unfolding V_def by simp_all
  have "dval (drop 1 v) < 65536 ^ 4"
    using dval_range [of "drop 1 v"] digits_part(2) [OF v(1), of 1] by (simp add: v(2))
  then have "u' ! p * 65536 ^ 4 + dval (take 4 (drop (Suc p) u')) < 65536 ^ 4"
    using ok(8) window_Cons [of p u'] ok(1) p(1) unfolding V_def by simp
  moreover have "0 \<le> dval (take 4 (drop (Suc p) u'))" using dval_range digits_part ok(2) by blast
  moreover have "0 \<le> u' ! p" using digits_nth [OF ok(2), of p] ok(1) p(1) by simp
  ultimately have z: "u' ! p = 0" by simp
  have t: "take (Suc p) u' = take p u' @ [u' ! p]" using ok(1) p(1) by (simp add: take_Suc_nth)
  have v': "dval (take (Suc p) u') = 0" "dval (take (Suc p + 4) u') < V"
    using Suc.prems(4) ok(3,8) z t W(1) [OF ok(1)] by (simp_all add: add.commute)
  let ?qs = "quotients v (maxv_loop v 4) [Suc p..<4] u'"
  obtain R where qs: "length ?qs = 3 - p" "digits ?qs" and R: "0 \<le> R" "R < V" "dval u' = dval ?qs * V + R"
  proof -
    have "n = 4 - Suc p" using Suc.hyps(2) by simp
    then show ?thesis using that Suc.hyps(1) [of "Suc p" u'] p(1) ok(1,2) v' by auto
  qed
  have qe: "quotients v (maxv_loop v 4) [p..<4] u = q # ?qs" by (simp add: p(2) s)
  have "dval u = q * V * 65536 ^ (3 - p) + dval u'"
    unfolding W(2) [OF Suc.prems(2)] W(2) [OF ok(1)] W(1) [OF Suc.prems(2)] W(1) [OF ok(1)] ok(3,4,7) Suc.prems(4)
    by (simp add: algebra_simps)
  also have "\<dots> = dval (q # ?qs) * V + R" by (simp add: dval_Cons qs(1) R(3) algebra_simps)
  finally have "dval u = dval (q # ?qs) * V + R" .
  then show ?case unfolding qe using qs ok(5,6) R p(1) by (auto simp: digits_def)
qed

text \<open>The mantissa of the quotient.\<close>

lemma div_mant:
  assumes n: "2 ^ 63 \<le> mval (flt_mantissa e1)" "2 ^ 63 \<le> mval (flt_mantissa e2)"
  defines "u \<equiv> flt_split (e1\<lparr>flt_mantissa := flt_b64_sft (flt_mantissa e1) 1\<rparr>) @ [uint (push_bit 15 (m2 e1 AND 1)), 0, 0, 0]"
    and "v \<equiv> 0 # flt_split e2"
  obtains r0 r1 where "div_loop v (maxv_loop v 4) [0, 1, 2, 3] u (0, 0) = (r0, r1)"
    "mval \<lparr>flt_h_32 = word_of_int r0, flt_l_32 = word_of_int r1\<rparr> = mval (flt_mantissa e1) * 2 ^ 63 div mval (flt_mantissa e2)"
proof -
  let ?M = "mval (flt_mantissa e1)" and ?V = "mval (flt_mantissa e2)"
  obtain v1 v2 v3 v4 where split: "flt_split e2 = [v1, v2, v3, v4]" by (simp add: flt_split_def)
  have dv: "digits [v1, v2, v3, v4]" "dval [v1, v2, v3, v4] = ?V" using flt_split_ok [of e2] by (simp_all add: split)
  then have v: "digits v" "v = [0, v1, v2, v3, v4]" "dval (drop 1 v) = ?V" by (simp_all add: v_def split digits_def)
  have "v1 \<noteq> 0"
  proof
    assume "v1 = 0"
    then have "dval [v1, v2, v3, v4] < 65536 ^ 3" using dval_range [of "[v2, v3, v4]"] dv(1) by (simp add: dval_Cons digits_def)
    then show False using n(2) dv(2) by simp
  qed
  then have v1: "0 < v1" using dv(1) by (simp add: digits_def order.not_eq_order_implies_strict)
  have low: "uint (push_bit 15 (m2 e1 AND 1)) = ?M mod 2 * 32768"
  proof -
    have "m2 e1 AND 1 = (if even (uint (m2 e1)) then 0 else 1)"
      using bit_uint_iff [of "m2 e1" 0] by (simp add: and_one_eq mod_2_eq_odd bit_0)
    moreover have "even ?M \<longleftrightarrow> even (uint (m2 e1))" by (simp add: mval_def)
    ultimately show ?thesis by (simp add: mod_2_eq_odd)
  qed
  let ?h = "flt_split (e1\<lparr>flt_mantissa := flt_b64_sft (flt_mantissa e1) 1\<rparr>)"
  have h: "digits ?h" "dval ?h = ?M div 2" "length ?h = 4"
    using flt_split_ok [of "e1\<lparr>flt_mantissa := flt_b64_sft (flt_mantissa e1) 1\<rparr>"] mval_sft_right [of 1 "flt_mantissa e1"] by simp_all
  have l: "dval [?M mod 2 * 32768, 0, 0, 0] = ?M mod 2 * 2 ^ 63" by (simp add: dval_def)
  have u: "length u = 8" "digits u" "take 4 u = ?h" using h(1,3) unfolding u_def low by (simp_all add: digits_def mod_2_eq_odd)
  have "dval u = ?M div 2 * 65536 ^ 4 + ?M mod 2 * 2 ^ 63" unfolding u_def low dval_append h(2) l by simp
  also have "\<dots> = (?M div 2 * 2 + ?M mod 2) * 2 ^ 63" by (simp only: distrib_right mult.assoc) simp
  finally have du: "dval u = ?M * 2 ^ 63" by (simp only: div_mult_mod_eq)
  have "?M div 2 < 2 ^ 63" using zdiv_less_pow [of ?M "2 ^ 63" 1] by simp
  then have "?M div 2 < ?V" using n(2) by linarith
  then obtain R where q: "length (quotients v (maxv_loop v 4) [0..<4] u) = 4" "digits (quotients v (maxv_loop v 4) [0..<4] u)"
    and R: "0 \<le> R" "R < ?V" "dval u = dval (quotients v (maxv_loop v 4) [0..<4] u) * ?V + R"
    using quotients_ok [OF v(1,2) v1, of 0 u] u h(2) unfolding v(3) by auto
  have upt: "[0..<4] = [0, 1, 2, 3]" by (simp add: upt_rec numeral_eq_Suc)
  obtain q0 q1 q2 q3 where qs: "quotients v (maxv_loop v 4) [0, 1, 2, 3] u = [q0, q1, q2, q3]"
    using q(1) unfolding upt by (auto simp: numeral_eq_Suc length_Suc_conv)
  have dq: "digits [q0, q1, q2, q3]" using q(2) unfolding upt qs .
  have "mval \<lparr>flt_h_32 = word_of_int (push_bit 16 q0 + q1), flt_l_32 = word_of_int (push_bit 16 q2 + q3)\<rparr> = dval [q0, q1, q2, q3]"
    using dq by (intro mval_of_digits) (simp_all add: digits_def)
  also have "\<dots> = ?M * 2 ^ 63 div ?V"
    using R unfolding du upt qs by (intro int_div_pos_eq [where r = R, symmetric]) (simp_all add: mult.commute)
  finally show ?thesis using that div_loop_quotients [OF qs] put_digits [OF dq] by simp
qed

text \<open>Normalization of a mantissa that lacks at most one bit.\<close>

lemma nrm_one:
  assumes M: "2 ^ 62 \<le> mval (flt_mantissa f)" and x: "- 32767 \<le> flt_exp f" "flt_exp f < 2 ^ 15"
  shows "if 2 ^ 63 \<le> mval (flt_mantissa f) then flt_nrm f = f
    else flt_sign (flt_nrm f) = flt_sign f \<and> flt_exp (flt_nrm f) = flt_exp f - 1
      \<and> mval (flt_mantissa (flt_nrm f)) = mval (flt_mantissa f) * 2"
proof -
  let ?M = "mval (flt_mantissa f)"
  have h: "2 ^ 30 \<le> uint (m1 f)"
  proof (rule ccontr)
    assume "\<not> 2 ^ 30 \<le> uint (m1 f)"
    then have "?M < 2 ^ 30 * 2 ^ 32 + 0" unfolding mval_def by (subst two_words_less) simp_all
    then show False using M by simp
  qed
  then have nz: "m1 f \<noteq> 0" by auto
  then have "m1 f OR m2 f \<noteq> 0" by (simp add: or_eq_0)
  then have e: "flt_nrm f = (if ?M < 2 ^ 63 then
      f\<lparr>flt_exp := c_short (flt_exp f + nrm_loop (m1 f)), flt_mantissa := flt_b64_sft (flt_mantissa f) (nrm_loop (m1 f))\<rparr> else f)"
    using nz unfolding flt_nrm_def by (simp add: top_mval Let_def)
  show ?thesis
  proof (cases "2 ^ 63 \<le> ?M")
    case False
    then have t: "uint (m1 f) < 2 ^ 31" using top_mval [of f] top_bit [of "m1 f"] by simp
    obtain k where k: "k \<le> 30" "nrm_loop (m1 f) = int k - 31" "uint (m1 f) < 2 ^ Suc k" using nrm_loop_ok [OF nz t] by metis
    have "(2 :: int) ^ 30 < 2 ^ Suc k" using h k(3) by linarith
    then have "k = 30" using k(1) power_strict_increasing_iff [of "2 :: int" 30 "Suc k"] by simp
    then have "nrm_loop (m1 f) = - 1" using k(2) by simp
    moreover have "c_short (flt_exp f - 1) = flt_exp f - 1" using x by (intro c_short_id) simp_all
    moreover have "mval (flt_b64_sft (flt_mantissa f) (- 1)) = ?M * 2"
      using mval_sft_left [of 1 "flt_mantissa f"] False by simp
    ultimately show ?thesis using e False by simp
  qed (use e in simp)
qed

text \<open>What the range check makes of a number that is \<open>v\<close>, cut off toward zero.\<close>

lemma chk_trunc:
  assumes f: "flt_sign f \<in> {0, 1}" "2 ^ 63 \<le> mval (flt_mantissa f)" "\<bar>fval f\<bar> \<le> \<bar>v\<bar>" "\<bar>v\<bar> < 2 powi (flt_exp f + 1)" "sgn (fval f) = sgn v"
    and r: "flt_chk f 0 = (r, status)"
  shows "(status = 0 \<and> normal r \<and> r = f)
    \<or> (status = FLT_OVFL \<and> 2 powi EXT_MAX \<le> \<bar>v\<bar> \<and> flt_exp r = EXT_MAX \<and> sgn (fval r) = sgn v)
    \<or> (status = FLT_UNFL \<and> \<bar>v\<bar> < 2 powi (EXT_MIN + 1) \<and> fval r = 0)"
proof -
  let ?x = "flt_exp f"
  consider "?x \<ge> EXT_MAX" | "?x \<le> EXT_MIN" "\<not> ?x \<ge> EXT_MAX" | "EXT_MIN < ?x" "?x < EXT_MAX" by linarith
  then show ?thesis
  proof cases
    case 1
    then have "r = f\<lparr>flt_exp := EXT_MAX, flt_mantissa := \<lparr>flt_h_32 = 0x80000000, flt_l_32 = 0\<rparr>\<rparr>" "status = FLT_OVFL"
      using r by (simp_all add: flt_chk_cases)
    moreover from this have "sgn (fval r) = sgn v" using fval_sgn [of r] fval_sgn [of f] f(2,5) by (simp add: mval_def)
    moreover have "(2 :: real) powi EXT_MAX \<le> 2 powi ?x" using 1 by (intro power_int_increasing) simp_all
    then have "2 powi EXT_MAX \<le> \<bar>v\<bar>" using fval_normal_bounds(1) [OF f(2)] f(3) by linarith
    ultimately show ?thesis by simp
  next
    case 2
    then have "r = zero_flt" "status = FLT_UNFL" using r by (simp_all add: flt_chk_cases)
    moreover have "(2 :: real) powi (?x + 1) \<le> 2 powi (EXT_MIN + 1)" using 2 by (intro power_int_increasing) simp_all
    ultimately show ?thesis using f(4) by (simp add: zero_flt_def fval_def)
  next
    case 3
    then show ?thesis using r f by (auto simp: flt_chk_cases normal_def)
  qed
qed

text \<open>The value of a truncated quotient.\<close>

lemma scaled_div:
  fixes x1 x2 :: int
  assumes "0 < V" "0 \<le> M" and s: "s1 \<in> {0, 1}" "s2 \<in> {0, 1}"
  defines "Q \<equiv> M * 2 ^ 63 div V" and "v \<equiv> scaled s1 M x1 / scaled s2 V x2" and "E \<equiv> x1 - x2"
  shows "v = (if s1 XOR s2 = 0 then 1 else - 1) * \<bar>v\<bar>" "of_int Q * 2 powi (E - 63) \<le> \<bar>v\<bar>" "\<bar>v\<bar> < of_int (Q + 1) * 2 powi (E - 63)"
proof -
  have a: "\<bar>v\<bar> = real_of_int (M * 2 ^ 63) / of_int V * 2 powi (E - 63)"
    using assms by (simp add: v_def E_def scaled_abs power_int_diff)
  have pos: "0 \<le> scaled 0 M x1" "0 < scaled 0 V x2" using assms by (simp_all add: scaled_def)
  have "scaled s M' x = (if s = 0 then 1 else - 1) * scaled 0 M' x" for s M' x by (simp add: scaled_def)
  then have "v = (if s1 XOR s2 = 0 then 1 else - 1) * (scaled 0 M x1 / scaled 0 V x2)"
    using s by (auto simp: v_def scaled_def)
  moreover from this pos have "\<bar>v\<bar> = scaled 0 M x1 / scaled 0 V x2" by (simp add: abs_mult)
  ultimately show "v = (if s1 XOR s2 = 0 then 1 else - 1) * \<bar>v\<bar>" by simp
  have d: "M * 2 ^ 63 = Q * V + M * 2 ^ 63 mod V" unfolding Q_def by (rule div_mult_mod_eq [symmetric])
  have m: "0 \<le> M * 2 ^ 63 mod V" "M * 2 ^ 63 mod V < V" using assms(1) by simp_all
  have "Q * V \<le> M * 2 ^ 63" using d m by linarith
  then have "of_int (Q * V) \<le> real_of_int (M * 2 ^ 63)" by (simp only: of_int_le_iff)
  then have "of_int Q \<le> real_of_int (M * 2 ^ 63) / of_int V" using assms(1) by (simp add: pos_le_divide_eq)
  then show "of_int Q * 2 powi (E - 63) \<le> \<bar>v\<bar>" unfolding a by (intro mult_right_mono) simp_all
  have "M * 2 ^ 63 < (Q + 1) * V" using d m by (simp add: distrib_right)
  then have "real_of_int (M * 2 ^ 63) < of_int ((Q + 1) * V)" by (simp only: of_int_less_iff)
  then have "real_of_int (M * 2 ^ 63) / of_int V < of_int (Q + 1)" using assms(1) by (simp add: pos_divide_less_eq)
  then show "\<bar>v\<bar> < of_int (Q + 1) * 2 powi (E - 63)" unfolding a by (intro mult_strict_right_mono) simp_all
qed

lemma flt_div_trunc:
  assumes n: "normal e1" "normal e2"
  obtains f where "flt_div e1 e2 = flt_chk f 0" "flt_sign f \<in> {0, 1}" "2 ^ 63 \<le> mval (flt_mantissa f)"
    "\<bar>fval f\<bar> \<le> \<bar>fval e1 / fval e2\<bar>" "\<bar>fval e1 / fval e2\<bar> < 2 powi (flt_exp f + 1)" "sgn (fval f) = sgn (fval e1 / fval e2)"
    "\<bar>fval f - fval e1 / fval e2\<bar> < 2 powi (flt_exp e1 - flt_exp e2 - 63)"
proof -
  let ?M = "mval (flt_mantissa e1)" and ?V = "mval (flt_mantissa e2)"
  define Q where "Q = ?M * 2 ^ 63 div ?V"
  define E where "E = flt_exp e1 - flt_exp e2"
  define s where "s = flt_sign e1 XOR flt_sign e2"
  define v where "v = fval e1 / fval e2"
  have M: "2 ^ 63 \<le> ?M" "2 ^ 63 \<le> ?V" "flt_sign e1 \<in> {0, 1}" "flt_sign e2 \<in> {0, 1}" using n by (simp_all add: normal_def)
  have ex: "- 16384 < flt_exp e1" "flt_exp e1 < 16384" "- 16384 < flt_exp e2" "flt_exp e2 < 16384"
    using n by (simp_all add: normal_def EXT_MIN_def EXT_MAX_def)
  have cE: "c_short (flt_exp e1 - flt_exp e2) = E" "- 32767 \<le> E" "E < 2 ^ 15"
    using ex c_short_id [of "flt_exp e1 - flt_exp e2"] by (simp_all add: E_def)
  have s01: "s \<in> {0, 1}" using M(3,4) by (auto simp: s_def)
  obtain r0 r1 where r: "div_loop (0 # flt_split e2) (maxv_loop (0 # flt_split e2) 4) [0, 1, 2, 3]
      (flt_split (e1\<lparr>flt_mantissa := flt_b64_sft (flt_mantissa e1) 1\<rparr>) @ [uint (push_bit 15 (m2 e1 AND 1)), 0, 0, 0]) (0, 0) = (r0, r1)"
    and Qr: "mval \<lparr>flt_h_32 = word_of_int r0, flt_l_32 = word_of_int r1\<rparr> = Q"
    using div_mant [OF M(1,2)] unfolding Q_def by metis
  define g where "g = \<lparr>flt_sign = s, flt_exp = E, flt_mantissa = \<lparr>flt_h_32 = word_of_int r0, flt_l_32 = word_of_int r1\<rparr>\<rparr>"
  have g: "mval (flt_mantissa g) = Q" "flt_exp g = E" "flt_sign g = s" using Qr by (simp_all add: g_def)
  have nz: "m1 e1 OR m2 e1 \<noteq> 0" "m1 e2 OR m2 e2 \<noteq> 0" using M(1,2) mval_eq_0 [of "flt_mantissa e1"] mval_eq_0 [of "flt_mantissa e2"] by (auto simp: or_eq_0)
  have f: "flt_div e1 e2 = flt_chk (flt_nrm g) 0"
    using nz unfolding flt_div_def Let_def r prod.case cE(1) s_def [symmetric] g_def by simp
  have Q62: "2 ^ 62 \<le> Q"
  proof -
    have "(2 :: int) ^ 64 = 2 * 2 ^ 63" by simp
    then have "?V \<le> 2 * ?M" using M(1) mval_range(2) [of "flt_mantissa e2"] by linarith
    then have "2 ^ 62 * ?V \<le> ?M * 2 ^ 63" by simp
    then have "(2 ^ 62 * ?V) div ?V \<le> Q" unfolding Q_def using M(2) by (intro zdiv_mono1) simp_all
    then show ?thesis using M(2) by simp
  qed
  have V0: "0 < ?V" "0 \<le> ?M" using M(2) by simp_all
  note q = scaled_div [OF V0 M(3,4), of "flt_exp e1" "flt_exp e2", folded fval_def v_def E_def Q_def s_def]
  have nr: "if 2 ^ 63 \<le> Q then flt_nrm g = g else flt_sign (flt_nrm g) = s \<and> flt_exp (flt_nrm g) = E - 1 \<and> mval (flt_mantissa (flt_nrm g)) = Q * 2"
    using nrm_one [of g] Q62 cE(2,3) unfolding g by simp
  have fv: "fval (flt_nrm g) = (if s = 0 then 1 else - 1) * (of_int Q * 2 powi (E - 63))"
  proof -
    have "fval (flt_nrm g) = scaled s Q E"
      using nr g scaled_shift [of s Q 1 "E - 1"] by (auto simp: fval_def split: if_splits)
    then show ?thesis by (simp add: scaled_def)
  qed
  have pos: "0 < of_int Q * (2 powi (E - 63) :: real)" using Q62 by (intro mult_pos_pos) simp_all
  have s': "flt_sign (flt_nrm g) = s" using nr g(3) by (auto split: if_splits)
  have top: "2 ^ 63 \<le> mval (flt_mantissa (flt_nrm g))" using nr g(1) Q62 by (auto split: if_splits)
  have "\<bar>v\<bar> < 2 powi (flt_exp (flt_nrm g) + 1)"
  proof -
    have "of_int (Q + 1) * 2 powi (E - 63) \<le> of_int (if 2 ^ 63 \<le> Q then 2 ^ 64 else 2 ^ 63) * (2 powi (E - 63) :: real)"
      using mval_range(3) [of "flt_mantissa g"] unfolding g by (intro mult_right_mono) (simp_all only: of_int_le_iff, auto)
    also have "\<dots> = 2 powi (flt_exp (flt_nrm g) + 1)"
      using nr g(2) powi_shift [of "E - 63" 63] powi_shift [of "E - 63" 64] by (auto simp: add.commute split: if_splits)
    finally show ?thesis using q(3) by linarith
  qed
  moreover have "\<bar>fval (flt_nrm g)\<bar> \<le> \<bar>v\<bar>" using q(2) pos unfolding fv by (simp add: abs_mult)
  moreover have "0 < \<bar>v\<bar>" using pos q(2) by linarith
  then have "v \<noteq> 0" "sgn (real_of_int Q) = 1" using Q62 by simp_all
  then have "sgn (fval (flt_nrm g)) = sgn v"
    unfolding fv by (subst q(1)) (simp add: sgn_mult)
  moreover have "\<bar>fval (flt_nrm g) - v\<bar> < 2 powi (E - 63)"
    unfolding fv using q(2,3) by (subst q(1)) (auto simp: algebra_simps)
  ultimately show ?thesis using that [OF f] s' s01 top unfolding v_def E_def by simp
qed

text \<open>
  (C34) \<open>flt_div\<close> on normalized numbers and zeros.  Division by zero is reported; zero divided by
  another number is zero.  Otherwise, without overflow or underflow, the result is the quotient cut
  off toward zero after 64 or 63 bits: it is not greater in absolute value than the quotient and
  differs by less than one unit in the last place of the raw quotient.  On overflow the quotient is
  too large, on underflow it is below the smallest number.
\<close>

theorem flt_div_spec:
  assumes "finite_flt e1" and "finite_flt e2" and r: "flt_div e1 e2 = (r, status)"
  shows "if mval (flt_mantissa e2) = 0 then status = FLT_DIV0 \<and> flt_exp r = EXT_MAX
    else if mval (flt_mantissa e1) = 0 then status = 0 \<and> fval r = 0
    else (status = 0 \<and> normal r \<and> \<bar>fval r\<bar> \<le> \<bar>fval e1 / fval e2\<bar>
          \<and> \<bar>fval r - fval e1 / fval e2\<bar> < 2 powi (flt_exp e1 - flt_exp e2 - 63))
      \<or> (status = FLT_OVFL \<and> 2 powi EXT_MAX \<le> \<bar>fval e1 / fval e2\<bar> \<and> flt_exp r = EXT_MAX \<and> sgn (fval r) = sgn (fval e1 / fval e2))
      \<or> (status = FLT_UNFL \<and> \<bar>fval e1 / fval e2\<bar> < 2 powi (EXT_MIN + 1) \<and> fval r = 0)"
proof -
  consider "mval (flt_mantissa e2) = 0" | "mval (flt_mantissa e2) \<noteq> 0" "mval (flt_mantissa e1) = 0"
    | "mval (flt_mantissa e2) \<noteq> 0" "mval (flt_mantissa e1) \<noteq> 0" by blast
  then show ?thesis
  proof cases
    case 3
    then have n: "normal e1" "normal e2" using assms(1,2) by (simp_all add: finite_flt_def)
    obtain f where f: "flt_div e1 e2 = flt_chk f 0" "flt_sign f \<in> {0, 1}" "2 ^ 63 \<le> mval (flt_mantissa f)"
      "\<bar>fval f\<bar> \<le> \<bar>fval e1 / fval e2\<bar>" "\<bar>fval e1 / fval e2\<bar> < 2 powi (flt_exp f + 1)" "sgn (fval f) = sgn (fval e1 / fval e2)"
      "\<bar>fval f - fval e1 / fval e2\<bar> < 2 powi (flt_exp e1 - flt_exp e2 - 63)"
      using flt_div_trunc [OF n] .
    show ?thesis using chk_trunc [OF f(2-6), of r status] f(1,4,7) r 3 by auto
  qed (use r in \<open>auto simp: flt_div_def mval_eq_0 or_eq_0 zero_flt_def fval_def\<close>)
qed

lemma flt_div_example: "flt_div flt_one flt_onehalf
    = (\<lparr>flt_sign = 0, flt_exp = - 1, flt_mantissa = \<lparr>flt_h_32 = 0xAAAAAAAA, flt_l_32 = 0xAAAAAAAA\<rparr>\<rparr>, 0)"
  by code_simp

theorem flt_div_witness:
  "\<bar>fval (fst (flt_div flt_one flt_onehalf)) - fval flt_one / fval flt_onehalf\<bar> < 2 powi (- 63)
   \<and> snd (flt_div flt_one zero_flt) = FLT_DIV0"
proof -
  have "mval (flt_mantissa flt_one) \<noteq> 0" "mval (flt_mantissa flt_onehalf) \<noteq> 0" "flt_exp flt_one = 0" "flt_exp flt_onehalf = 0"
    by (simp_all add: flt_one_def flt_onehalf_def mval_def)
  then show ?thesis
    using flt_div_spec [OF _ _ flt_div_example] flt_div_example
      flt_div_spec [of flt_one zero_flt "fst (flt_div flt_one zero_flt)" "snd (flt_div flt_one zero_flt)"]
    by (simp add: FLT_OVFL_def FLT_UNFL_def finite_flt_def zero_flt_def)
qed

end
