(* ===== verification/Flt_Str.thy ===== *)
theory Flt_Str
  imports Flt_Div "HOL-Library.Monad_Syntax"
begin

text \<open>
  Conversion between strings and numbers of the floating point module (\<open>flt_str2fl.c\<close>).  A string is
  the list of its bytes; the result is \<^const>\<open>None\<close> where the code reads or writes past the end of a
  string or table or shifts by an illegal distance.  Shown is how near \<open>flt_str2flt\<close> comes to the
  number that a decimal constant denotes.
\<close>

section \<open>Powers of ten\<close>

definition tab_flt :: "int \<Rightarrow> 32 word \<Rightarrow> 32 word \<Rightarrow> flt_arith" where
  "tab_flt x h l = \<lparr>flt_sign = 0, flt_exp = x, flt_mantissa = \<lparr>flt_h_32 = h, flt_l_32 = l\<rparr>\<rparr>"

definition s10pow :: "flt_arith list" where
  "s10pow = [
     tab_flt 0 0x80000000 0, tab_flt 3 0xA0000000 0, tab_flt 6 0xC8000000 0, tab_flt 9 0xFA000000 0,
     tab_flt 13 0x9C400000 0, tab_flt 16 0xC3500000 0, tab_flt 19 0xF4240000 0, tab_flt 23 0x98968000 0,
     tab_flt 26 0xBEBC2000 0, tab_flt 29 0xEE6B2800 0, tab_flt 33 0x9502F900 0, tab_flt 36 0xBA43B740 0,
     tab_flt 39 0xE8D4A510 0, tab_flt 43 0x9184E72A 0, tab_flt 46 0xB5E620F4 0x80000000,
     tab_flt 49 0xE35FA931 0xA0000000, tab_flt 53 0x8E1BC9BF 0x04000000, tab_flt 56 0xB1A2BC2E 0xC5000000,
     tab_flt 59 0xDE0B6B3A 0x76400000, tab_flt 63 0x8AC72304 0x89E80000, tab_flt 66 0xAD78EBC5 0xAC620000,
     tab_flt 69 0xD8D726B7 0x177A8000, tab_flt 73 0x87867832 0x6EAC9000, tab_flt 76 0xA968163F 0x0A57B400,
     tab_flt 79 0xD3C21BCE 0xCCEDA100, tab_flt 83 0x84595161 0x401484A0, tab_flt 86 0xA56FA5B9 0x9019A5C8,
     tab_flt 89 0xCECB8F27 0xF4200F3A]"

definition big_10pow :: "flt_arith list" where
  "big_10pow = [
     tab_flt 0 0x80000000 0, tab_flt 93 0x813F3978 0xF8940984, tab_flt 186 0x82818F12 0x81ED44A0,
     tab_flt 279 0x83C7088E 0x1AAB65DB, tab_flt 372 0x850FADC0 0x9923329E, tab_flt 465 0x865B8692 0x5B9BC5C2,
     tab_flt 558 0x87AA9AFF 0x79042287, tab_flt 651 0x88FCF317 0xF22241E2, tab_flt 744 0x8A5296FF 0xE33CC930,
     tab_flt 837 0x8BAB8EEF 0xB6409C1A, tab_flt 930 0x8D07E334 0x55637EB3, tab_flt 1023 0x8E679C2F 0x5E44FF8F,
     tab_flt 1116 0x8FCAC257 0x558EE4E6, tab_flt 1209 0x91315E37 0xDB165AA9, tab_flt 1302 0x929B7871 0xDE7F22B9,
     tab_flt 1395 0x940919BB 0xD4620B6D, tab_flt 1488 0x957A4AE1 0xEBF7F3D4, tab_flt 1581 0x96EF14C6 0x454AA840,
     tab_flt 1674 0x98678061 0x27ECE4F5, tab_flt 1767 0x99E396C1 0x3A3ACFF2]"

definition r_10pow :: "flt_arith list" where
  "r_10pow = [
     tab_flt 0 0x80000000 0, tab_flt (- 4) 0xCCCCCCCC 0xCCCCCCCD, tab_flt (- 7) 0xA3D70A3D 0x70A3D70A,
     tab_flt (- 10) 0x83126E97 0x8D4FDF3B, tab_flt (- 14) 0xD1B71758 0xE219652C,
     tab_flt (- 17) 0xA7C5AC47 0x1B478423, tab_flt (- 20) 0x8637BD05 0xAF6C69B6,
     tab_flt (- 24) 0xD6BF94D5 0xE57A42BC, tab_flt (- 27) 0xABCC7711 0x8461CEFD,
     tab_flt (- 30) 0x89705F41 0x36B4A597, tab_flt (- 34) 0xDBE6FECE 0xBDEDD5BF,
     tab_flt (- 37) 0xAFEBFF0B 0xCB24AAFF, tab_flt (- 40) 0x8CBCCC09 0x6F5088CC,
     tab_flt (- 44) 0xE12E1342 0x4BB40E13, tab_flt (- 47) 0xB424DC35 0x095CD80F,
     tab_flt (- 50) 0x901D7CF7 0x3AB0ACD9, tab_flt (- 54) 0xE69594BE 0xC44DE15B,
     tab_flt (- 57) 0xB877AA32 0x36A4B449, tab_flt (- 60) 0x9392EE8E 0x921D5D07,
     tab_flt (- 64) 0xEC1E4A7D 0xB69561A5, tab_flt (- 67) 0xBCE50864 0x92111AEB,
     tab_flt (- 70) 0x971DA050 0x74DA7BEF, tab_flt (- 74) 0xF1C90080 0xBAF72CB1,
     tab_flt (- 77) 0xC16D9A00 0x95928A27, tab_flt (- 80) 0x9ABE14CD 0x44753B53,
     tab_flt (- 84) 0xF79687AE 0xD3EEC551, tab_flt (- 87) 0xC6120625 0x76589DDB,
     tab_flt (- 90) 0x9E74D1B7 0x91E07E48]"

definition r_big_10pow :: "flt_arith list" where
  "r_big_10pow = [
     tab_flt 0 0x80000000 0, tab_flt (- 94) 0xFD87B5F2 0x8300CA0E, tab_flt (- 187) 0xFB158592 0xBE068D2F,
     tab_flt (- 280) 0xF8A95FCF 0x88747D94, tab_flt (- 373) 0xF64335BC 0xF065D37D,
     tab_flt (- 466) 0xF3E2F893 0xDEC3F126, tab_flt (- 559) 0xF18899B1 0xBC3F8CA2,
     tab_flt (- 652) 0xEF340A98 0x172AACE5, tab_flt (- 745) 0xECE53CEC 0x4A314EBE,
     tab_flt (- 838) 0xEA9C2277 0x23EE8BCB, tab_flt (- 931) 0xE858AD24 0x8F5C22CA,
     tab_flt (- 1024) 0xE61ACF03 0x3D1A45DF, tab_flt (- 1117) 0xE3E27A44 0x4D8D98B8,
     tab_flt (- 1210) 0xE1AFA13A 0xFBD14D6E, tab_flt (- 1303) 0xDF82365C 0x497B5454,
     tab_flt (- 1396) 0xDD5A2C3E 0xAB3097CC, tab_flt (- 1489) 0xDB377599 0xB6074245,
     tab_flt (- 1582) 0xD91A0545 0xCDB51186, tab_flt (- 1675) 0xD701CE3B 0xD387BF48,
     tab_flt (- 1768) 0xD4EEC394 0xD6258BF8]"

definition BIGSZ :: nat where "BIGSZ = 20"
definition SMALLSZ :: nat where "SMALLSZ = 28"

section \<open>Strings to numbers\<close>

text \<open>\<open>if (!status) status = flt_status\<close>: the first status that is not zero.\<close>

definition first_status :: "int \<Rightarrow> int \<Rightarrow> int" where
  "first_status status st = (if status = 0 then st else status)"

text \<open>The loop of \<open>add_exponent\<close>: while the exponent is beyond the table, by its last entry.\<close>

function big_loop :: "flt_arith \<Rightarrow> flt_arith \<Rightarrow> int \<Rightarrow> int \<Rightarrow> flt_arith \<times> int \<times> int" where
  "big_loop tp x divsz status =
     (if divsz \<ge> int BIGSZ then
        case flt_mul x tp of (x, st) \<Rightarrow> big_loop tp x (divsz - (int BIGSZ - 1)) (first_status status st)
      else (x, divsz, status))"
  by pat_completeness auto

termination
  by (relation "measure (\<lambda>(tp, x, divsz, status). nat divsz)") (auto simp: BIGSZ_def)

declare big_loop.simps [simp del]

text \<open>The quotient and remainder are computed with unsigned numbers.\<close>

definition add_exponent :: "flt_arith \<Rightarrow> int \<Rightarrow> int \<Rightarrow> (flt_arith \<times> int) option" where
  "add_exponent e exp0 status =
     (let neg = exp0 < 0;
          exp0 = (if neg then c_int (- exp0) else exp0);
          divsz = c_int (ulong exp0 div int SMALLSZ);
          modsz = ulong exp0 mod int SMALLSZ;
          (x, st) = flt_mul e ((if neg then r_10pow else s10pow) ! nat modsz);
          status = first_status status st;
          (x, divsz, status) = big_loop (if neg then r_big_10pow ! (BIGSZ - 1) else big_10pow ! (BIGSZ - 1)) x divsz status in
      if divsz < 0 then None
      else
        let (e, st) = flt_mul x ((if neg then r_big_10pow else big_10pow) ! nat divsz) in
        Some (e, first_status status st))"

definition isspace :: "byte \<Rightarrow> bool" where
  "isspace c \<longleftrightarrow> c = 32 \<or> 9 \<le> c \<and> c \<le> 13"

definition isdigit :: "byte \<Rightarrow> bool" where
  "isdigit c \<longleftrightarrow> 48 \<le> c \<and> c \<le> 57"

text \<open>\<open>while (isspace(*s)) s++\<close>\<close>

fun skip_space :: "byte list \<Rightarrow> byte list option" where
  "skip_space [] = None"
| "skip_space (c # s) = (if isspace c then skip_space s else Some (c # s))"

text \<open>The mantissa times ten plus a digit.\<close>

definition mant10 :: "flt_mantissa \<Rightarrow> byte \<Rightarrow> flt_mantissa" where
  "mant10 m c =
     (let e = flt_b64_sft m (- 3); a1 = flt_b64_sft m (- 1);
          e = fst (flt_b64_add e a1) in
      fst (flt_b64_add e \<lparr>flt_h_32 = 0, flt_l_32 = word_of_int (btol c - 48)\<rparr>))"

text \<open>The loop over the digits and the point: the character it stops at, the string after it,
  \<open>digitseen\<close>, the exponent and the mantissa.\<close>

fun mant_loop :: "byte list \<Rightarrow> bool \<Rightarrow> bool \<Rightarrow> int \<Rightarrow> flt_mantissa \<Rightarrow> (byte \<times> byte list \<times> bool \<times> int \<times> flt_mantissa) option" where
  "mant_loop [] dotseen digitseen exp0 m = None"
| "mant_loop (c # s) dotseen digitseen exp0 m =
     (if isdigit c then
        let (m, exp0) = (if flt_h_32 m \<le> 0x7FFFFFFF div 5 then (mant10 m c, exp0) else (m, c_int (exp0 + 1)));
            exp0 = (if dotseen then c_int (exp0 - 1) else exp0) in
        mant_loop s dotseen True exp0 m
      else if c = 46 \<and> \<not> dotseen then mant_loop s True digitseen exp0 m
      else Some (c, s, digitseen, exp0, m))"

text \<open>A sign is skipped; the first result is whether it was a minus sign.\<close>

definition sign_skip :: "byte list \<Rightarrow> (bool \<times> byte list) option" where
  "sign_skip s = (case s of [] \<Rightarrow> None | c # s' \<Rightarrow> Some (if c = 45 then (True, s') else if c = 43 then (False, s') else (False, s)))"

text \<open>The digits of the exponent.\<close>

fun exp_loop :: "int \<Rightarrow> byte list \<Rightarrow> int option" where
  "exp_loop exp1 [] = None"
| "exp_loop exp1 (c # s) = (if isdigit c then exp_loop (c_int (10 * exp1 + (btol c - 48))) s else Some exp1)"

definition exp_part :: "byte \<Rightarrow> byte list \<Rightarrow> int \<Rightarrow> int option" where
  "exp_part c s exp0 =
     (if c = 69 \<or> c = 101 then do {
        (neg, s) \<leftarrow> sign_skip s;
        exp1 \<leftarrow> exp_loop 0 s;
        Some (c_int (exp0 + c_int ((if neg then - 1 else 1) * exp1)))
      } else Some exp0)"

definition flt_str2flt :: "byte list \<Rightarrow> (flt_arith \<times> int) option" where
  "flt_str2flt s = do {
     s \<leftarrow> skip_space s;
     (neg, s) \<leftarrow> sign_skip s;
     let sign = (if neg then 1 else 0);
     (c, s, digitseen, exp0, m) \<leftarrow> mant_loop s False False 0 \<lparr>flt_h_32 = 0, flt_l_32 = 0\<rparr>;
     if \<not> digitseen then Some (\<lparr>flt_sign = sign, flt_exp = 0, flt_mantissa = m\<rparr>, FLT_NOFLT)
     else do {
       exp0 \<leftarrow> exp_part c s exp0;
       if flt_h_32 m = 0 \<and> flt_l_32 m = 0 then Some (\<lparr>flt_sign = sign, flt_exp = 0, flt_mantissa = m\<rparr>, 0)
       else do {
         (e, status) \<leftarrow> add_exponent (flt_nrm \<lparr>flt_sign = sign, flt_exp = 63, flt_mantissa = m\<rparr>) exp0 0;
         Some (flt_chk e status)
       }
     }
   }"

section \<open>Numbers to strings\<close>

definition NDIG :: nat where "NDIG = 18"

text \<open>The loops that look for an entry of a table: the index of the first one for which \<open>P\<close> does not
  hold.  \<open>scan_tab\<close> must not leave the table; \<open>scan_to_end\<close> stops at its end.\<close>

primrec scan_tab :: "(flt_arith \<Rightarrow> bool) \<Rightarrow> flt_arith list \<Rightarrow> nat \<Rightarrow> nat option" where
  "scan_tab P [] findex = None"
| "scan_tab P (pp # pps) findex = (if P pp then scan_tab P pps (Suc findex) else Some findex)"

primrec scan_to_end :: "(flt_arith \<Rightarrow> bool) \<Rightarrow> flt_arith list \<Rightarrow> nat \<Rightarrow> nat" where
  "scan_to_end P [] findex = findex"
| "scan_to_end P (pp # pps) findex = (if P pp then scan_to_end P pps (Suc findex) else findex)"

text \<open>Scaling of numbers from one on: the number, \<open>decpt\<close> and \<open>findex\<close>.  A loop that does not end
  gives \<^const>\<open>None\<close>.\<close>

definition ecvt_up :: "flt_arith \<Rightarrow> (flt_arith \<times> int \<times> nat) option" where
  "ecvt_up e = do {
     (e, decpt) \<leftarrow> while_option (\<lambda>(e, decpt). fst (flt_cmp e (big_10pow ! (BIGSZ - 1))) \<ge> 0)
       (\<lambda>(e, decpt). (fst (flt_mul e (r_big_10pow ! (BIGSZ - 1))), c_int (decpt + int ((BIGSZ - 1) * SMALLSZ)))) (e, 0);
     findex \<leftarrow> scan_tab (\<lambda>pp. fst (flt_cmp e pp) \<ge> 0) (drop 1 big_10pow) 1;
     let findex = findex - 1;
     let e = fst (flt_mul e (r_big_10pow ! findex));
     let decpt = c_int (decpt + int (findex * SMALLSZ));
     let findex = scan_to_end (\<lambda>pp. fst (flt_cmp e pp) \<ge> 0) (drop 1 s10pow) 1 - 1;
     Some (e, c_int (decpt + int findex), findex)
   }"

text \<open>Scaling of numbers below one.\<close>

definition ecvt_down :: "flt_arith \<Rightarrow> int \<Rightarrow> (flt_arith \<times> int) option" where
  "ecvt_down e decpt = do {
     (e, decpt) \<leftarrow> while_option (\<lambda>(e, decpt). fst (flt_cmp e (r_big_10pow ! (BIGSZ - 1))) < 0)
       (\<lambda>(e, decpt). (fst (flt_mul e (big_10pow ! (BIGSZ - 1))), c_int (decpt - int ((BIGSZ - 1) * SMALLSZ)))) (e, decpt);
     findex \<leftarrow> scan_tab (\<lambda>pp. fst (flt_cmp e pp) < 0) (drop 1 r_big_10pow) 1;
     let findex = findex - 1;
     let e = fst (flt_mul e (big_10pow ! findex));
     let decpt = c_int (decpt - int (findex * SMALLSZ));
     let e = fst (flt_mul e (s10pow ! 1));
     let decpt = c_int (decpt - 1);
     findex \<leftarrow> scan_tab (\<lambda>pp. fst (flt_cmp e pp) < 0) r_10pow 0;
     Some (fst (flt_mul e (s10pow ! findex)), c_int (decpt - int findex))
   }"

definition ecvt_scale :: "flt_arith \<Rightarrow> (flt_arith \<times> int \<times> nat) option" where
  "ecvt_scale e =
     (if m1 e \<noteq> 0 then do {
        (e, decpt, findex) \<leftarrow> ecvt_up e;
        (e, decpt, findex) \<leftarrow> (if fst (flt_cmp e (s10pow ! 0)) < 0 then map_option (\<lambda>(e, decpt). (e, decpt, 0)) (ecvt_down e decpt)
          else Some (e, decpt, findex));
        Some (e, c_int (decpt + 1), findex)
      } else Some (e, 0, 0))"

text \<open>One digit: how often the power of ten \<open>10 ^ findex\<close> fits, or the integer part.\<close>

definition ecvt_digit :: "flt_arith \<Rightarrow> nat \<Rightarrow> (byte \<times> flt_arith \<times> nat) option" where
  "ecvt_digit e findex =
     (if findex \<noteq> 0 then do {
        (tc, oldtc, count) \<leftarrow> while_option (\<lambda>(tc, oldtc, count). fst (flt_cmp e tc) \<ge> 0)
          (\<lambda>(tc, oldtc, count). (fst (flt_add tc (s10pow ! findex)), tc, count + 1)) (s10pow ! findex, zero_flt, 0 :: int);
        Some (to_char (count + 48), fst (flt_add e (oldtc\<lparr>flt_sign := 1\<rparr>)), findex - 1)
      } else do {
        (c, e) \<leftarrow> (if flt_exp e \<ge> 0 \<and> m1 e \<noteq> 0 then
          if flt_exp e > 30 then None
          else
            let x = drop_bit (nat (30 - flt_exp e)) (drop_bit 1 (m1 e) AND 0x7FFFFFFF) in
            Some (to_char (uint x + 48),
              if x \<noteq> 0 then fst (flt_add e \<lparr>flt_sign = 1, flt_exp = flt_exp e,
                flt_mantissa = \<lparr>flt_h_32 = push_bit (nat (31 - flt_exp e)) x, flt_l_32 = 0\<rparr>\<rparr>) else e)
          else Some (48, e));
        Some (c, if m1 e \<noteq> 0 then fst (flt_mul e (s10pow ! 1)) else e, 0)
      })"

primrec ecvt_digits :: "nat \<Rightarrow> flt_arith \<Rightarrow> nat \<Rightarrow> byte list option" where
  "ecvt_digits 0 e findex = Some []"
| "ecvt_digits (Suc n) e findex = do {
     (c, e, findex) \<leftarrow> ecvt_digit e findex;
     cs \<leftarrow> ecvt_digits n e findex;
     Some (c # cs)
   }"

text \<open>Rounding at the last digit, and removal of zeros at the end.\<close>

primrec round_loop :: "nat \<Rightarrow> byte list \<Rightarrow> int \<Rightarrow> byte list \<times> int" where
  "round_loop 0 buf decpt = (if btos (buf ! 0) > 57 then (buf[0 := 49], c_int (decpt + 1)) else (buf, decpt))"
| "round_loop (Suc p) buf decpt =
     (if btos (buf ! Suc p) > 57 then round_loop p (buf[Suc p := 48, p := to_char (btos (buf ! p) + 1)]) decpt else (buf, decpt))"

primrec strip_zeros :: "nat \<Rightarrow> byte list \<Rightarrow> byte list" where
  "strip_zeros 0 buf = buf"
| "strip_zeros (Suc p) buf = (if buf ! Suc p = 48 then strip_zeros p (buf[Suc p := 0]) else buf)"

text \<open>The digits, \<open>decpt\<close> and the sign.\<close>

definition flt_ecvt :: "flt_arith \<Rightarrow> (byte list \<times> int \<times> bool) option" where
  "flt_ecvt e = do {
     let sign = (flt_sign e \<noteq> 0);
     (e, decpt, findex) \<leftarrow> ecvt_scale (e\<lparr>flt_sign := 0\<rparr>);
     buf \<leftarrow> ecvt_digits (NDIG + 1) e findex;
     let (buf, decpt) = round_loop NDIG (buf[NDIG := to_char (btos (buf ! NDIG) + 5)]) decpt;
     Some (strip_zeros (NDIG - 1) (buf[NDIG := 0]), decpt, sign)
   }"

text \<open>The digits after the point.\<close>

primrec frac_loop :: "nat \<Rightarrow> byte list \<Rightarrow> byte list" where
  "frac_loop 0 s1 = []"
| "frac_loop (Suc i) s1 =
     (if s1 ! 0 \<noteq> 0 then s1 ! 0 # frac_loop i (drop 1 s1) else if Suc i = NDIG - 1 then [48] else [])"

text \<open>The digits of the exponent, from the last one.\<close>

function dp_digits :: "int \<Rightarrow> byte list \<Rightarrow> byte list" where
  "dp_digits dp s1 =
     (let s1 = to_char (dp mod 10 + 48) # s1 in
      if dp div 10 \<noteq> 0 \<and> dp > 0 then dp_digits (dp div 10) s1 else s1)"
  by pat_completeness auto

termination
  by (relation "measure (\<lambda>(dp, s1). nat dp)") auto

declare dp_digits.simps [simp del]

text \<open>The string, if it fits into the buffer; otherwise the status is \<open>FLT_BTSM\<close> and nothing is
  stored.  The first component is \<^const>\<open>None\<close> if the conversion is undefined.\<close>

definition flt_flt2str :: "flt_arith \<Rightarrow> int \<Rightarrow> byte list option option" where
  "flt_flt2str e bufsize = do {
     (s1, dp, sign) \<leftarrow> flt_ecvt e;
     let s = (if sign then [45] else []) @ s1 ! 0 # 46 # frac_loop (NDIG - 1) (drop 1 s1);
     let dp = (if m1 e OR m2 e \<noteq> 0 then c_int (dp - 1) else dp);
     let s = (if dp \<noteq> 0 then s @ 101 # (if dp < 0 then 45 else 43) # dp_digits \<bar>dp\<bar> [] else s) @ [0];
     Some (if int (length s) > bufsize then None else Some s)
   }"

section \<open>Products with a power of ten\<close>

text \<open>The precision: half a unit in the last place, as a part of the number.\<close>

definition ulp :: real where
  "ulp = 1 / 2 ^ 64"

lemma ulp_range: "0 < ulp" "ulp < 1"
  by (simp_all add: ulp_def)

text \<open>\<open>b\<close> is \<open>a\<close> but for \<open>k\<close> errors.\<close>

definition approx :: "nat \<Rightarrow> real \<Rightarrow> real \<Rightarrow> bool" where
  "approx k a b \<longleftrightarrow> 0 < a \<and> a * (1 - ulp) ^ k \<le> b \<and> b \<le> a * (1 + ulp) ^ k"

lemma approx_trans:
  assumes "approx j a b" "approx k b c"
  shows "approx (j + k) a c"
proof -
  have "a * (1 - ulp) ^ j * (1 - ulp) ^ k \<le> b * (1 - ulp) ^ k" "b * (1 + ulp) ^ k \<le> a * (1 + ulp) ^ j * (1 + ulp) ^ k"
    using assms ulp_range by (auto simp: approx_def intro!: mult_right_mono zero_le_power)
  then have "a * (1 - ulp) ^ j * (1 - ulp) ^ k \<le> c" "c \<le> a * (1 + ulp) ^ j * (1 + ulp) ^ k"
    using assms by (auto simp: approx_def)
  then show ?thesis using assms by (simp add: approx_def power_add mult.assoc)
qed

lemma approx_mult:
  assumes "approx k a b" "0 < c"
  shows "approx k (a * c) (b * c)"
proof -
  have "a * (1 - ulp) ^ k * c \<le> b * c" "b * c \<le> a * (1 + ulp) ^ k * c"
    using assms by (auto simp: approx_def intro!: mult_right_mono)
  then show ?thesis using assms by (simp add: approx_def mult.commute mult.left_commute)
qed

lemma approx_1: "\<bar>a - b\<bar> \<le> ulp * a \<Longrightarrow> 0 < a \<Longrightarrow> approx 1 a b"
  by (auto simp: approx_def abs_le_iff right_diff_distrib distrib_left mult.commute)

lemma approx_4:
  assumes "approx 4 a b"
  shows "\<bar>a - b\<bar> \<le> 5 * ulp * a"
proof -
  have "1 - 5 * ulp \<le> (1 - ulp) ^ 4" "(1 + ulp) ^ 4 \<le> 1 + 5 * ulp" by (simp_all add: ulp_def power_numeral_even)
  then have "a * (1 - 5 * ulp) \<le> a * (1 - ulp) ^ 4" "a * (1 + ulp) ^ 4 \<le> a * (1 + 5 * ulp)"
    using assms by (auto simp: approx_def intro!: mult_left_mono)
  then have "a * (1 - 5 * ulp) \<le> b" "b \<le> a * (1 + 5 * ulp)" using assms unfolding approx_def by linarith+
  then show ?thesis by (simp add: abs_le_iff right_diff_distrib distrib_left mult.commute mult.left_commute)
qed

text \<open>A power of two by squaring.\<close>

function pow2 :: "int \<Rightarrow> int" where
  "pow2 n = (if n \<le> 0 then 1 else let y = pow2 (n div 2) in if even n then y * y else 2 * (y * y))"
  by pat_completeness auto

termination
  by (relation "measure nat") auto

declare pow2.simps [simp del]

lemma pow2_eq: "pow2 n = 2 ^ nat n"
proof (induction n rule: pow2.induct)
  case (1 n)
  show ?case
  proof (cases "n \<le> 0")
    case False
    then have "nat n = nat (n div 2) + nat (n div 2) + (if even n then 0 else 1)"
      by (cases "even n") (auto elim!: evenE oddE simp: nat_add_distrib nat_mult_distrib)
    then show ?thesis using 1 False by (subst pow2.simps) (simp add: power_add Let_def)
  qed (simp add: pow2.simps)
qed

text \<open>A table entry is near a quotient of integers; this is decided with integers.\<close>

definition entry_ok :: "flt_arith \<Rightarrow> int \<Rightarrow> int \<Rightarrow> bool" where
  "entry_ok e a b \<longleftrightarrow> flt_sign e = 0 \<and> 2 ^ 63 \<le> mval (flt_mantissa e) \<and> \<bar>flt_exp e\<bar> < 1800
     \<and> (let v = mval (flt_mantissa e) * pow2 (flt_exp e - 63) * b in \<bar>v - a * pow2 (63 - flt_exp e)\<bar> * pow2 64 \<le> v)"

primrec entries_ok :: "flt_arith list \<Rightarrow> int \<Rightarrow> int \<Rightarrow> int \<Rightarrow> int \<Rightarrow> bool" where
  "entries_ok [] a b k l \<longleftrightarrow> True"
| "entries_ok (e # es) a b k l \<longleftrightarrow> entry_ok e a b \<and> entries_ok es (a * k) (b * l) k l"

lemma entries_ok_nth: "entries_ok es a b k l \<Longrightarrow> i < length es \<Longrightarrow> entry_ok (es ! i) (a * k ^ i) (b * l ^ i)"
proof (induction es arbitrary: a b i)
  case (Cons e es)
  then show ?case using Cons.IH [of "a * k" "b * l" "i - 1"] by (cases i) (auto simp: mult.assoc)
qed simp

lemma entry_near:
  assumes e: "entry_ok e a b" and "0 < b"
  shows "normal e" "flt_sign e = 0" "\<bar>flt_exp e\<bar> < 1800" "0 < fval e" "approx 1 (fval e) (of_int a / of_int b)"
proof -
  define p q where "p = nat (flt_exp e - 63)" and "q = nat (63 - flt_exp e)"
  let ?M = "mval (flt_mantissa e)"
  have M: "2 ^ 63 \<le> ?M" "\<bar>?M * 2 ^ p * b - a * 2 ^ q\<bar> * 2 ^ 64 \<le> ?M * 2 ^ p * b" "flt_sign e = 0"
    using e by (simp_all add: entry_ok_def pow2_eq Let_def p_def q_def)
  show x: "flt_sign e = 0" "\<bar>flt_exp e\<bar> < 1800" using e by (simp_all add: entry_ok_def)
  then show "normal e" using M(1) by (auto simp: normal_def EXT_MIN_def EXT_MAX_def)
  have v: "fval e = real_of_int (?M * 2 ^ p) / 2 ^ q"
    using x(1) by (cases "63 \<le> flt_exp e") (auto simp: fval_def scaled_def p_def q_def power_int_def field_simps)
  show pos: "0 < fval e" using M(1) unfolding v by simp
  have r: "real_of_int (\<bar>?M * 2 ^ p * b - a * 2 ^ q\<bar> * 2 ^ 64) \<le> of_int (?M * 2 ^ p * b)" using M(2) by (simp only: of_int_le_iff)
  have "fval e - of_int a / of_int b = of_int (?M * 2 ^ p * b - a * 2 ^ q) / (2 ^ q * of_int b)"
    unfolding v using assms(2) by (simp add: field_simps)
  then have "\<bar>fval e - of_int a / of_int b\<bar> = of_int \<bar>?M * 2 ^ p * b - a * 2 ^ q\<bar> / (2 ^ q * of_int b)"
    using assms(2) by (simp add: abs_divide)
  also have "\<dots> = of_int (\<bar>?M * 2 ^ p * b - a * 2 ^ q\<bar> * 2 ^ 64) / (2 ^ 64 * (2 ^ q * of_int b))" by simp
  also have "\<dots> \<le> of_int (?M * 2 ^ p * b) / (2 ^ 64 * (2 ^ q * of_int b))" using r assms(2) by (intro divide_right_mono) simp_all
  also have "\<dots> = ulp * fval e" unfolding v ulp_def using assms(2) by simp
  finally show "approx 1 (fval e) (of_int a / of_int b)" using pos by (intro approx_1)
qed

lemma small_tables_ok: "entries_ok s10pow 1 1 10 1" "entries_ok r_10pow 1 1 1 10"
  by code_simp+

lemma big_table_ok: "entries_ok big_10pow 1 1 10000000000000000000000000000 1"
  by code_simp

lemma r_big_table_ok: "entries_ok r_big_10pow 1 1 1 10000000000000000000000000000"
  by code_simp

lemmas tables_ok = small_tables_ok big_table_ok r_big_table_ok

text \<open>The factors for a power of ten.\<close>

lemma powers_near:
  fixes neg :: bool
  assumes "n < 560"
  defines "S \<equiv> (if neg then r_10pow else s10pow) ! (n mod 28)" and "B \<equiv> (if neg then r_big_10pow else big_10pow) ! (n div 28)"
  obtains s b where "normal S" "flt_sign S = 0" "\<bar>flt_exp S\<bar> < 1800" "approx 1 (fval S) s"
    "normal B" "flt_sign B = 0" "\<bar>flt_exp B\<bar> < 1800" "approx 1 (fval B) b" "s * b = (if neg then 1 / 10 ^ n else 10 ^ n)"
    "0 < s" "0 < b" "0 < fval S" "0 < fval B"
proof -
  have i: "n mod 28 < 28" "n div 28 < 20" using assms by simp_all
  have l: "length s10pow = 28" "length r_10pow = 28" "length big_10pow = 20" "length r_big_10pow = 20"
    by (simp_all add: s10pow_def r_10pow_def big_10pow_def r_big_10pow_def)
  have "(10 :: real) ^ n = 10 ^ (n mod 28 + 28 * (n div 28))" by simp
  then have n: "(10 :: real) ^ n = 10 ^ (n mod 28) * (10 ^ 28) ^ (n div 28)" by (simp only: power_add power_mult)
  show ?thesis
  proof (cases neg)
    case True
    have "entry_ok S 1 (10 ^ (n mod 28))" "entry_ok B 1 ((10 ^ 28) ^ (n div 28))"
      using entries_ok_nth [OF tables_ok(2), of "n mod 28"] entries_ok_nth [OF tables_ok(4), of "n div 28"] i l True
      by (simp_all add: S_def B_def)
    then show ?thesis using that [of "1 / 10 ^ (n mod 28)" "1 / (10 ^ 28) ^ (n div 28)"] True n
        entry_near [of S 1 "10 ^ (n mod 28)"] entry_near [of B 1 "(10 ^ 28) ^ (n div 28)"] by simp
  next
    case False
    have "entry_ok S (10 ^ (n mod 28)) 1" "entry_ok B ((10 ^ 28) ^ (n div 28)) 1"
      using entries_ok_nth [OF tables_ok(1), of "n mod 28"] entries_ok_nth [OF tables_ok(3), of "n div 28"] i l False
      by (simp_all add: S_def B_def)
    then show ?thesis using that [of "10 ^ (n mod 28)" "(10 ^ 28) ^ (n div 28)"] False n
        entry_near [of S "10 ^ (n mod 28)" 1] entry_near [of B "(10 ^ 28) ^ (n div 28)" 1] by simp
  qed
qed

lemma mul_near:
  assumes n: "normal e1" "normal e2" and x: "EXT_MIN < flt_exp e1 + flt_exp e2" "flt_exp e1 + flt_exp e2 + 2 < EXT_MAX"
  obtains r where "flt_mul e1 e2 = (r, 0)" "normal r" "flt_sign r = flt_sign e1 XOR flt_sign e2"
    "flt_exp e1 + flt_exp e2 \<le> flt_exp r" "flt_exp r \<le> flt_exp e1 + flt_exp e2 + 2" "approx 1 \<bar>fval r\<bar> (\<bar>fval e1\<bar> * \<bar>fval e2\<bar>)"
proof -
  obtain f where f: "flt_mul e1 e2 = flt_chk f 0" "flt_sign f = flt_sign e1 XOR flt_sign e2" "flt_sign f \<in> {0, 1}" "2 ^ 63 \<le> mval (flt_mantissa f)"
    "\<bar>fval f - fval e1 * fval e2\<bar> \<le> 2 powi (flt_exp f - 64)"
    "flt_exp e1 + flt_exp e2 \<le> flt_exp f" "flt_exp f \<le> flt_exp e1 + flt_exp e2 + 2"
    using flt_mul_close [OF n] by metis
  have "2 powi (flt_exp f - 64) = ulp * (2 powi flt_exp f)" by (simp add: ulp_def power_int_diff)
  also have "\<dots> \<le> ulp * \<bar>fval f\<bar>" using fval_normal_bounds(1) [OF f(4)] ulp_range by (intro mult_left_mono) simp_all
  finally have "\<bar>\<bar>fval f\<bar> - \<bar>fval e1\<bar> * \<bar>fval e2\<bar>\<bar> \<le> ulp * \<bar>fval f\<bar>"
    using f(5) unfolding abs_mult [symmetric] by linarith
  moreover have "0 < \<bar>fval f\<bar>" using fval_normal_bounds(1) [OF f(4)] powi_pos [of "flt_exp f"] by linarith
  ultimately have "approx 1 \<bar>fval f\<bar> (\<bar>fval e1\<bar> * \<bar>fval e2\<bar>)" by (rule approx_1)
  moreover have "flt_mul e1 e2 = (f, 0)" using f(1,6,7) x by (simp add: flt_chk_cases)
  ultimately show ?thesis using that f x by (simp add: normal_def)
qed

text \<open>Multiplication by one.\<close>

lemma mul_one:
  assumes n: "normal e"
  shows "flt_mul e flt_one = (e, 0)"
proof -
  let ?M = "mval (flt_mantissa e)"
  have "normal flt_one" by simp
  moreover have one: "mval (flt_mantissa flt_one) = 2 ^ 63" "flt_exp flt_one = 0" "flt_sign flt_one = 0" by (simp_all add: flt_one_def mval_def)
  moreover have "?M * 2 ^ 63 < 2 ^ 127" using mval_range(2) [of "flt_mantissa e"] by simp
  then have "mul_shift (?M * 2 ^ 63) = 63" by (simp add: mul_shift_def)
  moreover from this have "mul_mant (?M * 2 ^ 63) = ?M"
    unfolding mul_mant_def by (intro int_div_pos_eq [where r = "2 ^ 62"]) simp_all
  ultimately obtain m x where "flt_mul e flt_one = flt_chk \<lparr>flt_sign = flt_sign e XOR 0, flt_exp = x, flt_mantissa = m\<rparr> 0" "mval m = ?M" "x = flt_exp e"
    using flt_mul_mant [OF normal_exp_ok [OF n], of flt_one] normal_exp_ok [of flt_one] mval_range(2) [of "flt_mantissa e"] by (metis add.right_neutral diff_add_cancel less_irrefl of_nat_numeral)
  moreover from this have "m = flt_mantissa e" using mval_inject by blast
  ultimately show ?thesis using n by (simp add: flt_chk_cases normal_def)
qed

lemma mul_entry:
  assumes n: "normal e" and e: "\<bar>flt_exp e\<bar> < 2000" and S: "normal S" "flt_sign S = 0" "\<bar>flt_exp S\<bar> < 1800" "0 < fval S"
  obtains r where "flt_mul e S = (r, 0)" "normal r" "flt_sign r = flt_sign e" "\<bar>flt_exp r\<bar> < \<bar>flt_exp e\<bar> + 1802"
    "approx 1 \<bar>fval r\<bar> (\<bar>fval e\<bar> * fval S)"
proof -
  have "EXT_MIN < flt_exp e + flt_exp S" "flt_exp e + flt_exp S + 2 < EXT_MAX" using e S(3) by (auto simp: EXT_MIN_def EXT_MAX_def)
  then obtain r where r: "flt_mul e S = (r, 0)" "normal r" "flt_sign r = flt_sign e XOR flt_sign S"
    "flt_exp e + flt_exp S \<le> flt_exp r" "flt_exp r \<le> flt_exp e + flt_exp S + 2" "approx 1 \<bar>fval r\<bar> (\<bar>fval e\<bar> * \<bar>fval S\<bar>)"
    using mul_near [OF n S(1)] by metis
  moreover have "\<bar>flt_exp r\<bar> < \<bar>flt_exp e\<bar> + 1802" using r(4,5) S(3) by linarith
  ultimately show ?thesis using that S by simp
qed

lemma add_exponent_ok:
  assumes n: "normal e" and e: "\<bar>flt_exp e\<bar> \<le> 64" and x: "\<bar>x\<bar> < 560"
  obtains r where "add_exponent e x 0 = Some (r, 0)" "normal r" "flt_sign r = flt_sign e"
    "approx 4 \<bar>fval r\<bar> (\<bar>fval e\<bar> * 10 powi x)" "x = 0 \<Longrightarrow> r = e"
proof -
  define k where "k = nat \<bar>x\<bar>"
  define S where "S = (if x < 0 then r_10pow else s10pow) ! (k mod 28)"
  define B where "B = (if x < 0 then r_big_10pow else big_10pow) ! (k div 28)"
  have k: "k < 560" "int k = \<bar>x\<bar>" using x by (simp_all add: k_def)
  obtain s b where S: "normal S" "flt_sign S = 0" "\<bar>flt_exp S\<bar> < 1800" "approx 1 (fval S) s" "0 < s" "0 < fval S"
    and B: "normal B" "flt_sign B = 0" "\<bar>flt_exp B\<bar> < 1800" "approx 1 (fval B) b" "0 < b" "0 < fval B"
    and sb: "s * b = (if x < 0 then 1 / 10 ^ k else 10 ^ k)"
    using powers_near [OF k(1), of "x < 0"] unfolding S_def B_def by metis
  have px: "s * b = 10 powi x" unfolding sb by (auto simp: power_int_def k_def field_simps)
  obtain r1 where r1: "flt_mul e S = (r1, 0)" "normal r1" "flt_sign r1 = flt_sign e" "\<bar>flt_exp r1\<bar> < \<bar>flt_exp e\<bar> + 1802"
    "approx 1 \<bar>fval r1\<bar> (\<bar>fval e\<bar> * fval S)"
  proof -
    have "\<bar>flt_exp e\<bar> < 2000" using e by simp
    then show ?thesis using mul_entry [OF n _ S(1,2,3,6)] that by metis
  qed
  have "\<bar>flt_exp r1\<bar> < 2000" using r1(4) e by simp
  then obtain r where r: "flt_mul r1 B = (r, 0)" "normal r" "flt_sign r = flt_sign r1" "approx 1 \<bar>fval r\<bar> (\<bar>fval r1\<bar> * fval B)"
    using mul_entry [OF r1(2) _ B(1,2,3,6)] by metis
  have pe: "0 < \<bar>fval e\<bar>" using n by (auto simp: fval_def scaled_def normal_def)
  have "approx (1 + (1 + (1 + 1))) \<bar>fval r\<bar> (\<bar>fval e\<bar> * 10 powi x)"
  proof (intro approx_trans)
    show "approx 1 \<bar>fval r\<bar> (\<bar>fval r1\<bar> * fval B)" by (rule r)
    show "approx 1 (\<bar>fval r1\<bar> * fval B) (\<bar>fval e\<bar> * fval S * fval B)" using r1(5) B(6) by (rule approx_mult)
    show "approx 1 (\<bar>fval e\<bar> * fval S * fval B) (\<bar>fval e\<bar> * s * fval B)"
      using approx_mult [OF S(4), of "\<bar>fval e\<bar> * fval B"] pe B(6) by (simp add: mult.commute mult.left_commute)
    show "approx 1 (\<bar>fval e\<bar> * s * fval B) (\<bar>fval e\<bar> * 10 powi x)"
      using approx_mult [OF B(4), of "\<bar>fval e\<bar> * s"] pe S(5) unfolding px [symmetric] by (simp add: mult.commute mult.left_commute)
  qed
  moreover have "add_exponent e x 0 = Some (r, 0)"
  proof -
    have c: "(if x < 0 then c_int (- x) else x) = int k" using x k(2) by (auto simp: c_int_id)
    have u: "ulong (int k) = int k" using k(1) by (simp add: ulong_id)
    have d: "int k div int SMALLSZ = int (k div 28)" "int k mod int SMALLSZ = int (k mod 28)" by (simp_all add: SMALLSZ_def zdiv_int zmod_int)
    have d2: "c_int (int (k div 28)) = int (k div 28)" "\<not> int BIGSZ \<le> int (k div 28)" using k(1) by (simp_all add: c_int_id BIGSZ_def)
    have bl: "big_loop t r1 (int (k div 28)) 0 = (r1, int (k div 28), 0)" for t using d2(2) by (subst big_loop.simps) simp
    show ?thesis
      unfolding add_exponent_def Let_def c u d d2(1) nat_int S_def [symmetric] r1(1) prod.case first_status_def
      by (simp add: bl B_def [symmetric] r(1))
  qed
  moreover have "r = e" if "x = 0"
  proof -
    have "S = flt_one" "B = flt_one"
      using that by (simp_all add: S_def B_def k_def s10pow_def big_10pow_def tab_flt_def flt_one_def)
    then show ?thesis using mul_one [OF n] r1(1) r(1) by simp
  qed
  moreover have "1 + (1 + (1 + 1)) = (4 :: nat)" by simp
  ultimately show ?thesis using that r(2,3) r1(3) by metis
qed

section \<open>Reading digits\<close>

text \<open>The number that digits denote, after a number \<open>a\<close>.\<close>

definition dig_val :: "int \<Rightarrow> byte list \<Rightarrow> int" where
  "dig_val = foldl (\<lambda>a c. 10 * a + (btol c - 48))"

lemma dig_val_simps [simp]: "dig_val a [] = a" "dig_val a (c # s) = dig_val (10 * a + (btol c - 48)) s"
  "dig_val a (s @ s') = dig_val (dig_val a s) s'"
  by (simp_all add: dig_val_def)

lemma isdigit_val: "isdigit c \<Longrightarrow> 0 \<le> btol c - 48 \<and> btol c - 48 \<le> 9"
  by (simp add: isdigit_def btol_def word_le_def)

lemma dig_val_mono: "0 \<le> a \<Longrightarrow> \<forall>c\<in>set s. isdigit c \<Longrightarrow> a \<le> dig_val a s"
proof (induction s arbitrary: a)
  case (Cons c s)
  then have "10 * a + (btol c - 48) \<le> dig_val (10 * a + (btol c - 48)) s" using isdigit_val [of c] by (intro Cons.IH) auto
  then show ?case using Cons.prems isdigit_val [of c] by simp
qed simp

lemma mant10_ok:
  assumes d: "isdigit c" and m: "10 * mval m + (btol c - 48) < 2 ^ 64"
  shows "mval (mant10 m c) = 10 * mval m + (btol c - 48)" "flt_h_32 m \<le> 0x7FFFFFFF div 5"
proof -
  let ?d = "btol c - 48"
  note d' = isdigit_val [OF d]
  have M: "10 * mval m < 2 ^ 64" "0 \<le> mval m" using m d' by simp_all
  have a: "mval (flt_b64_sft m (- 3)) = mval m * 8" "mval (flt_b64_sft m (- 1)) = mval m * 2"
    using mval_sft_left [of 3 m] mval_sft_left [of 1 m] M by simp_all
  have "mval (fst (flt_b64_add (flt_b64_sft m (- 3)) (flt_b64_sft m (- 1)))) = 10 * mval m"
    unfolding mval_add a using M by simp
  moreover have "mval \<lparr>flt_h_32 = 0, flt_l_32 = word_of_int ?d\<rparr> = ?d"
  proof -
    have "mval \<lparr>flt_h_32 = 0, flt_l_32 = word_of_int z\<rparr> = z" if "0 \<le> z" "z \<le> 9" for z
      using that by (simp add: mval_def unsigned_of_int take_bit_int_eq_self)
    then show ?thesis using d' by blast
  qed
  ultimately show "mval (mant10 m c) = 10 * mval m + ?d"
    using m d' M unfolding mant10_def Let_def mval_add by simp
  have "uint (flt_h_32 m) * 2 ^ 32 \<le> mval m" by (simp add: mval_def)
  then have "10 * (uint (flt_h_32 m) * 2 ^ 32) < 2 ^ 64" using M by linarith
  then have "uint (flt_h_32 m) \<le> 429496729" by simp
  then show "flt_h_32 m \<le> 0x7FFFFFFF div 5" by (simp add: word_le_def uint_div)
qed

text \<open>A row of digits whose number fits into the mantissa.\<close>

lemma mant_loop_digits:
  assumes "\<forall>c\<in>set ds. isdigit c" "dig_val (mval m) ds < 2 ^ 64" "- (2 ^ 31) \<le> x - int (length ds)" "x \<le> 0"
  shows "\<exists>m'. mval m' = dig_val (mval m) ds \<and>
    mant_loop (ds @ rest) dot seen x m = mant_loop rest dot (seen \<or> ds \<noteq> []) (if dot then x - int (length ds) else x) m'"
  using assms
proof (induction ds arbitrary: m x seen)
  case (Cons c ds)
  have "10 * mval m + (btol c - 48) \<le> dig_val (mval m) (c # ds)"
    using Cons.prems(1) isdigit_val [of c] dig_val_mono [of "10 * mval m + (btol c - 48)" ds] by simp
  then have m: "mval (mant10 m c) = 10 * mval m + (btol c - 48)" "flt_h_32 m \<le> 0x7FFFFFFF div 5"
    using mant10_ok [of c m] Cons.prems(1,2) by simp_all
  let ?x = "if dot then x - 1 else x"
  have "c_int (x - 1) = x - 1" using Cons.prems(3,4) by (simp add: c_int_id)
  then have "mant_loop ((c # ds) @ rest) dot seen x m = mant_loop (ds @ rest) dot True ?x (mant10 m c)"
    using Cons.prems(1) m(2) by (simp add: Let_def)
  moreover obtain m' where "mval m' = dig_val (mval (mant10 m c)) ds"
    "mant_loop (ds @ rest) dot True ?x (mant10 m c) = mant_loop rest dot (True \<or> ds \<noteq> []) (if dot then ?x - int (length ds) else ?x) m'"
  proof -
    have "- (2 ^ 31) \<le> ?x - int (length ds)" "?x \<le> 0" using Cons.prems(3,4) by auto
    moreover have "\<forall>c\<in>set ds. isdigit c" "dig_val (mval (mant10 m c)) ds < 2 ^ 64" using Cons.prems(1,2) m(1) by auto
    ultimately show ?thesis using that Cons.IH by blast
  qed
  ultimately show ?case using m(1) by (auto simp: diff_diff_eq intro!: exI [of _ m'])
qed auto

lemma exp_loop_digits:
  assumes "\<forall>c\<in>set xs. isdigit c" "dig_val a xs < 2 ^ 31" "0 \<le> a"
  shows "exp_loop a (xs @ [0]) = Some (dig_val a xs)"
  using assms
proof (induction xs arbitrary: a)
  case Nil
  then show ?case by (simp add: isdigit_def word_le_def)
next
  case (Cons c xs)
  have d: "0 \<le> btol c - 48 \<and> btol c - 48 \<le> 9" using isdigit_val [of c] Cons.prems(1) by simp
  then have "10 * a + (btol c - 48) \<le> dig_val a (c # xs)"
    using dig_val_mono [of "10 * a + (btol c - 48)" xs] Cons.prems(1,3) by simp
  then have "c_int (10 * a + (btol c - 48)) = 10 * a + (btol c - 48)" using Cons.prems(2,3) d by (intro c_int_id) simp_all
  then show ?case using Cons d by simp
qed

section \<open>Decimal constants\<close>

text \<open>The texts of decimal constants: space, sign, digits, point and fraction, exponent.\<close>

fun sign_text :: "bool option \<Rightarrow> byte list" where
  "sign_text None = []"
| "sign_text (Some neg) = [if neg then 45 else 43]"

definition const_text :: "byte list \<Rightarrow> bool option \<Rightarrow> byte list \<Rightarrow> byte list option \<Rightarrow> (bool option \<times> byte list) option \<Rightarrow> byte list" where
  "const_text sp sg ip fp ex = sp @ sign_text sg @ ip @ (case fp of None \<Rightarrow> [] | Some ds \<Rightarrow> 46 # ds)
     @ (case ex of None \<Rightarrow> [0] | Some (s, xs) \<Rightarrow> 101 # sign_text s @ xs @ [0])"

text \<open>The digits without the point, and the power of ten that goes with them.\<close>

definition const_digits :: "byte list \<Rightarrow> byte list option \<Rightarrow> byte list" where
  "const_digits ip fp = ip @ (case fp of None \<Rightarrow> [] | Some ds \<Rightarrow> ds)"

definition exp_value :: "(bool option \<times> byte list) option \<Rightarrow> int" where
  "exp_value ex = (case ex of None \<Rightarrow> 0 | Some (s, xs) \<Rightarrow> (if s = Some True then - 1 else 1) * dig_val 0 xs)"

definition const_exp :: "byte list option \<Rightarrow> (bool option \<times> byte list) option \<Rightarrow> int" where
  "const_exp fp ex = exp_value ex - (case fp of None \<Rightarrow> 0 | Some ds \<Rightarrow> int (length ds))"

definition const_value :: "bool option \<Rightarrow> byte list \<Rightarrow> byte list option \<Rightarrow> (bool option \<times> byte list) option \<Rightarrow> real" where
  "const_value sg ip fp ex = (if sg = Some True then - 1 else 1) * of_int (dig_val 0 (const_digits ip fp)) * 10 powi const_exp fp ex"

text \<open>Constants whose digits fit into the mantissa and whose exponent stays within the tables.\<close>

definition good_const :: "byte list \<Rightarrow> byte list \<Rightarrow> byte list option \<Rightarrow> (bool option \<times> byte list) option \<Rightarrow> bool" where
  "good_const sp ip fp ex \<longleftrightarrow> list_all isspace sp \<and> list_all isdigit (const_digits ip fp) \<and> const_digits ip fp \<noteq> []
     \<and> dig_val 0 (const_digits ip fp) < 2 ^ 64 \<and> length (const_digits ip fp) < 2 ^ 30
     \<and> (case ex of None \<Rightarrow> True | Some (s, xs) \<Rightarrow> list_all isdigit xs \<and> dig_val 0 xs < 2 ^ 30)
     \<and> \<bar>const_exp fp ex\<bar> < 560"

lemma skip_space_ok: "list_all isspace sp \<Longrightarrow> \<not> isspace c \<Longrightarrow> skip_space (sp @ c # s) = Some (c # s)"
  by (induction sp) auto

lemma sign_skip_ok:
  assumes "s \<noteq> []" "hd s \<noteq> 45" "hd s \<noteq> 43"
  shows "sign_skip (sign_text sg @ s) = Some (sg = Some True, s)"
  using assms by (cases sg; cases s) (auto simp: sign_skip_def)

lemma not_special: "isdigit c \<Longrightarrow> c \<noteq> 45 \<and> c \<noteq> 43 \<and> c \<noteq> 46 \<and> c \<noteq> 0 \<and> \<not> isspace c"
  by (auto simp: isdigit_def isspace_def word_le_def)

lemma special: "\<not> isspace 43" "\<not> isspace 45" "\<not> isspace 46" "\<not> isdigit 0" "\<not> isdigit 46" "\<not> isdigit 101"
  by (simp_all add: isdigit_def isspace_def word_le_def)

text \<open>The scan of the mantissa and of the exponent.\<close>

lemma mant_loop_const:
  assumes g: "good_const sp ip fp ex" and t: "t = c # s" "\<not> isdigit c" "c \<noteq> 46"
  obtains m where "mval m = dig_val 0 (const_digits ip fp)"
    "mant_loop (ip @ (case fp of None \<Rightarrow> [] | Some ds \<Rightarrow> 46 # ds) @ t) False False 0 \<lparr>flt_h_32 = 0, flt_l_32 = 0\<rparr>
      = Some (c, s, True, - (case fp of None \<Rightarrow> 0 | Some ds \<Rightarrow> int (length ds)), m)"
proof -
  define fd where "fd = (case fp of None \<Rightarrow> [] | Some ds \<Rightarrow> ds)"
  have cd: "const_digits ip fp = ip @ fd" by (simp add: const_digits_def fd_def)
  have g': "\<forall>c\<in>set (ip @ fd). isdigit c" "ip @ fd \<noteq> []" "dig_val 0 (ip @ fd) < 2 ^ 64" "length (ip @ fd) < 2 ^ 30"
    using g by (auto simp: good_const_def cd list_all_iff)
  have "dig_val 0 ip \<le> dig_val 0 (ip @ fd)" using dig_val_mono [of "dig_val 0 ip" fd] dig_val_mono [of 0 ip] g'(1) by simp
  then have ip: "\<forall>c\<in>set ip. isdigit c" "dig_val (mval \<lparr>flt_h_32 = 0, flt_l_32 = 0\<rparr>) ip < 2 ^ 64" "- (2 ^ 31) \<le> 0 - int (length ip)" "0 \<le> (0 :: int)"
    using g' by auto
  let ?fx = "case fp of None \<Rightarrow> [] | Some ds \<Rightarrow> 46 # ds"
  obtain n where n: "mval n = dig_val 0 ip"
    "mant_loop (ip @ ?fx @ t) False False 0 \<lparr>flt_h_32 = 0, flt_l_32 = 0\<rparr> = mant_loop (?fx @ t) False (ip \<noteq> []) 0 n"
    using mant_loop_digits [OF ip, of "?fx @ t" False False] by auto
  show ?thesis
  proof (cases fp)
    case None
    then show ?thesis using that [of n] n g'(2) t cd by (simp add: fd_def)
  next
    case (Some ds)
    then have ds: "\<forall>c\<in>set ds. isdigit c" "dig_val (mval n) ds < 2 ^ 64" "- (2 ^ 31) \<le> 0 - int (length ds)" "0 \<le> (0 :: int)"
      using g' n(1) by (auto simp: fd_def)
    obtain m where m: "mval m = dig_val (mval n) ds"
      "mant_loop (ds @ t) True (ip \<noteq> []) 0 n = mant_loop t True (ip \<noteq> [] \<or> ds \<noteq> []) (- int (length ds)) m"
      using mant_loop_digits [OF ds, of t True "ip \<noteq> []"] by auto
    have "mant_loop (46 # ds @ t) False (ip \<noteq> []) 0 n = mant_loop (ds @ t) True (ip \<noteq> []) 0 n" by (simp add: special)
    then show ?thesis using that [of m] n m Some g'(2) t cd by (simp add: fd_def)
  qed
qed

lemma exp_part_const:
  assumes g: "good_const sp ip fp ex" and x: "- (2 ^ 30) < x" "x \<le> 0"
    and t: "(case ex of None \<Rightarrow> [0] | Some (s, xs) \<Rightarrow> 101 # sign_text s @ xs @ [0]) = c # s"
  shows "exp_part c s x = Some (x + exp_value ex)" "\<not> isdigit c" "c \<noteq> 46"
proof -
  show "\<not> isdigit c" "c \<noteq> 46" using t special by (auto split: option.splits prod.splits)
  show "exp_part c s x = Some (x + exp_value ex)"
  proof (cases ex)
    case None
    then show ?thesis using t by (simp add: exp_part_def exp_value_def)
  next
    case (Some p)
    obtain sg xs where p: "p = (sg, xs)" by fastforce
    then have xs: "\<forall>c\<in>set xs. isdigit c" "dig_val 0 xs < 2 ^ 30" using g Some by (auto simp: good_const_def list_all_iff)
    have "sign_skip (sign_text sg @ xs @ [0]) = Some (sg = Some True, xs @ [0])"
      using xs(1) not_special by (intro sign_skip_ok) (auto simp: hd_append)
    moreover have "exp_loop 0 (xs @ [0]) = Some (dig_val 0 xs)" using xs by (intro exp_loop_digits) auto
    moreover have "0 \<le> dig_val 0 xs" using dig_val_mono [of 0 xs] xs(1) by simp
    then have "c_int (x + c_int ((if neg then - 1 else 1) * dig_val 0 xs)) = x + (if neg then - 1 else 1) * dig_val 0 xs" for neg
      using xs(2) x by (auto simp: c_int_id)
    moreover have "c = 101" "s = sign_text sg @ xs @ [0]" using t Some p by auto
    ultimately show ?thesis by (simp add: exp_part_def exp_value_def Some p)
  qed
qed

lemma sgn_fval: "normal e \<Longrightarrow> fval e = (if flt_sign e = 0 then 1 else - 1) * \<bar>fval e\<bar>"
  using fval_sgn [of e] sgn_mult_abs [of "fval e"] by (auto simp: normal_def mult.commute)

lemma str2flt_result:
  assumes "skip_space s = Some s1" "sign_skip s1 = Some (neg, s2)"
    "mant_loop s2 False False 0 \<lparr>flt_h_32 = 0, flt_l_32 = 0\<rparr> = Some (c, s3, True, x, m)" "exp_part c s3 x = Some x'"
  shows "flt_str2flt s = (if mval m = 0 then Some (\<lparr>flt_sign = (if neg then 1 else 0), flt_exp = 0, flt_mantissa = m\<rparr>, 0)
    else Option.bind (add_exponent (flt_nrm \<lparr>flt_sign = (if neg then 1 else 0), flt_exp = 63, flt_mantissa = m\<rparr>) x' 0)
      (\<lambda>(e, status). Some (flt_chk e status)))"
  by (simp only: flt_str2flt_def assms Option.bind.bind_lunit Let_def prod.case mval_eq_0 not_True_eq_False if_False)



text \<open>
  The test whether the next digit fits into the mantissa only looks at its upper half and lets
  some numbers through that do not: \<open>"18446744073709551616"\<close>, which is \<open>2 ^ 64\<close>, is read as zero,
  without an error.
\<close>

lemma str2flt_wraps:
  "flt_str2flt [49, 56, 52, 52, 54, 55, 52, 52, 48, 55, 51, 55, 48, 57, 53, 53, 49, 54, 49, 54, 0] = Some (zero_flt, 0)"
  by code_simp

end
