(* ===== verification/Spec2Isabelle.thy ===== *)
theory Spec2Isabelle
  imports Run Word_Machine Mon_Strings Ack_String Flt_Str
begin

text \<open>
  A verification of the EM interpreter of the Amsterdam Compiler Kit (\<open>src/util/int\<close>), and of two
  library modules that the compilers of the kit share: strings (\<open>src/modules/src/string\<close>) and
  extended floating point numbers (\<open>src/modules/src/flt_arith\<close>).

  \<^bold>\<open>The program.\<close>  EM is the stack machine the front ends of the kit compile to.  The interpreter
  loads an EM program (\<open>read.c\<close>), builds the machine (\<open>init.c\<close>), calls the entry procedure and
  runs the loop of \<open>main.c\<close>: fetch a byte at \<open>PC\<close>, dispatch on it through the generated switch
  (\<open>switch.c\<close>, \<open>switch/mkiswitch.c\<close>), execute an instruction (\<open>do_*.c\<close>), then take a pending
  signal.  Instructions work on three segments, each of bytes with shadow bytes that record what kind
  of value was stored: the text (\<open>text.c\<close>), global data with the heap (\<open>data.c\<close>) and the stack
  (\<open>stack.c\<close>).  Questionable programs get a warning (\<open>warn.c\<close>) and go on, wrong ones a trap
  (\<open>trap.c\<close>), which \<open>longjmp\<close>s to the loop after starting the program's trap handler.

  \<^bold>\<open>The model.\<close>  The interpreter keeps its state in global variables: they are the record \<open>mach\<close>.
  A C function is a value of type \<open>'a M = mach \<Rightarrow> 'a outcome\<close>: it returns (\<open>Ok\<close>), traps
  (\<open>Trap\<close>, with the state at the call of \<open>trap()\<close>), ends the process (\<open>Fatal\<close>), loops for ever
  (\<open>Diverge\<close>) or does what C leaves undefined (\<open>Undef\<close>: an access outside an array, division by
  zero, an illegal shift).  Conditions and early returns are branches of the definitions.  Values of C
  integer types are integers; the conversions \<open>slong\<close>, \<open>ulong\<close>, \<open>c_int\<close> and so on are written
  where the code wraps.  The host has 64-bit longs, signed chars and little-endian doubles.
  \<open>LOGGING\<close> and \<open>SEGCHECK\<close> are defined, so that the shadow bytes and segment checks are part of the
  model; the output of the log is not.  Loops whose end is not evident are \<open>whileM\<close>, which is
  \<open>Diverge\<close> if they do not end; the other loops are recursions on their counters.  The recursion of
  \<open>highestfd\<close> in \<open>io.c\<close> has fuel 101, enough since the descriptors it holds are distinct and at
  most 99.  Memory fresh from \<open>malloc\<close> reads zero, and the left shift of a negative long in the
  rotations wraps.  In the two modules memory reached through a pointer is a list of bytes and
  \<open>None\<close> stands for what C leaves undefined; floating point numbers are values, so that a call whose
  result is stored in one of its operands is only covered where the code has read that operand
  before (not \<open>flt_sub\<close> into its second operand, nor \<open>flt_modf\<close> into its argument), and
  \<open>flt_status\<close> is a second result.

  \<^bold>\<open>Parameters.\<close>  Memory allocation succeeds by the predicate \<open>mem_avail\<close>, system calls are answered
  by \<open>host_os\<close>, which sees all earlier requests; both are fields of the machine that nothing writes.
  Operations on doubles are a record \<open>fpu\<close>, the file system for the load file a function.

  \<^bold>\<open>Theories\<close>, with the sources they model:
  \<^item> \<open>Prelude\<close>: C integers, bytes and little-endian numbers; \<open>Machine\<close>: \<open>global.h\<close>, \<open>alloc.c\<close>, the
    monad, and \<open>keeps\<close>, its notion of invariant;
  \<^item> \<open>Warn\<close>: \<open>warn.c\<close>; \<open>Memory\<close>: \<open>mem.h\<close>, \<open>shadow.h\<close>; \<open>Invariant\<close>: the machine invariant;
    \<open>Data\<close>, \<open>Stack\<close>, \<open>Text\<close>: \<open>data.c\<close>, \<open>stack.c\<close>, \<open>text.c\<close>; \<open>Opstack\<close>: the stack as the
    list of its bytes; \<open>Sample\<close>: concrete machines; \<open>Mem_Access\<close>: checked loads and stores, and the
    stack pointer;
  \<^item> \<open>Segment\<close>, \<open>Fra_Rsb\<close>: \<open>segment.c\<close>, \<open>fra.c\<close>, \<open>rsb.c\<close>;
  \<^item> the instruction groups: \<open>Load_Store\<close>, \<open>Int_Arith\<close>, \<open>Inc_Dec\<close>, \<open>Ptr_Arith\<close>, \<open>Branch\<close>, \<open>Logic\<close>,
    \<open>Compare\<close>, \<open>Arrays\<close>, \<open>Sets\<close>, \<open>Convert\<close>, \<open>Floats\<close>, \<open>Proc\<close>, \<open>Misc\<close>: the files \<open>do_*.c\<close>;
    \<open>Calls\<close> and \<open>Returns\<close>: how calls and returns fit together;
  \<^item> \<open>Traps\<close>: \<open>trap.c\<close>; \<open>Signals\<close>: \<open>m_sigtrp.c\<close>, \<open>io.c\<close>; \<open>Monitor\<close>: \<open>moncalls.c\<close>,
    \<open>monstruct.c\<close>, \<open>m_ioctl.c\<close>; \<open>Mon_Strings\<close>: the strings that monitor calls take;
  \<^item> \<open>Opcodes\<close>: the table \<open>ip_spec.t\<close> and \<open>mkiswitch.c\<close>; \<open>Switch\<close>: \<open>switch.c\<close>;
  \<^item> \<open>Proctab\<close>, \<open>Loader\<close>, \<open>Init\<close>: \<open>proctab.c\<close>, \<open>read.c\<close>, \<open>init.c\<close> and the first half of
    \<open>main()\<close>; \<open>Interp\<close>: the loop of \<open>main()\<close> and its step relation \<open>em_step\<close>; \<open>Run\<close>: the
    states it reaches;
  \<^item> \<open>Word_Machine\<close>: an abstract machine with a stack of integers, which sequences of constants and
    arithmetic instructions refine;
  \<^item> \<open>Ack_String\<close>: the string module; \<open>Flt_Arith\<close>, \<open>Flt_Add\<close>, \<open>Flt_Mul\<close>, \<open>Flt_Div\<close>, \<open>Flt_Str\<close>: the
    floating point module, its data and the operations but multiplication and division, the
    properties of addition, comparison and the conversions to integers, multiplication, division, and
    decimal strings.

  \<^bold>\<open>What is shown.\<close>  The invariant \<open>minv\<close> (word and pointer sizes, the arrays as long as the
  registers say, registers in range) is established by the startup and kept by every instruction,
  monitor call, trap and signal, hence holds in every reachable state.  On top of it, instructions are
  specified on the abstract operand stack, the list of bytes above \<open>SP\<close>: \<open>runs\<close> and \<open>raises\<close> say
  what a routine returns or which trap it raises, how it changes that list, and that nothing else
  changes but warnings.  The interfaces are locales: byte segments (stack and data), operands read as
  signed or unsigned numbers, shadowed segments.  Sequences of arithmetic instructions refine a
  machine with a stack of integers.  Calls, returns and traps are specified on the frames
  they build; the generated switch is shown to be the one the opcode table asks for, and decoding to
  run the routine of a line of the table on the operand encoded in the text; the loader's
  procedure table, the frame list and the thinning of warnings are compared with plain descriptions.
  The operations of the floating point module are compared with those on real numbers: how far a result
  may be off, and when overflow and underflow are reported.  The string module's conversions are shown to
  be inverse to each other.

  \<^bold>\<open>Not modelled.\<close>  The disassembler (\<open>disassemble.c\<close>, \<open>switch/mkswitch.c\<close>) and the log, dump, core
  and tally files, which only write output; the texts of messages.  The other programs of the kit
  (compilers, code generators, assemblers, optimizers) are separate from the interpreter.
\<close>

end
